(* ===== verification/Prelude.thy ===== *)
theory Prelude
  imports Main "HOL-Library.Word"
begin

text \<open>
  Shared material of the Datashil development: the fixed-width conversions of C++
  (\<open>uint16_t\<close>, \<open>uint32_t\<close>, \<open>int16_t\<close>), the collections of rewrite rules the
  component theories fill, and generic facts on lists, index ranges and words.
\<close>

named_theorems mem_simps "reading back after a write to memory"
named_theorems layout_defs "byte offsets of the packed structs"

section \<open>Fixed-width conversions\<close>

text \<open>
  The C++ code computes on \<open>uint16_t\<close> fields after integer promotion, that is in
  \<open>int\<close>, and converts back when it stores. Such an expression is modelled in
  \<^typ>\<open>int\<close> and the conversion is written out.
\<close>

definition u16 :: "int \<Rightarrow> nat" where
  "u16 i = nat (i mod 65536)"

definition u32 :: "int \<Rightarrow> nat" where
  "u32 i = nat (i mod 4294967296)"

definition s16 :: "int \<Rightarrow> int" where
  "s16 i = (i + 32768) mod 65536 - 32768"

lemma u16_small [simp]: "0 \<le> i \<Longrightarrow> i < 65536 \<Longrightarrow> u16 i = nat i"
  by (simp add: u16_def)

lemma u16_of_nat [simp]: "n < 65536 \<Longrightarrow> u16 (int n) = n"
  by (simp add: u16_def)

lemma u16_less [simp]: "u16 i < 65536"
proof -
  have "i mod 65536 < 65536" by simp
  then show ?thesis by (simp add: u16_def nat_less_iff)
qed

lemma u32_small [simp]: "0 \<le> i \<Longrightarrow> i < 4294967296 \<Longrightarrow> u32 i = nat i"
  by (simp add: u32_def)

lemma s16_small [simp]: "0 \<le> i \<Longrightarrow> i < 32768 \<Longrightarrow> s16 i = i"
  by (simp add: s16_def)

section \<open>Words of 64 bits as naturals\<close>

lemma unat_64_less [simp]: "unat (w :: 64 word) < 18446744073709551616"
  using unsigned_less [of w] by simp

lemma unat_64_mod [simp]: "unat (w :: 64 word) mod 18446744073709551616 = unat w"
  by simp

lemma unat_8_less [simp]: "unat (w :: 8 word) < 256"
  using unsigned_less [of w] by simp

section \<open>Lists\<close>

lemma map_upt_cong: "(\<And>i. a \<le> i \<Longrightarrow> i < b \<Longrightarrow> f i = g i) \<Longrightarrow> map f [a..<b] = map g [a..<b]"
  by simp

lemma map_upt_shift: "map f [a..<a + n] = map (\<lambda>i. f (a + i)) [0..<n]"
  by (induction n) auto

lemma filter_split_nth:
  "j < length xs \<Longrightarrow> P (xs ! j) \<Longrightarrow>
    filter P xs = filter P (take j xs) @ xs ! j # filter P (drop (Suc j) xs)"
  by (subst id_take_nth_drop [of j xs]) simp_all

lemma sorted_filter_nth:
  assumes s: "sorted (map f (filter P xs))" and ij: "i < j" "j < length xs"
    and P: "P (xs ! i)" "P (xs ! j)"
  shows "f (xs ! i) \<le> f (xs ! j)"
proof -
  have "xs ! i \<in> set (filter P (take j xs))"
    using ij P(1) by (auto simp: in_set_conv_nth intro!: exI [of _ i])
  with s show ?thesis
    unfolding filter_split_nth [of j xs P, OF ij(2) P(2)] by (simp add: sorted_append)
qed

lemma filter_take_drop: "filter P xs = filter P (take k xs) @ filter P (drop k xs)"
  by (metis append_take_drop_id filter_append)

text \<open>The first element with a property, found or removed.\<close>

fun delete_first :: "('a \<Rightarrow> bool) \<Rightarrow> 'a list \<Rightarrow> 'a list" where
  "delete_first P [] = []"
| "delete_first P (x # xs) = (if P x then xs else x # delete_first P xs)"

lemma delete_first_append:
  "\<forall>x \<in> set xs. \<not> P x \<Longrightarrow> P y \<Longrightarrow> delete_first P (xs @ y # ys) = xs @ ys"
  by (induction xs) auto

lemma delete_first_none: "\<forall>x \<in> set xs. \<not> P x \<Longrightarrow> delete_first P xs = xs"
  by (induction xs) auto

lemma find_append_first: "\<forall>x \<in> set xs. \<not> P x \<Longrightarrow> P y \<Longrightarrow> find P (xs @ y # ys) = Some y"
  by (induction xs) auto

lemma find_none: "\<forall>x \<in> set xs. \<not> P x \<Longrightarrow> find P xs = None"
  by (induction xs) auto

lemma map_upt_update:
  "k < n \<Longrightarrow> g k = y \<Longrightarrow> (\<And>i. i < n \<Longrightarrow> i \<noteq> k \<Longrightarrow> g i = f i) \<Longrightarrow>
    map g [0..<n] = (map f [0..<n])[k := y]"
  by (rule nth_equalityI) (auto simp: nth_list_update)

lemma map_upt_insert:
  assumes k: "k \<le> n" and y: "g k = y" and lo: "\<And>i. i < k \<Longrightarrow> g i = f i"
    and hi: "\<And>i. k \<le> i \<Longrightarrow> i < n \<Longrightarrow> g (Suc i) = f i"
  shows "map g [0..<Suc n] = take k (map f [0..<n]) @ y # drop k (map f [0..<n])"
proof (rule nth_equalityI)
  fix i assume "i < length (map g [0..<Suc n])"
  then have i: "i < Suc n" by simp
  consider "i < k" | "i = k" | j where "i = Suc j" "k \<le> j" "j < n"
  proof (cases "i \<le> k")
    case False
    then have "i = Suc (i - 1)" "k \<le> i - 1" "i - 1 < n" using i by simp_all
    then show ?thesis by (rule that(3))
  qed (use that in \<open>auto simp: le_less\<close>)
  then show "map g [0..<Suc n] ! i = (take k (map f [0..<n]) @ y # drop k (map f [0..<n])) ! i"
    by cases (use k y lo hi in \<open>simp_all add: nth_append nth_Cons Suc_diff_le del: upt_Suc\<close>)
qed (use k in simp)

end
