(* ===== verification/Memory.thy ===== *)
theory Memory
  imports Prelude
begin

text \<open>
  Byte memory as the C++ code sees it through a pointer: a function from offsets to bytes.
  \<open>memcpy\<close> and \<open>memmove\<close> copy a run of bytes, and reading or writing a field of a packed
  struct is a little-endian load or store of 1, 2, 4 or 8 bytes (the code is built for
  little-endian x86-64 Linux). A page is such a memory with the page pointer at offset 0,
  so a write that leaves the page is visible as a change at an offset of 4096 or more.
\<close>

type_synonym byte = "8 word"
type_synonym mem = "nat \<Rightarrow> byte"

section \<open>Copying\<close>

definition memcpy :: "mem \<Rightarrow> nat \<Rightarrow> mem \<Rightarrow> nat \<Rightarrow> nat \<Rightarrow> mem" where
  "memcpy dst d src s n i = (if d \<le> i \<and> i < d + n then src (s + (i - d)) else dst i)"

text \<open>\<open>memmove\<close> copies inside one memory, as if through a temporary buffer.\<close>

definition memmove :: "mem \<Rightarrow> nat \<Rightarrow> nat \<Rightarrow> nat \<Rightarrow> mem" where
  "memmove m d s n = memcpy m d m s n"

text \<open>The memory as seen through the pointer \<open>m + a\<close>.\<close>

definition ptr :: "mem \<Rightarrow> nat \<Rightarrow> mem" where
  "ptr m a i = m (a + i)"

definition bytes :: "mem \<Rightarrow> nat \<Rightarrow> nat \<Rightarrow> byte list" where
  "bytes m a n = map m [a..<a + n]"

definition of_bytes :: "byte list \<Rightarrow> mem" where
  "of_bytes bs i = (if i < length bs then bs ! i else 0)"

lemma length_bytes [simp]: "length (bytes m a n) = n"
  by (simp add: bytes_def)

lemma nth_bytes [simp]: "i < n \<Longrightarrow> bytes m a n ! i = m (a + i)"
  by (simp add: bytes_def)

lemma bytes_cong: "(\<And>i. i < n \<Longrightarrow> m (a + i) = m' (b + i)) \<Longrightarrow> bytes m a n = bytes m' b n"
  by (rule nth_equalityI) auto

lemma bytes_of_bytes [simp]: "bytes (of_bytes bs) 0 (length bs) = bs"
  by (rule nth_equalityI) (auto simp: of_bytes_def)

lemma bytes_append: "bytes m a (n + k) = bytes m a n @ bytes m (a + n) k"
  by (rule nth_equalityI) (auto simp: nth_append)

lemma take_bytes: "k \<le> n \<Longrightarrow> take k (bytes m a n) = bytes m a k"
  by (rule nth_equalityI) auto

lemma drop_bytes: "k \<le> n \<Longrightarrow> drop k (bytes m a n) = bytes m (a + k) (n - k)"
  by (rule nth_equalityI) (auto simp: add.assoc)

section \<open>Little-endian loads and stores\<close>

fun load_le :: "mem \<Rightarrow> nat \<Rightarrow> nat \<Rightarrow> nat" where
  "load_le m a 0 = 0"
| "load_le m a (Suc n) = unat (m a) + 256 * load_le m (Suc a) n"

definition store_le :: "mem \<Rightarrow> nat \<Rightarrow> nat \<Rightarrow> nat \<Rightarrow> mem" where
  "store_le m a n v i = (if a \<le> i \<and> i < a + n then word_of_nat (v div 256 ^ (i - a)) else m i)"

abbreviation load_u8 :: "mem \<Rightarrow> nat \<Rightarrow> nat" where "load_u8 m a \<equiv> load_le m a 1"
abbreviation load_u16 :: "mem \<Rightarrow> nat \<Rightarrow> nat" where "load_u16 m a \<equiv> load_le m a 2"
abbreviation load_u32 :: "mem \<Rightarrow> nat \<Rightarrow> nat" where "load_u32 m a \<equiv> load_le m a 4"
abbreviation load_u64 :: "mem \<Rightarrow> nat \<Rightarrow> 64 word" where "load_u64 m a \<equiv> word_of_nat (load_le m a 8)"
abbreviation store_u8 :: "mem \<Rightarrow> nat \<Rightarrow> nat \<Rightarrow> mem" where "store_u8 m a v \<equiv> store_le m a 1 v"
abbreviation store_u16 :: "mem \<Rightarrow> nat \<Rightarrow> nat \<Rightarrow> mem" where "store_u16 m a v \<equiv> store_le m a 2 v"
abbreviation store_u32 :: "mem \<Rightarrow> nat \<Rightarrow> nat \<Rightarrow> mem" where "store_u32 m a v \<equiv> store_le m a 4 v"
abbreviation store_u64 :: "mem \<Rightarrow> nat \<Rightarrow> 64 word \<Rightarrow> mem" where
  "store_u64 m a w \<equiv> store_le m a 8 (unat w)"

lemma load_le_cong:
  "(\<And>i. i < n \<Longrightarrow> m (a + i) = m' (b + i)) \<Longrightarrow> load_le m a n = load_le m' b n"
proof (induction n arbitrary: a b)
  case 0
  then show ?case by simp
next
  case (Suc n)
  have "m a = m' b" using Suc.prems [of 0] by simp
  moreover have "load_le m (Suc a) n = load_le m' (Suc b) n"
  proof (rule Suc.IH)
    fix i assume "i < n"
    then show "m (Suc a + i) = m' (Suc b + i)" using Suc.prems [of "Suc i"] by simp
  qed
  ultimately show ?case by simp
qed

lemma load_le_less: "load_le m a n < 256 ^ n"
proof (induction n arbitrary: a)
  case 0
  then show ?case by simp
next
  case (Suc n)
  have "load_le m (Suc a) n \<le> 256 ^ n - 1" using Suc.IH [of "Suc a"] by linarith
  moreover have "unat (m a) < 256" by simp
  ultimately have "unat (m a) + 256 * load_le m (Suc a) n < 256 + 256 * (256 ^ n - 1)"
    by (intro add_less_le_mono mult_le_mono2)
  also have "\<dots> = 256 ^ Suc n" by (simp add: diff_mult_distrib2)
  finally show ?case by simp
qed

lemma load_u8_less [simp]: "load_le m a (Suc 0) < 256"
  using load_le_less [of m a 1] by simp

declare load_le.simps [simp del]

lemma load_u16_less [simp]: "load_le m a 2 < 65536"
  using load_le_less [of m a 2] by simp

lemma load_u32_less [simp]: "load_le m a 4 < 4294967296"
  using load_le_less [of m a 4] by simp

lemma load_u64_less [simp]: "load_le m a 8 < 18446744073709551616"
  using load_le_less [of m a 8] by simp

lemma load_u8_byte: "load_le m a (Suc 0) = unat (m a)"
  by (simp add: load_le.simps)

lemma load_le_digits:
  "(\<And>i. i < n \<Longrightarrow> m (a + i) = word_of_nat (v div 256 ^ i)) \<Longrightarrow> load_le m a n = v mod 256 ^ n"
proof (induction n arbitrary: a v)
  case 0
  then show ?case by (simp add: load_le.simps)
next
  case (Suc n)
  have hd: "unat (m a) = v mod 256"
    using Suc.prems [of 0] by (simp add: unat_of_nat)
  have "load_le m (Suc a) n = (v div 256) mod 256 ^ n"
  proof (rule Suc.IH)
    fix i assume "i < n"
    then have "m (a + Suc i) = word_of_nat (v div 256 ^ Suc i)" by (intro Suc.prems) simp
    then show "m (Suc a + i) = word_of_nat (v div 256 div 256 ^ i)"
      by (simp add: div_mult2_eq)
  qed
  with hd show ?case by (simp add: load_le.simps mod_mult2_eq)
qed

lemma load_store_same_mod: "load_le (store_le m a n v) a n = v mod 256 ^ n"
  by (rule load_le_digits) (simp add: store_le_def)

lemma load_store_same [mem_simps, simp]: "v < 256 ^ n \<Longrightarrow> load_le (store_le m a n v) a n = v"
  by (simp add: load_store_same_mod)

lemma load_store_other [mem_simps]:
  "b + k \<le> a \<or> a + n \<le> b \<Longrightarrow> load_le (store_le m a n v) b k = load_le m b k"
  by (rule load_le_cong) (auto simp: store_le_def)

lemma load_memcpy_other [mem_simps]:
  "b + k \<le> d \<or> d + n \<le> b \<Longrightarrow> load_le (memcpy m d src s n) b k = load_le m b k"
  by (rule load_le_cong) (auto simp: memcpy_def)

lemma load_memcpy_inside:
  "d \<le> b \<Longrightarrow> b + k \<le> d + n \<Longrightarrow>
    load_le (memcpy m d src s n) b k = load_le src (s + (b - d)) k"
  by (rule load_le_cong) (auto simp: memcpy_def add.assoc)

lemma bytes_store_other [mem_simps]:
  "b + k \<le> a \<or> a + n \<le> b \<Longrightarrow> bytes (store_le m a n v) b k = bytes m b k"
  by (rule bytes_cong) (auto simp: store_le_def)

lemma bytes_memcpy_other [mem_simps]:
  "b + k \<le> d \<or> d + n \<le> b \<Longrightarrow> bytes (memcpy m d src s n) b k = bytes m b k"
  by (rule bytes_cong) (auto simp: memcpy_def)

lemma bytes_memcpy_same [mem_simps]: "bytes (memcpy m d src s n) d n = bytes src s n"
  by (rule bytes_cong) (auto simp: memcpy_def)

lemma bytes_ptr [mem_simps, simp]: "bytes (ptr m a) b n = bytes m (a + b) n"
  by (rule bytes_cong) (simp add: ptr_def add.assoc)

lemma load_ptr [mem_simps, simp]: "load_le (ptr m a) b n = load_le m (a + b) n"
  by (rule load_le_cong) (simp add: ptr_def add.assoc)

lemma store_le_outside: "i < a \<or> a + n \<le> i \<Longrightarrow> store_le m a n v i = m i"
  by (auto simp: store_le_def)

lemma memcpy_outside: "i < d \<or> d + n \<le> i \<Longrightarrow> memcpy m d src s n i = m i"
  by (auto simp: memcpy_def)

end
