(* ===== verification/Commons.thy ===== *)
theory Commons
  imports Memory
begin

text \<open>
  The shared types and constants of \<open>commons/types.h\<close> and \<open>commons/constants.h\<close>: the
  enumerations with their stored codes, the result and report structs, and the sizes of
  pages and of the pool.
\<close>

section \<open>Integer types\<close>

type_synonym PageID = "64 word"
type_synonym Key = "64 word"

section \<open>Constants\<close>

definition POOL_SIZE :: nat where "POOL_SIZE = 1000"
definition PAGE_SIZE :: nat where "PAGE_SIZE = 4096"
definition STORAGE_MANAGER_META_PAGE_ID :: PageID where "STORAGE_MANAGER_META_PAGE_ID = 0"
definition DATABASE_META_PAGE_ID :: PageID where "DATABASE_META_PAGE_ID = 1"
definition STORAGE_MANAGER_MAGIC_NUMBER :: nat where "STORAGE_MANAGER_MAGIC_NUMBER = 0x34ABE72C"
definition DATABASE_MAGIC_NUMBER :: nat where "DATABASE_MAGIC_NUMBER = 0x67AD7CB3"
definition NETWORK_MAGIC_NUMBER :: nat where "NETWORK_MAGIC_NUMBER = 0x8DED1CB2"
definition MAGIC_NUMBER_SIZE :: nat where "MAGIC_NUMBER_SIZE = 4"

lemmas magic_defs = STORAGE_MANAGER_MAGIC_NUMBER_def DATABASE_MAGIC_NUMBER_def
  NETWORK_MAGIC_NUMBER_def MAGIC_NUMBER_SIZE_def

section \<open>Enumerations\<close>

text \<open>\<open>enum class PageType : uint8_t\<close>, with the byte each value is stored as.\<close>

datatype PageType = MetaPage | InternalPage | LeafPage | OverflowPage | InvalidPage

primrec PageType_code :: "PageType \<Rightarrow> nat" where
  "PageType_code MetaPage = 1"
| "PageType_code InternalPage = 2"
| "PageType_code LeafPage = 3"
| "PageType_code OverflowPage = 4"
| "PageType_code InvalidPage = 5"

text \<open>\<open>enum class Command : uint8_t\<close>.\<close>

datatype Command = Command_Invalid | Command_Search | Command_Insert | Command_Delete | Command_Quit

primrec Command_code :: "Command \<Rightarrow> nat" where
  "Command_code Command_Invalid = 0"
| "Command_code Command_Search = 1"
| "Command_code Command_Insert = 2"
| "Command_code Command_Delete = 3"
| "Command_code Command_Quit = 4"

text \<open>\<open>enum ErrType\<close>; the enumerator \<open>None\<close> is \<open>ErrNone\<close> here.\<close>

datatype ErrType =
    ErrNone | DefaultErr | SystemErr | FileCorruption | DiskFullOrTruncated | BufferPoolFull
  | AllPagesPinned | PageNotFoundInBufferPool | ChildPtrNotFound
  | RightInternalSiblingDoesNotExist | LeftInternalSiblingDoesNotExist
  | RightLeafSiblingDoesNotExist | LeftLeafSiblingDoesNotExist | OperationNotAllowed

section \<open>Reports\<close>

text \<open>\<open>Result<T>\<close>: a value together with an error code.\<close>

record 'a Result =
  res_value :: 'a
  res_err :: ErrType

definition mk_result :: "'a \<Rightarrow> ErrType \<Rightarrow> 'a Result" where
  "mk_result v e = \<lparr>res_value = v, res_err = e\<rparr>"

lemma mk_result_simps [simp]:
  "res_value (mk_result v e) = v" "res_err (mk_result v e) = e"
  by (simp_all add: mk_result_def)

record SplitReport =
  was_split :: bool
  new_page_id :: PageID
  boundary_key :: Key

record WriteStatus =
  written :: nat
  overflow_info_store_address :: "nat option"

record DeleteStatus =
  underflown :: bool
  ds_page_type :: PageType
  current_size :: nat
  success :: bool

record BorrowQuery =
  can_borrow :: bool
  borrow_amount :: nat

text \<open>The error numbers of the system calls; the named ones are those the code looks at.\<close>

datatype errno = EINTR | EPIPE | ECONNRESET | Errno nat

end
