(* ===== verification/Leaf_Layout.thy ===== *)
theory Leaf_Layout
  imports Commons
begin

text \<open>
  The layout of a leaf page (\<open>database/src/include/page/leaf_page.h\<close>): constants, the packed
  structs, the slot directory, and the view of a page the proofs use: its slots, its live
  tuples in slot order, and the well-formedness invariant \<open>leaf_wf\<close> every operation keeps.
\<close>

section \<open>Constants\<close>

definition LEAF_PAGE_HEADER_SIZE :: nat where "LEAF_PAGE_HEADER_SIZE = 31"
definition SLOT_SIZE :: nat where "SLOT_SIZE = 5"
definition OVERFLOW_PAGE_HEADER_SIZE :: nat where "OVERFLOW_PAGE_HEADER_SIZE = 18"
definition OVERFLOW_PAGE_OVERFLOW_INFO_OFFSET :: nat where "OVERFLOW_PAGE_OVERFLOW_INFO_OFFSET = 9"
definition TUPLE_HEADER_SIZE :: nat where "TUPLE_HEADER_SIZE = 13"
definition MIN_LEAF_PAGE_DATA :: nat where "MIN_LEAF_PAGE_DATA = 128"
definition LEAF_UNDERFLOW_THRESHOLD :: nat where
  "LEAF_UNDERFLOW_THRESHOLD = 2 * (PAGE_SIZE - LEAF_PAGE_HEADER_SIZE) div 5"
definition MAX_LEAF_PAGE_DATA :: nat where
  "MAX_LEAF_PAGE_DATA = LEAF_UNDERFLOW_THRESHOLD div 2"

lemma leaf_constants [simp]:
  "PAGE_SIZE = 4096" "LEAF_PAGE_HEADER_SIZE = 31" "SLOT_SIZE = 5"
  "OVERFLOW_PAGE_HEADER_SIZE = 18" "OVERFLOW_PAGE_OVERFLOW_INFO_OFFSET = 9"
  "TUPLE_HEADER_SIZE = 13" "MIN_LEAF_PAGE_DATA = 128"
  "LEAF_UNDERFLOW_THRESHOLD = 1626" "MAX_LEAF_PAGE_DATA = 813"
  by (simp_all add: PAGE_SIZE_def LEAF_PAGE_HEADER_SIZE_def SLOT_SIZE_def
      OVERFLOW_PAGE_HEADER_SIZE_def OVERFLOW_PAGE_OVERFLOW_INFO_OFFSET_def TUPLE_HEADER_SIZE_def
      MIN_LEAF_PAGE_DATA_def LEAF_UNDERFLOW_THRESHOLD_def MAX_LEAF_PAGE_DATA_def)

section \<open>The page header\<close>

text \<open>
  \<open>struct LeafPageHeader\<close>, packed: \<open>page_type\<close> at offset 0, \<open>page_id\<close> at 1,
  \<open>free_space_end_offset\<close> at 9, \<open>slot_array_size\<close> at 11, \<open>garbage_bytes\<close> at 13,
  \<open>left_pid\<close> at 15, \<open>right_pid\<close> at 23.
\<close>

abbreviation page_type :: "mem \<Rightarrow> nat" where "page_type p \<equiv> load_u8 p 0"
abbreviation page_id :: "mem \<Rightarrow> PageID" where "page_id p \<equiv> load_u64 p 1"
abbreviation free_space_end_offset :: "mem \<Rightarrow> nat" where "free_space_end_offset p \<equiv> load_u16 p 9"
abbreviation slot_array_size :: "mem \<Rightarrow> nat" where "slot_array_size p \<equiv> load_u16 p 11"
abbreviation garbage_bytes :: "mem \<Rightarrow> nat" where "garbage_bytes p \<equiv> load_u16 p 13"
abbreviation left_pid :: "mem \<Rightarrow> PageID" where "left_pid p \<equiv> load_u64 p 15"
abbreviation right_pid :: "mem \<Rightarrow> PageID" where "right_pid p \<equiv> load_u64 p 23"

abbreviation set_page_type :: "mem \<Rightarrow> PageType \<Rightarrow> mem" where
  "set_page_type p t \<equiv> store_u8 p 0 (PageType_code t)"
abbreviation set_page_id :: "mem \<Rightarrow> PageID \<Rightarrow> mem" where "set_page_id p v \<equiv> store_u64 p 1 v"
abbreviation set_free_space_end_offset :: "mem \<Rightarrow> nat \<Rightarrow> mem" where
  "set_free_space_end_offset p v \<equiv> store_u16 p 9 v"
abbreviation set_slot_array_size :: "mem \<Rightarrow> nat \<Rightarrow> mem" where
  "set_slot_array_size p v \<equiv> store_u16 p 11 v"
abbreviation set_garbage_bytes :: "mem \<Rightarrow> nat \<Rightarrow> mem" where
  "set_garbage_bytes p v \<equiv> store_u16 p 13 v"
abbreviation set_left_pid :: "mem \<Rightarrow> PageID \<Rightarrow> mem" where "set_left_pid p v \<equiv> store_u64 p 15 v"
abbreviation set_right_pid :: "mem \<Rightarrow> PageID \<Rightarrow> mem" where "set_right_pid p v \<equiv> store_u64 p 23 v"

section \<open>The slot directory\<close>

record SlotArrayElement =
  is_deleted :: bool
  offset :: nat
  len :: nat

definition slot_addr :: "nat \<Rightarrow> nat" where
  "slot_addr i = LEAF_PAGE_HEADER_SIZE + SLOT_SIZE * i"

definition slot_at :: "mem \<Rightarrow> nat \<Rightarrow> SlotArrayElement" where
  "slot_at p i = \<lparr>is_deleted = (load_u8 p (slot_addr i) > 0),
     offset = load_u16 p (slot_addr i + 1), len = load_u16 p (slot_addr i + 3)\<rparr>"

definition set_slot :: "mem \<Rightarrow> nat \<Rightarrow> nat \<Rightarrow> nat \<Rightarrow> mem" where
  "set_slot p i off n =
    store_u8 (store_u16 (store_u16 p (slot_addr i + 1) off) (slot_addr i + 3) n) (slot_addr i) 0"

lemma slot_addr_simp [simp]: "slot_addr i = 31 + 5 * i"
  by (simp add: slot_addr_def)

section \<open>Keys and tuples\<close>

text \<open>
  A tuple is a \<open>TupleHeader\<close> (\<open>overflow\<close> at 0, \<open>overflow_page\<close> at 1, \<open>size\<close> at 9) followed by
  the bytes of the payload kept in the page, whose first eight are the key.
\<close>

definition GetKeyFromSlotElement :: "mem \<Rightarrow> nat \<Rightarrow> Key" where
  "GetKeyFromSlotElement p i = load_u64 p (offset (slot_at p i) + TUPLE_HEADER_SIZE)"

definition GetTupleSizeFromSlotElement :: "mem \<Rightarrow> nat \<Rightarrow> nat" where
  "GetTupleSizeFromSlotElement p i = load_u32 p (offset (slot_at p i) + 9)"

definition tuple_of :: "mem \<Rightarrow> SlotArrayElement \<Rightarrow> byte list" where
  "tuple_of p s = bytes p (offset s) (len s)"

definition tuple_key :: "byte list \<Rightarrow> Key" where
  "tuple_key t = load_u64 (of_bytes t) 13"

definition tuple_overflow :: "byte list \<Rightarrow> bool" where
  "tuple_overflow t \<longleftrightarrow> load_u8 (of_bytes t) 0 > 0"

definition tuple_overflow_page :: "byte list \<Rightarrow> PageID" where
  "tuple_overflow_page t = load_u64 (of_bytes t) 1"

definition tuple_size :: "byte list \<Rightarrow> nat" where
  "tuple_size t = load_u32 (of_bytes t) 9"

definition tuple_payload :: "byte list \<Rightarrow> byte list" where
  "tuple_payload t = drop 13 t"

lemma load_tuple_of:
  "a + k \<le> len s \<Longrightarrow> load_le (of_bytes (tuple_of p s)) a k = load_le p (offset s + a) k"
  by (rule load_le_cong) (simp add: tuple_of_def of_bytes_def add.assoc)

lemma tuple_key_of: "21 \<le> len s \<Longrightarrow> tuple_key (tuple_of p s) = load_u64 p (offset s + 13)"
  by (simp add: tuple_key_def load_tuple_of)

lemma tuple_of_cong:
  "(\<And>i. offset s \<le> i \<Longrightarrow> i < offset s + len s \<Longrightarrow> p i = q i) \<Longrightarrow> tuple_of p s = tuple_of q s"
  unfolding tuple_of_def by (rule bytes_cong) simp

section \<open>The view of a page\<close>

definition slots :: "mem \<Rightarrow> SlotArrayElement list" where
  "slots p = map (slot_at p) [0..<slot_array_size p]"

definition live :: "SlotArrayElement list \<Rightarrow> SlotArrayElement list" where
  "live ss = filter (\<lambda>s. \<not> is_deleted s) ss"

definition lens :: "SlotArrayElement list \<Rightarrow> nat" where
  "lens ss = sum_list (map len ss)"

definition tuples :: "mem \<Rightarrow> byte list list" where
  "tuples p = map (tuple_of p) (live (slots p))"

definition disjoint_slots :: "SlotArrayElement \<Rightarrow> SlotArrayElement \<Rightarrow> bool" where
  "disjoint_slots s t \<longleftrightarrow> offset s + len s \<le> offset t \<or> offset t + len t \<le> offset s"

text \<open>
  The invariant. The slot directory ends below the tuple area, which starts after
  \<open>free_space_end_offset\<close>; every slot records a length between the smallest tuple (header
  and key) and the largest one; the live tuples lie in the tuple area, do not overlap, and
  are sorted by key in slot order; \<open>garbage_bytes\<close> counts exactly the bytes of the tuple area
  that no live tuple uses, and the slots, deleted ones included, never record more bytes than
  the area has.
\<close>

definition leaf_wf :: "mem \<Rightarrow> bool" where
  "leaf_wf p \<longleftrightarrow>
     page_type p = PageType_code LeafPage \<and>
     31 + 5 * slot_array_size p \<le> free_space_end_offset p + 1 \<and>
     free_space_end_offset p \<le> 4095 \<and>
     (\<forall>s \<in> set (slots p). 21 \<le> len s \<and> len s \<le> 808) \<and>
     (\<forall>s \<in> set (live (slots p)). free_space_end_offset p < offset s \<and> offset s + len s \<le> 4096) \<and>
     sorted_wrt disjoint_slots (live (slots p)) \<and>
     sorted (map tuple_key (tuples p)) \<and>
     lens (live (slots p)) + garbage_bytes p = 4095 - free_space_end_offset p \<and>
     lens (slots p) \<le> 4095 - free_space_end_offset p"

text \<open>The bytes a page has in use as the code measures them: live tuples and all slots.\<close>

definition used_space :: "mem \<Rightarrow> nat" where
  "used_space p = 5 * slot_array_size p + lens (live (slots p))"

lemma length_slots [simp]: "length (slots p) = slot_array_size p"
  by (simp add: slots_def)

lemma nth_slots [simp]: "i < slot_array_size p \<Longrightarrow> slots p ! i = slot_at p i"
  by (simp add: slots_def)

lemma live_simps [simp]:
  "live [] = []" "live (s # ss) = (if is_deleted s then live ss else s # live ss)"
  "live (ss @ ts) = live ss @ live ts"
  by (simp_all add: live_def)

lemma lens_simps [simp]:
  "lens [] = 0" "lens (s # ss) = len s + lens ss" "lens (ss @ ts) = lens ss + lens ts"
  by (simp_all add: lens_def)

lemma set_live: "set (live ss) = {s \<in> set ss. \<not> is_deleted s}"
  by (auto simp: live_def)

lemma live_sub: "s \<in> set (live ss) \<Longrightarrow> s \<in> set ss"
  by (simp add: set_live)

lemma lens_live_le: "lens (live ss) \<le> lens ss"
  by (induction ss) auto

lemma lens_mono_len: "\<forall>s \<in> set ss. c \<le> len s \<Longrightarrow> c * length ss \<le> lens ss"
  by (induction ss) auto

lemma leaf_wfD:
  assumes "leaf_wf p"
  shows "page_type p = PageType_code LeafPage"
    and "31 + 5 * slot_array_size p \<le> free_space_end_offset p + 1"
    and "free_space_end_offset p \<le> 4095"
    and "s \<in> set (slots p) \<Longrightarrow> 21 \<le> len s \<and> len s \<le> 808"
    and "s \<in> set (live (slots p)) \<Longrightarrow> free_space_end_offset p < offset s \<and> offset s + len s \<le> 4096"
    and "sorted_wrt disjoint_slots (live (slots p))"
    and "sorted (map tuple_key (tuples p))"
    and "lens (live (slots p)) + garbage_bytes p = 4095 - free_space_end_offset p"
    and "lens (slots p) \<le> 4095 - free_space_end_offset p"
  using assms by (auto simp: leaf_wf_def)

text \<open>With lengths of at least 21 bytes there is room for 156 slots at most.\<close>

lemma leaf_wf_slot_bound: "leaf_wf p \<Longrightarrow> slot_array_size p \<le> 156"
proof -
  assume wf: "leaf_wf p"
  then have "21 * length (slots p) \<le> lens (slots p)"
    by (intro lens_mono_len) (auto simp: leaf_wf_def)
  moreover have "lens (slots p) \<le> 4095 - free_space_end_offset p"
    and "31 + 5 * slot_array_size p \<le> free_space_end_offset p + 1"
    using wf by (simp_all add: leaf_wf_def)
  ultimately show ?thesis by simp
qed

lemma leaf_wf_used:
  "leaf_wf p \<Longrightarrow> used_space p + garbage_bytes p +
    (free_space_end_offset p + 1 - (31 + 5 * slot_array_size p)) = 4065"
  unfolding leaf_wf_def used_space_def by linarith

end
