(* ===== verification/Leaf_Search.thy ===== *)
theory Leaf_Search
  imports Leaf_Layout
begin

text \<open>
  Lookup in a leaf page (\<open>leaf_page.cpp\<close>): the two binary searches over a slot directory with
  lazily deleted entries, the space accounting, \<open>Search\<close>, \<open>DeleteTuple\<close> and
  \<open>GetPageFirstKey\<close>. Proved: both searches end and cut the live tuples at the key; the space
  the code computes is the space the page has; \<open>Search\<close> finds the first tuple of a key, and
  \<open>DeleteTuple\<close> removes exactly that tuple, on the tuple sequence of the page.
\<close>

section \<open>Space accounting\<close>

definition CheckAvailableSpace :: "mem \<Rightarrow> nat" where
  "CheckAvailableSpace p =
    (let free_space_start = int LEAF_PAGE_HEADER_SIZE + int (slot_array_size p * SLOT_SIZE);
         free_space_end = int (free_space_end_offset p)
     in u16 (free_space_end - free_space_start + 1))"

definition CheckGarbageBytes :: "mem \<Rightarrow> nat" where
  "CheckGarbageBytes p = garbage_bytes p"

lemma CheckAvailableSpace_wf:
  "leaf_wf p \<Longrightarrow> CheckAvailableSpace p = free_space_end_offset p + 1 - (31 + 5 * slot_array_size p)"
proof -
  assume "leaf_wf p"
  then have le: "31 + 5 * slot_array_size p \<le> free_space_end_offset p + 1"
    and "free_space_end_offset p \<le> 4095"
    by (simp_all add: leaf_wf_def)
  then have "CheckAvailableSpace p =
      u16 (int (free_space_end_offset p + 1 - (31 + 5 * slot_array_size p)))"
    by (simp add: CheckAvailableSpace_def of_nat_diff)
  then show ?thesis using \<open>free_space_end_offset p \<le> 4095\<close> by simp
qed

lemma space_accounting:
  "leaf_wf p \<Longrightarrow> CheckAvailableSpace p + CheckGarbageBytes p + used_space p = 4065"
  using leaf_wf_used [of p] by (simp add: CheckAvailableSpace_wf CheckGarbageBytes_def)

section \<open>Binary search over slots with deleted entries\<close>

text \<open>
  The two searches of the code differ in one comparison, which is the parameter \<open>go_right\<close>
  here. \<open>skip_deleted\<close> is the inner loop: from \<open>mid\<close> it moves to the next live slot, and
  stops at the end of the directory without reading it.
\<close>

function skip_deleted :: "mem \<Rightarrow> nat \<Rightarrow> nat \<Rightarrow> nat" where
  "skip_deleted p n mid =
    (if mid < n \<and> is_deleted (slot_at p mid) then skip_deleted p n (Suc mid) else mid)"
  by pat_completeness auto
termination
  by (relation "measure (\<lambda>(p, n, mid). n - mid)") auto

declare skip_deleted.simps [simp del]

lemma skip_deleted_ge: "mid \<le> skip_deleted p n mid"
proof (induction p n mid rule: skip_deleted.induct)
  case (1 p n mid)
  then show ?case by (subst skip_deleted.simps) (auto dest: Suc_leD)
qed

lemma search_loop_mid:
  "l \<le> r \<Longrightarrow> l \<le> l + (r - l) div 2" "l \<le> r \<Longrightarrow> l + (r - l) div 2 \<le> (r :: int)"
  "l \<le> r \<Longrightarrow> l \<le> int (skip_deleted p n (nat (l + (r - l) div 2)))"
proof -
  show 1: "l \<le> l + (r - l) div 2" and "l + (r - l) div 2 \<le> r" if "l \<le> r" using that by simp_all
  show "l \<le> int (skip_deleted p n (nat (l + (r - l) div 2)))" if "l \<le> r"
    using 1 [OF that] skip_deleted_ge [of "nat (l + (r - l) div 2)" p n] by linarith
qed

function search_loop :: "(Key \<Rightarrow> bool) \<Rightarrow> mem \<Rightarrow> nat \<Rightarrow> int \<Rightarrow> int \<Rightarrow> int \<Rightarrow> int" where
  "search_loop go_right p n l r ans =
    (if l \<le> r then
       let original_mid = l + (r - l) div 2;
           mid = skip_deleted p n (nat original_mid)
       in if mid = n then search_loop go_right p n l (original_mid - 1) ans
          else if go_right (GetKeyFromSlotElement p mid)
            then search_loop go_right p n (int mid + 1) r ans
            else search_loop go_right p n l (original_mid - 1) (int mid)
     else ans)"
  by pat_completeness auto

termination
proof (relation "measure (\<lambda>(g, p, n, l, r, ans). nat (r - l + 1))", goal_cases)
  case 1
  then show ?case by simp
next
  case (2 g p n l r ans m mid)
  then show ?case using search_loop_mid(1,2) [of l r] by simp
next
  case (3 g p n l r ans m mid)
  then show ?case using search_loop_mid(3) [of l r p n] by simp
next
  case (4 g p n l r ans m mid)
  then show ?case using search_loop_mid(1,2) [of l r] by simp
qed

declare search_loop.simps [simp del]

text \<open>\<open>end - start\<close> is the number \<open>n\<close> of slots, cut to \<open>int16_t\<close>; the result is an index.\<close>

definition LeafPage_upper_bound :: "mem \<Rightarrow> nat \<Rightarrow> Key \<Rightarrow> nat" where
  "LeafPage_upper_bound p n x =
    nat (search_loop (\<lambda>key. key \<le> x) p n 0 (s16 (int n) - 1) (s16 (int n)))"

definition LeafPage_lower_bound :: "mem \<Rightarrow> nat \<Rightarrow> Key \<Rightarrow> nat" where
  "LeafPage_lower_bound p n x =
    nat (search_loop (\<lambda>key. key < x) p n 0 (s16 (int n) - 1) (s16 (int n)))"

section \<open>The searches cut the directory at the key\<close>

lemma skip_deleted_le: "mid \<le> n \<Longrightarrow> skip_deleted p n mid \<le> n"
proof (induction p n mid rule: skip_deleted.induct)
  case (1 p n mid)
  then show ?case by (subst skip_deleted.simps) auto
qed

lemma skip_deleted_live:
  "skip_deleted p n mid < n \<Longrightarrow> \<not> is_deleted (slot_at p (skip_deleted p n mid))"
proof (induction p n mid rule: skip_deleted.induct)
  case (1 p n mid)
  then show ?case
    by (cases "mid < n \<and> is_deleted (slot_at p mid)") (simp_all add: skip_deleted.simps [of p n mid])
qed

lemma skip_deleted_dead:
  "mid \<le> i \<Longrightarrow> i < skip_deleted p n mid \<Longrightarrow> is_deleted (slot_at p i)"
proof (induction p n mid rule: skip_deleted.induct)
  case (1 p n mid)
  then show ?case
    by (cases "mid < n \<and> is_deleted (slot_at p mid)")
      (auto simp: skip_deleted.simps [of p n mid] Suc_le_eq dest!: le_neq_implies_less)
qed

text \<open>Skipping from anywhere inside a run of deleted slots ends at the same slot.\<close>

lemma skip_deleted_run:
  "a \<le> b \<Longrightarrow> b \<le> n \<Longrightarrow> (\<And>i. a \<le> i \<Longrightarrow> i < b \<Longrightarrow> is_deleted (slot_at p i)) \<Longrightarrow>
    skip_deleted p n a = skip_deleted p n b"
proof (induction p n a rule: skip_deleted.induct)
  case (1 p n a)
  show ?case
  proof (cases "a = b")
    case False
    with "1.prems" have "a < n \<and> is_deleted (slot_at p a)" by simp
    with 1 False show ?thesis by (simp add: skip_deleted.simps [of p n a])
  qed simp
qed

definition cuts :: "(Key \<Rightarrow> bool) \<Rightarrow> mem \<Rightarrow> nat \<Rightarrow> nat \<Rightarrow> bool" where
  "cuts go p n k \<longleftrightarrow> k \<le> n \<and> (k < n \<longrightarrow> \<not> is_deleted (slot_at p k)) \<and>
    (\<forall>i < k. \<not> is_deleted (slot_at p i) \<longrightarrow> go (GetKeyFromSlotElement p i)) \<and>
    (\<forall>i. k \<le> i \<longrightarrow> i < n \<longrightarrow> \<not> is_deleted (slot_at p i) \<longrightarrow> \<not> go (GetKeyFromSlotElement p i))"

definition search_inv :: "(Key \<Rightarrow> bool) \<Rightarrow> mem \<Rightarrow> nat \<Rightarrow> int \<Rightarrow> int \<Rightarrow> int \<Rightarrow> bool" where
  "search_inv go p n l r ans \<longleftrightarrow> 0 \<le> l \<and> r < int n \<and> l \<le> r + 1 \<and>
    (\<forall>i. int i < l \<longrightarrow> \<not> is_deleted (slot_at p i) \<longrightarrow> go (GetKeyFromSlotElement p i)) \<and>
    (\<forall>i. r < int i \<longrightarrow> i < n \<longrightarrow> \<not> is_deleted (slot_at p i) \<longrightarrow> \<not> go (GetKeyFromSlotElement p i)) \<and>
    ans = int (skip_deleted p n (nat (r + 1)))"

text \<open>\<open>go\<close> is downward closed along the live slots, as a comparison with sorted keys is.\<close>

definition go_mono :: "(Key \<Rightarrow> bool) \<Rightarrow> mem \<Rightarrow> nat \<Rightarrow> bool" where
  "go_mono go p n \<longleftrightarrow> (\<forall>i j. i < j \<longrightarrow> j < n \<longrightarrow> \<not> is_deleted (slot_at p i) \<longrightarrow>
     \<not> is_deleted (slot_at p j) \<longrightarrow> go (GetKeyFromSlotElement p j) \<longrightarrow> go (GetKeyFromSlotElement p i))"

lemma search_inv_done:
  assumes inv: "search_inv go p n l r ans" and "\<not> l \<le> r"
  shows "cuts go p n (nat ans)"
proof -
  have l: "l = r + 1" "0 \<le> l" "l \<le> int n" using assms by (auto simp: search_inv_def)
  let ?k = "skip_deleted p n (nat l)"
  have k: "?k \<le> n" "nat l \<le> ?k"
    using l skip_deleted_le [of "nat l" n p] skip_deleted_ge [of "nat l" p n] by simp_all
  have left: "go (GetKeyFromSlotElement p i)" if "i < ?k" "\<not> is_deleted (slot_at p i)" for i
  proof (cases "int i < l")
    case True
    then show ?thesis using inv that by (auto simp: search_inv_def)
  next
    case False
    then have "nat l \<le> i" using l by linarith
    then show ?thesis using skip_deleted_dead [of "nat l" i p n] that by simp
  qed
  have right: "\<not> go (GetKeyFromSlotElement p i)"
    if "?k \<le> i" "i < n" "\<not> is_deleted (slot_at p i)" for i
    using inv that k l by (auto simp: search_inv_def)
  have "nat ans = ?k" using inv l by (simp add: search_inv_def)
  then show ?thesis using k left right skip_deleted_live [of p n "nat l"] by (auto simp: cuts_def)
qed

text \<open>The three turns of the loop: only deleted slots from the middle on, a live slot before the cut, or one behind it.\<close>

lemma search_inv_step:
  assumes mono: "go_mono go p n" and inv: "search_inv go p n l r ans" and lr: "l \<le> r"
    and m: "m = l + (r - l) div 2" and k: "k = skip_deleted p n (nat m)"
  shows "k = n \<Longrightarrow> search_inv go p n l (m - 1) ans"
    "k \<noteq> n \<Longrightarrow> go (GetKeyFromSlotElement p k) \<Longrightarrow> search_inv go p n (int k + 1) r ans"
    "k \<noteq> n \<Longrightarrow> \<not> go (GetKeyFromSlotElement p k) \<Longrightarrow> search_inv go p n l (m - 1) (int k)"
proof -
  have md: "l \<le> m" "m \<le> r" "0 \<le> m" "m < int n"
    using search_loop_mid(1,2) [OF lr] inv by (auto simp: search_inv_def m)
  have kn: "nat m \<le> k" "k \<le> n" using skip_deleted_ge skip_deleted_le md by (auto simp: k)
  have dead: "is_deleted (slot_at p i)" if "m \<le> int i" "i < k" for i
    using skip_deleted_dead [of "nat m" i p n] that md by (simp add: k)
  have live: "\<not> is_deleted (slot_at p k)" if "k \<noteq> n"
    using skip_deleted_live [of p n "nat m"] that kn(2) by (simp add: k)
  show "search_inv go p n l (m - 1) ans" if "k = n"
  proof -
    have "skip_deleted p n (nat (r + 1)) = skip_deleted p n n" "skip_deleted p n (nat m) = skip_deleted p n n"
      using md inv dead that by (auto intro!: skip_deleted_run simp: search_inv_def)
    then show ?thesis using inv md dead that by (force simp: search_inv_def)
  qed
  show "search_inv go p n (int k + 1) r ans" if "k \<noteq> n" and g: "go (GetKeyFromSlotElement p k)"
  proof -
    have kr: "int k \<le> r" using inv kn that live g unfolding search_inv_def by (meson not_le le_neq_implies_less)
    have "go (GetKeyFromSlotElement p i)" if "int i < int k + 1" "\<not> is_deleted (slot_at p i)" for i
      using mono g live kn(2) that \<open>k \<noteq> n\<close> by (auto simp: go_mono_def le_less)
    then show ?thesis using inv kr by (auto simp: search_inv_def)
  qed
  show "search_inv go p n l (m - 1) (int k)" if "k \<noteq> n" and g: "\<not> go (GetKeyFromSlotElement p k)"
  proof -
    have "\<not> go (GetKeyFromSlotElement p i)" if i: "m - 1 < int i" "i < n" "\<not> is_deleted (slot_at p i)" for i
    proof -
      have "k \<le> i" using dead [of i] i by force
      then show ?thesis using mono g live i(2,3) \<open>k \<noteq> n\<close> by (auto simp: go_mono_def le_less)
    qed
    then show ?thesis using inv md by (auto simp: search_inv_def k)
  qed
qed

lemma search_loop_cuts:
  "go_mono go p n \<Longrightarrow> search_inv go p n l r ans \<Longrightarrow> cuts go p n (nat (search_loop go p n l r ans))"
proof (induction go p n l r ans rule: search_loop.induct)
  case (1 go p n l r ans)
  note mono = "1.prems"(1) and inv = "1.prems"(2)
  show ?case
  proof (cases "l \<le> r")
    case False
    then show ?thesis using search_inv_done [OF inv] by (simp add: search_loop.simps [of go p n l r])
  next
    case True
    define m where "m = l + (r - l) div 2"
    define k where "k = skip_deleted p n (nat m)"
    note step = search_inv_step [OF mono inv True m_def k_def]
    have loop: "search_loop go p n l r ans = (if k = n then search_loop go p n l (m - 1) ans
        else if go (GetKeyFromSlotElement p k) then search_loop go p n (int k + 1) r ans
        else search_loop go p n l (m - 1) (int k))"
      using True by (simp add: search_loop.simps [of go p n l r] m_def k_def Let_def)
    show ?thesis
      unfolding loop using "1.IH" [OF True m_def k_def] mono step by simp
  qed
qed

lemma search_cuts:
  assumes "go_mono go p n" "n < 32768"
  shows "cuts go p n (nat (search_loop go p n 0 (s16 (int n) - 1) (s16 (int n))))"
proof (rule search_loop_cuts [OF assms(1)])
  have "skip_deleted p n n = n" by (simp add: skip_deleted.simps)
  then show "search_inv go p n 0 (s16 (int n) - 1) (s16 (int n))"
    using assms(2) by (simp add: search_inv_def)
qed

text \<open>On a well-formed page the slots before the cut and from the cut on split the live tuples.\<close>

lemma nth_slots_take: "s \<in> set (live (take k (slots p))) \<Longrightarrow> k \<le> slot_array_size p \<Longrightarrow>
    \<exists>i < k. s = slot_at p i \<and> \<not> is_deleted (slot_at p i)"
  by (auto simp: set_live in_set_conv_nth)

lemma nth_slots_drop: "s \<in> set (live (drop k (slots p))) \<Longrightarrow> k \<le> slot_array_size p \<Longrightarrow>
    \<exists>i. k \<le> i \<and> i < slot_array_size p \<and> s = slot_at p i \<and> \<not> is_deleted (slot_at p i)"
  by (auto simp: set_live in_set_conv_nth) (metis add.commute le_add2 less_diff_conv nth_slots)

lemma key_of_slot:
  "leaf_wf p \<Longrightarrow> i < slot_array_size p \<Longrightarrow>
    GetKeyFromSlotElement p i = tuple_key (tuple_of p (slot_at p i))"
proof -
  assume wf: "leaf_wf p" and i: "i < slot_array_size p"
  then have "slot_at p i \<in> set (slots p)" by (metis length_slots nth_mem nth_slots)
  then have "21 \<le> len (slot_at p i)" using wf by (simp add: leaf_wf_def)
  then show ?thesis by (simp add: tuple_key_of GetKeyFromSlotElement_def)
qed

lemma keys_mono:
  assumes wf: "leaf_wf p" and ij: "i < j" "j < slot_array_size p"
    and l: "\<not> is_deleted (slot_at p i)" "\<not> is_deleted (slot_at p j)"
  shows "GetKeyFromSlotElement p i \<le> GetKeyFromSlotElement p j"
proof -
  have "sorted (map (\<lambda>s. tuple_key (tuple_of p s)) (filter (\<lambda>s. \<not> is_deleted s) (slots p)))"
    using wf by (simp add: leaf_wf_def tuples_def live_def comp_def)
  from sorted_filter_nth [OF this, of i j] show ?thesis
    using wf ij l by (simp add: key_of_slot)
qed

lemma leaf_cut:
  assumes wf: "leaf_wf p" and c: "cuts go p (slot_array_size p) k"
  shows "k \<le> slot_array_size p"
    and "k < slot_array_size p \<Longrightarrow> \<not> is_deleted (slot_at p k)"
    and "\<forall>s \<in> set (live (take k (slots p))). go (tuple_key (tuple_of p s))"
    and "\<forall>s \<in> set (live (drop k (slots p))). \<not> go (tuple_key (tuple_of p s))"
proof -
  show k: "k \<le> slot_array_size p" "k < slot_array_size p \<Longrightarrow> \<not> is_deleted (slot_at p k)"
    using c by (simp_all add: cuts_def)
  show "\<forall>s \<in> set (live (take k (slots p))). go (tuple_key (tuple_of p s))"
  proof
    fix s assume "s \<in> set (live (take k (slots p)))"
    then obtain i where "i < k" "s = slot_at p i" "\<not> is_deleted (slot_at p i)"
      using nth_slots_take k by blast
    moreover from this have "go (GetKeyFromSlotElement p i)" using c by (simp add: cuts_def)
    ultimately show "go (tuple_key (tuple_of p s))" using k key_of_slot [OF wf, of i] by simp
  qed
  show "\<forall>s \<in> set (live (drop k (slots p))). \<not> go (tuple_key (tuple_of p s))"
  proof
    fix s assume "s \<in> set (live (drop k (slots p)))"
    then obtain i where "k \<le> i" "i < slot_array_size p" "s = slot_at p i" "\<not> is_deleted (slot_at p i)"
      using nth_slots_drop k by blast
    moreover from this have "\<not> go (GetKeyFromSlotElement p i)" using c by (simp add: cuts_def)
    ultimately show "\<not> go (tuple_key (tuple_of p s))" using key_of_slot [OF wf, of i] by simp
  qed
qed

lemma upper_bound_cuts:
  assumes "leaf_wf p"
  shows "cuts (\<lambda>k. k \<le> x) p (slot_array_size p) (LeafPage_upper_bound p (slot_array_size p) x)"
  unfolding LeafPage_upper_bound_def
proof (rule search_cuts)
  show "go_mono (\<lambda>k. k \<le> x) p (slot_array_size p)"
    unfolding go_mono_def using keys_mono [OF assms] by (blast intro: order_trans)
  show "slot_array_size p < 32768" using leaf_wf_slot_bound [OF assms] by simp
qed

lemma lower_bound_cuts:
  assumes "leaf_wf p"
  shows "cuts (\<lambda>k. k < x) p (slot_array_size p) (LeafPage_lower_bound p (slot_array_size p) x)"
  unfolding LeafPage_lower_bound_def
proof (rule search_cuts)
  show "go_mono (\<lambda>k. k < x) p (slot_array_size p)"
    unfolding go_mono_def using keys_mono [OF assms] by (blast intro: le_less_trans)
  show "slot_array_size p < 32768" using leaf_wf_slot_bound [OF assms] by simp
qed

lemmas upper_bound_cut = leaf_cut [OF _ upper_bound_cuts]
lemmas lower_bound_cut = leaf_cut [OF _ lower_bound_cuts]

section \<open>Search\<close>

record SearchResult =
  found :: bool
  tuple_offset :: nat
  tuple_end_offset :: nat
  total_tuple_size :: nat
  sr_overflow :: bool
  overflow_page_id :: PageID

definition not_found :: SearchResult where
  "not_found = \<lparr>found = False, tuple_offset = 0, tuple_end_offset = 0, total_tuple_size = 0,
     sr_overflow = False, overflow_page_id = 0\<rparr>"

definition LeafPage_Search :: "mem \<Rightarrow> Key \<Rightarrow> SearchResult" where
  "LeafPage_Search p key =
    (let n = slot_array_size p;
         search_result = LeafPage_lower_bound p n key
     in if search_result = n then not_found
        else
          let returned_key = GetKeyFromSlotElement p search_result;
              s = slot_at p search_result;
              tuple_size = load_u32 p (offset s + 9);
              overflow = (load_u8 p (offset s) > 0);
              overflow_page_id = load_u64 p (offset s + 1)
          in if returned_key = key then
               \<lparr>found = True, tuple_offset = offset s, tuple_end_offset = offset s + len s,
                total_tuple_size = tuple_size, sr_overflow = overflow,
                overflow_page_id = overflow_page_id\<rparr>
             else not_found)"

definition has_key :: "Key \<Rightarrow> byte list \<Rightarrow> bool" where
  "has_key k t \<longleftrightarrow> tuple_key t = k"

lemma in_tuples: "t \<in> set (tuples p) \<Longrightarrow>
    \<exists>i < slot_array_size p. \<not> is_deleted (slot_at p i) \<and> t = tuple_of p (slot_at p i)"
  by (auto simp: tuples_def set_live in_set_conv_nth)

text \<open>The lower bound of a key in terms of the tuple sequence.\<close>

lemma tuples_cut:
  "k < slot_array_size p \<Longrightarrow> \<not> is_deleted (slot_at p k) \<Longrightarrow>
    tuples p = map (tuple_of p) (live (take k (slots p))) @ tuple_of p (slot_at p k) #
      map (tuple_of p) (live (drop (Suc k) (slots p)))"
proof -
  assume "k < slot_array_size p" "\<not> is_deleted (slot_at p k)"
  then have "live (slots p) = live (take k (slots p)) @ slot_at p k # live (drop (Suc k) (slots p))"
    unfolding live_def by (subst filter_split_nth [of k]) simp_all
  then show ?thesis by (simp add: tuples_def)
qed

lemma lower_bound_hit:
  assumes wf: "leaf_wf p" and k: "k = LeafPage_lower_bound p (slot_array_size p) x"
    and lt: "k < slot_array_size p" and key: "GetKeyFromSlotElement p k = x"
  shows "find (has_key x) (tuples p) = Some (tuple_of p (slot_at p k))"
    and "delete_first (has_key x) (tuples p) =
      map (tuple_of p) (live (take k (slots p))) @ map (tuple_of p) (live (drop (Suc k) (slots p)))"
proof -
  note cut = lower_bound_cut [OF wf wf, of x, folded k]
  have d: "\<not> is_deleted (slot_at p k)" using cut(2) lt by simp
  have before: "\<forall>t \<in> set (map (tuple_of p) (live (take k (slots p)))). \<not> has_key x t"
    using cut(3) by (auto simp: has_key_def)
  have here: "has_key x (tuple_of p (slot_at p k))"
    using key key_of_slot [OF wf lt] by (simp add: has_key_def)
  show "find (has_key x) (tuples p) = Some (tuple_of p (slot_at p k))"
    unfolding tuples_cut [OF lt d] by (rule find_append_first [OF before here])
  show "delete_first (has_key x) (tuples p) =
      map (tuple_of p) (live (take k (slots p))) @ map (tuple_of p) (live (drop (Suc k) (slots p)))"
    unfolding tuples_cut [OF lt d] by (rule delete_first_append [OF before here])
qed

lemma lower_bound_miss:
  assumes wf: "leaf_wf p" and k: "k = LeafPage_lower_bound p (slot_array_size p) x"
    and miss: "k < slot_array_size p \<Longrightarrow> GetKeyFromSlotElement p k \<noteq> x"
  shows "\<forall>t \<in> set (tuples p). \<not> has_key x t"
proof -
  note cut = lower_bound_cut [OF wf wf, of x, folded k]
  have c: "cuts (\<lambda>k. k < x) p (slot_array_size p) k" unfolding k by (rule lower_bound_cuts [OF wf])
  have no: "tuple_key (tuple_of p (slot_at p i)) \<noteq> x"
    if i: "i < slot_array_size p" and d: "\<not> is_deleted (slot_at p i)" for i
  proof (cases "i < k")
    case True
    then show ?thesis using c d key_of_slot [OF wf i] by (auto simp: cuts_def)
  next
    case False
    then have k: "k < slot_array_size p" using i by simp
    have "x \<le> GetKeyFromSlotElement p k" using c k cut(2) by (auto simp: cuts_def)
    moreover have "GetKeyFromSlotElement p k \<le> GetKeyFromSlotElement p i"
      using False i d k cut(2) keys_mono [OF wf, of k i] by (cases "i = k") auto
    ultimately show ?thesis using miss [OF k] key_of_slot [OF wf i] by auto
  qed
  then show ?thesis using in_tuples by (auto simp: has_key_def dest!: in_tuples)
qed

lemma LeafPage_Search_hit:
  assumes wf: "leaf_wf p" and t: "find (has_key x) (tuples p) = Some t"
  shows "found (LeafPage_Search p x)"
    and "bytes p (tuple_offset (LeafPage_Search p x))
      (tuple_end_offset (LeafPage_Search p x) - tuple_offset (LeafPage_Search p x)) = t"
    and "total_tuple_size (LeafPage_Search p x) = tuple_size t"
    and "sr_overflow (LeafPage_Search p x) = tuple_overflow t"
    and "overflow_page_id (LeafPage_Search p x) = tuple_overflow_page t"
    and "tuple_offset (LeafPage_Search p x) + 21 \<le> tuple_end_offset (LeafPage_Search p x)"
    and "tuple_end_offset (LeafPage_Search p x) \<le> 4096"
proof -
  define k where "k = LeafPage_lower_bound p (slot_array_size p) x"
  have hit: "k < slot_array_size p \<and> GetKeyFromSlotElement p k = x"
  proof (rule ccontr)
    assume "\<not> ?thesis"
    then have "find (has_key x) (tuples p) = None"
      using lower_bound_miss [OF wf k_def] by (intro find_none) blast
    with t show False by simp
  qed
  then have tk: "t = tuple_of p (slot_at p k)"
    using lower_bound_hit(1) [OF wf k_def] t by simp
  have d: "\<not> is_deleted (slot_at p k)"
    using lower_bound_cut(2) [OF wf wf, of x] hit by (simp add: k_def)
  have m: "slot_at p k \<in> set (slots p)" using hit by (metis length_slots nth_mem nth_slots)
  then have l: "21 \<le> len (slot_at p k)" and e: "offset (slot_at p k) + len (slot_at p k) \<le> 4096"
    using wf d by (auto simp: leaf_wf_def set_live)
  have r: "LeafPage_Search p x = \<lparr>found = True, tuple_offset = offset (slot_at p k),
      tuple_end_offset = offset (slot_at p k) + len (slot_at p k),
      total_tuple_size = load_u32 p (offset (slot_at p k) + 9),
      sr_overflow = (load_u8 p (offset (slot_at p k)) > 0),
      overflow_page_id = load_u64 p (offset (slot_at p k) + 1)\<rparr>"
    using hit by (simp add: LeafPage_Search_def k_def Let_def)
  show "found (LeafPage_Search p x)"
    and "bytes p (tuple_offset (LeafPage_Search p x))
      (tuple_end_offset (LeafPage_Search p x) - tuple_offset (LeafPage_Search p x)) = t"
    and "total_tuple_size (LeafPage_Search p x) = tuple_size t"
    and "sr_overflow (LeafPage_Search p x) = tuple_overflow t"
    and "overflow_page_id (LeafPage_Search p x) = tuple_overflow_page t"
    and "tuple_offset (LeafPage_Search p x) + 21 \<le> tuple_end_offset (LeafPage_Search p x)"
    and "tuple_end_offset (LeafPage_Search p x) \<le> 4096"
    using l e unfolding r tk
    by (simp_all add: tuple_size_def tuple_overflow_def tuple_overflow_page_def load_tuple_of)
      (simp add: tuple_of_def)
qed

lemma LeafPage_Search_miss:
  assumes wf: "leaf_wf p" and t: "find (has_key x) (tuples p) = None"
  shows "LeafPage_Search p x = not_found"
proof -
  define k where "k = LeafPage_lower_bound p (slot_array_size p) x"
  have "\<not> (k < slot_array_size p \<and> GetKeyFromSlotElement p k = x)"
    using lower_bound_hit(1) [OF wf k_def] t by auto
  moreover have "k \<le> slot_array_size p"
    using lower_bound_cut(1) [OF wf wf, of x] by (simp add: k_def)
  ultimately show ?thesis by (auto simp: LeafPage_Search_def k_def Let_def)
qed

section \<open>Deleting a tuple, and the first key\<close>

definition LeafPage_DeleteTuple :: "mem \<Rightarrow> Key \<Rightarrow> bool \<times> mem" where
  "LeafPage_DeleteTuple p key =
    (let n = slot_array_size p;
         element = LeafPage_lower_bound p n key
     in if element = n then (False, p)
        else if GetKeyFromSlotElement p element \<noteq> key then (False, p)
        else if is_deleted (slot_at p element) then (False, p)
        else
          let p1 = set_garbage_bytes p (u16 (int (garbage_bytes p) + int (len (slot_at p element))));
              p2 = store_u8 p1 (slot_addr element) 1
          in (True, p2))"

fun first_key_loop :: "mem \<Rightarrow> nat \<Rightarrow> nat \<Rightarrow> Key" where
  "first_key_loop p i 0 = 0"
| "first_key_loop p i (Suc n) =
    (if \<not> is_deleted (slot_at p i) then GetKeyFromSlotElement p i else first_key_loop p (Suc i) n)"

definition GetPageFirstKey :: "mem \<Rightarrow> Key" where
  "GetPageFirstKey p = first_key_loop p 0 (slot_array_size p)"

lemma first_key_loop_live:
  "first_key_loop p i n =
    (case filter (\<lambda>j. \<not> is_deleted (slot_at p j)) [i..<i + n] of
       [] \<Rightarrow> 0 | j # _ \<Rightarrow> GetKeyFromSlotElement p j)"
proof (induction n arbitrary: i)
  case (Suc n)
  have "[i..<i + Suc n] = i # [Suc i..<Suc i + n]" by (simp add: upt_conv_Cons del: upt_Suc)
  then show ?case using Suc [of "Suc i"] by simp
qed simp

lemma live_slots_index:
  "live (slots p) = map (slot_at p) (filter (\<lambda>j. \<not> is_deleted (slot_at p j)) [0..<slot_array_size p])"
  by (simp add: live_def slots_def filter_map comp_def)

lemma GetPageFirstKey_tuples:
  assumes wf: "leaf_wf p"
  shows "GetPageFirstKey p = (case tuples p of [] \<Rightarrow> 0 | t # _ \<Rightarrow> tuple_key t)"
proof (cases "filter (\<lambda>j. \<not> is_deleted (slot_at p j)) [0..<slot_array_size p]")
  case Nil
  then show ?thesis
    by (simp add: GetPageFirstKey_def first_key_loop_live tuples_def live_slots_index)
next
  case (Cons j js)
  then have "j \<in> set [0..<slot_array_size p]" by (metis filter_is_subset list.set_intros(1) subset_code(1))
  then have "j < slot_array_size p" by simp
  with Cons show ?thesis
    by (simp add: GetPageFirstKey_def first_key_loop_live tuples_def live_slots_index
        key_of_slot [OF wf])
qed

text \<open>
  A change that leaves the tuple area alone keeps the bytes of every live tuple. The frame of a
  page operation is \<open>same_tail\<close>: nothing from an offset on changed.
\<close>

lemma tuples_frame:
  assumes wf: "leaf_wf p" and same: "\<And>i. free_space_end_offset p < i \<Longrightarrow> i < 4096 \<Longrightarrow> q i = p i"
    and s: "s \<in> set (live (slots p))"
  shows "tuple_of q s = tuple_of p s"
proof (rule tuple_of_cong)
  have "free_space_end_offset p < offset s" "offset s + len s \<le> 4096"
    using wf s by (auto simp: leaf_wf_def)
  then show "q i = p i" if "offset s \<le> i" "i < offset s + len s" for i
    using that by (intro same) auto
qed

text \<open>Marking one live slot deleted, with its bytes added to the garbage.\<close>

definition mark_deleted :: "mem \<Rightarrow> nat \<Rightarrow> mem" where
  "mark_deleted p k =
    store_u8 (set_garbage_bytes p (u16 (int (garbage_bytes p) + int (len (slot_at p k)))))
      (slot_addr k) 1"

lemma slot_at_mark [simp]:
  "slot_at (mark_deleted p k) i = (if i = k then (slot_at p i)\<lparr>is_deleted := True\<rparr> else slot_at p i)"
proof (cases "i = k")
  case False
  then have "i < k \<or> k < i" by arith
  then show ?thesis using False by (auto simp: slot_at_def mark_deleted_def mem_simps)
qed (simp add: slot_at_def mark_deleted_def mem_simps)

lemma slots_mark:
  "k < slot_array_size p \<Longrightarrow> slots (mark_deleted p k) = (slots p)[k := (slot_at p k)\<lparr>is_deleted := True\<rparr>]"
proof -
  assume k: "k < slot_array_size p"
  have "slot_array_size (mark_deleted p k) = slot_array_size p"
    by (simp add: mark_deleted_def mem_simps)
  then show ?thesis unfolding slots_def using k by (simp only:) (rule map_upt_update, auto)
qed

lemma mark_deleted_outside: "31 + 5 * k < i \<Longrightarrow> mark_deleted p k i = p i"
  by (simp add: mark_deleted_def store_le_outside)

lemma mark_deleted_wf:
  assumes wf: "leaf_wf p" and k: "k < slot_array_size p" and d: "\<not> is_deleted (slot_at p k)"
  shows "leaf_wf (mark_deleted p k)"
    and "tuples (mark_deleted p k) =
      map (tuple_of p) (live (take k (slots p))) @ map (tuple_of p) (live (drop (Suc k) (slots p)))"
proof -
  let ?q = "mark_deleted p k" and ?s = "slot_at p k"
  define A B where "A = take k (slots p)" and "B = drop (Suc k) (slots p)"
  have sl: "slots p = A @ ?s # B"
    using id_take_nth_drop [of k "slots p"] k by (simp add: A_def B_def)
  have slq: "slots ?q = A @ ?s\<lparr>is_deleted := True\<rparr> # B"
    using slots_mark [OF k] k by (simp add: upd_conv_take_nth_drop A_def B_def)
  have hd: "page_type ?q = page_type p" "free_space_end_offset ?q = free_space_end_offset p"
    "slot_array_size ?q = slot_array_size p"
    by (simp_all add: mark_deleted_def mem_simps)
  have area: "31 + 5 * k < free_space_end_offset p" using wf k by (simp add: leaf_wf_def)
  have "tuple_of ?q s = tuple_of p s" if "s \<in> set (live (slots p))" for s
    using area that by (intro tuples_frame [OF wf]) (auto simp: mark_deleted_outside)
  then have tup: "tuples ?q = map (tuple_of p) (live A) @ map (tuple_of p) (live B)"
    by (simp add: tuples_def slq sl d)
  then show "tuples ?q = map (tuple_of p) (live (take k (slots p))) @
      map (tuple_of p) (live (drop (Suc k) (slots p)))" by (simp add: A_def B_def)
  have "garbage_bytes p + len ?s < 65536" using leaf_wfD(8) [OF wf] d by (simp add: sl)
  then have gbq: "garbage_bytes ?q = garbage_bytes p + len ?s"
    by (simp add: mark_deleted_def mem_simps)
  have "sorted (map tuple_key (tuples p))" using wf by (simp add: leaf_wf_def)
  then have "sorted (map tuple_key (tuples ?q))"
    unfolding tup by (simp add: tuples_def sl d sorted_append)
  then show "leaf_wf ?q"
    using wf d unfolding leaf_wf_def hd gbq sl slq by (auto simp: sorted_wrt_append)
qed

lemma DeleteTuple_correct:
  assumes wf: "leaf_wf p" and r: "LeafPage_DeleteTuple p x = (b, q)"
  shows "leaf_wf q" "tuples q = delete_first (has_key x) (tuples p)"
    "b \<longleftrightarrow> (\<exists>t \<in> set (tuples p). has_key x t)"
proof -
  define k where "k = LeafPage_lower_bound p (slot_array_size p) x"
  note cut = lower_bound_cut [OF wf wf, of x, folded k_def]
  have "leaf_wf q \<and> tuples q = delete_first (has_key x) (tuples p) \<and>
    (b \<longleftrightarrow> (\<exists>t \<in> set (tuples p). has_key x t))"
  proof (cases "k < slot_array_size p \<and> GetKeyFromSlotElement p k = x")
    case True
    then have d: "\<not> is_deleted (slot_at p k)" using cut(2) by simp
    have "b" "q = mark_deleted p k"
      using r True d by (auto simp: LeafPage_DeleteTuple_def k_def Let_def mark_deleted_def)
    moreover have "\<exists>t \<in> set (tuples p). has_key x t"
      using lower_bound_hit(1) [OF wf k_def] True by (auto simp: find_Some_iff)
    ultimately show ?thesis
      using mark_deleted_wf [OF wf _ d] lower_bound_hit(2) [OF wf k_def] True by simp
  next
    case False
    then have miss: "\<forall>t \<in> set (tuples p). \<not> has_key x t" using lower_bound_miss [OF wf k_def] by blast
    have "LeafPage_DeleteTuple p x = (False, p)"
      using False cut(1) by (auto simp: LeafPage_DeleteTuple_def Let_def simp flip: k_def)
    then have "\<not> b" "q = p" using r by simp_all
    then show ?thesis using miss wf by (simp add: delete_first_none)
  qed
  then show "leaf_wf q" "tuples q = delete_first (has_key x) (tuples p)"
    "b \<longleftrightarrow> (\<exists>t \<in> set (tuples p). has_key x t)" by simp_all
qed

end
