(* ===== verification/Leaf_Write.thy ===== *)
theory Leaf_Write
  imports Leaf_Search
begin

text \<open>
  Writing to a leaf page (\<open>leaf_page.cpp\<close>): \<open>MakePage\<close> lays the live tuples of a directory out
  afresh, \<open>DefragmentPage\<close> applies it to the page itself, and \<open>WriteChunkLeaf\<close> inserts the
  first chunk of a tuple. Proved: \<open>MakePage\<close> and \<open>DefragmentPage\<close> keep the tuple sequence and
  leave no garbage, \<open>WriteChunkLeaf\<close> inserts one tuple at its place in key order, all three
  keep \<open>leaf_wf\<close> and write no byte outside the page.
\<close>

section \<open>Writes to the slot directory\<close>

lemma slot_at_set_slot:
  "off < 65536 \<Longrightarrow> n < 65536 \<Longrightarrow> slot_at (set_slot p k off n) i =
    (if i = k then \<lparr>is_deleted = False, offset = off, len = n\<rparr> else slot_at p i)"
proof (cases "i = k")
  case False
  then have "i < k \<or> k < i" by arith
  then show ?thesis using False by (auto simp: slot_at_def set_slot_def mem_simps)
qed (simp add: slot_at_def set_slot_def mem_simps)

lemma set_slot_outside: "i < 31 + 5 * k \<or> 31 + 5 * k + 5 \<le> i \<Longrightarrow> set_slot p k off n i = p i"
  by (auto simp: set_slot_def store_le_outside)

lemma load_set_slot [mem_simps]:
  "a + j \<le> 31 + 5 * k \<or> 31 + 5 * k + 5 \<le> a \<Longrightarrow> load_le (set_slot p k off n) a j = load_le p a j"
  by (rule load_le_cong) (auto simp: set_slot_outside)

lemma slot_at_cong:
  "(\<And>j. 31 + 5 * i \<le> j \<Longrightarrow> j < 36 + 5 * i \<Longrightarrow> q j = p j) \<Longrightarrow> slot_at q i = slot_at p i"
  by (simp add: slot_at_def load_le_cong [of 1 q _ p] load_le_cong [of 2 q _ p] load_le_cong [of "Suc 0" q _ p])

lemma slot_at_header [simp]: "a + n \<le> 31 \<Longrightarrow> slot_at (store_le p a n v) i = slot_at p i"
  by (rule slot_at_cong) (simp add: store_le_outside)

text \<open>Opening a gap at index \<open>k\<close> of a directory of \<open>n\<close> slots.\<close>

definition shift_slots :: "mem \<Rightarrow> nat \<Rightarrow> nat \<Rightarrow> mem" where
  "shift_slots p k n = memmove p (slot_addr (Suc k)) (slot_addr k) ((n - k) * SLOT_SIZE)"

lemma shift_slots_outside: "i < 36 + 5 * k \<or> 36 + 5 * n \<le> i \<Longrightarrow> k \<le> n \<Longrightarrow> shift_slots p k n i = p i"
  by (auto simp: shift_slots_def memmove_def memcpy_def)

lemma slot_at_shift_before: "i < k \<Longrightarrow> k \<le> n \<Longrightarrow> slot_at (shift_slots p k n) i = slot_at p i"
  by (rule slot_at_cong) (simp add: shift_slots_outside)

lemma slot_at_shift_after:
  "k \<le> i \<Longrightarrow> i < n \<Longrightarrow> slot_at (shift_slots p k n) (Suc i) = slot_at p i"
  by (auto simp: slot_at_def shift_slots_def memmove_def load_memcpy_inside)

section \<open>MakePage and DefragmentPage\<close>

text \<open>
  \<open>make_page_loop\<close> is the loop of \<open>MakePage\<close> over the \<open>n\<close> slots of \<open>buffer\<close> from index \<open>i\<close>;
  \<open>cnt\<close> is \<open>compact_slot_array_size\<close> and \<open>fe\<close> is \<open>free_space_end_offset\<close>.
\<close>

fun make_page_loop :: "mem \<Rightarrow> nat \<Rightarrow> nat \<Rightarrow> mem \<Rightarrow> nat \<Rightarrow> nat \<Rightarrow> mem \<times> nat \<times> nat" where
  "make_page_loop buffer i 0 page cnt fe = (page, cnt, fe)"
| "make_page_loop buffer i (Suc n) page cnt fe =
    (let s = slot_at buffer i
     in if is_deleted s then make_page_loop buffer (Suc i) n page cnt fe
        else
          let page1 = memcpy page (nat (int fe - int (len s) + 1)) buffer (offset s) (len s);
              off = u16 (int fe - int (len s) + 1);
              page2 = set_slot page1 cnt off (len s)
          in make_page_loop buffer (Suc i) n page2 (Suc cnt) (u16 (int off - 1)))"

text \<open>\<open>slot_array_start\<close> points at the slot with index \<open>start\<close> of \<open>buffer\<close>.\<close>

definition LeafPage_MakePage ::
    "mem \<Rightarrow> nat \<Rightarrow> nat \<Rightarrow> mem \<Rightarrow> PageID \<Rightarrow> PageID \<Rightarrow> PageID \<Rightarrow> mem" where
  "LeafPage_MakePage page start n buffer pid lpid rpid =
    (let page1 = set_page_type page LeafPage;
         page2 = set_page_id page1 pid;
         page3 = set_left_pid page2 lpid;
         page4 = set_right_pid page3 rpid;
         page5 = set_garbage_bytes page4 0
     in if n = 0 then set_free_space_end_offset (set_slot_array_size page5 0) (PAGE_SIZE - 1)
        else
          let (page6, cnt, fe) = make_page_loop buffer start n page5 0 (PAGE_SIZE - 1)
          in set_free_space_end_offset (set_slot_array_size page6 cnt) fe)"

definition LeafPage_DefragmentPage :: "mem \<Rightarrow> mem" where
  "LeafPage_DefragmentPage page =
    (let buffer = page
     in LeafPage_MakePage page 0 (slot_array_size buffer) buffer (page_id buffer)
          (left_pid buffer) (right_pid buffer))"

text \<open>The directory \<open>MakePage\<close> lays out: the tuples back to back downwards from \<open>fe\<close>.\<close>

fun compact :: "nat \<Rightarrow> SlotArrayElement list \<Rightarrow> SlotArrayElement list" where
  "compact fe [] = []"
| "compact fe (s # ss) =
    \<lparr>is_deleted = False, offset = fe + 1 - len s, len = len s\<rparr> # compact (fe - len s) ss"

lemma length_compact [simp]: "length (compact fe ss) = length ss"
  by (induction fe ss rule: compact.induct) auto

lemma lens_compact [simp]: "lens (compact fe ss) = lens ss"
  by (induction fe ss rule: compact.induct) auto

lemma live_compact [simp]: "live (compact fe ss) = compact fe ss"
  by (induction fe ss rule: compact.induct) auto

lemma compact_len: "s \<in> set (compact fe ss) \<Longrightarrow> \<exists>t \<in> set ss. len s = len t"
  by (induction fe ss rule: compact.induct) auto

lemma compact_bounds:
  "lens ss \<le> fe \<Longrightarrow> s \<in> set (compact fe ss) \<Longrightarrow> fe - lens ss < offset s \<and> offset s + len s \<le> Suc fe"
proof (induction fe ss rule: compact.induct)
  case (2 fe t ss)
  show ?case
  proof (cases "s \<in> set (compact (fe - len t) ss)")
    case True
    then have "fe - len t - lens ss < offset s \<and> offset s + len s \<le> Suc (fe - len t)"
      using "2.prems" by (intro "2.IH") simp_all
    then show ?thesis using "2.prems"(1) unfolding lens_simps by linarith
  next
    case False
    then show ?thesis using "2.prems" by (auto simp: Suc_diff_le)
  qed
qed simp

lemma compact_disjoint: "lens ss \<le> fe \<Longrightarrow> sorted_wrt disjoint_slots (compact fe ss)"
proof (induction fe ss rule: compact.induct)
  case (2 fe t ss)
  then have "sorted_wrt disjoint_slots (compact (fe - len t) ss)" by simp
  moreover have "offset s + len s \<le> Suc (fe - len t)" if "s \<in> set (compact (fe - len t) ss)" for s
    using compact_bounds [OF _ that] "2.prems" by simp
  then have "disjoint_slots \<lparr>is_deleted = False, offset = fe + 1 - len t, len = len t\<rparr> s"
    if "s \<in> set (compact (fe - len t) ss)" for s
    using "2.prems" that by (auto simp: disjoint_slots_def Suc_diff_le)
  ultimately show ?case by simp
qed simp

text \<open>
  One turn copies the tuple of slot \<open>s\<close> below the free end and enters it as slot \<open>cnt\<close>. Whatever
  is written later below it and behind its slot leaves the two in place.
\<close>

lemma make_page_turn:
  assumes off: "31 + 5 * Suc cnt \<le> off" "off + len s = Suc fe" "fe \<le> 4095"
    and page2: "page2 = set_slot (memcpy page off buffer (offset s) (len s)) cnt off (len s)"
    and frame: "\<forall>j. j < 31 + 5 * Suc cnt \<or> off \<le> j \<longrightarrow> q j = page2 j"
  shows "slot_at q cnt = \<lparr>is_deleted = False, offset = off, len = len s\<rparr>"
    "tuple_of q \<lparr>is_deleted = False, offset = off, len = len s\<rparr> = tuple_of buffer s"
    "\<forall>j. j < 31 + 5 * cnt \<or> fe < j \<longrightarrow> q j = page j"
proof -
  let ?page1 = "memcpy page off buffer (offset s) (len s)"
  have "slot_at q cnt = slot_at page2 cnt" by (rule slot_at_cong) (use frame in simp)
  then show "slot_at q cnt = \<lparr>is_deleted = False, offset = off, len = len s\<rparr>"
    using off by (simp add: page2 slot_at_set_slot)
  have "bytes q off (len s) = bytes ?page1 off (len s)"
    using frame off by (intro bytes_cong) (auto simp: page2 set_slot_outside)
  then show "tuple_of q \<lparr>is_deleted = False, offset = off, len = len s\<rparr> = tuple_of buffer s"
    by (simp add: bytes_memcpy_same tuple_of_def)
  have "q j = page j" if "j < 31 + 5 * cnt \<or> fe < j" for j
  proof -
    have "q j = page2 j" using frame that off by auto
    moreover have "page2 j = ?page1 j" using that off by (auto simp: page2 set_slot_outside)
    moreover have "?page1 j = page j" using that off by (auto simp: memcpy_outside)
    ultimately show ?thesis by simp
  qed
  then show "\<forall>j. j < 31 + 5 * cnt \<or> fe < j \<longrightarrow> q j = page j" by blast
qed

lemma make_page_loop_live:
  assumes "\<not> is_deleted (slot_at buffer i)" "off + len (slot_at buffer i) = Suc fe" "0 < off" "fe \<le> 4095"
  shows "make_page_loop buffer i (Suc n) page cnt fe = make_page_loop buffer (Suc i) n
    (set_slot (memcpy page off buffer (offset (slot_at buffer i)) (len (slot_at buffer i))) cnt off (len (slot_at buffer i)))
    (Suc cnt) (off - 1)"
proof -
  let ?s = "slot_at buffer i"
  have e: "int fe - int (len ?s) + 1 = int off" using assms(2) by simp
  have "u16 (int off) = off" "u16 (int off - 1) = off - 1"
    using assms(2-4) by (simp_all add: of_nat_diff flip: of_nat_Suc)
  then show ?thesis using assms(1) by (simp add: e Let_def)
qed

lemma make_page_loop_spec:
  assumes "make_page_loop buffer i n page cnt fe = (q, cnt', fe')"
    and "ss = live (map (slot_at buffer) [i..<i + n])"
    and "31 + 5 * (cnt + length ss) + lens ss \<le> fe + 1" and "fe \<le> 4095"
  shows "cnt' = cnt + length ss \<and> fe' = fe - lens ss \<and>
    map (slot_at q) [cnt..<cnt + length ss] = compact fe ss \<and>
    map (tuple_of q) (compact fe ss) = map (tuple_of buffer) ss \<and>
    (\<forall>j. j < 31 + 5 * cnt \<or> fe < j \<longrightarrow> q j = page j)"
  using assms
proof (induction n arbitrary: i page cnt fe ss)
  case 0
  then show ?case by simp
next
  case (Suc n)
  let ?s = "slot_at buffer i"
  define rest where "rest = live (map (slot_at buffer) [Suc i..<Suc i + n])"
  have up: "[i..<i + Suc n] = i # [Suc i..<Suc i + n]" by (simp add: upt_conv_Cons del: upt_Suc)
  show ?case
  proof (cases "is_deleted ?s")
    case True
    then have ss: "ss = rest" using Suc.prems(2) by (simp only: rest_def up list.map live_simps if_True)
    have "make_page_loop buffer (Suc i) n page cnt fe = (q, cnt', fe')"
      using Suc.prems(1) True by simp
    from Suc.IH [OF this ss [unfolded rest_def] Suc.prems(3,4)] show ?thesis .
  next
    case False
    then have ss: "ss = ?s # rest" using Suc.prems(2) by (simp only: rest_def up list.map live_simps if_False)
    define off where "off = fe + 1 - len ?s"
    define page2 where "page2 = set_slot (memcpy page off buffer (offset ?s) (len ?s)) cnt off (len ?s)"
    have off: "31 + 5 * Suc cnt \<le> off" "off + len ?s = Suc fe" "0 < off"
      and sp: "31 + 5 * (Suc cnt + length rest) + lens rest \<le> (off - 1) + 1" "off - 1 \<le> 4095"
      and fe: "fe \<le> 4095" "off - 1 - lens rest = fe - lens ss" "fe - len ?s = off - 1"
      using Suc.prems(3,4) ss by (simp_all add: off_def)
    have "make_page_loop buffer (Suc i) n page2 (Suc cnt) (off - 1) = (q, cnt', fe')"
      using Suc.prems(1) unfolding make_page_loop_live [OF False off(2,3) fe(1)] page2_def .
    from Suc.IH [OF this rest_def sp]
    have IH: "cnt' = Suc cnt + length rest" "fe' = off - 1 - lens rest"
      "map (slot_at q) [Suc cnt..<Suc cnt + length rest] = compact (off - 1) rest"
      "map (tuple_of q) (compact (off - 1) rest) = map (tuple_of buffer) rest"
      and fr: "\<forall>j. j < 31 + 5 * Suc cnt \<or> off - 1 < j \<longrightarrow> q j = page2 j"
      by blast+
    have "\<forall>j. j < 31 + 5 * Suc cnt \<or> off \<le> j \<longrightarrow> q j = page2 j" using fr off(3) by auto
    note turn = make_page_turn [OF off(1,2) fe(1) page2_def this]
    have up2: "[cnt..<cnt + length ss] = cnt # [Suc cnt..<Suc cnt + length rest]"
      by (simp add: ss upt_conv_Cons del: upt_Suc)
    have cmp: "compact fe ss = \<lparr>is_deleted = False, offset = off, len = len ?s\<rparr> # compact (off - 1) rest"
      by (simp add: ss off_def)
    have "map (slot_at q) [cnt..<cnt + length ss] = compact fe ss"
      by (simp only: up2 list.map turn(1) IH(3) cmp)
    moreover have "map (tuple_of q) (compact fe ss) = map (tuple_of buffer) ss"
      unfolding cmp by (simp only: list.map turn(2) IH(4) ss)
    ultimately show ?thesis using IH(1,2) turn(3) fe(2) by (simp add: ss)
  qed
qed

text \<open>What a page that holds the live slots \<open>ss\<close> of \<open>buffer\<close>, freshly laid out, looks like.\<close>

definition fresh_page :: "mem \<Rightarrow> mem \<Rightarrow> SlotArrayElement list \<Rightarrow> PageID \<Rightarrow> PageID \<Rightarrow> PageID \<Rightarrow> bool" where
  "fresh_page q buffer ss pid lpid rpid \<longleftrightarrow>
     leaf_wf q \<and> tuples q = map (tuple_of buffer) ss \<and> garbage_bytes q = 0 \<and>
     slot_array_size q = length ss \<and> used_space q = 5 * length ss + lens ss \<and>
     page_id q = pid \<and> left_pid q = lpid \<and> right_pid q = rpid"

lemma MakePage_header:
  assumes "LeafPage_MakePage page start n buffer pid lpid rpid = q"
    and "ss = live (map (slot_at buffer) [start..<start + n])"
    and "31 + 5 * length ss + lens ss \<le> 4096"
  shows "page_type q = PageType_code LeafPage" "page_id q = pid" "left_pid q = lpid"
    "right_pid q = rpid" "garbage_bytes q = 0" "slot_array_size q = length ss"
    "free_space_end_offset q = 4095 - lens ss" "slots q = compact 4095 ss"
    "map (tuple_of q) (compact 4095 ss) = map (tuple_of buffer) ss"
    "\<And>i. 4096 \<le> i \<Longrightarrow> q i = page i"
proof -
  define hd where "hd = set_garbage_bytes (set_right_pid (set_left_pid (set_page_id
    (set_page_type page LeafPage) pid) lpid) rpid) 0"
  obtain r cnt fe where loop: "make_page_loop buffer start n hd 0 4095 = (r, cnt, fe)"
    by (metis prod_cases3)
  from make_page_loop_spec [OF loop assms(2)] assms(3)
  have cnt: "cnt = length ss" and fe: "fe = 4095 - lens ss"
    and sl: "map (slot_at r) [0..<length ss] = compact 4095 ss"
    and tp: "map (tuple_of r) (compact 4095 ss) = map (tuple_of buffer) ss"
    and fr: "\<And>j. j < 31 \<or> 4095 < j \<Longrightarrow> r j = hd j"
    by auto
  have q: "q = set_free_space_end_offset (set_slot_array_size r (length ss)) (4095 - lens ss)"
  proof (cases "n = 0")
    case True
    then have "r = hd" "ss = []" using loop assms(2) by simp_all
    then show ?thesis using assms(1) True by (simp add: LeafPage_MakePage_def hd_def Let_def)
  next
    case False
    then show ?thesis using assms(1) loop cnt fe by (simp add: LeafPage_MakePage_def hd_def Let_def)
  qed
  have ld: "load_le r a k = load_le hd a k" if "a + k \<le> 31" for a k
    by (rule load_le_cong) (use fr that in simp)
  show "page_type q = PageType_code LeafPage" "page_id q = pid" "left_pid q = lpid"
    "right_pid q = rpid" "garbage_bytes q = 0"
    unfolding q by (simp_all add: mem_simps ld hd_def)
  show sz: "slot_array_size q = length ss" and "free_space_end_offset q = 4095 - lens ss"
    unfolding q using assms(3) by (simp_all add: mem_simps)
  have sr: "slot_at q = slot_at r"
    by (rule ext, rule slot_at_cong) (simp add: q store_le_outside)
  show "slots q = compact 4095 ss"
    unfolding slots_def sz using sl by (simp add: sr)
  have "tuple_of q s = tuple_of r s" if "s \<in> set (compact 4095 ss)" for s
  proof (rule tuple_of_cong)
    fix i assume "offset s \<le> i"
    moreover have "4095 - lens ss < offset s" using compact_bounds [OF _ that] assms(3) by simp
    ultimately have "31 \<le> i" using assms(3) by linarith
    then show "q i = r i" by (simp add: q store_le_outside)
  qed
  then show "map (tuple_of q) (compact 4095 ss) = map (tuple_of buffer) ss"
    unfolding tp [symmetric] by simp
  show "q i = page i" if "4096 \<le> i" for i
    using that fr [of i] by (simp add: q hd_def store_le_outside)
qed

lemma MakePage_fresh:
  assumes q: "LeafPage_MakePage page start n buffer pid lpid rpid = q"
    and ss: "ss = live (map (slot_at buffer) [start..<start + n])"
    and fits: "31 + 5 * length ss + lens ss \<le> 4096"
    and lens: "\<And>s. s \<in> set ss \<Longrightarrow> 21 \<le> len s \<and> len s \<le> 808"
    and srt: "sorted (map (\<lambda>s. tuple_key (tuple_of buffer s)) ss)"
  shows "fresh_page q buffer ss pid lpid rpid"
proof -
  note h = MakePage_header [OF q ss fits]
  have tp: "tuples q = map (tuple_of buffer) ss" by (simp add: tuples_def h(8,9))
  have "leaf_wf q"
    unfolding leaf_wf_def h(1,5,6,7,8) tp
  proof (intro conjI ballI)
    show "31 + 5 * length ss \<le> 4095 - lens ss + 1" using fits by simp
    show "sorted (map tuple_key (map (tuple_of buffer) ss))" using srt by (simp add: comp_def)
    show "sorted_wrt disjoint_slots (live (compact 4095 ss))"
      using fits by (simp add: compact_disjoint)
    fix s assume s: "s \<in> set (compact 4095 ss)"
    then obtain t where "t \<in> set ss" "len s = len t" using compact_len by blast
    then show "21 \<le> len s" "len s \<le> 808" using lens by simp_all
  next
    fix s assume s: "s \<in> set (live (compact 4095 ss))"
    then show "4095 - lens ss < offset s" "offset s + len s \<le> 4096"
      using compact_bounds [of ss 4095 s] fits by simp_all
  qed (use fits in simp_all)
  then show ?thesis
    using h tp by (simp add: fresh_page_def used_space_def)
qed

lemma Defragment_fresh:
  assumes wf: "leaf_wf p"
  shows "fresh_page (LeafPage_DefragmentPage p) p (live (slots p)) (page_id p) (left_pid p) (right_pid p)"
proof (rule MakePage_fresh)
  show "LeafPage_MakePage p 0 (slot_array_size p) p (page_id p) (left_pid p) (right_pid p) =
      LeafPage_DefragmentPage p"
    by (simp add: LeafPage_DefragmentPage_def)
  show "live (slots p) = live (map (slot_at p) [0..<0 + slot_array_size p])"
    by (simp add: slots_def)
  have "length (live (slots p)) \<le> slot_array_size p"
    unfolding live_def by (metis length_filter_le length_slots)
  then show "31 + 5 * length (live (slots p)) + lens (live (slots p)) \<le> 4096"
    using leaf_wfD(2,3,8) [OF wf] by linarith
  show "21 \<le> len s \<and> len s \<le> 808" if "s \<in> set (live (slots p))" for s
    using leaf_wfD(4) [OF wf live_sub [OF that]] .
  show "sorted (map (\<lambda>s. tuple_key (tuple_of p s)) (live (slots p)))"
    using leaf_wfD(7) [OF wf] by (simp add: tuples_def comp_def)
qed

lemma Defragment_outside: "leaf_wf p \<Longrightarrow> 4096 \<le> i \<Longrightarrow> LeafPage_DefragmentPage p i = p i"
proof -
  assume wf: "leaf_wf p" and i: "4096 \<le> i"
  have "length (live (slots p)) \<le> slot_array_size p"
    unfolding live_def by (metis length_filter_le length_slots)
  then have "31 + 5 * length (live (slots p)) + lens (live (slots p)) \<le> 4096"
    using leaf_wfD(2,3,8) [OF wf] by linarith
  then show ?thesis
    using MakePage_header(10) [of p 0 "slot_array_size p" p "page_id p" "left_pid p" "right_pid p"
      "LeafPage_DefragmentPage p" "live (slots p)"] i
    by (simp add: LeafPage_DefragmentPage_def slots_def)
qed

section \<open>WriteChunkLeaf\<close>

text \<open>
  \<open>place_tuple\<close> is the part of \<open>WriteChunkLeaf\<close> both branches repeat: it finds the place of
  the key, opens a slot there or takes over a deleted slot just before it, moves
  \<open>free_space_end_offset\<close> and writes the payload and the tuple header. \<open>default_tuple\<close> is the
  memory at the given header, if any. The code's memory \<open>buffer\<close> starts at the chunk to write.
\<close>

definition open_slot :: "mem \<Rightarrow> nat \<Rightarrow> nat \<Rightarrow> nat \<Rightarrow> nat \<times> mem" where
  "open_slot page it off payload_size =
    (let n = slot_array_size page;
         insert_slot = set_slot_array_size (set_slot (shift_slots page it n) it off payload_size)
           (u16 (int n + 1))
     in if it = 0 then (it, insert_slot)
        else if is_deleted (slot_at page (it - 1)) then (it - 1, set_slot page (it - 1) off payload_size)
        else (it, insert_slot))"

definition place_tuple ::
    "mem \<Rightarrow> nat \<Rightarrow> mem \<Rightarrow> nat \<Rightarrow> Key \<Rightarrow> mem option \<Rightarrow> WriteStatus \<times> mem" where
  "place_tuple page payload_size buffer buffer_size key default_tuple =
    (let n = slot_array_size page;
         it = LeafPage_upper_bound page n key;
         off = u16 (int (free_space_end_offset page) - int payload_size + 1);
         (it, page1) = open_slot page it off payload_size;
         page2 = set_free_space_end_offset page1 (u16 (int (offset (slot_at page1 it)) - 1));
         addr = offset (slot_at page2 it);
         count = nat ((int payload_size - int TUPLE_HEADER_SIZE) mod 18446744073709551616);
         page3 = memcpy page2 (addr + TUPLE_HEADER_SIZE) buffer 0 count;
         page4 = (case default_tuple of
             None \<Rightarrow> store_u32 (store_u64 (store_u8 page3 addr 0) (addr + 1) 0) (addr + 9)
                       (u32 (int buffer_size))
           | Some th \<Rightarrow> memcpy page3 addr th 0 TUPLE_HEADER_SIZE)
     in (\<lparr>written = u16 (int payload_size - int TUPLE_HEADER_SIZE),
          overflow_info_store_address = Some addr\<rparr>, page4))"

definition LeafPage_WriteChunkLeaf ::
    "mem \<Rightarrow> mem \<Rightarrow> nat \<Rightarrow> Key \<Rightarrow> mem option \<Rightarrow> WriteStatus \<times> mem" where
  "LeafPage_WriteChunkLeaf page buffer buffer_size key default_tuple =
    (let data_size = min (u32 (int SLOT_SIZE + int TUPLE_HEADER_SIZE + int buffer_size)) MAX_LEAF_PAGE_DATA;
         available_space = CheckAvailableSpace page;
         total_space = available_space + CheckGarbageBytes page
     in if data_size \<le> total_space then
          let page = (if data_size > available_space then LeafPage_DefragmentPage page else page);
              payload_size = u16 (int data_size - int SLOT_SIZE)
          in place_tuple page payload_size buffer buffer_size key default_tuple
        else
          let payload_size = u16 (int total_space - int SLOT_SIZE);
              page = (if available_space < total_space then LeafPage_DefragmentPage page else page)
          in place_tuple page payload_size buffer buffer_size key default_tuple)"

text \<open>The abstract effect: the tuple goes after every tuple with a key not above its own.\<close>

definition insert_tuple :: "byte list \<Rightarrow> byte list list \<Rightarrow> byte list list" where
  "insert_tuple t ts =
     filter (\<lambda>u. tuple_key u \<le> tuple_key t) ts @ t # filter (\<lambda>u. tuple_key t < tuple_key u) ts"

text \<open>The tuple written: the header (fresh, or the given one) and the chunk of the buffer.\<close>

definition tuple_header :: "nat \<Rightarrow> mem option \<Rightarrow> byte list" where
  "tuple_header buffer_size default_tuple =
    (case default_tuple of
       None \<Rightarrow> bytes (store_u32 (\<lambda>_. 0) 9 (u32 (int buffer_size))) 0 13
     | Some th \<Rightarrow> bytes th 0 13)"

definition chunk_tuple :: "nat \<Rightarrow> mem \<Rightarrow> nat \<Rightarrow> mem option \<Rightarrow> byte list" where
  "chunk_tuple payload_size buffer buffer_size default_tuple =
     tuple_header buffer_size default_tuple @ bytes buffer 0 (payload_size - 13)"

lemma length_chunk_tuple: "13 \<le> n \<Longrightarrow> length (chunk_tuple n buffer sz th) = n"
  by (simp add: chunk_tuple_def tuple_header_def split: option.split)

lemma tuple_key_chunk: "21 \<le> n \<Longrightarrow> tuple_key (chunk_tuple n buffer sz th) = load_u64 buffer 0"
  unfolding tuple_key_def
  by (rule arg_cong [where f = word_of_nat], rule load_le_cong)
    (simp add: of_bytes_def chunk_tuple_def nth_append tuple_header_def split: option.split)

lemma sorted_insert_tuple:
  "sorted (map tuple_key ts) \<Longrightarrow> sorted (map tuple_key (insert_tuple t ts))"
  by (auto simp: insert_tuple_def sorted_append sorted_map sorted_wrt_filter intro: order_trans)

lemma filter_cut:
  "\<forall>x \<in> set xs. P x \<Longrightarrow> \<forall>y \<in> set ys. \<not> P y \<Longrightarrow> filter P (xs @ ys) = xs \<and> filter (\<lambda>x. \<not> P x) (xs @ ys) = ys"
  by (simp add: filter_empty_conv filter_id_conv)

lemma slots_insert:
  assumes k: "k \<le> slot_array_size p" and b: "off < 65536" "m < 65536" "slot_array_size p < 65535"
  shows "slots (set_slot_array_size (set_slot (shift_slots p k (slot_array_size p)) k off m)
      (u16 (int (slot_array_size p) + 1))) =
    take k (slots p) @ \<lparr>is_deleted = False, offset = off, len = m\<rparr> # drop k (slots p)" (is "slots ?q = _")
proof -
  have sz: "slot_array_size ?q = Suc (slot_array_size p)" using b by (simp add: nat_add_distrib)
  show ?thesis
    unfolding slots_def sz
    by (rule map_upt_insert)
      (use k b in \<open>auto simp: slot_at_set_slot slot_at_shift_before slot_at_shift_after\<close>)
qed

lemma slots_reuse:
  assumes k: "k < slot_array_size p" and b: "off < 65536" "m < 65536"
  shows "slots (set_slot p k off m) = (slots p)[k := \<lparr>is_deleted = False, offset = off, len = m\<rparr>]"
proof -
  have sz: "slot_array_size (set_slot p k off m) = slot_array_size p" by (simp add: mem_simps)
  show ?thesis
    unfolding slots_def sz by (rule map_upt_update) (use k b in \<open>simp_all add: slot_at_set_slot\<close>)
qed

lemma open_slot_spec:
  assumes r: "open_slot p k off m = (it, q)" and k: "k \<le> slot_array_size p"
    and b: "off < 65536" "m < 65536" "slot_array_size p < 65535"
  obtains A B where
    "slots q = A @ \<lparr>is_deleted = False, offset = off, len = m\<rparr> # B"
    "live A = live (take k (slots p))" "live B = live (drop k (slots p))"
    "lens A + lens B \<le> lens (slots p)" "set A \<union> set B \<subseteq> set (slots p)" "it = length A"
    "slot_array_size q \<le> Suc (slot_array_size p)"
    "\<And>i. i < 11 \<or> 13 \<le> i \<and> i < 31 \<or> 36 + 5 * slot_array_size p \<le> i \<Longrightarrow> q i = p i"
proof (cases "k \<noteq> 0 \<and> is_deleted (slot_at p (k - 1))")
  case True
  then have q: "it = k - 1" "q = set_slot p (k - 1) off m"
    using r by (auto simp: open_slot_def Let_def)
  have k1: "k - 1 < slot_array_size p" "Suc (k - 1) = k" using True k by (cases k, simp_all)+
  define A B where "A = take (k - 1) (slots p)" and "B = drop k (slots p)"
  have sl: "slots p = A @ slot_at p (k - 1) # B"
    using id_take_nth_drop [of "k - 1" "slots p"] k1 by (simp add: A_def B_def)
  have tk: "take k (slots p) = A @ [slot_at p (k - 1)]"
    using take_Suc_conv_app_nth [of "k - 1" "slots p"] k1 by (simp add: A_def)
  show ?thesis
  proof (rule that [of A B])
    show "slots q = A @ \<lparr>is_deleted = False, offset = off, len = m\<rparr> # B"
      unfolding q(2) slots_reuse [OF k1(1) b(1,2)] using k1
      by (simp add: upd_conv_take_nth_drop A_def B_def)
    show "live A = live (take k (slots p))" "live B = live (drop k (slots p))"
      using True by (simp_all add: tk B_def)
    show "lens A + lens B \<le> lens (slots p)" "set A \<union> set B \<subseteq> set (slots p)" by (auto simp: sl)
    show "it = length A" using q k1 by (simp add: A_def)
    show "slot_array_size q \<le> Suc (slot_array_size p)" by (simp add: q(2) mem_simps)
    fix i assume "i < 11 \<or> 13 \<le> i \<and> i < 31 \<or> 36 + 5 * slot_array_size p \<le> i"
    then show "q i = p i" using k1 by (auto simp: q(2) set_slot_outside)
  qed
next
  case False
  then have q: "it = k" "q = set_slot_array_size (set_slot (shift_slots p k (slot_array_size p)) k off m)
      (u16 (int (slot_array_size p) + 1))"
    using r by (auto simp: open_slot_def Let_def split: if_splits)
  show ?thesis
  proof (rule that [of "take k (slots p)" "drop k (slots p)"])
    show "slots q = take k (slots p) @ \<lparr>is_deleted = False, offset = off, len = m\<rparr> # drop k (slots p)"
      unfolding q(2) by (rule slots_insert [OF k b])
    show "lens (take k (slots p)) + lens (drop k (slots p)) \<le> lens (slots p)"
      by (metis append_take_drop_id lens_simps(3) order_refl)
    show "set (take k (slots p)) \<union> set (drop k (slots p)) \<subseteq> set (slots p)"
      by (simp add: set_take_subset set_drop_subset)
    show "it = length (take k (slots p))" using q k by simp
    show "slot_array_size q \<le> Suc (slot_array_size p)"
      using b(3) by (simp add: q(2) nat_add_distrib)
    fix i assume "i < 11 \<or> 13 \<le> i \<and> i < 31 \<or> 36 + 5 * slot_array_size p \<le> i"
    then show "q i = p i" using k by (auto simp: q(2) store_le_outside set_slot_outside shift_slots_outside)
  qed simp_all
qed

text \<open>What inserting the tuple \<open>t\<close> makes of a page \<open>p\<close>.\<close>

definition inserted :: "mem \<Rightarrow> mem \<Rightarrow> byte list \<Rightarrow> bool" where
  "inserted p q t \<longleftrightarrow>
     leaf_wf q \<and> tuples q = insert_tuple t (tuples p) \<and> used_space q \<le> used_space p + length t + 5 \<and>
     page_id q = page_id p \<and> left_pid q = left_pid p \<and> right_pid q = right_pid p \<and>
     (\<forall>i \<ge> 4096. q i = p i)"

lemma tuples_upper_split:
  assumes wf: "leaf_wf p" and k: "k = LeafPage_upper_bound p (slot_array_size p) (tuple_key t)"
  shows "insert_tuple t (tuples p) = map (tuple_of p) (live (take k (slots p))) @ t #
    map (tuple_of p) (live (drop k (slots p)))"
proof -
  have "live (slots p) = live (take k (slots p)) @ live (drop k (slots p))"
    by (metis append_take_drop_id live_simps(3))
  then have tp: "tuples p =
      map (tuple_of p) (live (take k (slots p))) @ map (tuple_of p) (live (drop k (slots p)))"
    by (simp add: tuples_def)
  note cut = upper_bound_cut(3,4) [OF wf wf, of "tuple_key t", folded k]
  show ?thesis
    unfolding insert_tuple_def tp using cut
    by (auto simp: filter_empty_conv filter_id_conv not_le)
qed

text \<open>The last writes of \<open>place_tuple\<close>: the end of the free space, the payload, the header.\<close>

definition write_tuple :: "mem \<Rightarrow> nat \<Rightarrow> nat \<Rightarrow> mem \<Rightarrow> nat \<Rightarrow> mem option \<Rightarrow> mem" where
  "write_tuple page1 off m buffer buffer_size default_tuple =
    (let page2 = set_free_space_end_offset page1 (u16 (int off - 1));
         page3 = memcpy page2 (off + 13) buffer 0 (m - 13)
     in case default_tuple of
          None \<Rightarrow> store_u32 (store_u64 (store_u8 page3 off 0) (off + 1) 0) (off + 9) (u32 (int buffer_size))
        | Some th \<Rightarrow> memcpy page3 off th 0 13)"

lemma write_tuple_outside:
  "13 \<le> m \<Longrightarrow> i < off \<or> off + m \<le> i \<Longrightarrow> i < 9 \<or> 11 \<le> i \<Longrightarrow> write_tuple p off m buffer sz th i = p i"
  by (auto simp: write_tuple_def Let_def store_le_outside memcpy_outside split: option.split)

lemma load_write_tuple_free:
  "13 \<le> m \<Longrightarrow> 11 < off \<Longrightarrow> off \<le> 65536 \<Longrightarrow>
    free_space_end_offset (write_tuple p off m buffer sz th) = off - 1"
  by (auto simp: write_tuple_def Let_def mem_simps of_nat_diff split: option.split)

lemma load_write_tuple_other [mem_simps]:
  "13 \<le> m \<Longrightarrow> a + k \<le> off \<Longrightarrow> a + k \<le> 9 \<or> 11 \<le> a \<Longrightarrow>
    load_le (write_tuple p off m buffer sz th) a k = load_le p a k"
  by (rule load_le_cong) (auto simp: write_tuple_outside)

lemma bytes_write_tuple:
  assumes "13 \<le> m" "11 \<le> off"
  shows "bytes (write_tuple p off m buffer sz th) off m = chunk_tuple m buffer sz th"
proof -
  let ?q = "write_tuple p off m buffer sz th"
  have "bytes ?q off (13 + (m - 13)) = bytes ?q off 13 @ bytes ?q (off + 13) (m - 13)"
    by (rule bytes_append)
  moreover have "bytes ?q (off + 13) (m - 13) = bytes buffer 0 (m - 13)"
    by (rule bytes_cong)
      (auto simp: write_tuple_def Let_def store_le_outside memcpy_def split: option.split)
  moreover have "bytes ?q off 13 = tuple_header sz th"
    by (cases th) (auto simp: tuple_header_def write_tuple_def Let_def store_le_def memcpy_def intro!: bytes_cong)
  ultimately show ?thesis using assms by (simp add: chunk_tuple_def)
qed

lemma place_tuple_eq:
  assumes "open_slot p (LeafPage_upper_bound p (slot_array_size p) key)
      (u16 (int (free_space_end_offset p) - int m + 1)) m = (it, page1)"
    and "offset (slot_at page1 it) = off" and "13 \<le> m" "m < 18446744073709551616"
  shows "place_tuple p m buffer sz key th =
    (\<lparr>written = u16 (int m - 13), overflow_info_store_address = Some off\<rparr>,
     write_tuple page1 off m buffer sz th)"
proof -
  have "nat ((int m - 13) mod 18446744073709551616) = m - 13" using assms(3,4) by (simp add: nat_diff_distrib)
  then show ?thesis using assms(1,2) by (simp add: place_tuple_def write_tuple_def Let_def split: option.split)
qed

text \<open>
  A page \<open>q\<close> that came out of \<open>p\<close> by a slot for \<open>m\<close> bytes at \<open>off\<close>, just below the tuple area,
  between the slots \<open>A\<close> and \<open>B\<close>, and by writes to these bytes.
\<close>

definition placed :: "mem \<Rightarrow> mem \<Rightarrow> SlotArrayElement list \<Rightarrow> SlotArrayElement list \<Rightarrow> nat \<Rightarrow> nat \<Rightarrow> bool" where
  "placed p q A B off m \<longleftrightarrow>
     31 + 5 * (slot_array_size p + 1) \<le> off \<and> off + m = free_space_end_offset p + 1 \<and>
     slots q = A @ \<lparr>is_deleted = False, offset = off, len = m\<rparr> # B \<and> live (slots p) = live A @ live B \<and>
     lens A + lens B \<le> lens (slots p) \<and> set A \<union> set B \<subseteq> set (slots p) \<and>
     slot_array_size q \<le> Suc (slot_array_size p) \<and> free_space_end_offset q = off - 1 \<and>
     (\<forall>a c. a + c \<le> 9 \<or> 13 \<le> a \<and> a + c \<le> 31 \<longrightarrow> load_le q a c = load_le p a c) \<and> (\<forall>i. off + m \<le> i \<longrightarrow> q i = p i)"

lemma place_tuple_placed:
  assumes wf: "leaf_wf p" and m: "21 \<le> m" "m \<le> 808" and room: "5 + m \<le> CheckAvailableSpace p"
    and r: "place_tuple p m buffer sz key th = (st, q)" and k: "k = LeafPage_upper_bound p (slot_array_size p) key"
  shows "\<exists>A B off. placed p q A B off m \<and> live A = live (take k (slots p)) \<and> live B = live (drop k (slots p)) \<and>
    st = \<lparr>written = m - 13, overflow_info_store_address = Some off\<rparr> \<and> bytes q off m = chunk_tuple m buffer sz th"
proof -
  define n fe off where "n = slot_array_size p" and "fe = free_space_end_offset p" and "off = fe + 1 - m"
  have bd: "fe \<le> 4095" "n \<le> 156" "31 + 5 * (n + 1) + m \<le> fe + 1"
    using leaf_wfD(2,3) [OF wf] leaf_wf_slot_bound [OF wf] room
    by (simp_all add: n_def fe_def CheckAvailableSpace_wf [OF wf])
  then have off: "31 + 5 * (n + 1) \<le> off" "off + m = fe + 1" "off \<le> 4095"
    and off16: "u16 (int fe - int m + 1) = off"
    using m by (simp_all add: off_def)
  obtain it page1 where os: "open_slot p k off m = (it, page1)" by (cases "open_slot p k off m")
  have pre: "k \<le> slot_array_size p" "off < 65536" "m < 65536" "slot_array_size p < 65535"
    using upper_bound_cut(1) [OF wf wf] off m bd by (simp_all add: n_def k)
  obtain A B where sl: "slots page1 = A @ \<lparr>is_deleted = False, offset = off, len = m\<rparr> # B"
    and AB: "live A = live (take k (slots p))" "live B = live (drop k (slots p))"
      "lens A + lens B \<le> lens (slots p)" "set A \<union> set B \<subseteq> set (slots p)"
    and it: "it = length A" and sz1: "slot_array_size page1 \<le> Suc n"
    and fr: "\<And>i. i < 11 \<or> 13 \<le> i \<and> i < 31 \<or> 36 + 5 * n \<le> i \<Longrightarrow> page1 i = p i"
    using open_slot_spec [OF os pre] unfolding n_def by metis
  have "slot_array_size page1 = length A + Suc (length B)" using arg_cong [OF sl, of length] by simp
  then have "slot_at page1 it = slots page1 ! it" using it by simp
  then have "offset (slot_at page1 it) = off" by (simp add: sl it)
  moreover have "open_slot p (LeafPage_upper_bound p (slot_array_size p) key)
      (u16 (int (free_space_end_offset p) - int m + 1)) m = (it, page1)"
    using os off16 by (simp add: k fe_def)
  moreover have "u16 (int m - 13) = m - 13" using m by (simp add: nat_diff_distrib)
  moreover have "13 \<le> m" "m < 18446744073709551616" using m by simp_all
  ultimately have "(st, q) = (\<lparr>written = m - 13, overflow_info_store_address = Some off\<rparr>, write_tuple page1 off m buffer sz th)"
    using place_tuple_eq [of p key m it page1 off buffer sz th] r by simp
  then have st: "st = \<lparr>written = m - 13, overflow_info_store_address = Some off\<rparr>"
    and q: "q = write_tuple page1 off m buffer sz th" by simp_all
  have ld: "load_le q a c = load_le p a c" if "a + c \<le> 9 \<or> 13 \<le> a \<and> a + c \<le> 31" for a c
  proof -
    have "load_le q a c = load_le page1 a c" using that m off by (auto simp: q load_write_tuple_other)
    also have "\<dots> = load_le p a c" by (rule load_le_cong) (use that fr in auto)
    finally show ?thesis .
  qed
  have fe': "free_space_end_offset q = off - 1"
    unfolding q using m off by (intro load_write_tuple_free) auto
  have size: "slot_array_size q = slot_array_size page1"
    unfolding q using m off by (intro load_write_tuple_other) auto
  have slq: "slots q = slots page1"
    unfolding slots_def size
    by (rule map_cong [OF refl], rule slot_at_cong) (use sz1 off m in \<open>auto simp: q write_tuple_outside\<close>)
  have lv: "live (slots p) = live A @ live B"
    by (metis AB(1,2) append_take_drop_id live_simps(3))
  have "q i = p i" if "off + m \<le> i" for i
    using that m off fr [of i] by (simp add: q write_tuple_outside)
  then have "placed p q A B off m"
    using off AB(3,4) lv sl slq size sz1 fe' ld by (simp add: placed_def n_def fe_def)
  moreover have "bytes q off m = chunk_tuple m buffer sz th"
    using bytes_write_tuple [of m off page1 buffer sz th] m off by (simp add: q)
  ultimately show ?thesis using AB(1,2) st by blast
qed

lemma placed_wf:
  assumes wf: "leaf_wf p" and pl: "placed p q A B off m" and m: "21 \<le> m" "m \<le> 808"
    and tp: "sorted (map tuple_key (tuples q))"
  shows "leaf_wf q"
proof -
  note pd = pl [unfolded placed_def]
  let ?s = "\<lparr>is_deleted = False, offset = off, len = m\<rparr>"
  have slq: "slots q = A @ ?s # B" and lv: "live (slots p) = live A @ live B" and fe: "free_space_end_offset q = off - 1"
    and off: "31 + 5 * (slot_array_size p + 1) \<le> off" "off + m = free_space_end_offset p + 1" and size: "slot_array_size q \<le> Suc (slot_array_size p)"
    and ld: "load_le q 0 (Suc 0) = load_le p 0 (Suc 0)" "load_le q 13 2 = load_le p 13 2"
    and AB: "lens A + lens B \<le> lens (slots p)" "set A \<union> set B \<subseteq> set (slots p)"
    using pd by simp_all
  have bd: "free_space_end_offset p \<le> 4095" by (rule leaf_wfD(3) [OF wf])
  have sums: "lens (live A) + lens (live B) + garbage_bytes p = 4095 - free_space_end_offset p"
    "lens (slots p) \<le> 4095 - free_space_end_offset p"
    using leaf_wfD(8,9) [OF wf] by (simp_all add: lv)
  show ?thesis
    unfolding leaf_wf_def fe slq
  proof (intro conjI ballI)
    show "31 + 5 * slot_array_size q \<le> off - 1 + 1" using size off by simp
    show "sorted_wrt disjoint_slots (live (A @ ?s # B))"
      using leaf_wfD(5,6) [OF wf] off by (fastforce simp: lv sorted_wrt_append disjoint_slots_def)
    fix s assume "s \<in> set (A @ ?s # B)"
    then have "s \<in> set (slots p) \<or> s = ?s" using AB(2) by auto
    then show "21 \<le> len s" "len s \<le> 808" using leaf_wfD(4) [OF wf, of s] m by auto
  next
    fix s assume "s \<in> set (live (A @ ?s # B))"
    then have "s \<in> set (live (slots p)) \<or> s = ?s" by (auto simp: lv)
    then show "off - 1 < offset s" "offset s + len s \<le> 4096"
      using leaf_wfD(5) [OF wf, of s] off bd by auto
  qed (use leaf_wfD(1) [OF wf] ld sums AB(1) off m bd tp in simp_all)
qed

lemma placed_inserted:
  assumes wf: "leaf_wf p" and pl: "placed p q A B off m" and m: "21 \<le> m" "m \<le> 808" and t: "bytes q off m = t"
    and k: "k = LeafPage_upper_bound p (slot_array_size p) (tuple_key t)"
    and AB: "live A = live (take k (slots p))" "live B = live (drop k (slots p))"
  shows "inserted p q t" "garbage_bytes q = garbage_bytes p"
proof -
  note pd = pl [unfolded placed_def]
  have slq: "slots q = A @ \<lparr>is_deleted = False, offset = off, len = m\<rparr> # B" and lv: "live (slots p) = live A @ live B"
    using pd by simp_all
  show "garbage_bytes q = garbage_bytes p" using pd by simp
  have old: "tuple_of q s = tuple_of p s" if "s \<in> set (live (slots p))" for s
    by (rule tuples_frame [OF wf _ that]) (use pd in simp)
  have "tuples q = map (tuple_of p) (live A) @ t # map (tuple_of p) (live B)"
    using old t by (simp add: tuples_def slq lv tuple_of_def)
  also have "\<dots> = insert_tuple t (tuples p)"
    unfolding AB by (rule tuples_upper_split [OF wf k, symmetric])
  finally have tp: "tuples q = insert_tuple t (tuples p)" .
  then have "sorted (map tuple_key (tuples q))" using sorted_insert_tuple leaf_wfD(7) [OF wf] by simp
  from placed_wf [OF wf pl m this] have "leaf_wf q" .
  moreover have "length t = m" using t by auto
  then have "used_space q \<le> used_space p + length t + 5"
    using pd by (simp add: used_space_def)
  moreover have "off + m \<le> 4096" using pd leaf_wfD(3) [OF wf] by simp
  ultimately show "inserted p q t" using tp pd by (auto simp: inserted_def)
qed

lemma place_tuple_correct:
  assumes wf: "leaf_wf p" and m: "21 \<le> m" "m \<le> 808"
    and room: "5 + m \<le> CheckAvailableSpace p" and key: "load_u64 buffer 0 = key"
    and r: "place_tuple p m buffer sz key th = (st, q)"
  shows "inserted p q (chunk_tuple m buffer sz th)" "written st = m - 13"
    "garbage_bytes q = garbage_bytes p"
    "\<exists>off. overflow_info_store_address st = Some off \<and> 31 \<le> off \<and> off + m \<le> 4096 \<and>
      bytes q off m = chunk_tuple m buffer sz th"
proof -
  have tk: "tuple_key (chunk_tuple m buffer sz th) = key" using tuple_key_chunk m key by simp
  from place_tuple_placed [OF wf m room r refl] obtain A B off where
    p: "placed p q A B off m" "st = \<lparr>written = m - 13, overflow_info_store_address = Some off\<rparr>"
      "bytes q off m = chunk_tuple m buffer sz th"
    and AB: "live A = live (take (LeafPage_upper_bound p (slot_array_size p) key) (slots p))"
      "live B = live (drop (LeafPage_upper_bound p (slot_array_size p) key) (slots p))"
    by blast
  show "inserted p q (chunk_tuple m buffer sz th)" "garbage_bytes q = garbage_bytes p"
    by (rule placed_inserted [OF wf p(1) m p(3) _ AB]; simp add: tk)+
  show "written st = m - 13" by (simp add: p(2))
  show "\<exists>off. overflow_info_store_address st = Some off \<and> 31 \<le> off \<and> off + m \<le> 4096 \<and>
      bytes q off m = chunk_tuple m buffer sz th"
    using p leaf_wfD(3) [OF wf] by (auto simp: placed_def)
qed

text \<open>The size of the tuple the code writes for a buffer of \<open>buffer_size\<close> bytes.\<close>

definition chunk_size :: "mem \<Rightarrow> nat \<Rightarrow> nat" where
  "chunk_size p buffer_size = min (min (18 + buffer_size) 813) (4065 - used_space p) - 5"

lemma Defragment_used:
  assumes wf: "leaf_wf p"
  shows "leaf_wf (LeafPage_DefragmentPage p)" "tuples (LeafPage_DefragmentPage p) = tuples p"
    "used_space (LeafPage_DefragmentPage p) \<le> used_space p"
    "CheckAvailableSpace (LeafPage_DefragmentPage p) = 4065 - used_space (LeafPage_DefragmentPage p)"
proof -
  note f = Defragment_fresh [OF wf, unfolded fresh_page_def]
  show 1: "leaf_wf (LeafPage_DefragmentPage p)" using f by simp
  show "tuples (LeafPage_DefragmentPage p) = tuples p" using f by (simp add: tuples_def)
  have "length (live (slots p)) \<le> slot_array_size p"
    unfolding live_def by (metis length_filter_le length_slots)
  then show "used_space (LeafPage_DefragmentPage p) \<le> used_space p"
    using f by (simp add: used_space_def)
  show "CheckAvailableSpace (LeafPage_DefragmentPage p) = 4065 - used_space (LeafPage_DefragmentPage p)"
    using space_accounting [OF 1] f by (simp add: CheckGarbageBytes_def)
qed

lemma inserted_after_defragment:
  assumes wf: "leaf_wf p" and i: "inserted (LeafPage_DefragmentPage p) q t"
  shows "inserted p q t"
  using i Defragment_used [OF wf] Defragment_outside [OF wf] Defragment_fresh [OF wf]
  by (simp add: inserted_def fresh_page_def)

lemma WriteChunkLeaf_correct:
  assumes wf: "leaf_wf p" and bs: "8 \<le> bs" "bs < 4294967278"
    and room: "min MIN_LEAF_PAGE_DATA (18 + bs) \<le> CheckAvailableSpace p + CheckGarbageBytes p"
    and key: "load_u64 buffer 0 = key"
    and r: "LeafPage_WriteChunkLeaf p buffer bs key th = (st, q)"
  shows "inserted p q (chunk_tuple (chunk_size p bs) buffer bs th)"
    "written st = chunk_size p bs - 13" "21 \<le> chunk_size p bs" "chunk_size p bs \<le> 808"
    "\<exists>off. overflow_info_store_address st = Some off \<and> 31 \<le> off \<and> off + chunk_size p bs \<le> 4096 \<and>
      bytes q off (chunk_size p bs) = chunk_tuple (chunk_size p bs) buffer bs th"
proof -
  let ?total = "CheckAvailableSpace p + CheckGarbageBytes p"
  have total: "?total = 4065 - used_space p" using space_accounting [OF wf] by simp
  define m where "m = chunk_size p bs"
  define p1 where "p1 = (if 5 + m > CheckAvailableSpace p then LeafPage_DefragmentPage p else p)"
  have m: "21 \<le> m" "m \<le> 808" "5 + m \<le> ?total" and m_def': "5 + m = min (min (18 + bs) 813) ?total"
    using bs room by (auto simp: m_def chunk_size_def total)
  have ds: "u32 (int SLOT_SIZE + int TUPLE_HEADER_SIZE + int bs) = 18 + bs"
    using bs by (simp add: nat_add_distrib)
  have "LeafPage_WriteChunkLeaf p buffer bs key th = place_tuple p1 m buffer bs key th"
  proof (cases "min (18 + bs) 813 \<le> ?total")
    case True
    then have d: "min (18 + bs) 813 = 5 + m" using m_def' by simp
    have u: "u16 (int (5 + m) - int SLOT_SIZE) = m" using m by simp
    show ?thesis
      unfolding LeafPage_WriteChunkLeaf_def Let_def ds leaf_constants(9) d u p1_def
      using m(3) by simp
  next
    case False
    then have d: "?total = 5 + m" using m_def' by simp
    have u: "u16 (int (5 + m) - int SLOT_SIZE) = m" using m by simp
    show ?thesis
      unfolding LeafPage_WriteChunkLeaf_def Let_def ds leaf_constants(9) d u p1_def
      using False d by simp
  qed
  then have pt: "place_tuple p1 m buffer bs key th = (st, q)" using r by simp
  have wf1: "leaf_wf p1" using wf Defragment_used(1) by (simp add: p1_def)
  have room1: "5 + m \<le> CheckAvailableSpace p1"
    using m(3) Defragment_used(3,4) [OF wf] by (auto simp: p1_def total)
  note * = place_tuple_correct [OF wf1 m(1,2) room1 key pt]
  show "inserted p q (chunk_tuple (chunk_size p bs) buffer bs th)"
    using *(1) inserted_after_defragment [OF wf] by (auto simp: p1_def m_def split: if_splits)
  show "written st = chunk_size p bs - 13" "21 \<le> chunk_size p bs" "chunk_size p bs \<le> 808"
    using *(2) m by (simp_all add: m_def)
  show "\<exists>off. overflow_info_store_address st = Some off \<and> 31 \<le> off \<and> off + chunk_size p bs \<le> 4096 \<and>
      bytes q off (chunk_size p bs) = chunk_tuple (chunk_size p bs) buffer bs th"
    using *(4) unfolding m_def .
qed

end
