(* ===== verification/Leaf_Rebalance.thy ===== *)
theory Leaf_Rebalance
  imports Leaf_Write
begin

text \<open>
  Splitting, borrowing and merging leaf pages (\<open>leaf_page.cpp\<close>). Proved: a split cuts the
  tuple sequence in two well-formed pages and returns the first key of the second, and after
  the split of a full page both halves have room for the smallest entry; borrowing moves a run
  of tuples across the boundary; merging appends the tuples of one page to the other; and
  when a page underflows and its sibling refuses to lend, the merge never runs out of space.
\<close>

section \<open>HandleSplit\<close>

text \<open>
  \<open>split_scan\<close> is the first loop: it returns \<open>slot_array_new_page_start\<close> (index 0, its initial
  value, when the loop ends without a cut) and \<open>live_count\<close>. \<open>split_count\<close> is the second one.
\<close>

definition split_threshold :: nat where
  "split_threshold = (PAGE_SIZE - LEAF_PAGE_HEADER_SIZE) div 2"

lemma split_threshold_val [simp]: "split_threshold = 2032"
  by (simp add: split_threshold_def)

fun split_scan :: "mem \<Rightarrow> nat \<Rightarrow> nat \<Rightarrow> nat \<Rightarrow> nat \<Rightarrow> nat \<Rightarrow> nat \<times> nat" where
  "split_scan buffer n i 0 consumed_space live_count = (0, live_count)"
| "split_scan buffer n i (Suc k) consumed_space live_count =
    (if is_deleted (slot_at buffer i) then split_scan buffer n (Suc i) k consumed_space live_count
     else
       let consumed_space = u16 (int consumed_space + int (len (slot_at buffer i)));
           live_count = u16 (int live_count + 1)
       in if consumed_space > split_threshold then (skip_deleted buffer n (Suc i), live_count)
          else split_scan buffer n (Suc i) k consumed_space live_count)"

fun split_count :: "mem \<Rightarrow> nat \<Rightarrow> nat \<Rightarrow> nat \<Rightarrow> nat \<Rightarrow> nat" where
  "split_count buffer 0 start cnt half = start"
| "split_count buffer (Suc k) start cnt half =
    (if is_deleted (slot_at buffer start) then split_count buffer k (Suc start) cnt half
     else if u16 (int cnt + 1) > half then start
     else split_count buffer k (Suc start) (u16 (int cnt + 1)) half)"

text \<open>The result is the boundary key with the two pages after the call.\<close>

definition LeafPage_HandleSplit :: "mem \<Rightarrow> mem \<Rightarrow> PageID \<Rightarrow> Key \<times> mem \<times> mem" where
  "LeafPage_HandleSplit old_page new_page new_pid =
    (let buffer = old_page;
         n = slot_array_size buffer;
         (start, live_count) = split_scan buffer n 0 n 0 0
     in if live_count = 0 then (0, old_page, new_page)
        else
          let start = (if start = n \<or> start = 0 then split_count buffer n 0 0 (live_count div 2) else start);
              old_page = LeafPage_MakePage old_page 0 start buffer (page_id buffer) (left_pid buffer) new_pid;
              new_page = LeafPage_MakePage new_page start (n - start) buffer new_pid (page_id buffer)
                (right_pid buffer)
          in (GetKeyFromSlotElement buffer start, old_page, new_page))"

section \<open>CanLend\<close>

text \<open>
  \<open>CanLendFromRight\<close> walks the slots from the last to the first, \<open>CanLendFromLeft\<close> from the
  first to the last; the walk itself is the same.
\<close>

definition cannot_borrow :: BorrowQuery where
  "cannot_borrow = \<lparr>can_borrow = False, borrow_amount = 0\<rparr>"

fun can_lend_loop :: "SlotArrayElement list \<Rightarrow> nat \<Rightarrow> nat \<Rightarrow> nat \<Rightarrow> nat \<Rightarrow> BorrowQuery" where
  "can_lend_loop [] usedspace needed count_space brw_count = cannot_borrow"
| "can_lend_loop (cur # rest) usedspace needed count_space brw_count =
    (if \<not> count_space < needed then cannot_borrow
     else if is_deleted cur then can_lend_loop rest usedspace needed count_space brw_count
     else
       let usedspace = u16 (int usedspace - int (len cur + SLOT_SIZE))
       in if usedspace \<le> LEAF_UNDERFLOW_THRESHOLD then cannot_borrow
          else
            let count_space = u16 (int (count_space + len cur + SLOT_SIZE));
                brw_count = u16 (int brw_count + 1)
            in if count_space \<ge> needed then \<lparr>can_borrow = True, borrow_amount = brw_count\<rparr>
               else can_lend_loop rest usedspace needed count_space brw_count)"

definition lend_usedspace :: "mem \<Rightarrow> nat" where
  "lend_usedspace p = u16 (int PAGE_SIZE - int (CheckAvailableSpace p) - int (CheckGarbageBytes p)
     - int LEAF_PAGE_HEADER_SIZE)"

definition LeafPage_CanLendFromRight :: "mem \<Rightarrow> nat \<Rightarrow> BorrowQuery" where
  "LeafPage_CanLendFromRight p needed = can_lend_loop (rev (slots p)) (lend_usedspace p) needed 0 0"

definition LeafPage_CanLendFromLeft :: "mem \<Rightarrow> nat \<Rightarrow> BorrowQuery" where
  "LeafPage_CanLendFromLeft p needed = can_lend_loop (slots p) (lend_usedspace p) needed 0 0"

section \<open>Borrowing and merging\<close>

text \<open>Copying the tuple of slot \<open>i\<close> of \<open>from\<close>, header included, into page \<open>to\<close>.\<close>

definition copy_tuple :: "mem \<Rightarrow> mem \<Rightarrow> nat \<Rightarrow> mem" where
  "copy_tuple to from i =
    (let s = slot_at from i;
         key = GetKeyFromSlotElement from i
     in snd (LeafPage_WriteChunkLeaf to (ptr from (offset s + TUPLE_HEADER_SIZE))
          (nat (int (len s) - int TUPLE_HEADER_SIZE)) key (Some (ptr from (offset s)))))"

text \<open>
  The loops of the two borrows. \<open>None\<close> is a walk past the end of the lender's directory, which
  is undefined in the code; the first loop has \<open>lender_curr\<close> at index \<open>i - 1\<close>, the second one
  at index \<open>i\<close> with \<open>k\<close> slots left.
\<close>

fun left_borrow_loop :: "mem \<Rightarrow> mem \<Rightarrow> nat \<Rightarrow> nat \<Rightarrow> (mem \<times> mem) option" where
  "left_borrow_loop borrower lender i 0 = Some (borrower, lender)"
| "left_borrow_loop borrower lender 0 (Suc amount) = None"
| "left_borrow_loop borrower lender (Suc i) (Suc amount) =
    (if is_deleted (slot_at lender i) then left_borrow_loop borrower lender i (Suc amount)
     else left_borrow_loop (copy_tuple borrower lender i) (mark_deleted lender i) i amount)"

fun right_borrow_loop :: "mem \<Rightarrow> mem \<Rightarrow> nat \<Rightarrow> nat \<Rightarrow> nat \<Rightarrow> (mem \<times> mem) option" where
  "right_borrow_loop borrower lender i k 0 = Some (borrower, lender)"
| "right_borrow_loop borrower lender i 0 (Suc amount) = None"
| "right_borrow_loop borrower lender i (Suc k) (Suc amount) =
    (if is_deleted (slot_at lender i) then right_borrow_loop borrower lender (Suc i) k (Suc amount)
     else right_borrow_loop (copy_tuple borrower lender i) (mark_deleted lender i) (Suc i) k amount)"

definition LeafPage_HandleLeftBorrow :: "mem \<Rightarrow> mem \<Rightarrow> BorrowQuery \<Rightarrow> (Key \<times> mem \<times> mem) option" where
  "LeafPage_HandleLeftBorrow borrower lender report =
    (case left_borrow_loop borrower lender (slot_array_size lender) (borrow_amount report) of
       None \<Rightarrow> None
     | Some (borrower, lender) \<Rightarrow> Some (GetPageFirstKey borrower, borrower, lender))"

definition LeafPage_HandleRightBorrow :: "mem \<Rightarrow> mem \<Rightarrow> BorrowQuery \<Rightarrow> (Key \<times> mem \<times> mem) option" where
  "LeafPage_HandleRightBorrow borrower lender report =
    (case right_borrow_loop borrower lender 0 (slot_array_size lender) (borrow_amount report) of
       None \<Rightarrow> None
     | Some (borrower, lender) \<Rightarrow> Some (GetPageFirstKey lender, borrower, lender))"

text \<open>\<open>None\<close> is the exception \<open>MergePages\<close> throws when a tuple does not fit.\<close>

fun merge_loop :: "mem \<Rightarrow> mem \<Rightarrow> nat \<Rightarrow> nat \<Rightarrow> mem option" where
  "merge_loop to from i 0 = Some to"
| "merge_loop to from i (Suc k) =
    (if is_deleted (slot_at from i) then merge_loop to from (Suc i) k
     else if u16 (int (CheckGarbageBytes to + CheckAvailableSpace to)) < len (slot_at from i) + SLOT_SIZE
       then None
     else merge_loop (copy_tuple to from i) from (Suc i) k)"

definition LeafPage_MergePages :: "mem \<Rightarrow> mem \<Rightarrow> mem option" where
  "LeafPage_MergePages to from =
    merge_loop (set_right_pid to (right_pid from)) from 0 (slot_array_size from)"

section \<open>WriteChunkOverflow\<close>

text \<open>An overflow page: type at 0, id at 1, the \<open>overflow\<close> flag at 9, the next page at 10.\<close>

definition LeafPage_WriteChunkOverflow :: "mem \<Rightarrow> mem \<Rightarrow> nat \<Rightarrow> WriteStatus \<times> mem" where
  "LeafPage_WriteChunkOverflow page buffer buffer_size =
    (if buffer_size + OVERFLOW_PAGE_HEADER_SIZE > PAGE_SIZE then
       let written_size = u16 (int PAGE_SIZE - int OVERFLOW_PAGE_HEADER_SIZE);
           page = memcpy page OVERFLOW_PAGE_HEADER_SIZE buffer 0 written_size
       in (\<lparr>written = written_size,
            overflow_info_store_address = Some OVERFLOW_PAGE_OVERFLOW_INFO_OFFSET\<rparr>, page)
     else
       let page = memcpy page OVERFLOW_PAGE_HEADER_SIZE buffer 0 buffer_size;
           page = store_u8 page OVERFLOW_PAGE_OVERFLOW_INFO_OFFSET 0;
           page = store_u64 page (OVERFLOW_PAGE_OVERFLOW_INFO_OFFSET + 1) 0
       in (\<lparr>written = u16 (int buffer_size), overflow_info_store_address = None\<rparr>, page))"

section \<open>The split is a cut of the tuple sequence\<close>

lemma live_take_Suc:
  "i < slot_array_size p \<Longrightarrow> live (take (Suc i) (slots p)) =
    live (take i (slots p)) @ (if is_deleted (slot_at p i) then [] else [slot_at p i])"
  by (simp add: take_Suc_conv_app_nth)

lemma live_take_skip:
  assumes "a \<le> slot_array_size p"
  shows "live (take (skip_deleted p (slot_array_size p) a) (slots p)) = live (take a (slots p))"
proof -
  let ?k = "skip_deleted p (slot_array_size p) a"
  have "take ?k (slots p) = take a (slots p) @ take (?k - a) (drop a (slots p))"
    using skip_deleted_ge [of a p "slot_array_size p"] by (metis le_add_diff_inverse take_add)
  moreover have "is_deleted s" if "s \<in> set (take (?k - a) (drop a (slots p)))" for s
  proof -
    from that obtain i where i: "i < ?k - a" "a + i < slot_array_size p" "s = slots p ! (a + i)"
      using assms by (auto simp: in_set_conv_nth)
    then show ?thesis using skip_deleted_dead [of a "a + i" p "slot_array_size p"] by simp
  qed
  then have "live (take (?k - a) (drop a (slots p))) = []" by (simp add: live_def filter_empty_conv)
  ultimately show ?thesis by simp
qed

lemma live_take_le: "length (live (take i ss)) \<le> length (live ss)" "lens (live (take i ss)) \<le> lens (live ss)"
proof -
  have "live ss = live (take i ss) @ live (drop i ss)" by (metis append_take_drop_id live_simps(3))
  then show "length (live (take i ss)) \<le> length (live ss)" "lens (live (take i ss)) \<le> lens (live ss)"
    by simp_all
qed

lemma leaf_wf_live_bounds:
  assumes "leaf_wf p"
  shows "length (live (slots p)) \<le> 156" "lens (live (slots p)) \<le> 4065"
proof -
  show "length (live (slots p)) \<le> 156"
    using leaf_wf_slot_bound [OF assms] unfolding live_def by (metis length_filter_le length_slots order_trans)
  show "lens (live (slots p)) \<le> 4065" using leaf_wfD(2,8) [OF assms] by simp
qed

lemma split_scan_spec:
  assumes wf: "leaf_wf p"
  shows "i + k = slot_array_size p \<Longrightarrow> lens (live (take i (slots p))) \<le> 2032 \<Longrightarrow>
    split_scan p (slot_array_size p) i k (lens (live (take i (slots p))))
      (length (live (take i (slots p)))) = (start, cnt) \<Longrightarrow>
    (start = 0 \<and> lens (live (slots p)) \<le> 2032 \<and> cnt = length (live (slots p))) \<or>
    (\<exists>j < slot_array_size p. \<not> is_deleted (slot_at p j) \<and> start = skip_deleted p (slot_array_size p) (Suc j) \<and>
       lens (live (take j (slots p))) \<le> 2032 \<and> 2032 < lens (live (take (Suc j) (slots p))) \<and>
       cnt = length (live (take (Suc j) (slots p))))"
proof (induction k arbitrary: i)
  case 0
  then show ?case by simp
next
  case (Suc k)
  have i: "i < slot_array_size p" "Suc i + k = slot_array_size p" using Suc.prems(1) by simp_all
  show ?case
  proof (cases "is_deleted (slot_at p i)")
    case True
    then show ?thesis
      using Suc.IH [OF i(2)] Suc.prems(2,3) by (simp add: live_take_Suc [OF i(1)])
  next
    case False
    have b: "lens (live (take (Suc i) (slots p))) \<le> 4065" "length (live (take (Suc i) (slots p))) \<le> 156"
      using live_take_le [of "Suc i" "slots p"] leaf_wf_live_bounds [OF wf] by linarith+
    then have c: "u16 (int (lens (live (take i (slots p)))) + int (len (slot_at p i))) =
        lens (live (take (Suc i) (slots p)))"
      "u16 (int (length (live (take i (slots p)))) + 1) = length (live (take (Suc i) (slots p)))"
      using False by (simp_all add: live_take_Suc [OF i(1)] nat_add_distrib)
    show ?thesis
    proof (cases "2032 < lens (live (take (Suc i) (slots p)))")
      case True
      then have "start = skip_deleted p (slot_array_size p) (Suc i)"
        "cnt = length (live (take (Suc i) (slots p)))"
        using Suc.prems(3) False c by (simp_all add: Let_def)
      then show ?thesis using True False i Suc.prems(2) by blast
    next
      case cut: False
      then show ?thesis using Suc.IH [OF i(2)] Suc.prems(3) False c by (simp add: Let_def)
    qed
  qed
qed

lemma split_count_spec:
  "i + k = slot_array_size p \<Longrightarrow> length (live (take i (slots p))) \<le> half \<Longrightarrow>
    half < length (live (slots p)) \<Longrightarrow> length (live (slots p)) \<le> 156 \<Longrightarrow>
    split_count p k i (length (live (take i (slots p)))) half = start \<Longrightarrow>
    start < slot_array_size p \<and> \<not> is_deleted (slot_at p start) \<and> length (live (take start (slots p))) = half"
proof (induction k arbitrary: i)
  case 0
  then show ?case by simp
next
  case (Suc k)
  have i: "i < slot_array_size p" "Suc i + k = slot_array_size p" using Suc.prems(1) by simp_all
  show ?case
  proof (cases "is_deleted (slot_at p i)")
    case True
    then show ?thesis
      using Suc.IH [OF i(2)] Suc.prems by (simp add: live_take_Suc [OF i(1)])
  next
    case False
    have u: "u16 (int (length (live (take i (slots p)))) + 1) = Suc (length (live (take i (slots p))))"
      using Suc.prems(2-4) by (simp add: nat_add_distrib)
    show ?thesis
    proof (cases "Suc (length (live (take i (slots p)))) > half")
      case True
      then show ?thesis using Suc.prems False u i by simp
    next
      case more: False
      then show ?thesis
        using Suc.IH [OF i(2)] Suc.prems False u by (simp add: live_take_Suc [OF i(1)])
    qed
  qed
qed

text \<open>The index the split cuts at: a live slot, with live slots before it if there are two.\<close>

lemma split_start:
  assumes wf: "leaf_wf p" and ne: "live (slots p) \<noteq> []"
    and sc: "split_scan p (slot_array_size p) 0 (slot_array_size p) 0 0 = (start, cnt)"
    and k: "k = (if start = slot_array_size p \<or> start = 0
      then split_count p (slot_array_size p) 0 0 (cnt div 2) else start)"
  shows "cnt \<noteq> 0" "k < slot_array_size p" "\<not> is_deleted (slot_at p k)"
    "2 \<le> length (live (slots p)) \<Longrightarrow> live (take k (slots p)) \<noteq> []"
    "2840 < lens (live (slots p)) \<Longrightarrow> lens (live (take k (slots p))) \<le> 2840 \<and>
      2032 < lens (live (take k (slots p)))"
proof -
  let ?n = "slot_array_size p" and ?ss = "slots p"
  have "split_scan p ?n 0 ?n (lens (live (take 0 ?ss))) (length (live (take 0 ?ss))) = (start, cnt)"
    using sc by simp
  from split_scan_spec [OF wf _ _ this]
  have cases: "(start = 0 \<and> lens (live ?ss) \<le> 2032 \<and> cnt = length (live ?ss)) \<or>
    (\<exists>j < ?n. \<not> is_deleted (slot_at p j) \<and> start = skip_deleted p ?n (Suc j) \<and>
       lens (live (take j ?ss)) \<le> 2032 \<and> 2032 < lens (live (take (Suc j) ?ss)) \<and>
       cnt = length (live (take (Suc j) ?ss)))" by simp
  have "cnt \<noteq> 0 \<and> k < ?n \<and> \<not> is_deleted (slot_at p k) \<and>
    (2 \<le> length (live ?ss) \<longrightarrow> live (take k ?ss) \<noteq> []) \<and>
    (2840 < lens (live ?ss) \<longrightarrow> lens (live (take k ?ss)) \<le> 2840 \<and> 2032 < lens (live (take k ?ss)))"
  proof (cases "start = ?n \<or> start = 0")
    case True
    have cnt: "cnt = length (live ?ss) \<and> lens (live ?ss) \<le> 2840"
    proof (cases "start = 0 \<and> lens (live ?ss) \<le> 2032 \<and> cnt = length (live ?ss)")
      case False
      then obtain j where j: "j < ?n" "\<not> is_deleted (slot_at p j)" "start = skip_deleted p ?n (Suc j)"
          "lens (live (take j ?ss)) \<le> 2032" "cnt = length (live (take (Suc j) ?ss))" using cases by blast
      have "start \<noteq> 0" using j skip_deleted_ge [of "Suc j" p ?n] by simp
      then have "start = ?n" using True by simp
      then have "live ?ss = live (take (Suc j) ?ss)" using live_take_skip [of "Suc j" p] j by simp
      moreover have "len (slot_at p j) \<le> 808"
        using j(1) leaf_wfD(4) [OF wf, of "slot_at p j"] by (metis length_slots nth_mem nth_slots)
      ultimately show ?thesis using j by (simp add: live_take_Suc)
    qed auto
    have "cnt div 2 < length (live ?ss)" using cnt ne by simp
    then have "k < ?n \<and> \<not> is_deleted (slot_at p k) \<and> length (live (take k ?ss)) = cnt div 2"
      using split_count_spec [of 0 ?n p "cnt div 2" k] leaf_wf_live_bounds(1) [OF wf] k True by simp
    then show ?thesis using cnt ne by auto
  next
    case False
    then obtain j where j: "j < ?n" "\<not> is_deleted (slot_at p j)" "start = skip_deleted p ?n (Suc j)"
        "lens (live (take j ?ss)) \<le> 2032" "2032 < lens (live (take (Suc j) ?ss))"
        "cnt = length (live (take (Suc j) ?ss))" using cases by blast
    have tk: "live (take k ?ss) = live (take (Suc j) ?ss)"
      using live_take_skip [of "Suc j" p] j False k by simp
    have "k \<le> ?n" using skip_deleted_le [of "Suc j" ?n p] j False k by simp
    then have "k < ?n" using False k by simp
    moreover have "\<not> is_deleted (slot_at p k)"
      using skip_deleted_live [of p ?n "Suc j"] j False k \<open>k < ?n\<close> by simp
    moreover have "len (slot_at p j) \<le> 808"
      using j(1) leaf_wfD(4) [OF wf, of "slot_at p j"] by (metis length_slots nth_mem nth_slots)
    ultimately show ?thesis using j tk by (auto simp: live_take_Suc)
  qed
  then show "cnt \<noteq> 0" "k < ?n" "\<not> is_deleted (slot_at p k)"
    "2 \<le> length (live ?ss) \<Longrightarrow> live (take k ?ss) \<noteq> []"
    "2840 < lens (live ?ss) \<Longrightarrow> lens (live (take k ?ss)) \<le> 2840 \<and> 2032 < lens (live (take k ?ss))"
    by simp_all
qed

text \<open>What a split leaves: two fresh pages, and the key of the first tuple of the second one.\<close>

definition split_pages :: "mem \<Rightarrow> PageID \<Rightarrow> Key \<times> mem \<times> mem \<Rightarrow> bool" where
  "split_pages p new_pid r = (case r of (key, old, new) \<Rightarrow>
     leaf_wf old \<and> leaf_wf new \<and> tuples old @ tuples new = tuples p \<and>
     tuples new \<noteq> [] \<and> key = tuple_key (hd (tuples new)) \<and>
     garbage_bytes old = 0 \<and> garbage_bytes new = 0 \<and>
     page_id old = page_id p \<and> left_pid old = left_pid p \<and> right_pid old = new_pid \<and>
     page_id new = new_pid \<and> left_pid new = page_id p \<and> right_pid new = right_pid p)"

lemma live_cut: "live ss = live (take k ss) @ live (drop k ss)"
  by (metis append_take_drop_id live_simps(3))

lemma live_part_fits:
  assumes wf: "leaf_wf p" and sub: "live (slots p) = A @ ss @ B"
  shows "31 + 5 * length ss + lens ss \<le> 4096" "s \<in> set ss \<Longrightarrow> 21 \<le> len s \<and> len s \<le> 808"
    "sorted (map (\<lambda>s. tuple_key (tuple_of p s)) ss)"
proof -
  have "length (live (slots p)) \<le> slot_array_size p"
    unfolding live_def by (metis length_filter_le length_slots)
  then have "31 + 5 * length (live (slots p)) + lens (live (slots p)) \<le> 4096"
    using leaf_wfD(2,3,8) [OF wf] by linarith
  then show "31 + 5 * length ss + lens ss \<le> 4096" by (simp add: sub)
  show "21 \<le> len s \<and> len s \<le> 808" if "s \<in> set ss"
    using leaf_wfD(4) [OF wf live_sub, of s] that by (simp add: sub)
  show "sorted (map (\<lambda>s. tuple_key (tuple_of p s)) ss)"
    using leaf_wfD(7) [OF wf] by (simp add: tuples_def sub comp_def sorted_append)
qed

lemma fresh_page_space:
  "fresh_page q b ss pid l r \<Longrightarrow> CheckAvailableSpace q + 5 * length ss + lens ss = 4065"
  using space_accounting [of q] by (simp add: fresh_page_def CheckGarbageBytes_def)

lemma slots_take: "k \<le> slot_array_size p \<Longrightarrow> map (slot_at p) [0..<k] = take k (slots p)"
  by (simp add: slots_def take_map)

lemma slots_drop: "k \<le> slot_array_size p \<Longrightarrow> map (slot_at p) [k..<slot_array_size p] = drop k (slots p)"
  by (simp add: slots_def drop_map)

lemma HandleSplit_fresh:
  assumes wf: "leaf_wf p" and ne: "live (slots p) \<noteq> []"
    and r: "LeafPage_HandleSplit p new new_pid = (key, p', new')"
  obtains k where "k < slot_array_size p" "\<not> is_deleted (slot_at p k)"
    "fresh_page p' p (live (take k (slots p))) (page_id p) (left_pid p) new_pid"
    "fresh_page new' p (live (drop k (slots p))) new_pid (page_id p) (right_pid p)"
    "key = GetKeyFromSlotElement p k"
    "2 \<le> length (live (slots p)) \<Longrightarrow> live (take k (slots p)) \<noteq> []"
    "2840 < lens (live (slots p)) \<Longrightarrow> lens (live (take k (slots p))) \<le> 2840 \<and>
      2032 < lens (live (take k (slots p)))"
proof -
  let ?n = "slot_array_size p"
  obtain start cnt where sc: "split_scan p ?n 0 ?n 0 0 = (start, cnt)" by (cases "split_scan p ?n 0 ?n 0 0")
  define k where "k = (if start = ?n \<or> start = 0 then split_count p ?n 0 0 (cnt div 2) else start)"
  note st = split_start [OF wf ne sc k_def]
  have sub: "live (slots p) = [] @ live (take k (slots p)) @ live (drop k (slots p))"
    "live (slots p) = live (take k (slots p)) @ live (drop k (slots p)) @ []"
    by (metis append_Nil append_take_drop_id live_simps(3)) (metis append_Nil2 append_take_drop_id live_simps(3))
  have eqs: "key = GetKeyFromSlotElement p k"
    "LeafPage_MakePage p 0 k p (page_id p) (left_pid p) new_pid = p'"
    "LeafPage_MakePage new k (?n - k) p new_pid (page_id p) (right_pid p) = new'"
    using r st(1) by (simp_all add: LeafPage_HandleSplit_def sc k_def Let_def)
  have "fresh_page p' p (live (take k (slots p))) (page_id p) (left_pid p) new_pid"
    by (rule MakePage_fresh [OF eqs(2)])
      (use st(2) live_part_fits [OF wf sub(1)] in \<open>simp_all add: slots_take\<close>)
  moreover have "fresh_page new' p (live (drop k (slots p))) new_pid (page_id p) (right_pid p)"
    by (rule MakePage_fresh [OF eqs(3)])
      (use st(2) live_part_fits [OF wf sub(2)] in \<open>simp_all add: slots_drop\<close>)
  ultimately show ?thesis using that st(2-5) eqs(1) by blast
qed

lemma HandleSplit_pages:
  assumes wf: "leaf_wf p" and ne: "tuples p \<noteq> []"
    and r: "LeafPage_HandleSplit p new new_pid = (key, p', new')"
  shows "split_pages p new_pid (key, p', new')"
    "2 \<le> length (tuples p) \<Longrightarrow> tuples p' \<noteq> []"
    "used_space p > 3937 \<Longrightarrow> 512 \<le> CheckAvailableSpace p' \<and> 512 \<le> CheckAvailableSpace new'"
proof -
  have ne': "live (slots p) \<noteq> []" using ne by (simp add: tuples_def)
  obtain k where k: "k < slot_array_size p" "\<not> is_deleted (slot_at p k)"
    "fresh_page p' p (live (take k (slots p))) (page_id p) (left_pid p) new_pid"
    "fresh_page new' p (live (drop k (slots p))) new_pid (page_id p) (right_pid p)"
    "key = GetKeyFromSlotElement p k"
    "2 \<le> length (live (slots p)) \<Longrightarrow> live (take k (slots p)) \<noteq> []"
    "2840 < lens (live (slots p)) \<Longrightarrow> lens (live (take k (slots p))) \<le> 2840 \<and>
      2032 < lens (live (take k (slots p)))"
    using HandleSplit_fresh [OF wf ne' r] by metis
  have dr: "live (drop k (slots p)) = slot_at p k # live (drop (Suc k) (slots p))"
    using k(1,2) by (simp flip: Cons_nth_drop_Suc)
  have sp: "live (slots p) = live (take k (slots p)) @ live (drop k (slots p))"
    by (metis append_take_drop_id live_simps(3))
  show "split_pages p new_pid (key, p', new')"
    using k(3,4) key_of_slot [OF wf k(1)] k(5)
    by (simp add: split_pages_def fresh_page_def dr) (simp add: tuples_def sp dr)
  show "tuples p' \<noteq> []" if "2 \<le> length (tuples p)"
    using that k(3,6) by (simp add: fresh_page_def tuples_def)
  show "512 \<le> CheckAvailableSpace p' \<and> 512 \<le> CheckAvailableSpace new'" if full: "used_space p > 3937"
  proof -
    have "lens (live (slots p)) + 5 * slot_array_size p > 3937" using full by (simp add: used_space_def)
    then have big: "2840 < lens (live (slots p))" using leaf_wf_slot_bound [OF wf] by linarith
    have a: "lens (live (take k (slots p))) \<le> 2840" "lens (live (drop k (slots p))) \<le> 2032"
      using k(7) [OF big] leaf_wf_live_bounds(2) [OF wf] by (simp_all add: sp)
    have b: "21 * length (live (take k (slots p))) \<le> lens (live (take k (slots p)))"
      "21 * length (live (drop k (slots p))) \<le> lens (live (drop k (slots p)))"
      using leaf_wfD(4) [OF wf live_sub] sp by (intro lens_mono_len; simp)+
    show ?thesis using k(3,4) a b by (auto dest!: fresh_page_space)
  qed
qed

section \<open>Moving tuples between pages\<close>

definition entries :: "SlotArrayElement list \<Rightarrow> nat" where
  "entries ss = lens ss + 5 * length ss"

lemma entries_simps [simp]:
  "entries [] = 0" "entries (s # ss) = len s + 5 + entries ss" "entries (ss @ ts) = entries ss + entries ts"
  by (simp_all add: entries_def)

lemma entries_live_used: "entries (live (slots p)) \<le> used_space p"
proof -
  have "length (live (slots p)) \<le> slot_array_size p"
    unfolding live_def by (metis length_filter_le length_slots)
  then show ?thesis by (simp add: entries_def used_space_def)
qed

lemma used_space_le: "leaf_wf p \<Longrightarrow> used_space p \<le> 4065"
  using space_accounting [of p] by simp

lemma copy_tuple_inserted:
  assumes wf: "leaf_wf to" "leaf_wf from" and i: "i < slot_array_size from"
    and room: "used_space to + len (slot_at from i) + 5 \<le> 4065"
  shows "inserted to (copy_tuple to from i) (tuple_of from (slot_at from i))"
proof -
  let ?s = "slot_at from i"
  let ?buf = "ptr from (offset ?s + TUPLE_HEADER_SIZE)" and ?th = "Some (ptr from (offset ?s))"
  have s: "21 \<le> len ?s" "len ?s \<le> 808"
    using leaf_wfD(4) [OF wf(2), of ?s] i by (metis length_slots nth_mem nth_slots)+
  obtain st q where r: "LeafPage_WriteChunkLeaf to ?buf (len ?s - 13)
      (GetKeyFromSlotElement from i) ?th = (st, q)" by (metis prod.exhaust)
  have sz: "chunk_size to (len ?s - 13) = len ?s" using s room by (simp add: chunk_size_def)
  have "inserted to q (chunk_tuple (chunk_size to (len ?s - 13)) ?buf (len ?s - 13) ?th)"
    by (rule WriteChunkLeaf_correct [OF wf(1) _ _ _ _ r])
      (use s room space_accounting [OF wf(1)] in \<open>simp_all add: GetKeyFromSlotElement_def\<close>)
  moreover have "chunk_tuple (len ?s) ?buf (len ?s - 13) ?th = tuple_of from ?s"
    using s bytes_append [of "from" "offset ?s" 13 "len ?s - 13"]
    by (simp add: chunk_tuple_def tuple_header_def tuple_of_def)
  moreover have "copy_tuple to from i = q"
    using r s by (simp add: copy_tuple_def nat_diff_distrib)
  ultimately show ?thesis by (simp add: sz)
qed

lemma insert_tuple_last:
  "\<forall>u \<in> set ts. tuple_key u \<le> tuple_key t \<Longrightarrow> insert_tuple t ts = ts @ [t]"
  by (auto simp: insert_tuple_def filter_id_conv filter_empty_conv not_less)

lemma insert_tuple_first:
  "\<forall>u \<in> set ts. tuple_key t < tuple_key u \<Longrightarrow> insert_tuple t ts = t # ts"
  by (auto simp: insert_tuple_def filter_id_conv filter_empty_conv not_le)

text \<open>Same identity and links.\<close>

definition same_links :: "mem \<Rightarrow> mem \<Rightarrow> bool" where
  "same_links p q \<longleftrightarrow> page_id q = page_id p \<and> left_pid q = left_pid p \<and> right_pid q = right_pid p"

lemma same_links_refl [simp]: "same_links p p"
  by (simp add: same_links_def)

lemma same_links_trans: "same_links p q \<Longrightarrow> same_links q r \<Longrightarrow> same_links p r"
  by (simp add: same_links_def)

lemma inserted_links: "inserted p q t \<Longrightarrow> same_links p q"
  by (simp add: inserted_def same_links_def)

lemma mark_deleted_links [simp]: "same_links p (mark_deleted p k)"
  by (simp add: mark_deleted_def same_links_def mem_simps)

lemma merge_loop_correct:
  assumes wf: "leaf_wf from"
  shows "leaf_wf to \<Longrightarrow> i + k = slot_array_size from \<Longrightarrow>
    sorted (map tuple_key (tuples to @ map (tuple_of from) (live (drop i (slots from))))) \<Longrightarrow>
    (merge_loop to from i k = Some q \<longrightarrow> leaf_wf q \<and> same_links to q \<and>
      tuples q = tuples to @ map (tuple_of from) (live (drop i (slots from)))) \<and>
    (used_space to + entries (live (drop i (slots from))) \<le> 4065 \<longrightarrow> merge_loop to from i k \<noteq> None)"
proof (induction k arbitrary: to i)
  case 0
  then show ?case by auto
next
  case (Suc k)
  let ?s = "slot_at from i"
  have i: "i < slot_array_size from" "Suc i + k = slot_array_size from" using Suc.prems(2) by simp_all
  have dr: "drop i (slots from) = ?s # drop (Suc i) (slots from)" using i(1) by (simp flip: Cons_nth_drop_Suc)
  show ?case
  proof (cases "is_deleted ?s")
    case True
    then show ?thesis using Suc.IH [OF Suc.prems(1) i(2)] Suc.prems(3) by (simp add: dr)
  next
    case False
    have u: "u16 (int (CheckGarbageBytes to + CheckAvailableSpace to)) = 4065 - used_space to"
      using space_accounting [OF Suc.prems(1)] by simp
    show ?thesis
    proof (cases "4065 - used_space to < len ?s + 5")
      case True
      then have "merge_loop to from i (Suc k) = None" using False u by simp
      then show ?thesis using True False by (simp add: dr)
    next
      case room: False
      then have ins: "inserted to (copy_tuple to from i) (tuple_of from ?s)"
        using i(1) used_space_le [OF Suc.prems(1)] by (intro copy_tuple_inserted Suc.prems(1) wf) simp_all
      have "tuples (copy_tuple to from i) = tuples to @ [tuple_of from ?s]"
        using ins Suc.prems(3) False
        by (auto simp: inserted_def dr sorted_append intro!: insert_tuple_last)
      moreover have "used_space (copy_tuple to from i) \<le> used_space to + len ?s + 5"
        using ins by (simp add: inserted_def tuple_of_def)
      moreover have "merge_loop to from i (Suc k) = merge_loop (copy_tuple to from i) from (Suc i) k"
        using room False u by simp
      ultimately show ?thesis
        using Suc.IH [OF _ i(2), of "copy_tuple to from i"] Suc.prems(3) ins inserted_links [OF ins] False
        by (auto simp: dr inserted_def intro: same_links_trans)
    qed
  qed
qed

section \<open>Lending\<close>

lemma lend_usedspace_eq: "leaf_wf p \<Longrightarrow> lend_usedspace p = used_space p"
proof -
  assume wf: "leaf_wf p"
  then have "int PAGE_SIZE - int (CheckAvailableSpace p) - int (CheckGarbageBytes p)
      - int LEAF_PAGE_HEADER_SIZE = int (used_space p)"
    using space_accounting [OF wf] by simp
  then show ?thesis using used_space_le [OF wf] by (simp add: lend_usedspace_def)
qed

text \<open>A live tuple is counted when the page keeps more than the minimum without it.\<close>

lemma can_lend_loop_live:
  assumes "\<not> is_deleted s" "len s + 5 \<le> used" "used + cnt \<le> 4065" "cnt < needed" "5 * brw \<le> cnt"
  shows "can_lend_loop (s # ss) used needed cnt brw =
    (if used - (len s + 5) \<le> 1626 then cannot_borrow
     else if needed \<le> cnt + len s + 5 then \<lparr>can_borrow = True, borrow_amount = Suc brw\<rparr>
     else can_lend_loop ss (used - (len s + 5)) needed (cnt + len s + 5) (Suc brw))"
proof -
  have u: "u16 (int used - int (len s + SLOT_SIZE)) = used - (len s + 5)"
    "u16 (int (cnt + len s + SLOT_SIZE)) = cnt + len s + 5" "u16 (int brw + 1) = Suc brw"
    using assms(2,3,5) by (simp_all add: of_nat_diff nat_add_distrib nat_diff_distrib)
  show ?thesis unfolding can_lend_loop.simps Let_def u using assms(1,4) by simp
qed

text \<open>
  What the query promises: a number of tuples that covers the need, by less than a tuple too much,
  and leaves the minimum; or that there is no such number.
\<close>

definition lendable :: "SlotArrayElement list \<Rightarrow> nat \<Rightarrow> nat \<Rightarrow> nat \<Rightarrow> nat \<Rightarrow> BorrowQuery \<Rightarrow> bool" where
  "lendable ss used needed cnt brw q \<longleftrightarrow>
     (if can_borrow q then
        \<exists>r. 0 < r \<and> r \<le> length (live ss) \<and> borrow_amount q = brw + r \<and>
          needed \<le> cnt + entries (take r (live ss)) \<and> cnt + entries (take r (live ss)) < needed + 813 \<and>
          1626 + entries (take r (live ss)) < used
      else used + cnt \<le> 2438 + needed \<or> cnt + entries (live ss) < needed)"

lemma lendable_Cons:
  assumes "\<not> is_deleted s" "len s + 5 \<le> used" and l: "lendable ss (used - (len s + 5)) needed (cnt + len s + 5) (Suc brw) q"
  shows "lendable (s # ss) used needed cnt brw q"
proof (cases "can_borrow q")
  case True
  with l obtain r where "0 < r" "r \<le> length (live ss)" "borrow_amount q = Suc brw + r"
    "needed \<le> cnt + len s + 5 + entries (take r (live ss))"
    "cnt + len s + 5 + entries (take r (live ss)) < needed + 813"
    "1626 + entries (take r (live ss)) < used - (len s + 5)" by (auto simp: lendable_def)
  then show ?thesis using True assms(1,2) by (auto simp: lendable_def intro!: exI [of _ "Suc r"])
next
  case False
  then show ?thesis using assms by (auto simp: lendable_def)
qed

lemma can_lend_loop_spec:
  "\<forall>s \<in> set ss. len s \<le> 808 \<Longrightarrow> entries (live ss) \<le> used \<Longrightarrow> used + cnt \<le> 4065 \<Longrightarrow>
    cnt < needed \<Longrightarrow> 5 * brw \<le> cnt \<Longrightarrow> lendable ss used needed cnt brw (can_lend_loop ss used needed cnt brw)"
proof (induction ss arbitrary: used cnt brw)
  case Nil
  then show ?case by (simp add: lendable_def cannot_borrow_def)
next
  case (Cons s ss)
  show ?case
  proof (cases "is_deleted s")
    case True
    then show ?thesis using Cons.IH [of used cnt brw] Cons.prems by (simp add: lendable_def)
  next
    case False
    have l: "len s \<le> 808" "len s + 5 + entries (live ss) \<le> used" "len s + 5 \<le> used" using Cons.prems(1,2) False by simp_all
    note loop = can_lend_loop_live [OF False l(3) Cons.prems(3-5), of ss]
    consider "used - (len s + 5) \<le> 1626" | "1626 < used - (len s + 5)" "needed \<le> cnt + len s + 5"
      | "1626 < used - (len s + 5)" "cnt + len s + 5 < needed" by linarith
    then show ?thesis
    proof cases
      case 1
      then have "used + cnt \<le> 2438 + needed" using l Cons.prems(4) by linarith
      then show ?thesis unfolding loop using 1 by (simp add: lendable_def cannot_borrow_def)
    next
      case 2
      then show ?thesis unfolding loop using l Cons.prems(4) False
        by (auto simp: lendable_def intro!: exI [of _ 1])
    next
      case 3
      have "lendable ss (used - (len s + 5)) needed (cnt + len s + 5) (Suc brw)
          (can_lend_loop ss (used - (len s + 5)) needed (cnt + len s + 5) (Suc brw))"
        using Cons.prems(1,3,5) l 3(2) by (intro Cons.IH) simp_all
      from lendable_Cons [OF False l(3) this] show ?thesis unfolding loop using 3 by simp
    qed
  qed
qed

text \<open>The last \<open>r\<close> live slots are the first \<open>r\<close> of the reversed directory.\<close>

lemma live_rev: "live (rev ss) = rev (live ss)"
  by (simp add: live_def rev_filter)

lemma entries_rev [simp]: "entries (rev ss) = entries ss"
  by (induction ss) simp_all

definition lend_report :: "mem \<Rightarrow> nat \<Rightarrow> SlotArrayElement list \<Rightarrow> BorrowQuery \<Rightarrow> bool" where
  "lend_report p needed ss q \<longleftrightarrow>
     (if can_borrow q then
        0 < borrow_amount q \<and> borrow_amount q \<le> length ss \<and>
        needed \<le> entries (take (borrow_amount q) ss) \<and>
        entries (take (borrow_amount q) ss) < needed + 813 \<and>
        1626 + entries (take (borrow_amount q) ss) < used_space p
      else used_space p \<le> 2438 + needed)"

lemma can_lend_loop_page:
  assumes wf: "leaf_wf p" and ss: "set ss = set (slots p)" "entries (live ss) = entries (live (slots p))"
    and needed: "0 < needed"
  shows "lend_report p needed (live ss) (can_lend_loop ss (lend_usedspace p) needed 0 0)"
proof -
  have "\<forall>s \<in> set ss. len s \<le> 808" using leaf_wfD(4) [OF wf] ss(1) by blast
  moreover have "entries (live ss) \<le> used_space p" using entries_live_used ss(2) by simp
  moreover have "used_space p \<le> 780 + entries (live ss)"
    unfolding ss(2) using leaf_wf_slot_bound [OF wf] by (simp add: used_space_def entries_def)
  ultimately show ?thesis
    using can_lend_loop_spec [OF _ _ _ needed, of ss "used_space p" 0] used_space_le [OF wf]
    by (auto simp: lend_report_def lendable_def lend_usedspace_eq [OF wf] split: if_splits)
qed

lemma CanLendFromRight_report:
  "leaf_wf p \<Longrightarrow> 0 < needed \<Longrightarrow>
    lend_report p needed (rev (live (slots p))) (LeafPage_CanLendFromRight p needed)"
  using can_lend_loop_page [of p "rev (slots p)" needed] by (simp add: LeafPage_CanLendFromRight_def live_rev)

lemma CanLendFromLeft_report:
  "leaf_wf p \<Longrightarrow> 0 < needed \<Longrightarrow>
    lend_report p needed (live (slots p)) (LeafPage_CanLendFromLeft p needed)"
  using can_lend_loop_page [of p "slots p" needed] by (simp add: LeafPage_CanLendFromLeft_def)

section \<open>Borrowing\<close>

lemma mark_deleted_size [simp]: "slot_array_size (mark_deleted l k) = slot_array_size l"
  by (simp add: mark_deleted_def mem_simps)

text \<open>One turn: the last live tuple of the left neighbour becomes the first one of the page.\<close>

lemma left_borrow_turn:
  assumes wf: "leaf_wf b" "leaf_wf l" and i: "i < slot_array_size l" "\<not> is_deleted (slot_at l i)"
    and up: "live (drop (Suc i) (slots l)) = []" and so: "sorted_wrt (<) (map tuple_key (tuples l @ tuples b))"
    and room: "used_space b + entries (take (Suc amount) (rev (live (slots l)))) \<le> 4065"
  shows "leaf_wf (copy_tuple b l i)" "leaf_wf (mark_deleted l i)"
    "same_links b (copy_tuple b l i)" "same_links l (mark_deleted l i)"
    "live (drop i (slots (mark_deleted l i))) = []" "live (slots l) = live (slots (mark_deleted l i)) @ [slot_at l i]"
    "tuples l = tuples (mark_deleted l i) @ [tuple_of l (slot_at l i)]"
    "tuples (copy_tuple b l i) = tuple_of l (slot_at l i) # tuples b"
    "used_space (copy_tuple b l i) \<le> used_space b + len (slot_at l i) + 5"
proof -
  let ?s = "slot_at l i" and ?b = "copy_tuple b l i" and ?l = "mark_deleted l i"
  have sl: "live (slots l) = live (take i (slots l)) @ [?s]"
    using live_take_Suc [OF i(1)] i(2) up live_cut [of "slots l" "Suc i"] by simp
  note md = mark_deleted_wf [OF wf(2) i]
  have ll: "live (slots ?l) = live (take i (slots l))"
    using up i(1) by (simp add: slots_mark upd_conv_take_nth_drop)
  show "live (slots l) = live (slots ?l) @ [?s]" by (simp only: sl ll)
  have tl': "tuples ?l = map (tuple_of l) (live (take i (slots l)))" using md(2) up by simp
  show tl: "tuples l = tuples ?l @ [tuple_of l ?s]" by (simp add: tuples_def [of l] sl tl')
  have ins: "inserted b ?b (tuple_of l ?s)"
    using room by (intro copy_tuple_inserted wf so i) (simp add: sl)
  show "tuples ?b = tuple_of l ?s # tuples b"
    using ins so by (auto simp: inserted_def tl sorted_wrt_append intro!: insert_tuple_first)
  show "used_space ?b \<le> used_space b + len ?s + 5" "leaf_wf ?b" using ins by (simp_all add: inserted_def tuple_of_def)
  show "live (drop i (slots ?l)) = []"
    using up i(1) by (simp add: slots_mark drop_update_swap flip: Cons_nth_drop_Suc)
  show "leaf_wf ?l" "same_links l ?l" "same_links b ?b" using md(1) inserted_links [OF ins] by simp_all
qed

lemma left_borrow_loop_correct:
  "leaf_wf b \<Longrightarrow> leaf_wf l \<Longrightarrow> i \<le> slot_array_size l \<Longrightarrow> live (drop i (slots l)) = [] \<Longrightarrow>
    amount \<le> length (live (slots l)) \<Longrightarrow>
    sorted_wrt (<) (map tuple_key (tuples l @ tuples b)) \<Longrightarrow>
    used_space b + entries (take amount (rev (live (slots l)))) \<le> 4065 \<Longrightarrow>
    \<exists>b' l'. left_borrow_loop b l i amount = Some (b', l') \<and> leaf_wf b' \<and> leaf_wf l' \<and>
      same_links b b' \<and> same_links l l' \<and> slot_array_size l' = slot_array_size l \<and>
      tuples l' = take (length (tuples l) - amount) (tuples l) \<and>
      tuples b' = drop (length (tuples l) - amount) (tuples l) @ tuples b"
proof (induction b l i amount rule: left_borrow_loop.induct)
  case (1 b l i)
  then show ?case by simp
next
  case (2 b l amount)
  then show ?case by simp
next
  case (3 b l i amount)
  let ?s = "slot_at l i" and ?b = "copy_tuple b l i" and ?l = "mark_deleted l i"
  note prems = "3.prems"
  have i: "i < slot_array_size l" using prems(3) by simp
  show ?case
  proof (cases "is_deleted ?s")
    case True
    moreover have "live (drop i (slots l)) = []"
      using prems(4) i True by (simp flip: Cons_nth_drop_Suc)
    ultimately show ?thesis using "3.IH"(1) [OF True] prems by simp
  next
    case False
    note t = left_borrow_turn [OF prems(1,2) i False prems(4,6,7)]
    have "\<exists>b' l'. left_borrow_loop ?b ?l i amount = Some (b', l') \<and> leaf_wf b' \<and> leaf_wf l' \<and>
      same_links ?b b' \<and> same_links ?l l' \<and> slot_array_size l' = slot_array_size ?l \<and>
      tuples l' = take (length (tuples ?l) - amount) (tuples ?l) \<and>
      tuples b' = drop (length (tuples ?l) - amount) (tuples ?l) @ tuples ?b"
      using prems(5-7) t(9) i by (intro "3.IH"(2) [OF False t(1,2) _ t(5)]) (simp_all add: t(6-8))
    then obtain b' l' where r: "left_borrow_loop ?b ?l i amount = Some (b', l')" "leaf_wf b'" "leaf_wf l'"
      "same_links ?b b'" "same_links ?l l'" "slot_array_size l' = slot_array_size ?l"
      "tuples l' = take (length (tuples ?l) - amount) (tuples ?l)"
      "tuples b' = drop (length (tuples ?l) - amount) (tuples ?l) @ tuples ?b" by blast
    have "amount \<le> length (tuples ?l)" using prems(5) t(6,7) by (simp add: tuples_def)
    moreover have "same_links b b'" "same_links l l'" using same_links_trans [OF t(3) r(4)] same_links_trans [OF t(4) r(5)] .
    moreover have "left_borrow_loop b l (Suc i) (Suc amount) = Some (b', l')" using r(1) False by simp
    ultimately show ?thesis using r(2,3,6-8) by (simp add: t(7,8))
  qed
qed

text \<open>One turn: the first live tuple of the right neighbour becomes the last one of the page.\<close>

lemma right_borrow_turn:
  assumes wf: "leaf_wf b" "leaf_wf l" and i: "i < slot_array_size l" "\<not> is_deleted (slot_at l i)"
    and lo: "live (take i (slots l)) = []" and so: "sorted (map tuple_key (tuples b @ tuples l))"
    and room: "used_space b + entries (take (Suc amount) (live (slots l))) \<le> 4065"
  shows "leaf_wf (copy_tuple b l i)" "leaf_wf (mark_deleted l i)"
    "same_links b (copy_tuple b l i)" "same_links l (mark_deleted l i)"
    "live (take (Suc i) (slots (mark_deleted l i))) = []" "live (slots l) = slot_at l i # live (slots (mark_deleted l i))"
    "tuples l = tuple_of l (slot_at l i) # tuples (mark_deleted l i)"
    "tuples (copy_tuple b l i) = tuples b @ [tuple_of l (slot_at l i)]"
    "used_space (copy_tuple b l i) \<le> used_space b + len (slot_at l i) + 5"
proof -
  let ?s = "slot_at l i" and ?b = "copy_tuple b l i" and ?l = "mark_deleted l i"
  have sl: "live (slots l) = ?s # live (drop (Suc i) (slots l))"
    using live_take_Suc [OF i(1)] i(2) lo live_cut [of "slots l" "Suc i"] by simp
  note md = mark_deleted_wf [OF wf(2) i]
  have ll: "live (slots ?l) = live (drop (Suc i) (slots l))"
    using lo i(1) by (simp add: slots_mark upd_conv_take_nth_drop)
  show "live (slots l) = ?s # live (slots ?l)" by (simp only: sl ll)
  have tl': "tuples ?l = map (tuple_of l) (live (drop (Suc i) (slots l)))" using md(2) lo by simp
  show tl: "tuples l = tuple_of l ?s # tuples ?l" by (simp add: tuples_def [of l] sl tl')
  have ins: "inserted b ?b (tuple_of l ?s)"
    using room by (intro copy_tuple_inserted wf so i) (simp add: sl)
  show "tuples ?b = tuples b @ [tuple_of l ?s]"
    using ins so by (auto simp: inserted_def tl sorted_append intro!: insert_tuple_last)
  show "used_space ?b \<le> used_space b + len ?s + 5" "leaf_wf ?b" using ins by (simp_all add: inserted_def tuple_of_def)
  show "live (take (Suc i) (slots ?l)) = []"
    using lo i(1) by (simp add: slots_mark take_update_swap take_Suc_conv_app_nth list_update_append)
  show "leaf_wf ?l" "same_links l ?l" "same_links b ?b" using md(1) inserted_links [OF ins] by simp_all
qed

lemma right_borrow_loop_correct:
  "leaf_wf b \<Longrightarrow> leaf_wf l \<Longrightarrow> i + k = slot_array_size l \<Longrightarrow> live (take i (slots l)) = [] \<Longrightarrow>
    amount \<le> length (live (slots l)) \<Longrightarrow>
    sorted (map tuple_key (tuples b @ tuples l)) \<Longrightarrow>
    used_space b + entries (take amount (live (slots l))) \<le> 4065 \<Longrightarrow>
    \<exists>b' l'. right_borrow_loop b l i k amount = Some (b', l') \<and> leaf_wf b' \<and> leaf_wf l' \<and>
      same_links b b' \<and> same_links l l' \<and> slot_array_size l' = slot_array_size l \<and>
      tuples l' = drop amount (tuples l) \<and> tuples b' = tuples b @ take amount (tuples l)"
proof (induction b l i k amount rule: right_borrow_loop.induct)
  case (1 b l i k)
  then show ?case by simp
next
  case (2 b l i amount)
  then show ?case by simp
next
  case (3 b l i k amount)
  let ?s = "slot_at l i" and ?b = "copy_tuple b l i" and ?l = "mark_deleted l i"
  note prems = "3.prems"
  have i: "i < slot_array_size l" "Suc i + k = slot_array_size l" using prems(3) by simp_all
  show ?case
  proof (cases "is_deleted ?s")
    case True
    moreover have "live (take (Suc i) (slots l)) = []" using prems(4) True by (simp add: live_take_Suc [OF i(1)])
    ultimately show ?thesis using "3.IH"(1) [OF True _ _ i(2)] prems by simp
  next
    case False
    note t = right_borrow_turn [OF prems(1,2) i(1) False prems(4,6,7)]
    have "\<exists>b' l'. right_borrow_loop ?b ?l (Suc i) k amount = Some (b', l') \<and> leaf_wf b' \<and> leaf_wf l' \<and>
      same_links ?b b' \<and> same_links ?l l' \<and> slot_array_size l' = slot_array_size ?l \<and>
      tuples l' = drop amount (tuples ?l) \<and> tuples b' = tuples ?b @ take amount (tuples ?l)"
      using prems(5-7) t(9) i by (intro "3.IH"(2) [OF False t(1,2) _ t(5)]) (simp_all add: t(6-8))
    then obtain b' l' where r: "right_borrow_loop ?b ?l (Suc i) k amount = Some (b', l')"
      "leaf_wf b'" "leaf_wf l'" "same_links ?b b'" "same_links ?l l'" "slot_array_size l' = slot_array_size ?l"
      "tuples l' = drop amount (tuples ?l)" "tuples b' = tuples ?b @ take amount (tuples ?l)" by blast
    have "same_links b b'" "same_links l l'" using same_links_trans [OF t(3) r(4)] same_links_trans [OF t(4) r(5)] .
    moreover have "right_borrow_loop b l i (Suc k) (Suc amount) = Some (b', l')" using r(1) False by simp
    ultimately show ?thesis using r(2,3,6-8) by (simp add: t(7,8))
  qed
qed

text \<open>The bytes in use, from the slots and the tuples.\<close>

lemma used_space_tuples: "used_space p = 5 * slot_array_size p + sum_list (map length (tuples p))"
  by (simp add: used_space_def tuples_def lens_def tuple_of_def comp_def)

lemma lens_take_tuples: "lens (take r (live (slots p))) = sum_list (map length (take r (tuples p)))"
  by (simp add: tuples_def lens_def tuple_of_def comp_def take_map)

lemma lens_take_rev_tuples:
  "lens (take r (rev (live (slots p)))) = sum_list (map length (drop (length (tuples p) - r) (tuples p)))"
  by (simp add: tuples_def lens_def tuple_of_def comp_def drop_map take_rev sum_list_rev rev_map [symmetric])

lemma HandleLeftBorrow_correct:
  assumes wf: "leaf_wf b" "leaf_wf l" and amount: "borrow_amount rep \<le> length (tuples l)"
    and srt: "sorted_wrt (<) (map tuple_key (tuples l @ tuples b))" and pos: "0 < borrow_amount rep"
    and room: "used_space b + entries (take (borrow_amount rep) (rev (live (slots l)))) \<le> 4065"
  shows "\<exists>key b' l'. LeafPage_HandleLeftBorrow b l rep = Some (key, b', l') \<and>
      leaf_wf b' \<and> leaf_wf l' \<and> same_links b b' \<and> same_links l l' \<and>
      tuples l' @ tuples b' = tuples l @ tuples b \<and>
      length (tuples b') = length (tuples b) + borrow_amount rep \<and> key = tuple_key (hd (tuples b')) \<and>
      used_space l' + entries (take (borrow_amount rep) (rev (live (slots l)))) \<ge> used_space l"
proof -
  have n: "length (tuples l) = length (live (slots l))" by (simp add: tuples_def)
  from left_borrow_loop_correct [OF wf le_refl _ _ srt room] amount
  obtain b' l' where r: "left_borrow_loop b l (slot_array_size l) (borrow_amount rep) = Some (b', l')"
    "leaf_wf b'" "leaf_wf l'" "same_links b b'" "same_links l l'"
    "tuples l' = take (length (tuples l) - borrow_amount rep) (tuples l)"
    "slot_array_size l' = slot_array_size l"
    "tuples b' = drop (length (tuples l) - borrow_amount rep) (tuples l) @ tuples b"
    by (auto simp: n)
  let ?n = "length (tuples l) - borrow_amount rep"
  have "sum_list (map length (tuples l)) = sum_list (map length (take ?n (tuples l) @ drop ?n (tuples l)))"
    by simp
  then have used: "used_space l' + entries (take (borrow_amount rep) (rev (live (slots l)))) \<ge> used_space l"
    by (simp only: map_append sum_list_append used_space_tuples r(6,7) entries_def lens_take_rev_tuples)
  have "tuples b' \<noteq> []" using r(8) pos amount by (cases "tuples l") auto
  then have "GetPageFirstKey b' = tuple_key (hd (tuples b'))"
    by (simp add: GetPageFirstKey_tuples [OF r(2)] split: list.split)
  then show ?thesis using r amount used by (auto simp: LeafPage_HandleLeftBorrow_def)
qed

lemma HandleRightBorrow_correct:
  assumes wf: "leaf_wf b" "leaf_wf l" and amount: "borrow_amount rep < length (tuples l)"
    and srt: "sorted (map tuple_key (tuples b @ tuples l))"
    and room: "used_space b + entries (take (borrow_amount rep) (live (slots l))) \<le> 4065"
  shows "\<exists>key b' l'. LeafPage_HandleRightBorrow b l rep = Some (key, b', l') \<and>
      leaf_wf b' \<and> leaf_wf l' \<and> same_links b b' \<and> same_links l l' \<and>
      tuples b' @ tuples l' = tuples b @ tuples l \<and>
      length (tuples b') = length (tuples b) + borrow_amount rep \<and> key = tuple_key (hd (tuples l')) \<and>
      used_space l' + entries (take (borrow_amount rep) (live (slots l))) \<ge> used_space l"
proof -
  have n: "length (tuples l) = length (live (slots l))" by (simp add: tuples_def)
  from right_borrow_loop_correct [OF wf _ _ _ srt room, of 0 "slot_array_size l"] amount
  obtain b' l' where r: "right_borrow_loop b l 0 (slot_array_size l) (borrow_amount rep) = Some (b', l')"
    "leaf_wf b'" "leaf_wf l'" "same_links b b'" "same_links l l'"
    "tuples l' = drop (borrow_amount rep) (tuples l)"
    "slot_array_size l' = slot_array_size l"
    "tuples b' = tuples b @ take (borrow_amount rep) (tuples l)"
    by (auto simp: n)
  let ?n = "borrow_amount rep"
  have "sum_list (map length (tuples l)) = sum_list (map length (take ?n (tuples l) @ drop ?n (tuples l)))"
    by simp
  then have used: "used_space l' + entries (take ?n (live (slots l))) \<ge> used_space l"
    by (simp only: map_append sum_list_append used_space_tuples r(6,7) entries_def lens_take_tuples)
  have "tuples l' \<noteq> []" using r(6) amount by simp
  then have "GetPageFirstKey l' = tuple_key (hd (tuples l'))"
    by (simp add: GetPageFirstKey_tuples [OF r(3)] split: list.split)
  then show ?thesis using r amount used by (auto simp: LeafPage_HandleRightBorrow_def)
qed

section \<open>Merging\<close>

lemma store_link_keeps:
  assumes wf: "leaf_wf p" and a: "15 \<le> a" "a + 8 \<le> 31"
  shows "leaf_wf (store_u64 p a v)" "tuples (store_u64 p a v) = tuples p"
    "used_space (store_u64 p a v) = used_space p"
proof -
  let ?q = "store_u64 p a v"
  have ld: "load_le ?q b k = load_le p b k" if "b + k \<le> 15 \<or> 31 \<le> b" for b k
    using that a by (intro load_store_other) auto
  have sl: "slots ?q = slots p" by (simp add: slots_def ld slot_at_def slot_addr_def)
  have "tuple_of ?q s = tuple_of p s" if "s \<in> set (live (slots p))" for s
    using leaf_wfD(2) [OF wf] that a by (intro tuples_frame [OF wf]) (auto simp: store_le_outside)
  then show tp: "tuples ?q = tuples p" by (simp add: tuples_def sl)
  show "leaf_wf ?q" using wf unfolding leaf_wf_def tp sl by (simp add: ld)
  show "used_space ?q = used_space p" by (simp add: used_space_def sl ld)
qed

lemmas set_right_pid_keeps = store_link_keeps [where a = 23, simplified]

lemma MergePages_correct:
  assumes wf: "leaf_wf to" "leaf_wf from" and srt: "sorted (map tuple_key (tuples to @ tuples from))"
  shows "LeafPage_MergePages to from = Some q \<Longrightarrow> leaf_wf q \<and> tuples q = tuples to @ tuples from \<and>
      page_id q = page_id to \<and> left_pid q = left_pid to \<and> right_pid q = right_pid from"
    "used_space to + entries (live (slots from)) \<le> 4065 \<Longrightarrow> LeafPage_MergePages to from \<noteq> None"
proof -
  let ?to = "set_right_pid to (right_pid from)"
  note k = set_right_pid_keeps [OF wf(1), of "right_pid from"]
  have srt': "sorted (map tuple_key (tuples ?to @ map (tuple_of from) (live (drop 0 (slots from)))))"
    using srt by (simp add: k) (simp add: tuples_def)
  note m = merge_loop_correct [OF wf(2) k(1) add_0 srt', of q]
  show "leaf_wf q \<and> tuples q = tuples to @ tuples from \<and>
      page_id q = page_id to \<and> left_pid q = left_pid to \<and> right_pid q = right_pid from"
    if "LeafPage_MergePages to from = Some q"
    using m that
    by (simp add: LeafPage_MergePages_def k same_links_def mem_simps) (simp add: tuples_def)
  show "LeafPage_MergePages to from \<noteq> None" if "used_space to + entries (live (slots from)) \<le> 4065"
    using m that by (simp add: LeafPage_MergePages_def k)
qed

text \<open>
  The rebalancing step of an underfull page, as the caller takes it: ask the sibling for the
  missing bytes, and merge when it refuses. The bound is exact: 4065 bytes are all a page has.
\<close>

lemma refused_lend_fits:
  assumes "lend_report s (1627 - used_space p) ss q" "\<not> can_borrow q" "used_space p \<le> 1626"
  shows "used_space p + used_space s \<le> 4065"
  using assms by (simp add: lend_report_def)

lemma granted_lend_fits:
  assumes "lend_report s (1627 - used_space p) ss q" "can_borrow q" "used_space p \<le> 1626"
  shows "used_space p + entries (take (borrow_amount q) ss) \<le> 2439"
    "1626 < used_space p + entries (take (borrow_amount q) ss)"
    "1626 < used_space s - entries (take (borrow_amount q) ss)"
  using assms by (auto simp: lend_report_def)

text \<open>A granted request never takes all the tuples.\<close>

lemma lend_leaves_one:
  assumes "lend_report s needed ss q" "can_borrow q" "leaf_wf s"
    and "ss = live (slots s) \<or> ss = rev (live (slots s))"
  shows "borrow_amount q < length (tuples s)"
proof (rule ccontr)
  assume "\<not> borrow_amount q < length (tuples s)"
  then have "1626 + entries (live (slots s)) < used_space s"
    using assms(1,2,4) by (auto simp: lend_report_def tuples_def)
  then show False using leaf_wf_slot_bound [OF assms(3)] by (simp add: entries_def used_space_def)
qed

section \<open>Overflow pages\<close>

lemma WriteChunkOverflow_correct:
  assumes r: "LeafPage_WriteChunkOverflow page buffer bs = (st, q)"
  shows "written st = min bs 4078" "bytes q 18 (written st) = bytes buffer 0 (written st)"
    "overflow_info_store_address st = (if bs \<le> 4078 then None else Some 9)"
    "bs \<le> 4078 \<Longrightarrow> load_u8 q 9 = 0 \<and> load_u64 q 10 = 0"
    "i < 9 \<or> 4096 \<le> i \<Longrightarrow> q i = page i"
  using r
  by (auto simp: LeafPage_WriteChunkOverflow_def Let_def mem_simps store_le_outside memcpy_outside
      split: if_splits)

end
