(* ===== verification/Leaf_Store.thy ===== *)
theory Leaf_Store
  imports Leaf_Rebalance
begin

text \<open>
  The contract of a leaf page as the tree uses it: a sequence of tuples sorted by key with a
  lookup, an insertion and a deletion, and the laws that follow from it, stated once for any
  page that keeps the contract. The operations of \<open>leaf_page.cpp\<close> keep it.
\<close>

locale tuple_store =
  fixes inv :: "'p \<Rightarrow> bool"
    and abs :: "'p \<Rightarrow> byte list list"
    and fits :: "'p \<Rightarrow> byte list \<Rightarrow> bool"
    and lookup :: "'p \<Rightarrow> Key \<Rightarrow> byte list option"
    and put :: "'p \<Rightarrow> byte list \<Rightarrow> 'p"
    and del :: "'p \<Rightarrow> Key \<Rightarrow> 'p"
  assumes abs_sorted: "inv p \<Longrightarrow> sorted (map tuple_key (abs p))"
    and lookup_abs: "inv p \<Longrightarrow> lookup p k = find (has_key k) (abs p)"
    and put_inv: "inv p \<Longrightarrow> fits p t \<Longrightarrow> inv (put p t)"
    and put_abs: "inv p \<Longrightarrow> fits p t \<Longrightarrow> abs (put p t) = insert_tuple t (abs p)"
    and del_inv: "inv p \<Longrightarrow> inv (del p k)"
    and del_abs: "inv p \<Longrightarrow> abs (del p k) = delete_first (has_key k) (abs p)"

lemma find_filter: "find P (filter Q xs) = find (\<lambda>x. Q x \<and> P x) xs"
  by (induction xs) auto

lemma find_append: "find P (xs @ ys) = (case find P xs of None \<Rightarrow> find P ys | Some x \<Rightarrow> Some x)"
  by (induction xs) auto

lemma find_insert_other:
  "tuple_key t \<noteq> k \<Longrightarrow> find (has_key k) (insert_tuple t ts) = find (has_key k) ts"
  if "sorted (map tuple_key ts)" for ts
proof -
  assume k: "tuple_key t \<noteq> k"
  have "find (has_key k) (insert_tuple t ts) =
    (case find (\<lambda>u. tuple_key u \<le> tuple_key t \<and> has_key k u) ts of
       None \<Rightarrow> find (\<lambda>u. tuple_key t < tuple_key u \<and> has_key k u) ts | Some u \<Rightarrow> Some u)"
    using k by (simp add: insert_tuple_def find_append find_filter has_key_def split: option.split)
  also have "\<dots> = find (has_key k) ts"
  proof (cases "k \<le> tuple_key t")
    case True
    then have "(\<lambda>u. tuple_key u \<le> tuple_key t \<and> has_key k u) = has_key k"
      "(\<lambda>u. tuple_key t < tuple_key u \<and> has_key k u) = (\<lambda>u. False)"
      by (auto simp: has_key_def fun_eq_iff)
    moreover have "find (\<lambda>u. False) ts = None" by (rule find_none) simp
    ultimately show ?thesis by (simp split: option.split)
  next
    case False
    then have "(\<lambda>u. tuple_key u \<le> tuple_key t \<and> has_key k u) = (\<lambda>u. False)"
      "(\<lambda>u. tuple_key t < tuple_key u \<and> has_key k u) = has_key k"
      by (auto simp: has_key_def fun_eq_iff)
    moreover have "find (\<lambda>u. False) ts = None" by (rule find_none) simp
    ultimately show ?thesis by simp
  qed
  finally show ?thesis .
qed

lemma find_insert_same:
  "find (has_key (tuple_key t)) (insert_tuple t ts) =
    (case find (has_key (tuple_key t)) ts of None \<Rightarrow> Some t | Some u \<Rightarrow> Some u)"
proof -
  have e: "(\<lambda>u. tuple_key u \<le> tuple_key t \<and> has_key (tuple_key t) u) = has_key (tuple_key t)"
    by (auto simp: has_key_def fun_eq_iff)
  have "has_key (tuple_key t) t" by (simp add: has_key_def)
  then show ?thesis by (simp add: insert_tuple_def find_append find_filter e split: option.split)
qed

lemma find_delete_other:
  "j \<noteq> k \<Longrightarrow> find (has_key j) (delete_first (has_key k) ts) = find (has_key j) ts"
  by (induction ts) (auto simp: has_key_def)

lemma sorted_filter_split:
  "sorted (map tuple_key ts) \<Longrightarrow>
    filter (\<lambda>u. tuple_key u \<le> x) ts @ filter (\<lambda>u. x < tuple_key u) ts = ts"
proof (induction ts)
  case (Cons u ts)
  show ?case
  proof (cases "tuple_key u \<le> x")
    case False
    then have "\<forall>v \<in> set (u # ts). x < tuple_key v" using Cons.prems by auto
    then show ?thesis by (simp add: filter_id_conv filter_empty_conv not_le)
  qed (use Cons in simp)
qed simp

lemma delete_insert:
  assumes "sorted (map tuple_key ts)" "find (has_key (tuple_key t)) ts = None"
  shows "delete_first (has_key (tuple_key t)) (insert_tuple t ts) = ts"
proof -
  have "\<forall>u \<in> set ts. \<not> has_key (tuple_key t) u" using assms(2) by (simp add: find_None_iff)
  then show ?thesis
    unfolding insert_tuple_def
    by (subst delete_first_append) (auto simp: has_key_def sorted_filter_split [OF assms(1)])
qed

context tuple_store begin

lemma lookup_put_other: "inv p \<Longrightarrow> fits p t \<Longrightarrow> tuple_key t \<noteq> k \<Longrightarrow> lookup (put p t) k = lookup p k"
  by (simp add: lookup_abs put_inv put_abs find_insert_other abs_sorted)

text \<open>A tuple whose key is already there goes behind the ones that have it: they shadow it.\<close>

lemma lookup_put_same:
  "inv p \<Longrightarrow> fits p t \<Longrightarrow>
    lookup (put p t) (tuple_key t) = (case lookup p (tuple_key t) of None \<Rightarrow> Some t | Some u \<Rightarrow> Some u)"
  by (simp add: lookup_abs put_inv put_abs find_insert_same)

lemma lookup_del_other: "inv p \<Longrightarrow> j \<noteq> k \<Longrightarrow> lookup (del p k) j = lookup p j"
  by (simp add: lookup_abs del_inv del_abs find_delete_other)

lemma del_put:
  "inv p \<Longrightarrow> fits p t \<Longrightarrow> lookup p (tuple_key t) = None \<Longrightarrow> abs (del (put p t) (tuple_key t)) = abs p"
  by (simp add: lookup_abs put_inv put_abs del_abs delete_insert abs_sorted)

end

section \<open>The leaf page keeps the contract\<close>

text \<open>
  Lookup, insertion of a whole tuple with its header (as borrowing and merging do it) and
  deletion, as compositions of the code's operations.
\<close>

definition leaf_lookup :: "mem \<Rightarrow> Key \<Rightarrow> byte list option" where
  "leaf_lookup p k =
    (let r = LeafPage_Search p k
     in if found r then Some (bytes p (tuple_offset r) (tuple_end_offset r - tuple_offset r)) else None)"

definition leaf_put :: "mem \<Rightarrow> byte list \<Rightarrow> mem" where
  "leaf_put p t =
    snd (LeafPage_WriteChunkLeaf p (of_bytes (drop 13 t)) (length t - 13) (tuple_key t) (Some (of_bytes t)))"

definition leaf_del :: "mem \<Rightarrow> Key \<Rightarrow> mem" where
  "leaf_del p k = snd (LeafPage_DeleteTuple p k)"

definition leaf_fits :: "mem \<Rightarrow> byte list \<Rightarrow> bool" where
  "leaf_fits p t \<longleftrightarrow> 21 \<le> length t \<and> length t \<le> 808 \<and> used_space p + length t + 5 \<le> 4065"

lemma leaf_lookup_find: "leaf_wf p \<Longrightarrow> leaf_lookup p k = find (has_key k) (tuples p)"
  using LeafPage_Search_hit [of p k] LeafPage_Search_miss [of p k]
  by (cases "find (has_key k) (tuples p)") (simp_all add: leaf_lookup_def not_found_def)

lemma leaf_put_inserted:
  assumes wf: "leaf_wf p" and fits: "leaf_fits p t"
  shows "inserted p (leaf_put p t) t"
proof -
  have t: "21 \<le> length t" "length t \<le> 808" "used_space p + length t + 5 \<le> 4065"
    using fits by (simp_all add: leaf_fits_def)
  let ?buf = "of_bytes (drop 13 t)"
  obtain st q where r: "LeafPage_WriteChunkLeaf p ?buf (length t - 13) (tuple_key t) (Some (of_bytes t)) = (st, q)"
    by fastforce
  have sz: "chunk_size p (length t - 13) = length t" using t by (simp add: chunk_size_def)
  have k: "load_u64 ?buf 0 = tuple_key t"
    unfolding tuple_key_def
    by (rule arg_cong [where f = word_of_nat], rule load_le_cong) (use t in \<open>auto simp: of_bytes_def\<close>)
  have "inserted p q (chunk_tuple (chunk_size p (length t - 13)) ?buf (length t - 13) (Some (of_bytes t)))"
    by (rule WriteChunkLeaf_correct [OF wf _ _ _ k r])
      (use t space_accounting [OF wf] in simp_all)
  moreover have "chunk_tuple (length t) ?buf (length t - 13) (Some (of_bytes t)) = t"
  proof -
    have "bytes (of_bytes t) 0 13 = take 13 t" "bytes ?buf 0 (length t - 13) = drop 13 t"
      using t take_bytes [of 13 "length t" "of_bytes t" 0] bytes_of_bytes [of "drop 13 t"] by simp_all
    then show ?thesis by (simp add: chunk_tuple_def tuple_header_def)
  qed
  ultimately show ?thesis using r by (simp add: leaf_put_def sz)
qed

interpretation leaf: tuple_store leaf_wf tuples leaf_fits leaf_lookup leaf_put leaf_del
proof unfold_locales
  fix p :: mem and t :: "byte list" and k :: Key
  assume wf: "leaf_wf p"
  show "sorted (map tuple_key (tuples p))" by (rule leaf_wfD(7) [OF wf])
  show "leaf_lookup p k = find (has_key k) (tuples p)" by (rule leaf_lookup_find [OF wf])
  show "leaf_wf (leaf_put p t)" "tuples (leaf_put p t) = insert_tuple t (tuples p)" if "leaf_fits p t"
    using leaf_put_inserted [OF wf that] by (simp_all add: inserted_def)
  obtain b q where "LeafPage_DeleteTuple p k = (b, q)" by fastforce
  from DeleteTuple_correct [OF wf this] this
  show "leaf_wf (leaf_del p k)" "tuples (leaf_del p k) = delete_first (has_key k) (tuples p)"
    by (simp_all add: leaf_del_def)
qed

end
