(* ===== verification/Word_Arrays.thy ===== *)
theory Word_Arrays
  imports Commons
begin

text \<open>
  Arrays of 64-bit words inside a byte memory, as the key and child arrays of an internal page:
  one element, a store to one element, a move of a run of elements between two arrays, and the
  array as a list. The lemmas read one of these back after another; an operation that shuffles
  arrays is then a calculation on lists.
\<close>

definition elem :: "mem \<Rightarrow> nat \<Rightarrow> nat \<Rightarrow> 64 word" where
  "elem m base i = load_u64 m (base + 8 * i)"

definition put_elem :: "mem \<Rightarrow> nat \<Rightarrow> nat \<Rightarrow> 64 word \<Rightarrow> mem" where
  "put_elem m base i w = store_u64 m (base + 8 * i) w"

text \<open>\<open>memmove(dst + d, src + s, n * 8)\<close> on pointers to 64-bit words.\<close>

definition move_elems :: "mem \<Rightarrow> nat \<Rightarrow> nat \<Rightarrow> mem \<Rightarrow> nat \<Rightarrow> nat \<Rightarrow> nat \<Rightarrow> mem" where
  "move_elems m base d src sbase s n = memcpy m (base + 8 * d) src (sbase + 8 * s) (8 * n)"

definition arr :: "mem \<Rightarrow> nat \<Rightarrow> nat \<Rightarrow> 64 word list" where
  "arr m base n = map (elem m base) [0..<n]"

lemma length_arr [simp]: "length (arr m base n) = n"
  by (simp add: arr_def)

lemma nth_arr [simp]: "i < n \<Longrightarrow> arr m base n ! i = elem m base i"
  by (simp add: arr_def)

lemma take_arr [simp]: "take k (arr m base n) = arr m base (min k n)"
  by (rule nth_equalityI) auto

lemma arr_cong: "(\<And>i. i < n \<Longrightarrow> elem m b i = elem m' b' i) \<Longrightarrow> arr m b n = arr m' b' n"
  by (simp add: arr_def)

lemma elem_cong: "(\<And>j. 8 * i \<le> j \<Longrightarrow> j < 8 * i + 8 \<Longrightarrow> m (b + j) = m' (b + j)) \<Longrightarrow> elem m b i = elem m' b i"
  unfolding elem_def by (rule arg_cong [where f = word_of_nat], rule load_le_cong) (simp add: add.assoc)

section \<open>Reading back\<close>

lemma elem_put: "elem (put_elem m b j w) b i = (if i = j then w else elem m b i)"
proof (cases "i = j")
  case True
  have "unat w < 256 ^ 8" using unat_64_less [of w] by simp
  then show ?thesis using True by (simp add: elem_def put_elem_def)
next
  case False
  then have "i < j \<or> j < i" by arith
  then show ?thesis using False by (auto simp: elem_def put_elem_def mem_simps)
qed

lemma elem_move:
  "elem (move_elems m b d src c s n) b i = (if d \<le> i \<and> i < d + n then elem src c (s + (i - d)) else elem m b i)"
proof (cases "d \<le> i \<and> i < d + n")
  case True
  then have "load_le (memcpy m (b + 8 * d) src (c + 8 * s) (8 * n)) (b + 8 * i) 8 =
      load_le src (c + 8 * s + (b + 8 * i - (b + 8 * d))) 8"
    by (intro load_memcpy_inside) auto
  moreover have "c + 8 * s + (b + 8 * i - (b + 8 * d)) = c + 8 * (s + (i - d))" using True by auto
  ultimately show ?thesis using True by (simp add: elem_def move_elems_def)
next
  case False
  then have "i < d \<or> d + n \<le> i" by arith
  then show ?thesis using False by (auto simp: elem_def move_elems_def mem_simps)
qed

text \<open>Other parts of the memory.\<close>

lemma elem_put_other:
  "b + 8 * i + 8 \<le> c + 8 * j \<or> c + 8 * j + 8 \<le> b + 8 * i \<Longrightarrow> elem (put_elem m c j w) b i = elem m b i"
  by (simp add: elem_def put_elem_def mem_simps)

lemma elem_move_other:
  "b + 8 * i + 8 \<le> c + 8 * d \<or> c + 8 * (d + n) \<le> b + 8 * i \<Longrightarrow>
    elem (move_elems m c d src e s n) b i = elem m b i"
  by (auto simp: elem_def move_elems_def mem_simps)

lemma elem_store_other:
  "b + 8 * i + 8 \<le> a \<or> a + k \<le> b + 8 * i \<Longrightarrow> elem (store_le m a k v) b i = elem m b i"
  by (auto simp: elem_def mem_simps)

lemma load_put_other [mem_simps]:
  "a + k \<le> b + 8 * i \<or> b + 8 * i + 8 \<le> a \<Longrightarrow> load_le (put_elem m b i w) a k = load_le m a k"
  by (simp add: put_elem_def mem_simps)

lemma load_move_other [mem_simps]:
  "a + k \<le> b + 8 * d \<or> b + 8 * (d + n) \<le> a \<Longrightarrow>
    load_le (move_elems m b d src c s n) a k = load_le m a k"
  by (auto simp: move_elems_def mem_simps)

lemma put_elem_outside: "i < b + 8 * j \<or> b + 8 * j + 8 \<le> i \<Longrightarrow> put_elem m b j w i = m i"
  by (auto simp: put_elem_def store_le_outside)

lemma move_elems_outside: "i < b + 8 * d \<or> b + 8 * (d + n) \<le> i \<Longrightarrow> move_elems m b d src c s n i = m i"
  by (auto simp: move_elems_def memcpy_outside)

section \<open>Runs of elements as lists\<close>

definition insert_at :: "nat \<Rightarrow> 'a \<Rightarrow> 'a list \<Rightarrow> 'a list" where
  "insert_at k x xs = take k xs @ x # drop k xs"

definition delete_at :: "nat \<Rightarrow> 'a list \<Rightarrow> 'a list" where
  "delete_at k xs = take k xs @ drop (Suc k) xs"

lemma length_insert_at [simp]: "length (insert_at k x xs) = Suc (length xs)"
  by (simp add: insert_at_def)

lemma length_delete_at [simp]: "k < length xs \<Longrightarrow> length (delete_at k xs) = length xs - 1"
  by (simp add: delete_at_def)

lemma nth_insert_at:
  "k \<le> length xs \<Longrightarrow> i \<le> length xs \<Longrightarrow>
    insert_at k x xs ! i = (if i < k then xs ! i else if i = k then x else xs ! (i - 1))"
  by (simp add: insert_at_def nth_append nth_Cons' min_def)

lemma nth_delete_at:
  "k < length xs \<Longrightarrow> i < length xs - 1 \<Longrightarrow> delete_at k xs ! i = (if i < k then xs ! i else xs ! Suc i)"
  by (simp add: delete_at_def nth_append min_def)

lemma arr_insert:
  "k \<le> n \<Longrightarrow> arr (put_elem (move_elems m b (k + 1) m b k (n - k)) b k x) b (Suc n) = insert_at k x (arr m b n)"
  by (rule nth_equalityI) (auto simp: elem_put elem_move nth_insert_at)

lemma arr_delete:
  "k < n \<Longrightarrow> arr (move_elems m b k m b (k + 1) (n - k - 1)) b (n - 1) = delete_at k (arr m b n)"
  by (rule nth_equalityI) (auto simp: elem_move nth_delete_at)

lemma arr_move_pre:
  "arr (move_elems m b 0 src c s n) b n = map (\<lambda>i. elem src c (s + i)) [0..<n]"
  by (simp add: arr_def elem_move)

end
