(* ===== verification/Internal_Page.thy ===== *)
theory Internal_Page
  imports Word_Arrays
begin

text \<open>
  Internal pages (\<open>database/src/include/page/internal_page.h\<close> and
  \<open>database/src/impl/page/internal_page.cpp\<close>): the layout, every operation on the bytes of a
  page, and the view the proofs use, the list of keys and the list of children. Proved: an
  insertion, a split, a borrow, a merge and a deletion are the corresponding list operations;
  keys stay sorted; a split leaves both halves at least half full; after a refused loan the
  merged page has room for exactly all the keys.
\<close>

section \<open>Layout\<close>

definition INTERNAL_PAGE_HEADER_SIZE :: nat where "INTERNAL_PAGE_HEADER_SIZE = 11"
definition NUM_KEY_SLOTS :: nat where "NUM_KEY_SLOTS = 254"
definition NUM_CHILD_PAGEID_SLOTS :: nat where "NUM_CHILD_PAGEID_SLOTS = 255"
definition KEY_SIZE :: nat where "KEY_SIZE = 8"
definition CHILD_PTR_SIZE :: nat where "CHILD_PTR_SIZE = 8"
definition INTERNAL_UNDERFLOW_THRESHOLD :: nat where
  "INTERNAL_UNDERFLOW_THRESHOLD =
     (PAGE_SIZE - INTERNAL_PAGE_HEADER_SIZE) div 2 - KEY_SIZE - CHILD_PTR_SIZE"

lemma internal_constants [simp]:
  "INTERNAL_PAGE_HEADER_SIZE = 11" "NUM_KEY_SLOTS = 254" "NUM_CHILD_PAGEID_SLOTS = 255"
  "KEY_SIZE = 8" "CHILD_PTR_SIZE = 8" "INTERNAL_UNDERFLOW_THRESHOLD = 2026"
  by (simp_all add: INTERNAL_PAGE_HEADER_SIZE_def NUM_KEY_SLOTS_def NUM_CHILD_PAGEID_SLOTS_def
      KEY_SIZE_def CHILD_PTR_SIZE_def INTERNAL_UNDERFLOW_THRESHOLD_def PAGE_SIZE_def)

text \<open>
  The packed header: \<open>page_type\<close> at 0, \<open>page_id\<close> at 1, \<open>num_keys\<close> at 9. A pointer into a page
  is an offset; the two start pointers are constants.
\<close>

abbreviation ip_type :: "mem \<Rightarrow> nat" where "ip_type p \<equiv> load_u8 p 0"
abbreviation ip_id :: "mem \<Rightarrow> PageID" where "ip_id p \<equiv> load_u64 p 1"
abbreviation num_keys :: "mem \<Rightarrow> nat" where "num_keys p \<equiv> load_u16 p 9"
abbreviation set_num_keys :: "mem \<Rightarrow> nat \<Rightarrow> mem" where "set_num_keys p v \<equiv> store_u16 p 9 v"

definition GetKeysStartPointer :: nat where
  "GetKeysStartPointer = INTERNAL_PAGE_HEADER_SIZE"

definition GetChildrenStartPointer :: nat where
  "GetChildrenStartPointer = GetKeysStartPointer + 8 * NUM_KEY_SLOTS"

lemma start_pointers: "GetKeysStartPointer = 11" "GetChildrenStartPointer = 2043"
  by (simp_all add: GetKeysStartPointer_def GetChildrenStartPointer_def)

definition keys :: "mem \<Rightarrow> Key list" where
  "keys p = arr p GetKeysStartPointer (num_keys p)"

definition children :: "mem \<Rightarrow> PageID list" where
  "children p = arr p GetChildrenStartPointer (num_keys p + 1)"

definition internal_wf :: "mem \<Rightarrow> bool" where
  "internal_wf p \<longleftrightarrow> ip_type p = PageType_code InternalPage \<and> num_keys p \<le> NUM_KEY_SLOTS \<and> sorted (keys p)"

section \<open>The algorithms of the standard library on a range\<close>

definition std_upper_bound :: "64 word list \<Rightarrow> 64 word \<Rightarrow> nat" where
  "std_upper_bound xs x = length (takeWhile (\<lambda>y. y \<le> x) xs)"

definition std_lower_bound :: "64 word list \<Rightarrow> 64 word \<Rightarrow> nat" where
  "std_lower_bound xs x = length (takeWhile (\<lambda>y. y < x) xs)"

definition std_find :: "64 word list \<Rightarrow> 64 word \<Rightarrow> nat" where
  "std_find xs x = length (takeWhile (\<lambda>y. y \<noteq> x) xs)"

section \<open>Lookup and insertion\<close>

definition CheckSlotAvailable :: "mem \<Rightarrow> bool" where
  "CheckSlotAvailable p \<longleftrightarrow> num_keys p < NUM_KEY_SLOTS"

definition GetValueAtIndex :: "mem \<Rightarrow> nat \<Rightarrow> PageID" where
  "GetValueAtIndex p index = elem p GetChildrenStartPointer index"

definition GetChildPageID :: "mem \<Rightarrow> Key \<Rightarrow> PageID" where
  "GetChildPageID p key =
    (let it = std_upper_bound (keys p) key
     in GetValueAtIndex p (u16 (int it)))"

definition InsertKeyValue :: "mem \<Rightarrow> Key \<Rightarrow> PageID \<Rightarrow> mem" where
  "InsertKeyValue p new_key new_pid =
    (let n = num_keys p;
         it = std_upper_bound (keys p) new_key;
         p1 = move_elems p GetKeysStartPointer (it + 1) p GetKeysStartPointer it (n - it);
         p2 = put_elem p1 GetKeysStartPointer it new_key;
         insertion_index = u16 (int (u16 (int it)) + 1);
         p3 = (if insertion_index \<noteq> n + 1
               then move_elems p2 GetChildrenStartPointer (insertion_index + 1)
                      p2 GetChildrenStartPointer insertion_index (n + 1 - insertion_index)
               else p2);
         p4 = set_num_keys p3 (u16 (int (num_keys p3) + 1))
     in put_elem p4 GetChildrenStartPointer insertion_index new_pid)"

text \<open>The two sources are pointers into word arrays: a memory, its start, and an index.\<close>

definition InternalPage_MakePage ::
    "mem \<Rightarrow> mem \<Rightarrow> nat \<Rightarrow> mem \<Rightarrow> nat \<Rightarrow> nat \<Rightarrow> PageID \<Rightarrow> mem" where
  "InternalPage_MakePage page keys_arr keys_ptr children_arr children_ptr keys_to_take pid =
    (let page1 = store_u8 page 0 (PageType_code InternalPage);
         page2 = store_u64 page1 1 pid;
         page3 = set_num_keys page2 keys_to_take;
         page4 = move_elems page3 GetKeysStartPointer 0 keys_arr 0 keys_ptr keys_to_take
     in move_elems page4 GetChildrenStartPointer 0 children_arr 0 children_ptr (keys_to_take + 1))"

text \<open>
  The arrays \<open>temp_keys\<close> and \<open>temp_ptrs\<close> are local memories of their own; no element of them is
  read before it is written, and they start as zeros here.
\<close>

definition InternalPage_HandleSplit ::
    "mem \<Rightarrow> mem \<Rightarrow> Key \<Rightarrow> PageID \<Rightarrow> PageID \<Rightarrow> Key \<times> mem \<times> mem" where
  "InternalPage_HandleSplit old_page new_page key_to_insert page_id_to_insert new_pid =
    (let n = num_keys old_page;
         old_page_id = ip_id old_page;
         temp_keys = move_elems (\<lambda>_. 0) 0 0 old_page GetKeysStartPointer 0 n;
         temp_ptrs = move_elems (\<lambda>_. 0) 0 0 old_page GetChildrenStartPointer 0 (n + 1);
         it = std_upper_bound (arr temp_keys 0 n) key_to_insert;
         temp_keys = (if it \<noteq> n then move_elems temp_keys 0 (it + 1) temp_keys 0 it (n - it) else temp_keys);
         temp_keys = put_elem temp_keys 0 it key_to_insert;
         insertion_index = u16 (int (u16 (int it)) + 1);
         temp_ptrs = (if insertion_index \<noteq> n + 1
               then move_elems temp_ptrs 0 (insertion_index + 1) temp_ptrs 0 insertion_index
                      (n + 1 - insertion_index)
               else temp_ptrs);
         temp_ptrs = put_elem temp_ptrs 0 insertion_index page_id_to_insert;
         new_keys_length = n + 1;
         boundary = new_keys_length div 2;
         old_page = InternalPage_MakePage old_page temp_keys 0 temp_ptrs 0 (new_keys_length div 2) old_page_id;
         new_page = InternalPage_MakePage new_page temp_keys (boundary + 1) temp_ptrs
           (new_keys_length div 2 + 1) ((new_keys_length - 1) div 2) new_pid
     in (elem temp_keys 0 boundary, old_page, new_page))"

section \<open>Siblings and separators\<close>

text \<open>
  The leaf and the internal variants of the sibling lookups differ in the error they report,
  which is the parameter \<open>none\<close> here.
\<close>

definition left_sibling :: "ErrType \<Rightarrow> mem \<Rightarrow> PageID \<Rightarrow> PageID Result" where
  "left_sibling none p pid =
    (let iter = std_find (children p) pid
     in if iter = num_keys p + 1 then mk_result 0 ChildPtrNotFound
        else if iter = 0 then mk_result 0 none
        else mk_result (elem p GetChildrenStartPointer (iter - 1)) ErrNone)"

definition right_sibling :: "ErrType \<Rightarrow> mem \<Rightarrow> PageID \<Rightarrow> PageID Result" where
  "right_sibling none p pid =
    (let iter = std_find (children p) pid
     in if iter = num_keys p + 1 then mk_result 0 ChildPtrNotFound
        else if iter = num_keys p then mk_result 0 none
        else mk_result (elem p GetChildrenStartPointer (iter + 1)) ErrNone)"

definition GetLeafLeftSibling :: "mem \<Rightarrow> PageID \<Rightarrow> PageID Result" where
  "GetLeafLeftSibling = left_sibling LeftLeafSiblingDoesNotExist"

definition GetLeafRightSibling :: "mem \<Rightarrow> PageID \<Rightarrow> PageID Result" where
  "GetLeafRightSibling = right_sibling RightLeafSiblingDoesNotExist"

definition GetInternalLeftSibling :: "mem \<Rightarrow> PageID \<Rightarrow> PageID Result" where
  "GetInternalLeftSibling = left_sibling LeftInternalSiblingDoesNotExist"

definition GetInternalRightSibling :: "mem \<Rightarrow> PageID \<Rightarrow> PageID Result" where
  "GetInternalRightSibling = right_sibling RightInternalSiblingDoesNotExist"

text \<open>The index of the key the returned pointer designates.\<close>

definition FindKeyFromChildren :: "mem \<Rightarrow> PageID \<Rightarrow> PageID \<Rightarrow> nat" where
  "FindKeyFromChildren p left_pid right_pid = u16 (int (std_find (children p) left_pid))"

definition SetNewBoundaryKey :: "mem \<Rightarrow> Key \<Rightarrow> PageID \<Rightarrow> PageID \<Rightarrow> mem" where
  "SetNewBoundaryKey p new_boundary_key left_pid right_pid =
    put_elem p GetKeysStartPointer (FindKeyFromChildren p left_pid right_pid) new_boundary_key"

section \<open>Space\<close>

text \<open>
  \<open>usedspace\<close> is passed by reference and read: the first argument of the model is its value
  before the call, the second component of the result its value after it.
\<close>

definition CheckUnderflow :: "mem \<Rightarrow> nat \<Rightarrow> bool \<times> nat" where
  "CheckUnderflow p usedspace =
    (let usedspace = u16 (int usedspace + int (num_keys p) * 8 + (int (num_keys p) + 1) * 8)
     in (usedspace \<le> INTERNAL_UNDERFLOW_THRESHOLD, usedspace))"

definition CheckUsedSpace :: "mem \<Rightarrow> nat" where
  "CheckUsedSpace p = u16 (int (u16 (int (num_keys p) * 8)) + int (u16 ((int (num_keys p) + 1) * 8)))"

text \<open>\<open>usedspace - size_loss\<close> is computed in \<open>size_t\<close> and wraps.\<close>

definition InternalPage_CanLend :: "mem \<Rightarrow> nat \<Rightarrow> BorrowQuery" where
  "InternalPage_CanLend p needed =
    (let usedspace = CheckUsedSpace p;
         one_pair_size = 16;
         pairs_needed = needed div one_pair_size + (if needed mod one_pair_size = 0 then 0 else 1);
         size_loss = one_pair_size * pairs_needed
     in if (int usedspace - int size_loss) mod 18446744073709551616 \<le> int INTERNAL_UNDERFLOW_THRESHOLD
        then \<lparr>can_borrow = False, borrow_amount = 0\<rparr>
        else \<lparr>can_borrow = True, borrow_amount = u16 (int pairs_needed)\<rparr>)"

section \<open>Borrowing, merging and deleting\<close>

text \<open>
  The result is the parent, the borrower and the lender after the call, \<open>None\<close> an access
  outside the lender's arrays (\<open>borrow_amount\<close> 0 makes the code move \<open>-1\<close> keys).
\<close>

definition InternalPage_HandleLeftBorrow ::
    "mem \<Rightarrow> mem \<Rightarrow> mem \<Rightarrow> BorrowQuery \<Rightarrow> (mem \<times> mem \<times> mem) option" where
  "InternalPage_HandleLeftBorrow page borrower lender report =
    (let amount = borrow_amount report;
         bn = num_keys borrower; ln = num_keys lender;
         K = GetKeysStartPointer; C = GetChildrenStartPointer;
         rot = FindKeyFromChildren page (ip_id lender) (ip_id borrower)
     in if amount = 0 \<or> ln < amount then None
        else
          let b1 = move_elems borrower K amount borrower K 0 bn;
              b2 = move_elems b1 C amount b1 C 0 (bn + 1);
              b3 = move_elems b2 C 0 lender C (ln + 1 - amount) amount;
              b4 = move_elems b3 K (amount - 1) page K rot 1;
              b5 = move_elems b4 K 0 lender K (ln - amount + 1) (amount - 1);
              page1 = move_elems page K rot lender K (ln - amount) 1;
              b6 = set_num_keys b5 (u16 (int (num_keys b5) + int amount));
              lender1 = set_num_keys lender (u16 (int ln - int amount))
          in Some (page1, b6, lender1))"

definition InternalPage_HandleRightBorrow ::
    "mem \<Rightarrow> mem \<Rightarrow> mem \<Rightarrow> BorrowQuery \<Rightarrow> (mem \<times> mem \<times> mem) option" where
  "InternalPage_HandleRightBorrow page borrower lender report =
    (let amount = borrow_amount report;
         bn = num_keys borrower; ln = num_keys lender;
         K = GetKeysStartPointer; C = GetChildrenStartPointer;
         rot = FindKeyFromChildren page (ip_id borrower) (ip_id lender)
     in if amount = 0 \<or> ln < amount then None
        else
          let b1 = move_elems borrower C (bn + 1) lender C 0 amount;
              l1 = move_elems lender C 0 lender C amount (ln + 1 - amount);
              b2 = move_elems b1 K bn page K rot 1;
              b3 = move_elems b2 K (bn + 1) l1 K 0 (amount - 1);
              page1 = move_elems page K rot l1 K (amount - 1) 1;
              l2 = move_elems l1 K 0 l1 K amount (ln - amount);
              b4 = set_num_keys b3 (u16 (int (num_keys b3) + int amount));
              l3 = set_num_keys l2 (u16 (int (num_keys l2) - int amount))
          in Some (page1, b4, l3))"

definition InternalPage_MergePages :: "Key \<Rightarrow> mem \<Rightarrow> mem \<Rightarrow> mem" where
  "InternalPage_MergePages partition_key absorber absorbee =
    (let an = num_keys absorber; en = num_keys absorbee;
         K = GetKeysStartPointer; C = GetChildrenStartPointer;
         a1 = put_elem absorber K an partition_key;
         a2 = move_elems a1 K (an + 1) absorbee K 0 en;
         a3 = move_elems a2 C (an + 1) absorbee C 0 (en + 1)
     in set_num_keys a3 (u16 (int (num_keys a3) + (int en + 1))))"

text \<open>
  \<open>None\<close> is a left child that is the last one or is missing: the code then moves a negative
  number of elements.
\<close>

definition DeletePartitionKeyAndChildPtr :: "mem \<Rightarrow> PageID \<Rightarrow> PageID \<Rightarrow> (Key \<times> mem) option" where
  "DeletePartitionKeyAndChildPtr p left_child_pid right_child_pid =
    (let n = num_keys p; K = GetKeysStartPointer; C = GetChildrenStartPointer;
         iter = std_find (children p) left_child_pid
     in if n \<le> iter then None
        else
          let p1 = move_elems p C (iter + 1) p C (iter + 2) (n + 1 - iter - 2);
              offset = u16 (int iter);
              partition_key = elem p1 K offset;
              p2 = move_elems p1 K offset p1 K (offset + 1) (n - offset - 1)
          in Some (partition_key, set_num_keys p2 (u16 (int (num_keys p2) - 1))))"

definition DeleteKeyAndChildPtr :: "mem \<Rightarrow> PageID \<Rightarrow> PageID \<Rightarrow> mem" where
  "DeleteKeyAndChildPtr p absorbing_page merged_page =
    (let n = num_keys p; K = GetKeysStartPointer; C = GetChildrenStartPointer;
         key = elem p K (FindKeyFromChildren p absorbing_page merged_page);
         iter_key = std_lower_bound (keys p) key;
         p1 = (if n - iter_key > 1 then move_elems p K iter_key p K (iter_key + 1) (n - iter_key - 1) else p);
         iter_child = std_find (arr p1 C (n + 1)) merged_page;
         p2 = (if n + 1 - iter_child > 1
               then move_elems p1 C iter_child p1 C (iter_child + 1) (n + 1 - iter_child - 1) else p1)
     in set_num_keys p2 (u16 (int (num_keys p2) - 1)))"

section \<open>Ranges\<close>

lemma std_bounds_le: "std_upper_bound xs x \<le> length xs" "std_lower_bound xs x \<le> length xs"
    "std_find xs x \<le> length xs"
  by (simp_all add: std_upper_bound_def std_lower_bound_def std_find_def length_takeWhile_le)

lemma takeWhile_take: "take (length (takeWhile P xs)) xs = takeWhile P xs"
  by (metis takeWhile_eq_take)

lemma drop_takeWhile: "drop (length (takeWhile P xs)) xs = dropWhile P xs"
  by (metis dropWhile_eq_drop)

lemma upper_bound_split:
  assumes "sorted xs"
  shows "\<forall>y \<in> set (take (std_upper_bound xs x) xs). y \<le> x"
    "\<forall>y \<in> set (drop (std_upper_bound xs x) xs). x < y"
proof -
  show "\<forall>y \<in> set (take (std_upper_bound xs x) xs). y \<le> x"
    by (auto simp: std_upper_bound_def takeWhile_take dest: set_takeWhileD)
  have "\<forall>y \<in> set (dropWhile (\<lambda>y. y \<le> x) xs). x < y"
  proof (cases "dropWhile (\<lambda>y. y \<le> x) xs")
    case (Cons y ys)
    then have "x < y" using hd_dropWhile [of "\<lambda>y. y \<le> x" xs] by simp
    moreover have "sorted (y # ys)" using assms Cons by (metis sorted_dropWhile)
    ultimately show ?thesis unfolding Cons by auto
  next
    case Nil
    show ?thesis unfolding Nil by simp
  qed
  then show "\<forall>y \<in> set (drop (std_upper_bound xs x) xs). x < y"
    by (simp add: std_upper_bound_def drop_takeWhile)
qed

lemma sorted_insert_upper: "sorted xs \<Longrightarrow> sorted (insert_at (std_upper_bound xs x) x xs)"
  using upper_bound_split [of xs x] by (force simp: insert_at_def sorted_append intro: sorted_wrt_take sorted_wrt_drop)

lemma std_find_hit:
  "x \<in> set xs \<Longrightarrow> std_find xs x < length xs \<and> xs ! std_find xs x = x"
  by (induction xs) (auto simp: std_find_def)

lemma std_find_miss: "x \<notin> set xs \<Longrightarrow> std_find xs x = length xs"
  by (induction xs) (auto simp: std_find_def)

lemma std_find_nth: "distinct xs \<Longrightarrow> i < length xs \<Longrightarrow> std_find xs (xs ! i) = i"
  using std_find_hit [of "xs ! i" xs] by (metis nth_eq_iff_index_eq nth_mem)

section \<open>The view of a page\<close>

lemma length_views [simp]: "length (keys p) = num_keys p" "length (children p) = Suc (num_keys p)"
  by (simp_all add: keys_def children_def)

lemma internal_wfD:
  "internal_wf p \<Longrightarrow> num_keys p \<le> 254" "internal_wf p \<Longrightarrow> sorted (keys p)"
  by (simp_all add: internal_wf_def)

text \<open>
  A lookup goes to the child between the keys that are not above and the keys above the one
  searched for.
\<close>

lemma GetChildPageID_route:
  assumes "internal_wf p"
  shows "GetChildPageID p key = children p ! std_upper_bound (keys p) key"
  using internal_wfD(1) [OF assms] std_bounds_le(1) [of "keys p" key]
  by (simp add: GetChildPageID_def GetValueAtIndex_def children_def Let_def)

lemma move_elems_zero: "move_elems m b d src c s 0 = m"
  by (rule ext) (auto simp: move_elems_def memcpy_def)

lemma InsertKeyValue_views:
  assumes wf: "internal_wf p" and room: "num_keys p < 254"
    and i: "i = std_upper_bound (keys p) k" and q: "q = InsertKeyValue p k pid"
  shows "keys q = insert_at i k (keys p)" "children q = insert_at (Suc i) pid (children p)"
    "num_keys q = Suc (num_keys p)" "ip_type q = ip_type p" "ip_id q = ip_id p"
    "\<And>j. 4096 \<le> j \<Longrightarrow> q j = p j"
proof -
  let ?n = "num_keys p" and ?K = GetKeysStartPointer and ?C = GetChildrenStartPointer
  have le: "i \<le> ?n" using std_bounds_le(1) [of "keys p" k] by (simp add: i)
  define p1 where "p1 = move_elems p ?K (i + 1) p ?K i (?n - i)"
  define p2 where "p2 = put_elem p1 ?K i k"
  define p3 where "p3 = move_elems p2 ?C (Suc i + 1) p2 ?C (Suc i) (?n + 1 - Suc i)"
  have e: "u16 (int (u16 (int i)) + 1) = Suc i" using le room by (simp add: nat_add_distrib)
  have c3: "(if Suc i \<noteq> ?n + 1 then p3 else p2) = p3" by (simp add: p3_def move_elems_zero)
  have n3: "num_keys p3 = ?n"
    using le room by (simp add: p3_def p2_def p1_def mem_simps start_pointers)
  have q': "q = put_elem (set_num_keys p3 (Suc ?n)) ?C (Suc i) pid"
    unfolding q InsertKeyValue_def Let_def i [symmetric] e p1_def [symmetric] p2_def [symmetric]
      p3_def [symmetric] c3
    using room by (simp add: n3 nat_add_distrib)
  show n: "num_keys q = Suc ?n" using room by (simp add: q' mem_simps start_pointers)
  show "ip_type q = ip_type p" "ip_id q = ip_id p"
    by (simp_all add: q' p3_def p2_def p1_def mem_simps start_pointers)
  show "q j = p j" if "4096 \<le> j" for j
    using that le room by (simp add: q' p3_def p2_def p1_def put_elem_outside move_elems_outside
        store_le_outside start_pointers)
  have "arr q ?K (Suc ?n) = arr p2 ?K (Suc ?n)"
    by (rule arr_cong) (use room in \<open>simp add: q' p3_def elem_put_other elem_move_other
        elem_store_other start_pointers\<close>)
  then show "keys q = insert_at i k (keys p)"
    using arr_insert [OF le, of p ?K k] by (simp add: keys_def n p2_def p1_def)
  have "arr q ?C (Suc (Suc ?n)) = arr (put_elem p3 ?C (Suc i) pid) ?C (Suc (Suc ?n))"
    by (rule arr_cong) (simp add: q' elem_put elem_store_other start_pointers)
  moreover have "arr p2 ?C (Suc ?n) = arr p ?C (Suc ?n)"
    by (rule arr_cong) (use le room in \<open>simp add: p2_def p1_def elem_put_other elem_move_other
        start_pointers\<close>)
  ultimately show "children q = insert_at (Suc i) pid (children p)"
    using arr_insert [of "Suc i" "Suc ?n" p2 ?C pid] le by (simp add: children_def n p3_def)
qed

lemma InsertKeyValue_wf:
  "internal_wf p \<Longrightarrow> num_keys p < 254 \<Longrightarrow> internal_wf (InsertKeyValue p k pid)"
  using InsertKeyValue_views [OF _ _ refl refl] sorted_insert_upper [of "keys p" k]
  unfolding internal_wf_def by simp


section \<open>Splitting\<close>

lemma MakePage_views:
  assumes q: "q = InternalPage_MakePage page ka kp ca cp n pid" and n: "n \<le> 254"
  shows "keys q = map (\<lambda>i. elem ka 0 (kp + i)) [0..<n]"
    "children q = map (\<lambda>i. elem ca 0 (cp + i)) [0..<Suc n]" "num_keys q = n"
    "ip_type q = PageType_code InternalPage" "ip_id q = pid" "\<And>j. 4096 \<le> j \<Longrightarrow> q j = page j"
proof -
  define h where "h = set_num_keys (store_u64 (store_u8 page 0 (PageType_code InternalPage)) 1 pid) n"
  have q: "q = move_elems (move_elems h GetKeysStartPointer 0 ka 0 kp n) GetChildrenStartPointer 0 ca 0 cp (n + 1)"
    unfolding q InternalPage_MakePage_def Let_def h_def by simp
  show nk: "num_keys q = n" using n by (simp add: q h_def mem_simps start_pointers)
  show "ip_type q = PageType_code InternalPage" "ip_id q = pid"
    using n by (simp_all add: q h_def mem_simps start_pointers)
  show "q j = page j" if "4096 \<le> j" for j
    using that n by (simp add: q h_def move_elems_outside store_le_outside start_pointers)
  show "keys q = map (\<lambda>i. elem ka 0 (kp + i)) [0..<n]"
    unfolding keys_def nk arr_def
    by (rule map_upt_cong) (use n in \<open>simp add: q elem_move_other start_pointers, simp add: elem_move\<close>)
  show "children q = map (\<lambda>i. elem ca 0 (cp + i)) [0..<Suc n]"
    unfolding children_def nk arr_def by (simp add: q elem_move)
qed

lemma map_elem_take: "m \<le> n \<Longrightarrow> map (\<lambda>i. elem a b (0 + i)) [0..<m] = take m (arr a b n)"
  by (rule nth_equalityI) auto

lemma map_elem_drop: "m + j = n \<Longrightarrow> map (\<lambda>i. elem a b (m + i)) [0..<j] = drop m (arr a b n)"
  by (rule nth_equalityI) auto

lemma HandleSplit_views:
  assumes wf: "internal_wf p" and r: "InternalPage_HandleSplit p page k pid new_pid = (key, old, new)"
    and i: "i = std_upper_bound (keys p) k"
  shows "keys old @ key # keys new = insert_at i k (keys p)"
    "children old @ children new = insert_at (Suc i) pid (children p)"
    "num_keys old = Suc (num_keys p) div 2" "num_keys new = num_keys p div 2"
    "internal_wf old" "internal_wf new" "ip_id old = ip_id p" "ip_id new = new_pid"
proof -
  let ?n = "num_keys p" and ?K = GetKeysStartPointer and ?C = GetChildrenStartPointer
  have n: "?n \<le> 254" by (rule internal_wfD(1) [OF wf])
  have le: "i \<le> ?n" using std_bounds_le(1) [of "keys p" k] by (simp add: i)
  define tk0 where "tk0 = move_elems (\<lambda>_. 0) 0 0 p ?K 0 ?n"
  define tp0 where "tp0 = move_elems (\<lambda>_. 0) 0 0 p ?C 0 (?n + 1)"
  have tk0: "arr tk0 0 ?n = keys p" and tp0: "arr tp0 0 (Suc ?n) = children p"
    by (simp_all add: tk0_def tp0_def arr_move_pre keys_def children_def) (simp_all add: arr_def)
  define tk where "tk = put_elem (move_elems tk0 0 (i + 1) tk0 0 i (?n - i)) 0 i k"
  define tp where "tp = put_elem (move_elems tp0 0 (Suc i + 1) tp0 0 (Suc i) (?n + 1 - Suc i)) 0 (Suc i) pid"
  have ks: "arr tk 0 (Suc ?n) = insert_at i k (keys p)"
    using arr_insert [OF le, of tk0 0 k] by (simp add: tk_def tk0)
  have cs: "arr tp 0 (Suc (Suc ?n)) = insert_at (Suc i) pid (children p)"
    using arr_insert [of "Suc i" "Suc ?n" tp0 0 pid] le by (simp add: tp_def tp0)
  have e: "u16 (int (u16 (int i)) + 1) = Suc i" using le n by (simp add: nat_add_distrib)
  have c1: "(if i \<noteq> ?n then move_elems tk0 0 (i + 1) tk0 0 i (?n - i) else tk0) =
      move_elems tk0 0 (i + 1) tk0 0 i (?n - i)" by (simp add: move_elems_zero)
  have c2: "(if Suc i \<noteq> ?n + 1 then move_elems tp0 0 (Suc i + 1) tp0 0 (Suc i) (?n + 1 - Suc i) else tp0) =
      move_elems tp0 0 (Suc i + 1) tp0 0 (Suc i) (?n + 1 - Suc i)" by (simp add: move_elems_zero)
  let ?m = "(?n + 1) div 2"
  have eqs: "old = InternalPage_MakePage p tk 0 tp 0 ?m (ip_id p)"
    "new = InternalPage_MakePage page tk (?m + 1) tp (?m + 1) (?n div 2) new_pid" "key = elem tk 0 ?m"
    using r unfolding InternalPage_HandleSplit_def Let_def tk0_def [symmetric] tp0_def [symmetric] tk0
      i [symmetric] e c1 c2 tk_def [symmetric] tp_def [symmetric] by simp_all
  have m: "?m \<le> 254" "?n div 2 \<le> 254" "?m < Suc ?n" "Suc ?m + ?n div 2 = Suc ?n" using n by linarith+
  note old = MakePage_views [OF eqs(1) m(1)] and new = MakePage_views [OF eqs(2) m(2)]
  have ko: "keys old = take ?m (arr tk 0 (Suc ?n))"
    unfolding old(1) by (rule map_elem_take) (use m in simp)
  have kn: "keys new = drop (Suc ?m) (arr tk 0 (Suc ?n))"
    unfolding new(1) add_Suc_right Suc_eq_plus1 [symmetric] by (rule map_elem_drop) (use m in simp)
  have co: "children old = take (Suc ?m) (arr tp 0 (Suc (Suc ?n)))"
    unfolding old(2) by (rule map_elem_take) (use m in simp)
  have cn: "children new = drop (Suc ?m) (arr tp 0 (Suc (Suc ?n)))"
    unfolding new(2) Suc_eq_plus1 [symmetric] by (rule map_elem_drop) (use m in simp)
  have "key = arr tk 0 (Suc ?n) ! ?m" using m(3) by (simp add: eqs(3))
  then show all: "keys old @ key # keys new = insert_at i k (keys p)"
    using m(3) by (simp only: ko kn ks [symmetric] id_take_nth_drop [symmetric] length_arr)
  show "children old @ children new = insert_at (Suc i) pid (children p)"
    by (simp only: co cn cs append_take_drop_id)
  show "num_keys old = Suc ?n div 2" "num_keys new = ?n div 2" using old(3) new(3) by simp_all
  have "sorted (keys old @ key # keys new)"
    unfolding all i by (rule sorted_insert_upper [OF internal_wfD(2) [OF wf]])
  then show "internal_wf old" "internal_wf new"
    using old(3,4) new(3,4) m(1,2) by (simp_all add: internal_wf_def sorted_append)
  show "ip_id old = ip_id p" "ip_id new = new_pid" by (rule old(5), rule new(5))
qed

section \<open>Space\<close>

lemma CheckUsedSpace_wf: "internal_wf p \<Longrightarrow> CheckUsedSpace p = 16 * num_keys p + 8"
  using internal_wfD(1) [of p] by (simp add: CheckUsedSpace_def nat_add_distrib nat_mult_distrib)

lemma CheckUnderflow_zero:
  "internal_wf p \<Longrightarrow> CheckUnderflow p 0 = (num_keys p \<le> 126, 16 * num_keys p + 8)"
  using internal_wfD(1) [of p]
  by (auto simp: CheckUnderflow_def Let_def nat_add_distrib nat_mult_distrib)

text \<open>
  The answer to a page that has \<open>k\<close> keys and asks for the bytes it lacks: a sibling lends
  \<open>127 - k\<close> pairs exactly when it keeps 127 keys.
\<close>

lemma CanLend_pairs:
  assumes wf: "internal_wf p" and k: "k \<le> 126" and n: "127 \<le> num_keys p"
  shows "InternalPage_CanLend p (2027 - (16 * k + 8)) =
    \<lparr>can_borrow = (254 \<le> num_keys p + k), borrow_amount = (if 254 \<le> num_keys p + k then 127 - k else 0)\<rparr>"
proof -
  define j where "j = 126 - k"
  have j: "2027 - (16 * k + 8) = 3 + 16 * j" "127 - k = Suc j" "j \<le> 126" using k by (simp_all add: j_def)
  have d: "(3 + 16 * j) div 16 = j" "(3 + 16 * j) mod 16 = 3" by presburger+
  have le: "num_keys p \<le> 254" by (rule internal_wfD(1) [OF wf])
  have "int (16 * num_keys p + 8) - int (16 * Suc j) = int (16 * num_keys p + 8 - 16 * Suc j)"
    using j n by simp
  moreover have "int (16 * num_keys p + 8 - 16 * Suc j) mod 18446744073709551616 =
      int (16 * num_keys p + 8 - 16 * Suc j)" using le by simp
  moreover have "int (16 * num_keys p + 8 - 16 * Suc j) \<le> 2026 \<longleftrightarrow> \<not> 254 \<le> num_keys p + k"
    using k n by (simp add: j_def) presburger
  ultimately show ?thesis
    unfolding InternalPage_CanLend_def Let_def CheckUsedSpace_wf [OF wf] j(1) d using j by (simp add: nat_add_distrib)
qed


section \<open>Borrowing\<close>

text \<open>The separator of two neighbours in a parent with distinct children.\<close>

definition separator :: "mem \<Rightarrow> nat \<Rightarrow> PageID \<Rightarrow> PageID \<Rightarrow> bool" where
  "separator p j left_pid right_pid \<longleftrightarrow> distinct (children p) \<and> j < num_keys p \<and>
     children p ! j = left_pid \<and> children p ! Suc j = right_pid"

lemma FindKey_separator:
  "internal_wf p \<Longrightarrow> separator p j l r \<Longrightarrow> FindKeyFromChildren p l r = j"
  using std_find_nth [of "children p" j] internal_wfD(1) [of p]
  by (auto simp: separator_def FindKeyFromChildren_def)

lemma key_elem: "j < num_keys p \<Longrightarrow> elem p GetKeysStartPointer j = keys p ! j"
  by (simp add: keys_def)

lemma child_elem: "j < Suc (num_keys p) \<Longrightarrow> elem p GetChildrenStartPointer j = children p ! j"
  by (simp add: children_def)

lemma put_key_views:
  assumes "num_keys p \<le> 254" "j < num_keys p"
    and q: "\<And>i. i < 11 \<or> 2043 \<le> i \<Longrightarrow> q i = p i"
    and e: "\<And>i. i < num_keys p \<Longrightarrow> elem q GetKeysStartPointer i = (if i = j then x else keys p ! i)"
  shows "keys q = (keys p)[j := x]" "children q = children p" "num_keys q = num_keys p"
    "ip_type q = ip_type p" "ip_id q = ip_id p"
proof -
  show n: "num_keys q = num_keys p" by (rule load_le_cong) (simp add: q)
  show "ip_type q = ip_type p" by (rule load_le_cong) (simp add: q)
  show "ip_id q = ip_id p" by (rule arg_cong [where f = word_of_nat], rule load_le_cong) (simp add: q)
  show "keys q = (keys p)[j := x]"
    by (rule nth_equalityI) (auto simp: n nth_list_update e simp flip: key_elem)
  show "children q = children p"
    unfolding children_def n by (rule arr_cong, rule elem_cong) (simp add: q start_pointers)
qed

lemma SetNewBoundaryKey_views:
  assumes wf: "internal_wf p" and sep: "separator p j l r" and q: "q = SetNewBoundaryKey p x l r"
  shows "keys q = (keys p)[j := x]" "children q = children p" "num_keys q = num_keys p"
    "ip_type q = ip_type p" "ip_id q = ip_id p"
proof -
  have j: "j < num_keys p" "num_keys p \<le> 254" using sep internal_wfD(1) [OF wf] by (simp_all add: separator_def)
  have q: "q = put_elem p GetKeysStartPointer j x"
    by (simp add: q SetNewBoundaryKey_def FindKey_separator [OF wf sep])
  have "q i = p i" if "i < 11 \<or> 2043 \<le> i" for i
    using that j by (auto simp: q put_elem_outside start_pointers)
  moreover have "elem q GetKeysStartPointer i = (if i = j then x else keys p ! i)" if "i < num_keys p" for i
    using that by (simp add: q elem_put key_elem)
  ultimately show "keys q = (keys p)[j := x]" "children q = children p" "num_keys q = num_keys p"
    "ip_type q = ip_type p" "ip_id q = ip_id p"
    using put_key_views [OF j(2,1), of q x] by blast+
qed

lemma views_eqI:
  assumes "num_keys q = n" "\<And>i. i < n \<Longrightarrow> elem q GetKeysStartPointer i = ks ! i" "length ks = n"
    "\<And>i. i < Suc n \<Longrightarrow> elem q GetChildrenStartPointer i = cs ! i" "length cs = Suc n"
  shows "keys q = ks" "children q = cs"
proof -
  show "keys q = ks" by (rule nth_equalityI) (simp_all add: assms flip: key_elem)
  show "children q = cs" by (rule nth_equalityI) (simp_all add: assms flip: child_elem)
qed

lemma elem_store_header [simp]: "a + k \<le> b \<Longrightarrow> elem (store_le p a k v) b i = elem p b i"
  by (simp add: elem_store_other)

lemma elem_set_num_keys [simp]:
  "elem (set_num_keys p n) GetKeysStartPointer i = elem p GetKeysStartPointer i"
  "elem (set_num_keys p n) GetChildrenStartPointer i = elem p GetChildrenStartPointer i"
  by (simp_all add: elem_store_other start_pointers)

lemma set_num_keys_take:
  assumes n: "n \<le> num_keys p" "num_keys p \<le> 254"
  shows "num_keys (set_num_keys p n) = n" "keys (set_num_keys p n) = take n (keys p)"
    "children (set_num_keys p n) = take (Suc n) (children p)"
proof -
  show nk: "num_keys (set_num_keys p n) = n" using n by (simp add: mem_simps)
  show "keys (set_num_keys p n) = take n (keys p)" unfolding keys_def nk using n by (simp add: arr_def take_map)
  show "children (set_num_keys p n) = take (Suc n) (children p)"
    unfolding children_def nk using n by (simp add: arr_def take_map del: upt_Suc)
qed

definition rotated :: "nat \<Rightarrow> mem \<Rightarrow> mem \<Rightarrow> mem \<Rightarrow> mem \<Rightarrow> mem \<Rightarrow> mem \<Rightarrow> bool" where
  "rotated j page left right page' left' right' \<longleftrightarrow>
     keys left' @ keys page' ! j # keys right' = keys left @ keys page ! j # keys right \<and>
     children left' @ children right' = children left @ children right \<and>
     keys page' = (keys page)[j := keys page' ! j] \<and> children page' = children page \<and>
     ip_id left' = ip_id left \<and> ip_id right' = ip_id right \<and> ip_id page' = ip_id page \<and>
     ip_type left' = ip_type left \<and> ip_type right' = ip_type right \<and> ip_type page' = ip_type page"

text \<open>The separator of the parent is replaced by the key the lender ends with.\<close>

lemma move_separator_views:
  assumes j: "j < num_keys p" "num_keys p \<le> 254" and x: "elem src GetKeysStartPointer k = x"
    and q: "q = move_elems p GetKeysStartPointer j src GetKeysStartPointer k 1"
  shows "keys q = (keys p)[j := x]" "children q = children p" "ip_type q = ip_type p" "ip_id q = ip_id p"
proof -
  have "q i = p i" if "i < 11 \<or> 2043 \<le> i" for i
    using that j by (auto simp: q move_elems_outside start_pointers)
  moreover have "elem q GetKeysStartPointer i = (if i = j then x else keys p ! i)" if "i < num_keys p" for i
    using that by (auto simp: q x elem_move simp flip: key_elem)
  ultimately show "keys q = (keys p)[j := x]" "children q = children p" "ip_type q = ip_type p" "ip_id q = ip_id p"
    using put_key_views [OF j(2,1), of q x] by blast+
qed

text \<open>What the borrower gets from the left: its arrays move up and the last entries of the lender go before them.\<close>

lemma left_gain:
  assumes bd: "0 < a" "a \<le> num_keys l" "num_keys b + a \<le> 254" "num_keys l \<le> 254" and j: "j < num_keys page"
    and b5: "b5 = move_elems (move_elems (move_elems (move_elems (move_elems b GetKeysStartPointer a b GetKeysStartPointer 0 (num_keys b))
      GetChildrenStartPointer a (move_elems b GetKeysStartPointer a b GetKeysStartPointer 0 (num_keys b)) GetChildrenStartPointer 0 (num_keys b + 1))
      GetChildrenStartPointer 0 l GetChildrenStartPointer (num_keys l + 1 - a) a)
      GetKeysStartPointer (a - 1) page GetKeysStartPointer j 1) GetKeysStartPointer 0 l GetKeysStartPointer (num_keys l - a + 1) (a - 1)"
    and b': "b' = set_num_keys b5 (num_keys b + a)"
  shows "num_keys b5 = num_keys b" "num_keys b' = num_keys b + a" "ip_type b' = ip_type b" "ip_id b' = ip_id b"
    "keys b' = drop (Suc (num_keys l - a)) (keys l) @ keys page ! j # keys b"
    "children b' = drop (Suc (num_keys l - a)) (children l) @ children b"
proof -
  let ?K = GetKeysStartPointer and ?C = GetChildrenStartPointer
  show "num_keys b5 = num_keys b" "ip_type b' = ip_type b" "ip_id b' = ip_id b"
    using bd by (simp_all add: b5 b' mem_simps start_pointers)
  show nb: "num_keys b' = num_keys b + a" using bd by (simp add: b' mem_simps)
  have ek: "elem b' ?K i = (drop (Suc (num_keys l - a)) (keys l) @ keys page ! j # keys b) ! i" if "i < num_keys b + a" for i
  proof -
    have "elem b' ?K i = elem b5 ?K i" by (simp add: b')
    also have "\<dots> = (if i < a - 1 then elem l ?K (num_keys l - a + 1 + i) else if i = a - 1 then elem page ?K j
        else elem b ?K (i - a))"
      using that bd by (auto simp: b5 elem_move) (simp_all add: elem_move_other elem_move start_pointers)
    finally show ?thesis using that bd j by (auto simp: nth_append nth_Cons' key_elem)
  qed
  have ec: "elem b' ?C i = (drop (Suc (num_keys l - a)) (children l) @ children b) ! i" if "i < Suc (num_keys b + a)" for i
  proof -
    have "elem b' ?C i = elem b5 ?C i" by (simp add: b')
    also have "\<dots> = (if i < a then elem l ?C (num_keys l + 1 - a + i) else elem b ?C (i - a))"
      using that bd by (simp add: b5 elem_move elem_move_other start_pointers)
    finally show ?thesis using that bd by (auto simp: nth_append nth_Cons' child_elem Suc_diff_le)
  qed
  show "keys b' = drop (Suc (num_keys l - a)) (keys l) @ keys page ! j # keys b"
    "children b' = drop (Suc (num_keys l - a)) (children l) @ children b"
    using bd by (intro views_eqI [OF nb ek _ ec]; simp)+
qed

lemma HandleLeftBorrow_views:
  assumes wf: "internal_wf page" "internal_wf b" "internal_wf l"
    and sep: "separator page j (ip_id l) (ip_id b)"
    and amount: "0 < borrow_amount rep" "borrow_amount rep \<le> num_keys l"
      "num_keys b + borrow_amount rep \<le> 254"
  shows "\<exists>page' b' l'. InternalPage_HandleLeftBorrow page b l rep = Some (page', b', l') \<and>
    rotated j page l b page' l' b' \<and> num_keys b' = num_keys b + borrow_amount rep \<and>
    num_keys l' = num_keys l - borrow_amount rep"
proof -
  let ?K = GetKeysStartPointer and ?C = GetChildrenStartPointer
  define a where "a = borrow_amount rep"
  have bd: "0 < a" "a \<le> num_keys l" "num_keys b + a \<le> 254" "num_keys l \<le> 254"
    using amount internal_wfD(1) [OF wf(3)] by (simp_all add: a_def)
  have j: "j < num_keys page" "num_keys page \<le> 254"
    using sep internal_wfD(1) [OF wf(1)] by (simp_all add: separator_def)
  have rot: "FindKeyFromChildren page (ip_id l) (ip_id b) = j" by (rule FindKey_separator [OF wf(1) sep])
  define b5 where "b5 = move_elems (move_elems (move_elems (move_elems (move_elems b ?K a b ?K 0 (num_keys b))
    ?C a (move_elems b ?K a b ?K 0 (num_keys b)) ?C 0 (num_keys b + 1)) ?C 0 l ?C (num_keys l + 1 - a) a)
    ?K (a - 1) page ?K j 1) ?K 0 l ?K (num_keys l - a + 1) (a - 1)"
  define page' where "page' = move_elems page ?K j l ?K (num_keys l - a) 1"
  define b' where "b' = set_num_keys b5 (num_keys b + a)"
  define l' where "l' = set_num_keys l (num_keys l - a)"
  note g = left_gain [OF bd j(1) b5_def b'_def]
  have r: "InternalPage_HandleLeftBorrow page b l rep = Some (page', b', l')"
    unfolding InternalPage_HandleLeftBorrow_def Let_def rot a_def [symmetric]
      b5_def [symmetric] page'_def [symmetric] g(1)
    using bd by (simp add: b'_def l'_def nat_add_distrib nat_diff_distrib)
  have last: "elem l ?K (num_keys l - a) = keys l ! (num_keys l - a)" using bd by (simp add: key_elem)
  note pv = move_separator_views [OF j last page'_def]
  have lv: "num_keys l' = num_keys l - a" "keys l' = take (num_keys l - a) (keys l)"
    "children l' = take (Suc (num_keys l - a)) (children l)"
    using bd set_num_keys_take [of "num_keys l - a" l] by (simp_all add: l'_def)
  have "rotated j page l b page' l' b'"
    unfolding rotated_def lv(2,3) g(3-6) pv
    using bd j id_take_nth_drop [of "num_keys l - a" "keys l"] by (simp add: l'_def mem_simps)
  then show ?thesis using r g(2) lv(1) unfolding a_def by blast
qed

text \<open>
  What the borrower gets from the right, and what is left of the lender: the first entries of the
  lender go behind those of the borrower, the rest moves down.
\<close>

lemma right_loss:
  assumes bd: "0 < a" "a \<le> num_keys l" "num_keys l \<le> 254"
    and l1: "l1 = move_elems l GetChildrenStartPointer 0 l GetChildrenStartPointer a (num_keys l + 1 - a)"
    and l2: "l2 = move_elems l1 GetKeysStartPointer 0 l1 GetKeysStartPointer a (num_keys l - a)"
    and l': "l' = set_num_keys l2 (num_keys l - a)"
  shows "num_keys l2 = num_keys l" "num_keys l' = num_keys l - a" "ip_type l' = ip_type l" "ip_id l' = ip_id l"
    "keys l' = drop a (keys l)" "children l' = drop a (children l)"
    "\<forall>i < num_keys l. elem l1 GetKeysStartPointer i = keys l ! i"
proof -
  let ?K = GetKeysStartPointer and ?C = GetChildrenStartPointer
  show "num_keys l2 = num_keys l" "ip_type l' = ip_type l" "ip_id l' = ip_id l"
    using bd by (simp_all add: l2 l1 l' mem_simps start_pointers)
  show nl: "num_keys l' = num_keys l - a" using bd by (simp add: l' mem_simps)
  show l1k: "\<forall>i < num_keys l. elem l1 ?K i = keys l ! i"
    using bd by (simp add: l1 elem_move_other start_pointers flip: key_elem [unfolded start_pointers])
  have elk: "elem l' ?K i = drop a (keys l) ! i" if "i < num_keys l - a" for i
    using that bd l1k by (simp add: l' l2 elem_move)
  have elc: "elem l' ?C i = drop a (children l) ! i" if "i < Suc (num_keys l - a)" for i
  proof -
    have "elem l' ?C i = elem l1 ?C i" using bd by (simp add: l' l2 elem_move_other start_pointers)
    then show ?thesis using that bd by (simp add: l1 elem_move child_elem Suc_diff_le)
  qed
  show "keys l' = drop a (keys l)" "children l' = drop a (children l)"
    using bd by (intro views_eqI [OF nl elk _ elc]; simp)+
qed

lemma right_gain:
  assumes bd: "0 < a" "a \<le> num_keys l" "num_keys b + a \<le> 254" and j: "j < num_keys page"
    and l1k: "\<forall>i < num_keys l. elem l1 GetKeysStartPointer i = keys l ! i"
    and b3: "b3 = move_elems (move_elems (move_elems b GetChildrenStartPointer (num_keys b + 1) l GetChildrenStartPointer 0 a)
      GetKeysStartPointer (num_keys b) page GetKeysStartPointer j 1) GetKeysStartPointer (num_keys b + 1) l1 GetKeysStartPointer 0 (a - 1)"
    and b': "b' = set_num_keys b3 (num_keys b + a)"
  shows "num_keys b3 = num_keys b" "num_keys b' = num_keys b + a" "ip_type b' = ip_type b" "ip_id b' = ip_id b"
    "keys b' = keys b @ keys page ! j # take (a - 1) (keys l)" "children b' = children b @ take a (children l)"
proof -
  let ?K = GetKeysStartPointer and ?C = GetChildrenStartPointer
  show "num_keys b3 = num_keys b" "ip_type b' = ip_type b" "ip_id b' = ip_id b"
    using bd by (simp_all add: b3 b' mem_simps start_pointers)
  show nb: "num_keys b' = num_keys b + a" using bd by (simp add: b' mem_simps)
  have ek: "elem b' ?K i = (keys b @ keys page ! j # take (a - 1) (keys l)) ! i" if "i < num_keys b + a" for i
  proof -
    have "elem b' ?K i = elem b3 ?K i" by (simp add: b')
    also have "\<dots> = (if i < num_keys b then elem b ?K i else if i = num_keys b then elem page ?K j
        else elem l1 ?K (i - (num_keys b + 1)))"
      using that bd by (auto simp: b3 elem_move) (simp_all add: elem_move_other start_pointers)
    finally show ?thesis using that bd j by (auto simp: nth_append nth_Cons' key_elem l1k)
  qed
  have ec: "elem b' ?C i = (children b @ take a (children l)) ! i" if "i < Suc (num_keys b + a)" for i
  proof -
    have "elem b' ?C i = elem b3 ?C i" by (simp add: b')
    also have "\<dots> = (if i < num_keys b + 1 then elem b ?C i else elem l ?C (i - (num_keys b + 1)))"
      using that bd by (simp add: b3 elem_move elem_move_other start_pointers)
    finally show ?thesis using that bd by (auto simp: nth_append child_elem)
  qed
  show "keys b' = keys b @ keys page ! j # take (a - 1) (keys l)" "children b' = children b @ take a (children l)"
    using bd by (intro views_eqI [OF nb ek _ ec]; simp)+
qed

lemma HandleRightBorrow_views:
  assumes wf: "internal_wf page" "internal_wf b" "internal_wf l"
    and sep: "separator page j (ip_id b) (ip_id l)"
    and amount: "0 < borrow_amount rep" "borrow_amount rep \<le> num_keys l"
      "num_keys b + borrow_amount rep \<le> 254"
  shows "\<exists>page' b' l'. InternalPage_HandleRightBorrow page b l rep = Some (page', b', l') \<and>
    rotated j page b l page' b' l' \<and> num_keys b' = num_keys b + borrow_amount rep \<and>
    num_keys l' = num_keys l - borrow_amount rep"
proof -
  let ?K = GetKeysStartPointer and ?C = GetChildrenStartPointer
  define a where "a = borrow_amount rep"
  have bd: "0 < a" "a \<le> num_keys l" "num_keys b + a \<le> 254" "num_keys l \<le> 254"
    using amount internal_wfD(1) [OF wf(3)] by (simp_all add: a_def)
  have j: "j < num_keys page" "num_keys page \<le> 254"
    using sep internal_wfD(1) [OF wf(1)] by (simp_all add: separator_def)
  have rot: "FindKeyFromChildren page (ip_id b) (ip_id l) = j" by (rule FindKey_separator [OF wf(1) sep])
  define l1 where "l1 = move_elems l ?C 0 l ?C a (num_keys l + 1 - a)"
  define l2 where "l2 = move_elems l1 ?K 0 l1 ?K a (num_keys l - a)"
  define b3 where "b3 = move_elems (move_elems (move_elems b ?C (num_keys b + 1) l ?C 0 a) ?K (num_keys b) page ?K j 1)
    ?K (num_keys b + 1) l1 ?K 0 (a - 1)"
  define page' where "page' = move_elems page ?K j l1 ?K (a - 1) 1"
  define b' where "b' = set_num_keys b3 (num_keys b + a)"
  define l' where "l' = set_num_keys l2 (num_keys l - a)"
  note lv = right_loss [OF bd(1,2,4) l1_def l2_def l'_def]
  note g = right_gain [OF bd(1-3) j(1) lv(7) b3_def b'_def]
  have r: "InternalPage_HandleRightBorrow page b l rep = Some (page', b', l')"
    unfolding InternalPage_HandleRightBorrow_def Let_def rot a_def [symmetric] l1_def [symmetric]
      b3_def [symmetric] page'_def [symmetric] l2_def [symmetric] g(1) lv(1)
    using bd by (simp add: b'_def l'_def g(1) nat_add_distrib nat_diff_distrib)
  have first: "elem l1 ?K (a - 1) = keys l ! (a - 1)" using bd by (simp add: lv(7))
  note pv = move_separator_views [OF j first page'_def]
  have "rotated j page b l page' b' l'"
    unfolding rotated_def lv(3-6) g(3-6) pv using bd j id_take_nth_drop [of "a - 1" "keys l"] by simp
  then show ?thesis using r g(2) lv(2) unfolding a_def by blast
qed

text \<open>A rotation keeps both pages and the parent sorted, if the concatenation is.\<close>

lemma rotated_wf:
  assumes rot: "rotated j page l r page' l' r'" and wf: "internal_wf page" "internal_wf l" "internal_wf r"
    and srt: "sorted (keys l @ keys page ! j # keys r)" and n: "num_keys l' \<le> 254" "num_keys r' \<le> 254"
  shows "internal_wf l'" "internal_wf r'" "sorted (keys l' @ keys page' ! j # keys r')"
proof -
  have r: "keys l' @ keys page' ! j # keys r' = keys l @ keys page ! j # keys r"
    "ip_type l' = ip_type l" "ip_type r' = ip_type r" using rot by (simp_all add: rotated_def)
  show s: "sorted (keys l' @ keys page' ! j # keys r')" unfolding r by (rule srt)
  show "internal_wf l'" "internal_wf r'"
    using s wf n r(2,3) by (auto simp: internal_wf_def sorted_append)
qed

section \<open>Merging and deleting\<close>

lemma MergePages_views:
  assumes wf: "internal_wf a" "internal_wf e" and room: "num_keys a + num_keys e + 1 \<le> 254"
    and q: "q = InternalPage_MergePages x a e"
  shows "keys q = keys a @ x # keys e" "children q = children a @ children e"
    "num_keys q = num_keys a + num_keys e + 1" "ip_type q = ip_type a" "ip_id q = ip_id a"
proof -
  let ?K = GetKeysStartPointer and ?C = GetChildrenStartPointer
  define an en where "an = num_keys a" and "en = num_keys e"
  define a3 where "a3 = move_elems (move_elems (put_elem a ?K an x) ?K (an + 1) e ?K 0 en)
    ?C (an + 1) e ?C 0 (en + 1)"
  have bd: "an + en + 1 \<le> 254" using room by (simp add: an_def en_def)
  have hd: "num_keys a3 = an" "ip_type a3 = ip_type a" "ip_id a3 = ip_id a"
    using bd by (simp_all add: a3_def an_def mem_simps start_pointers)
  have q: "q = set_num_keys a3 (an + en + 1)"
    unfolding q InternalPage_MergePages_def Let_def an_def [symmetric] en_def [symmetric]
      a3_def [symmetric] hd(1) using bd by (simp add: nat_add_distrib)
  have nq: "num_keys q = an + en + 1" using bd by (simp add: q mem_simps)
  have ek: "elem q ?K i = (keys a @ x # keys e) ! i" if "i < an + en + 1" for i
  proof -
    have "elem q ?K i = (if i < an then elem a ?K i else if i = an then x else elem e ?K (i - (an + 1)))"
      using that bd by (auto simp: q a3_def elem_put elem_move elem_move_other start_pointers)
    then show ?thesis using that by (auto simp: nth_append nth_Cons' key_elem an_def en_def)
  qed
  have ec: "elem q ?C i = (children a @ children e) ! i" if "i < Suc (an + en + 1)" for i
  proof -
    have "elem q ?C i = (if i < an + 1 then elem a ?C i else elem e ?C (i - (an + 1)))"
      using that bd by (auto simp: q a3_def elem_move elem_move_other elem_put_other start_pointers)
    then show ?thesis using that by (auto simp: nth_append child_elem an_def en_def)
  qed
  show "keys q = keys a @ x # keys e"
    by (intro views_eqI(1) [OF nq ek _ ec]) (simp_all add: an_def en_def)
  show "children q = children a @ children e"
    by (intro views_eqI(2) [OF nq ek _ ec]) (simp_all add: an_def en_def)
  show "num_keys q = num_keys a + num_keys e + 1" by (simp add: nq an_def en_def)
  show "ip_type q = ip_type a" "ip_id q = ip_id a" using hd by (simp_all add: q mem_simps)
qed

lemma DeletePartition_views:
  assumes wf: "internal_wf p" and sep: "separator p j l r"
  shows "\<exists>q. DeletePartitionKeyAndChildPtr p l r = Some (keys p ! j, q) \<and>
    keys q = delete_at j (keys p) \<and> children q = delete_at (Suc j) (children p) \<and>
    num_keys q = num_keys p - 1 \<and> ip_type q = ip_type p \<and> ip_id q = ip_id p"
proof -
  let ?K = GetKeysStartPointer and ?C = GetChildrenStartPointer
  define n where "n = num_keys p"
  have j: "j < n" "n \<le> 254" "std_find (children p) l = j"
    using sep internal_wfD(1) [OF wf] std_find_nth [of "children p" j]
    by (auto simp: separator_def n_def)
  define p1 where "p1 = move_elems p ?C (j + 1) p ?C (j + 2) (n + 1 - j - 2)"
  define p2 where "p2 = move_elems p1 ?K j p1 ?K (j + 1) (n - j - 1)"
  have hd: "num_keys p2 = n" "ip_type p2 = ip_type p" "ip_id p2 = ip_id p"
    using j by (simp_all add: p2_def p1_def n_def mem_simps start_pointers)
  have o: "u16 (int j) = j" "u16 (int n - 1) = n - 1" using j by (simp_all add: nat_diff_distrib)
  have p1k: "elem p1 ?K i = elem p ?K i" if "i < 254" for i
    using that by (simp add: p1_def elem_move_other start_pointers)
  define q where "q = set_num_keys p2 (n - 1)"
  have r: "DeletePartitionKeyAndChildPtr p l r = Some (keys p ! j, q)"
    unfolding DeletePartitionKeyAndChildPtr_def Let_def n_def [symmetric] j(3) o(1)
      p1_def [symmetric] p2_def [symmetric] hd(1) o(2) q_def [symmetric]
    using j by (simp add: p1k key_elem n_def)
  have nq: "num_keys q = n - 1" using j by (simp add: q_def mem_simps)
  have ek: "elem q ?K i = delete_at j (keys p) ! i" if "i < n - 1" for i
    using that j by (auto simp: q_def p2_def elem_move p1k nth_delete_at key_elem n_def)
  have ec: "elem q ?C i = delete_at (Suc j) (children p) ! i" if "i < Suc (n - 1)" for i
  proof -
    have "elem q ?C i = elem p1 ?C i" using j by (simp add: q_def p2_def elem_move_other start_pointers)
    then show ?thesis using that j by (auto simp: p1_def elem_move nth_delete_at child_elem n_def)
  qed
  have "keys q = delete_at j (keys p)"
    using j by (intro views_eqI(1) [OF nq ek _ ec]) (simp_all add: n_def)
  moreover have "children q = delete_at (Suc j) (children p)"
    using j by (intro views_eqI(2) [OF nq ek _ ec]) (simp_all add: n_def)
  moreover have "ip_type q = ip_type p" "ip_id q = ip_id p" using hd by (simp_all add: q_def mem_simps)
  ultimately show ?thesis using r nq by (simp add: n_def)
qed

text \<open>
  \<open>DeleteKeyAndChildPtr\<close> looks the key up by its value, so it may remove another entry with an
  equal key; in a sorted array that leaves the same keys.
\<close>

lemma sorted_delete_equal:
  assumes "sorted xs" "j < length xs"
  shows "std_lower_bound xs (xs ! j) \<le> j" "delete_at (std_lower_bound xs (xs ! j)) xs = delete_at j xs"
proof -
  let ?i = "std_lower_bound xs (xs ! j)"
  show le: "?i \<le> j"
  proof (rule ccontr)
    assume "\<not> ?i \<le> j"
    then have "j < length (takeWhile (\<lambda>y. y < xs ! j) xs)" by (simp add: std_lower_bound_def)
    then have "xs ! j < xs ! j" using nth_mem [of j "takeWhile (\<lambda>y. y < xs ! j) xs"]
      by (auto simp: takeWhile_nth dest: set_takeWhileD)
    then show False by simp
  qed
  have eq: "xs ! k = xs ! j" if "?i \<le> k" "k \<le> j" for k
  proof -
    have "\<not> xs ! ?i < xs ! j"
      using nth_length_takeWhile [of "\<lambda>y. y < xs ! j" xs] le assms(2) by (simp add: std_lower_bound_def)
    then show ?thesis
      using that assms sorted_nth_mono [OF assms(1), of ?i k] sorted_nth_mono [OF assms(1), of k j] by auto
  qed
  show "delete_at ?i xs = delete_at j xs"
  proof (rule nth_equalityI)
    fix k assume "k < length (delete_at ?i xs)"
    then have k: "k < length xs - 1" using le assms(2) by simp
    show "delete_at ?i xs ! k = delete_at j xs ! k"
      using k le assms(2) eq [of k] eq [of "Suc k"] by (auto simp: nth_delete_at)
  qed (use le assms(2) in simp)
qed

lemma DeleteKey_views:
  assumes wf: "internal_wf p" and sep: "separator p j l r" and q: "q = DeleteKeyAndChildPtr p l r"
  shows "keys q = delete_at j (keys p)" "children q = delete_at (Suc j) (children p)"
    "num_keys q = num_keys p - 1" "ip_type q = ip_type p" "ip_id q = ip_id p"
proof -
  let ?K = GetKeysStartPointer and ?C = GetChildrenStartPointer
  define n i where "n = num_keys p" and "i = std_lower_bound (keys p) (keys p ! j)"
  have j: "j < n" "n \<le> 254" "FindKeyFromChildren p l r = j" "std_find (children p) r = Suc j"
    using sep internal_wfD(1) [OF wf] FindKey_separator [OF wf sep] std_find_nth [of "children p" "Suc j"]
    by (auto simp: separator_def n_def)
  have i: "i \<le> j" "delete_at i (keys p) = delete_at j (keys p)"
    using sorted_delete_equal [OF internal_wfD(2) [OF wf], of j] j(1) by (simp_all add: i_def n_def)
  define p1 where "p1 = move_elems p ?K i p ?K (i + 1) (n - i - 1)"
  define p2 where "p2 = move_elems p1 ?C (Suc j) p1 ?C (Suc j + 1) (n + 1 - Suc j - 1)"
  have p1C: "elem p1 ?C k = elem p ?C k" for k
    using i j by (simp add: p1_def elem_move_other start_pointers)
  have f: "std_find (arr p1 ?C (n + 1)) r = Suc j"
    using j(4) arr_cong [of "n + 1" p1 ?C p ?C] by (simp add: children_def p1C n_def)
  have c1: "(if n - i > 1 then p1 else p) = p1"
    using i j by (auto simp: p1_def move_elems_zero)
  have c2: "(if n + 1 - Suc j > 1 then p2 else p1) = p2"
    using j by (auto simp: p2_def move_elems_zero)
  have hd: "num_keys p2 = n" "ip_type p2 = ip_type p" "ip_id p2 = ip_id p"
    using i j by (simp_all add: p2_def p1_def n_def mem_simps start_pointers)
  have o: "u16 (int n - 1) = n - 1" using j by (simp add: nat_diff_distrib)
  have k: "elem p ?K j = keys p ! j" using j(1) by (simp add: key_elem n_def)
  have q: "q = set_num_keys p2 (n - 1)"
    unfolding q DeleteKeyAndChildPtr_def Let_def n_def [symmetric] j(3) k i_def [symmetric]
      p1_def [symmetric] c1 f p2_def [symmetric] c2 hd(1) o ..
  have nq: "num_keys q = n - 1" using j by (simp add: q mem_simps)
  have ek: "elem q ?K m = delete_at i (keys p) ! m" if "m < n - 1" for m
  proof -
    have "m < 254" using that j by simp
    then have "elem q ?K m = elem p1 ?K m" by (simp add: q p2_def elem_move_other start_pointers)
    then show ?thesis using that i(1) j(1,2) by (auto simp: p1_def elem_move nth_delete_at key_elem n_def)
  qed
  have ec: "elem q ?C m = delete_at (Suc j) (children p) ! m" if "m < Suc (n - 1)" for m
    using that j by (auto simp: q p2_def elem_move p1C nth_delete_at child_elem n_def)
  show "keys q = delete_at j (keys p)"
    unfolding i(2) [symmetric] using i j by (intro views_eqI(1) [OF nq ek _ ec]) (simp_all add: n_def)
  show "children q = delete_at (Suc j) (children p)"
    using i j by (intro views_eqI(2) [OF nq ek _ ec]) (simp_all add: n_def)
  show "num_keys q = num_keys p - 1" "ip_type q = ip_type p" "ip_id q = ip_id p"
    using nq hd by (simp_all add: n_def q mem_simps)
qed

lemma sorted_delete_at: "sorted xs \<Longrightarrow> sorted (delete_at k xs)"
proof -
  assume "sorted xs"
  then have "sorted (take k xs @ drop k xs)" by simp
  then show ?thesis
    using set_drop_subset_set_drop [of k "Suc k" xs] \<open>sorted xs\<close>
    unfolding delete_at_def sorted_append by (auto intro: sorted_wrt_drop)
qed

lemma internal_wf_smaller:
  "internal_wf p \<Longrightarrow> ip_type q = ip_type p \<Longrightarrow> num_keys q = num_keys p - 1 \<Longrightarrow>
    keys q = delete_at j (keys p) \<Longrightarrow> internal_wf q"
  unfolding internal_wf_def using sorted_delete_at [of "keys p" j] by auto

section \<open>Siblings\<close>

lemma left_sibling_spec:
  assumes d: "distinct (children p)" and i: "i < length (children p)"
  shows "left_sibling none p (children p ! i) =
    (if i = 0 then mk_result 0 none else mk_result (children p ! (i - 1)) ErrNone)"
  using std_find_nth [OF d i] i by (auto simp: left_sibling_def child_elem)

lemma right_sibling_spec:
  assumes d: "distinct (children p)" and i: "i < length (children p)"
  shows "right_sibling none p (children p ! i) =
    (if i = num_keys p then mk_result 0 none else mk_result (children p ! Suc i) ErrNone)"
  using std_find_nth [OF d i] i by (auto simp: right_sibling_def child_elem)

lemma sibling_missing:
  "pid \<notin> set (children p) \<Longrightarrow> left_sibling none p pid = mk_result 0 ChildPtrNotFound"
  "pid \<notin> set (children p) \<Longrightarrow> right_sibling none p pid = mk_result 0 ChildPtrNotFound"
  using std_find_miss [of pid "children p"] by (simp_all add: left_sibling_def right_sibling_def)


end
