(* ===== verification/Samples.thy ===== *)
theory Samples
  imports Leaf_Store Internal_Page
begin

text \<open>
  Sample pages on which the properties are applied: leaf pages with a given number of tuples of
  a given length and consecutive keys, and internal pages with consecutive keys and children,
  laid out by the code's own \<open>MakePage\<close> functions.
\<close>

section \<open>Leaf pages\<close>

text \<open>
  A directory of \<open>n\<close> live slots of length \<open>L\<close> whose tuples have the keys \<open>base\<close>, \<open>base + 1\<close>, ...;
  the sample page is laid out from it by \<open>MakePage\<close>.
\<close>

definition sample_buffer :: "nat \<Rightarrow> nat \<Rightarrow> nat \<Rightarrow> mem" where
  "sample_buffer base n L j =
    (if 31 \<le> j \<and> j < 31 + 5 * n then
       (let i = (j - 31) div 5
        in [0, word_of_nat (2000 + 8 * i), word_of_nat ((2000 + 8 * i) div 256),
            word_of_nat L, word_of_nat (L div 256)] ! ((j - 31) mod 5))
     else if 2013 \<le> j \<and> (j - 2013) mod 8 = 0 \<and> (j - 2013) div 8 < n
       then word_of_nat (base + (j - 2013) div 8)
     else 0)"

definition sample_page :: "PageID \<Rightarrow> nat \<Rightarrow> nat \<Rightarrow> nat \<Rightarrow> mem" where
  "sample_page pid base n L =
    LeafPage_MakePage (\<lambda>_. 0) 0 n (sample_buffer base n L) pid 0 0"

definition sample_slots :: "nat \<Rightarrow> nat \<Rightarrow> SlotArrayElement list" where
  "sample_slots n L = map (\<lambda>i. \<lparr>is_deleted = False, offset = 2000 + 8 * i, len = L\<rparr>) [0..<n]"

lemma sample_slot:
  assumes i: "i < n" and b: "n \<le> 156" "L < 65536"
  shows "slot_at (sample_buffer base n L) i = \<lparr>is_deleted = False, offset = 2000 + 8 * i, len = L\<rparr>"
proof -
  let ?b = "sample_buffer base n L"
  have byte: "?b (31 + 5 * i + d) = [0, word_of_nat (2000 + 8 * i), word_of_nat ((2000 + 8 * i) div 256),
      word_of_nat L, word_of_nat (L div 256)] ! d" if "d < 5" for d
  proof -
    have "(5 * i + d) div 5 = i" "(5 * i + d) mod 5 = d" using that by simp_all
    moreover have "31 + 5 * i + d - 31 = 5 * i + d" by simp
    moreover have "31 + 5 * i + d < 31 + 5 * n" using that i by simp
    ultimately show ?thesis by (simp add: sample_buffer_def Let_def)
  qed
  have "load_le ?b (31 + 5 * i) 1 = 0" using byte [of 0] by (simp add: load_le.simps)
  moreover have "load_le ?b (31 + 5 * i + 1) 2 = (2000 + 8 * i) mod 256 ^ 2"
  proof (rule load_le_digits)
    fix d :: nat assume "d < 2"
    then have "d = 0 \<or> d = 1" by arith
    then show "?b (31 + 5 * i + 1 + d) = word_of_nat ((2000 + 8 * i) div 256 ^ d)"
      using byte [of 1] byte [of 2] by (auto simp: numeral_2_eq_2)
  qed
  moreover have "load_le ?b (31 + 5 * i + 3) 2 = L mod 256 ^ 2"
  proof (rule load_le_digits)
    fix d :: nat assume "d < 2"
    then have "d = 0 \<or> d = 1" by arith
    then show "?b (31 + 5 * i + 3 + d) = word_of_nat (L div 256 ^ d)"
      using byte [of 3] byte [of 4] by (auto simp: numeral_2_eq_2 numeral_3_eq_3)
  qed
  ultimately show ?thesis using b i by (simp add: slot_at_def)
qed

lemma sample_tuple_key:
  assumes i: "i < n" and b: "base + n \<le> 256" "21 \<le> L" "n \<le> 156"
  shows "tuple_key (tuple_of (sample_buffer base n L) \<lparr>is_deleted = False, offset = 2000 + 8 * i, len = L\<rparr>) =
    word_of_nat (base + i)"
proof -
  let ?b = "sample_buffer base n L"
  have "load_le ?b (2013 + 8 * i) 8 = (base + i) mod 256 ^ 8"
  proof (rule load_le_digits)
    fix d :: nat assume d: "d < 8"
    have e: "2013 + 8 * i + d - 2013 = 8 * i + d" by simp
    have "(8 * i + d) div 8 = i" "(8 * i + d) mod 8 = d" using d by simp_all
    then have "?b (2013 + 8 * i + d) = (if d = 0 then word_of_nat (base + i) else 0)"
      using i b by (simp add: sample_buffer_def)
    moreover have "(base + i) div 256 ^ d = 0" if "d \<noteq> 0"
    proof -
      have "base + i < 256" using i b by simp
      also have "\<dots> \<le> 256 ^ d" using that by (metis One_nat_def Suc_leI bot_nat_0.not_eq_extremum power_increasing power_one_right one_le_numeral)
      finally show ?thesis by simp
    qed
    ultimately show "?b (2013 + 8 * i + d) = word_of_nat ((base + i) div 256 ^ d)" by simp
  qed
  then show ?thesis using i b tuple_key_of [of "\<lparr>is_deleted = False, offset = 2000 + 8 * i, len = L\<rparr>" ?b]
    by (simp add: add.commute)
qed

lemma sample_facts:
  assumes "31 + 5 * n + n * L \<le> 4096" "base + n \<le> 256" "21 \<le> L" "L \<le> 808"
  shows "leaf_wf (sample_page pid base n L)" "used_space (sample_page pid base n L) = 5 * n + n * L"
    "map tuple_key (tuples (sample_page pid base n L)) = map (\<lambda>i. word_of_nat (base + i)) [0..<n]"
    "garbage_bytes (sample_page pid base n L) = 0" "slots (sample_page pid base n L) = compact 4095 (sample_slots n L)"
    "page_id (sample_page pid base n L) = pid" "right_pid (sample_page pid base n L) = 0"
proof -
  let ?b = "sample_buffer base n L" and ?p = "sample_page pid base n L"
  have "n * 21 \<le> n * L" by (rule mult_le_mono2 [OF assms(3)])
  then have n: "n \<le> 156" using assms(1) by linarith
  have ss: "live (map (slot_at ?b) [0..<0 + n]) = sample_slots n L"
  proof -
    have "map (slot_at ?b) [0..<n] = sample_slots n L"
      using assms(4) n by (simp add: sample_slots_def sample_slot)
    moreover have "live (sample_slots n L) = sample_slots n L" by (simp add: live_def sample_slots_def filter_map comp_def)
    ultimately show ?thesis by simp
  qed
  have ls: "length (sample_slots n L) = n" "lens (sample_slots n L) = n * L"
    by (simp_all add: sample_slots_def lens_def comp_def sum_list_triv)
  have keys: "map (\<lambda>s. tuple_key (tuple_of ?b s)) (sample_slots n L) = map (\<lambda>i. word_of_nat (base + i)) [0..<n]"
    using assms n by (simp add: sample_slots_def sample_tuple_key comp_def)
  have "sorted (map (\<lambda>i. word_of_nat (base + i) :: 64 word) [0..<n])"
    using assms(2) by (auto simp: sorted_iff_nth_mono word_le_nat_alt unat_of_nat simp flip: of_nat_add)
  then have srt: "sorted (map (\<lambda>s. tuple_key (tuple_of ?b s)) (sample_slots n L))" using keys by simp
  have q: "LeafPage_MakePage (\<lambda>_. 0) 0 n ?b pid 0 0 = ?p" by (simp add: sample_page_def)
  have fits: "31 + 5 * length (sample_slots n L) + lens (sample_slots n L) \<le> 4096" using assms(1) ls by simp
  have l: "21 \<le> len s \<and> len s \<le> 808" if "s \<in> set (sample_slots n L)" for s
    using that assms(3,4) by (auto simp: sample_slots_def)
  note f = MakePage_fresh [OF q ss [symmetric] fits l srt, unfolded fresh_page_def]
  note h = MakePage_header [OF q ss [symmetric] fits]
  show "leaf_wf ?p" "used_space ?p = 5 * n + n * L" "garbage_bytes ?p = 0" "page_id ?p = pid" "right_pid ?p = 0"
    using f ls by simp_all
  show "map tuple_key (tuples ?p) = map (\<lambda>i. word_of_nat (base + i)) [0..<n]"
    using f keys by (simp add: comp_def)
  show "slots ?p = compact 4095 (sample_slots n L)" by (rule h(8))
qed

section \<open>Internal pages\<close>

definition sample_words :: "nat \<Rightarrow> mem" where
  "sample_words base j = (if j mod 8 = 0 then word_of_nat (base + j div 8) else 0)"

definition sample_node :: "PageID \<Rightarrow> nat \<Rightarrow> nat \<Rightarrow> nat \<Rightarrow> mem" where
  "sample_node pid kbase cbase n =
    InternalPage_MakePage (\<lambda>_. 0) (sample_words kbase) 0 (sample_words cbase) 0 n pid"

lemma sample_word: "base + i < 256 \<Longrightarrow> elem (sample_words base) 0 i = word_of_nat (base + i)"
proof -
  assume b: "base + i < 256"
  have "load_le (sample_words base) (8 * i) 8 = (base + i) mod 256 ^ 8"
  proof (rule load_le_digits)
    fix d :: nat assume d: "d < 8"
    have "(8 * i + d) div 8 = i" "(8 * i + d) mod 8 = d" using d by simp_all
    then have "sample_words base (8 * i + d) = (if d = 0 then word_of_nat (base + i) else 0)"
      by (simp add: sample_words_def)
    moreover have "(base + i) div 256 ^ d = 0" if "d \<noteq> 0"
    proof -
      have "(256::nat) ^ 1 \<le> 256 ^ d" using that by (intro power_increasing) simp_all
      then show ?thesis using b by simp
    qed
    ultimately show "sample_words base (8 * i + d) = word_of_nat ((base + i) div 256 ^ d)" by simp
  qed
  then show ?thesis using b by (simp add: elem_def)
qed

lemma sample_node_facts:
  assumes "n \<le> 254" "kbase + n \<le> 256" "cbase + n < 256"
  shows "internal_wf (sample_node pid kbase cbase n)" "num_keys (sample_node pid kbase cbase n) = n"
    "keys (sample_node pid kbase cbase n) = map (\<lambda>i. word_of_nat (kbase + i)) [0..<n]"
    "children (sample_node pid kbase cbase n) = map (\<lambda>i. word_of_nat (cbase + i)) [0..<Suc n]"
    "ip_id (sample_node pid kbase cbase n) = pid" "distinct (children (sample_node pid kbase cbase n))"
proof -
  note v = MakePage_views [OF sample_node_def [of pid kbase cbase n] assms(1)]
  show k: "keys (sample_node pid kbase cbase n) = map (\<lambda>i. word_of_nat (kbase + i)) [0..<n]"
    unfolding v(1) by (rule map_upt_cong) (use assms in \<open>simp add: sample_word\<close>)
  show c: "children (sample_node pid kbase cbase n) = map (\<lambda>i. word_of_nat (cbase + i)) [0..<Suc n]"
    unfolding v(2) by (rule map_upt_cong) (use assms in \<open>simp add: sample_word\<close>)
  show "num_keys (sample_node pid kbase cbase n) = n" "ip_id (sample_node pid kbase cbase n) = pid"
    by (rule v)+
  have "sorted (map (\<lambda>i. word_of_nat (kbase + i) :: 64 word) [0..<n])"
    using assms(2) by (auto simp: sorted_iff_nth_mono word_le_nat_alt unat_of_nat simp flip: of_nat_add)
  then show "internal_wf (sample_node pid kbase cbase n)"
    using assms v(3,4) by (simp add: internal_wf_def k)
  have "inj_on (\<lambda>i. word_of_nat (cbase + i) :: 64 word) (set [0..<Suc n])"
  proof (rule inj_onI)
    fix x y assume xy: "x \<in> set [0..<Suc n]" "y \<in> set [0..<Suc n]"
      "(word_of_nat (cbase + x) :: 64 word) = word_of_nat (cbase + y)"
    then have "unat (word_of_nat (cbase + x) :: 64 word) = unat (word_of_nat (cbase + y) :: 64 word)" by simp
    then show "x = y" using xy(1,2) assms(3) by (auto simp: unat_of_nat simp del: of_nat_add)
  qed
  then show "distinct (children (sample_node pid kbase cbase n))"
    unfolding c by (subst distinct_map) simp
qed

end
