(* ===== verification/Leaf_Properties.thy ===== *)
theory Leaf_Properties
  imports Samples
begin

text \<open>
  The properties of leaf pages: what each operation of \<open>leaf_page.cpp\<close> does to the sequence of
  tuples a page holds, each with a concrete page it applies to.
\<close>

lemma sample_leaf [simp]: "leaf_wf (sample_page 5 10 3 100)" "used_space (sample_page 5 10 3 100) = 315"
  using sample_facts [of 3 100 10 5] by simp_all

lemma sample_keys: "map tuple_key (tuples (sample_page 5 10 3 100)) = [10, 11, 12]"
  using sample_facts(3) [of 3 100 10 5] by (simp add: upt_rec)

section \<open>Insertion, search, deletion\<close>

text \<open>
  C13. Insertion. On a well-formed page with room for the smallest entry, \<open>WriteChunkLeaf\<close>
  inserts exactly one tuple (the given or a fresh header, then the first bytes of the buffer)
  at its place in key order, behind equal keys; it reports how many bytes of the buffer it
  wrote and where the header is, keeps the page well-formed and every other tuple as it was,
  and writes no byte outside the page.
\<close>

theorem leaf_insert:
  assumes "leaf_wf p" and "8 \<le> bs" "bs < 4294967278"
    and "min 128 (18 + bs) \<le> CheckAvailableSpace p + CheckGarbageBytes p"
    and "load_u64 buffer 0 = key"
    and "LeafPage_WriteChunkLeaf p buffer bs key th = (st, q)"
  shows "leaf_wf q \<and> tuples q = insert_tuple (chunk_tuple (chunk_size p bs) buffer bs th) (tuples p) \<and>
    tuple_key (chunk_tuple (chunk_size p bs) buffer bs th) = key \<and>
    written st = chunk_size p bs - 13 \<and> 8 \<le> written st \<and> written st \<le> 795 \<and>
    (\<exists>off. overflow_info_store_address st = Some off \<and>
       bytes q off (chunk_size p bs) = chunk_tuple (chunk_size p bs) buffer bs th) \<and>
    page_id q = page_id p \<and> left_pid q = left_pid p \<and> right_pid q = right_pid p \<and>
    (\<forall>i \<ge> 4096. q i = p i)"
proof -
  have room: "min MIN_LEAF_PAGE_DATA (18 + bs) \<le> CheckAvailableSpace p + CheckGarbageBytes p"
    using assms(4) by simp
  note * = WriteChunkLeaf_correct [OF assms(1-3) room assms(5,6)]
  have "tuple_key (chunk_tuple (chunk_size p bs) buffer bs th) = key"
    using tuple_key_chunk [OF *(3)] assms(5) by simp
  then show ?thesis using * unfolding inserted_def by auto
qed

theorem leaf_insert_witness:
  "\<exists>st q. LeafPage_WriteChunkLeaf (sample_page 5 10 3 100) (of_bytes [11, 0, 0, 0, 0, 0, 0, 0, 65]) 9 11 None =
     (st, q) \<and> written st = 9 \<and> map tuple_key (tuples q) = [10, 11, 11, 12]"
proof -
  let ?p = "sample_page 5 10 3 100" and ?b = "of_bytes [11, 0, 0, 0, 0, 0, 0, 0, 65]"
  obtain st q where r: "LeafPage_WriteChunkLeaf ?p ?b 9 11 None = (st, q)" by fastforce
  have sp: "CheckAvailableSpace ?p + CheckGarbageBytes ?p = 3750" using space_accounting [of ?p] by simp
  have "load_le ?b 0 8 = 11" by code_simp
  then have k: "load_u64 ?b 0 = 11" by simp
  have s: "chunk_size ?p 9 = 22" by (simp add: chunk_size_def)
  have c: "leaf_wf q \<and> tuples q = insert_tuple (chunk_tuple 22 ?b 9 None) (tuples ?p) \<and>
      tuple_key (chunk_tuple 22 ?b 9 None) = 11 \<and> written st = 9"
    using leaf_insert [OF sample_leaf(1) _ _ _ k r] sp by (simp add: s)
  have "map tuple_key (insert_tuple t (tuples ?p)) = [10, 11, 11, 12]" if "tuple_key t = 11" for t
    using sample_keys that by (auto simp: insert_tuple_def map_eq_Cons_conv)
  then show ?thesis using r c by auto
qed

text \<open>
  C14. Search. \<open>Search\<close> finds the first tuple of the key, with its exact extent in the page,
  its size and its overflow link, and reports absence exactly when no live tuple has the key.
\<close>

theorem leaf_search:
  assumes "leaf_wf p"
  shows "case find (has_key x) (tuples p) of
      None \<Rightarrow> LeafPage_Search p x = not_found
    | Some t \<Rightarrow> found (LeafPage_Search p x) \<and>
        bytes p (tuple_offset (LeafPage_Search p x))
          (tuple_end_offset (LeafPage_Search p x) - tuple_offset (LeafPage_Search p x)) = t \<and>
        tuple_offset (LeafPage_Search p x) + 21 \<le> tuple_end_offset (LeafPage_Search p x) \<and>
        tuple_end_offset (LeafPage_Search p x) \<le> 4096 \<and>
        total_tuple_size (LeafPage_Search p x) = tuple_size t \<and>
        sr_overflow (LeafPage_Search p x) = tuple_overflow t \<and>
        overflow_page_id (LeafPage_Search p x) = tuple_overflow_page t"
proof (cases "find (has_key x) (tuples p)")
  case None
  then show ?thesis using LeafPage_Search_miss [OF assms None] by simp
next
  case (Some t)
  show ?thesis using LeafPage_Search_hit [OF assms Some] by (simp add: Some)
qed

theorem leaf_search_witness:
  "LeafPage_Search (sample_page 5 10 3 100) 13 = not_found \<and> found (LeafPage_Search (sample_page 5 10 3 100) 11)"
proof -
  let ?p = "sample_page 5 10 3 100"
  obtain a b c where t: "tuples ?p = [a, b, c]" "tuple_key a = 10" "tuple_key b = 11" "tuple_key c = 12"
    using sample_keys by (auto simp: map_eq_Cons_conv)
  show ?thesis
    using leaf_search [of ?p 13] leaf_search [of ?p 11] by (simp add: t has_key_def)
qed

text \<open>
  C15. Deletion. \<open>DeleteTuple\<close> removes exactly the first tuple of the key from the sequence,
  changes nothing when there is none, and reports which of the two happened.
\<close>

theorem leaf_delete:
  assumes "leaf_wf p" and "LeafPage_DeleteTuple p x = (b, q)"
  shows "leaf_wf q \<and> tuples q = delete_first (has_key x) (tuples p) \<and>
    (b \<longleftrightarrow> (\<exists>t \<in> set (tuples p). tuple_key t = x)) \<and> (\<not> b \<longrightarrow> q = p)"
proof -
  have "\<not> b \<longrightarrow> q = p"
    using assms(2) by (auto simp: LeafPage_DeleteTuple_def Let_def split: if_splits)
  then show ?thesis using DeleteTuple_correct [OF assms] by (auto simp: has_key_def)
qed

theorem leaf_delete_witness:
  "\<exists>q. LeafPage_DeleteTuple (sample_page 5 10 3 100) 11 = (True, q) \<and> map tuple_key (tuples q) = [10, 12]"
proof -
  let ?p = "sample_page 5 10 3 100"
  obtain b q where r: "LeafPage_DeleteTuple ?p 11 = (b, q)" by fastforce
  obtain t u v where t: "tuples ?p = [t, u, v]" "tuple_key t = 10" "tuple_key u = 11" "tuple_key v = 12"
    using sample_keys by (auto simp: map_eq_Cons_conv)
  show ?thesis using leaf_delete [OF sample_leaf(1) r] r by (simp add: t has_key_def)
qed

section \<open>Splitting\<close>

text \<open>
  C16. Split. \<open>HandleSplit\<close> of a page with tuples cuts the sequence in two: the old page keeps a
  first part, the new page gets a non-empty rest, the boundary key is the first key of the new
  page, both pages are well-formed and free of garbage and linked to each other; with two
  tuples both parts are non-empty, and a page that is full (less than the smallest entry is
  free) leaves at least 512 free bytes in each half.
\<close>

theorem leaf_split:
  assumes "leaf_wf p" and "tuples p \<noteq> []" and "LeafPage_HandleSplit p new new_pid = (key, p', new')"
  shows "leaf_wf p' \<and> leaf_wf new' \<and> tuples p' @ tuples new' = tuples p \<and> tuples new' \<noteq> [] \<and>
    key = tuple_key (hd (tuples new')) \<and> (2 \<le> length (tuples p) \<longrightarrow> tuples p' \<noteq> []) \<and>
    (CheckAvailableSpace p + CheckGarbageBytes p < 128 \<longrightarrow>
      512 \<le> CheckAvailableSpace p' \<and> 512 \<le> CheckAvailableSpace new') \<and>
    page_id p' = page_id p \<and> left_pid p' = left_pid p \<and> right_pid p' = new_pid \<and>
    page_id new' = new_pid \<and> left_pid new' = page_id p \<and> right_pid new' = right_pid p"
proof -
  have "used_space p > 3937" if "CheckAvailableSpace p + CheckGarbageBytes p < 128"
    using that space_accounting [OF assms(1)] by simp
  then show ?thesis using HandleSplit_pages [OF assms] by (auto simp: split_pages_def)
qed

theorem leaf_split_witness:
  "\<exists>key p' new'. LeafPage_HandleSplit (sample_page 5 10 5 800) (\<lambda>_. 0) 6 = (key, p', new') \<and>
    tuples p' @ tuples new' = tuples (sample_page 5 10 5 800) \<and> tuples p' \<noteq> [] \<and>
    512 \<le> CheckAvailableSpace p' \<and> 512 \<le> CheckAvailableSpace new'"
proof -
  let ?p = "sample_page 5 10 5 800"
  note f = sample_facts [of 5 800 10 5, simplified]
  obtain key p' new' where r: "LeafPage_HandleSplit ?p (\<lambda>_. 0) 6 = (key, p', new')"
    by (metis prod_cases3)
  have l: "length (tuples ?p) = 5" using arg_cong [OF f(3), of length] by simp
  then have ne: "tuples ?p \<noteq> []" by auto
  have "CheckAvailableSpace ?p + CheckGarbageBytes ?p < 128" using space_accounting [OF f(1)] f(2) by simp
  then show ?thesis using leaf_split [OF f(1) ne r] r l by simp
qed

section \<open>Rebalancing\<close>

text \<open>
  C17. No merge overflows. When a page with at most \<open>LEAF_UNDERFLOW_THRESHOLD\<close> bytes in use asks
  a neighbour for the bytes it lacks and the neighbour refuses, merging the right one of the
  two into the left one never runs out of space: \<open>MergePages\<close> does not throw, and the page
  holds the tuples of both in order, with the left page's identity and the right page's right
  link.
\<close>

theorem leaf_merge_after_refusal:
  assumes "leaf_wf to" "leaf_wf from" and "sorted (map tuple_key (tuples to @ tuples from))"
    and "used_space to \<le> LEAF_UNDERFLOW_THRESHOLD \<and>
         \<not> can_borrow (LeafPage_CanLendFromLeft from (LEAF_UNDERFLOW_THRESHOLD + 1 - used_space to)) \<or>
       used_space from \<le> LEAF_UNDERFLOW_THRESHOLD \<and>
         \<not> can_borrow (LeafPage_CanLendFromRight to (LEAF_UNDERFLOW_THRESHOLD + 1 - used_space from))"
  shows "\<exists>q. LeafPage_MergePages to from = Some q \<and> leaf_wf q \<and> tuples q = tuples to @ tuples from \<and>
    page_id q = page_id to \<and> left_pid q = left_pid to \<and> right_pid q = right_pid from"
proof -
  have "used_space to + used_space from \<le> 4065"
    using assms(4)
  proof
    assume a: "used_space to \<le> LEAF_UNDERFLOW_THRESHOLD \<and>
      \<not> can_borrow (LeafPage_CanLendFromLeft from (LEAF_UNDERFLOW_THRESHOLD + 1 - used_space to))"
    then show ?thesis
      using refused_lend_fits [OF CanLendFromLeft_report [OF assms(2), of "1627 - used_space to"]] by simp
  next
    assume a: "used_space from \<le> LEAF_UNDERFLOW_THRESHOLD \<and>
      \<not> can_borrow (LeafPage_CanLendFromRight to (LEAF_UNDERFLOW_THRESHOLD + 1 - used_space from))"
    then show ?thesis
      using refused_lend_fits [OF CanLendFromRight_report [OF assms(1), of "1627 - used_space from"]]
      by (simp add: add.commute)
  qed
  then have "used_space to + entries (live (slots from)) \<le> 4065" using entries_live_used [of "from"] by simp
  then obtain q where "LeafPage_MergePages to from = Some q" using MergePages_correct(2) [OF assms(1-3)] by blast
  then show ?thesis using MergePages_correct(1) [OF assms(1-3)] by blast
qed

theorem leaf_merge_after_refusal_witness:
  "\<exists>q. LeafPage_MergePages (sample_page 5 10 3 100) (sample_page 6 20 4 400) = Some q \<and>
    map tuple_key (tuples q) = [10, 11, 12, 20, 21, 22, 23]"
proof -
  let ?t = "sample_page 5 10 3 100" and ?f = "sample_page 6 20 4 400"
  note f = sample_facts [of 4 400 20 6, simplified]
  have k: "map tuple_key (tuples ?f) = [20, 21, 22, 23]" using f(3) by (simp add: upt_rec)
  have "\<not> can_borrow (LeafPage_CanLendFromLeft ?f (LEAF_UNDERFLOW_THRESHOLD + 1 - used_space ?t))"
    using f(1,2,5) by (simp add: LeafPage_CanLendFromLeft_def lend_usedspace_eq sample_slots_def upt_rec
        cannot_borrow_def nat_diff_distrib)
  then have "\<exists>q. LeafPage_MergePages ?t ?f = Some q \<and> leaf_wf q \<and> tuples q = tuples ?t @ tuples ?f \<and>
      page_id q = page_id ?t \<and> left_pid q = left_pid ?t \<and> right_pid q = right_pid ?f"
    by (intro leaf_merge_after_refusal sample_leaf f) (simp_all add: k sample_keys)
  then obtain q where "LeafPage_MergePages ?t ?f = Some q" "tuples q = tuples ?t @ tuples ?f" by blast
  then show ?thesis by (simp add: k sample_keys)
qed

text \<open>
  C18. Borrowing from the left. When the left neighbour of an underfull page grants the bytes the
  page lacks, \<open>HandleLeftBorrow\<close> succeeds: it moves the last tuples of the neighbour, as many as
  the report says, to the front of the page, both pages stay well-formed and keep their
  identity and links, the neighbour stays above the threshold, and the returned boundary key
  is the first key of the page and separates the two.
\<close>

theorem leaf_left_borrow:
  assumes "leaf_wf b" "leaf_wf l" and "used_space b \<le> LEAF_UNDERFLOW_THRESHOLD"
    and "sorted_wrt (<) (map tuple_key (tuples l @ tuples b))"
    and "rep = LeafPage_CanLendFromRight l (LEAF_UNDERFLOW_THRESHOLD + 1 - used_space b)" "can_borrow rep"
  shows "\<exists>key b' l'. LeafPage_HandleLeftBorrow b l rep = Some (key, b', l') \<and>
    leaf_wf b' \<and> leaf_wf l' \<and> tuples l' @ tuples b' = tuples l @ tuples b \<and>
    length (tuples b') = length (tuples b) + borrow_amount rep \<and> 0 < borrow_amount rep \<and>
    (\<forall>t \<in> set (tuples l'). tuple_key t < key) \<and> (\<forall>t \<in> set (tuples b'). key \<le> tuple_key t) \<and>
    used_space l' > LEAF_UNDERFLOW_THRESHOLD \<and> same_links b b' \<and> same_links l l'"
proof -
  have u: "used_space b \<le> 1626" using assms(3) by simp
  have rep: "lend_report l (1627 - used_space b) (rev (live (slots l))) rep"
    using CanLendFromRight_report [OF assms(2), of "1627 - used_space b"] u assms(5) by simp
  note g = granted_lend_fits [OF rep assms(6) u]
  have pos: "0 < borrow_amount rep \<and> borrow_amount rep \<le> length (tuples l)"
    using rep assms(6) by (simp add: lend_report_def tuples_def)
  obtain key b' l' where r: "LeafPage_HandleLeftBorrow b l rep = Some (key, b', l')"
    "leaf_wf b'" "leaf_wf l'" "same_links b b'" "same_links l l'"
    "tuples l' @ tuples b' = tuples l @ tuples b"
    "length (tuples b') = length (tuples b) + borrow_amount rep" "key = tuple_key (hd (tuples b'))"
    "used_space l' + entries (take (borrow_amount rep) (rev (live (slots l)))) \<ge> used_space l"
    using HandleLeftBorrow_correct [OF assms(1,2) _ assms(4)] pos g(1) by fastforce
  obtain t ts where b': "tuples b' = t # ts" using r(7) pos by (cases "tuples b'") auto
  have "sorted_wrt (<) (map tuple_key (tuples l' @ t # ts))" using assms(4) r(6) b' by simp
  then have "(\<forall>u \<in> set (tuples l'). tuple_key u < key) \<and> (\<forall>u \<in> set (tuples b'). key \<le> tuple_key u)"
    using r(8) b' by (auto simp: sorted_wrt_append less_imp_le)
  then show ?thesis using r pos g(3) by simp
qed

theorem leaf_left_borrow_witness:
  "\<exists>key b' l'. LeafPage_HandleLeftBorrow (sample_page 6 20 2 400) (sample_page 5 10 9 400)
      (LeafPage_CanLendFromRight (sample_page 5 10 9 400) 817) = Some (key, b', l') \<and>
    length (tuples b') = 5 \<and> used_space l' > 1626"
proof -
  let ?b = "sample_page 6 20 2 400" and ?l = "sample_page 5 10 9 400"
  note b = sample_facts [of 2 400 20 6, simplified] and l = sample_facts [of 9 400 10 5, simplified]
  have n: "length (tuples ?b) = 2" using arg_cong [OF b(3), of length] by simp
  have rep: "LeafPage_CanLendFromRight ?l 817 = \<lparr>can_borrow = True, borrow_amount = 3\<rparr>"
    using l(1,2,5) by (simp add: LeafPage_CanLendFromRight_def lend_usedspace_eq sample_slots_def upt_rec
        nat_diff_distrib)
  have "sorted_wrt (<) (map tuple_key (tuples ?l @ tuples ?b))" by (simp add: b(3) l(3) upt_rec)
  from leaf_left_borrow [OF b(1) l(1) _ this, of "LeafPage_CanLendFromRight ?l 817"] show ?thesis
    using b(2) n rep by auto
qed

text \<open>
  C19. Borrowing from the right. When the right neighbour of an underfull page grants the bytes
  the page lacks, \<open>HandleRightBorrow\<close> succeeds: it moves the first tuples of the neighbour, as
  many as the report says, to the end of the page, both pages stay well-formed and keep their
  identity and links, the neighbour stays above the threshold, and the returned boundary key
  is the first key of the neighbour and separates the two.
\<close>

theorem leaf_right_borrow:
  assumes "leaf_wf b" "leaf_wf l" and "used_space b \<le> LEAF_UNDERFLOW_THRESHOLD"
    and "sorted_wrt (<) (map tuple_key (tuples b @ tuples l))"
    and "rep = LeafPage_CanLendFromLeft l (LEAF_UNDERFLOW_THRESHOLD + 1 - used_space b)" "can_borrow rep"
  shows "\<exists>key b' l'. LeafPage_HandleRightBorrow b l rep = Some (key, b', l') \<and>
    leaf_wf b' \<and> leaf_wf l' \<and> tuples b' @ tuples l' = tuples b @ tuples l \<and>
    length (tuples b') = length (tuples b) + borrow_amount rep \<and> 0 < borrow_amount rep \<and>
    (\<forall>t \<in> set (tuples b'). tuple_key t < key) \<and> (\<forall>t \<in> set (tuples l'). key \<le> tuple_key t) \<and>
    used_space l' > LEAF_UNDERFLOW_THRESHOLD \<and> same_links b b' \<and> same_links l l'"
proof -
  have u: "used_space b \<le> 1626" using assms(3) by simp
  have rep: "lend_report l (1627 - used_space b) (live (slots l)) rep"
    using CanLendFromLeft_report [OF assms(2), of "1627 - used_space b"] u assms(5) by simp
  note g = granted_lend_fits [OF rep assms(6) u]
  have pos: "0 < borrow_amount rep \<and> borrow_amount rep < length (tuples l)"
    using rep assms(6) lend_leaves_one [OF rep assms(6) assms(2)] by (simp add: lend_report_def tuples_def)
  have srt: "sorted (map tuple_key (tuples b @ tuples l))" by (rule strict_sorted_imp_sorted [OF assms(4)])
  obtain key b' l' where r: "LeafPage_HandleRightBorrow b l rep = Some (key, b', l')"
    "leaf_wf b'" "leaf_wf l'" "same_links b b'" "same_links l l'"
    "tuples b' @ tuples l' = tuples b @ tuples l"
    "length (tuples b') = length (tuples b) + borrow_amount rep" "key = tuple_key (hd (tuples l'))"
    "used_space l' + entries (take (borrow_amount rep) (live (slots l))) \<ge> used_space l"
    using HandleRightBorrow_correct [OF assms(1,2) _ srt] pos g(1) by fastforce
  have "length (tuples b') + length (tuples l') = length (tuples b) + length (tuples l)"
    using arg_cong [OF r(6), of length] by simp
  then obtain t ts where l': "tuples l' = t # ts" using r(7) pos by (cases "tuples l'") auto
  have "sorted_wrt (<) (map tuple_key (tuples b' @ t # ts))" using assms(4) r(6) l' by simp
  then have "(\<forall>u \<in> set (tuples b'). tuple_key u < key) \<and> (\<forall>u \<in> set (tuples l'). key \<le> tuple_key u)"
    using r(8) l' by (auto simp: sorted_wrt_append less_imp_le)
  then show ?thesis using r pos g(3) by simp
qed

theorem leaf_right_borrow_witness:
  "\<exists>key b' l'. LeafPage_HandleRightBorrow (sample_page 5 10 2 400) (sample_page 6 20 9 400)
      (LeafPage_CanLendFromLeft (sample_page 6 20 9 400) 817) = Some (key, b', l') \<and>
    length (tuples b') = 5 \<and> used_space l' > 1626"
proof -
  let ?b = "sample_page 5 10 2 400" and ?l = "sample_page 6 20 9 400"
  note b = sample_facts [of 2 400 10 5, simplified] and l = sample_facts [of 9 400 20 6, simplified]
  have n: "length (tuples ?b) = 2" using arg_cong [OF b(3), of length] by simp
  have rep: "LeafPage_CanLendFromLeft ?l 817 = \<lparr>can_borrow = True, borrow_amount = 3\<rparr>"
    using l(1,2,5) by (simp add: LeafPage_CanLendFromLeft_def lend_usedspace_eq sample_slots_def upt_rec
        nat_diff_distrib)
  have "sorted_wrt (<) (map tuple_key (tuples ?b @ tuples ?l))" by (simp add: b(3) l(3) upt_rec)
  from leaf_right_borrow [OF b(1) l(1) _ this, of "LeafPage_CanLendFromLeft ?l 817"] show ?thesis
    using b(2) n rep by auto
qed

section \<open>The searches, the map, the space\<close>

text \<open>
  A leaf page is a map. After the insertion of a tuple its key finds it, unless an older
  tuple shadows it, and every other key finds what it found before; after a deletion every
  other key finds what it found before; deleting a key that was inserted new gives the
  sequence back.
\<close>

theorem leaf_map_laws:
  assumes "leaf_wf p" and "leaf_fits p t" and "k \<noteq> tuple_key t"
  shows "leaf_lookup (leaf_put p t) (tuple_key t) =
      (case leaf_lookup p (tuple_key t) of None \<Rightarrow> Some t | Some u \<Rightarrow> Some u) \<and>
    leaf_lookup (leaf_put p t) k = leaf_lookup p k \<and>
    leaf_lookup (leaf_del p (tuple_key t)) k = leaf_lookup p k \<and>
    (leaf_lookup p (tuple_key t) = None \<longrightarrow> tuples (leaf_del (leaf_put p t) (tuple_key t)) = tuples p)"
  using leaf.lookup_put_same [OF assms(1,2)] leaf.lookup_put_other [OF assms(1,2)] leaf.lookup_del_other
    leaf.del_put assms by metis

theorem leaf_map_laws_witness:
  "leaf_lookup (leaf_put (sample_page 5 10 3 100) (replicate 30 0)) 0 = Some (replicate 30 0)"
proof -
  let ?p = "sample_page 5 10 3 100" and ?t = "replicate 30 0 :: byte list"
  have "load_le (of_bytes ?t) 13 8 = 0" by code_simp
  then have k: "tuple_key ?t = 0" by (simp add: tuple_key_def)
  have "leaf_fits ?p ?t" by (simp add: leaf_fits_def)
  moreover have "leaf_lookup ?p 0 = None"
    using sample_keys by (auto simp: leaf_lookup_find find_None_iff has_key_def map_eq_Cons_conv)
  ultimately show ?thesis using leaf_map_laws [OF sample_leaf(1), of ?t 10] k by simp
qed

text \<open>
  C34. Defragmentation. \<open>DefragmentPage\<close> keeps the tuples, the identity and the links, leaves no
  garbage and no deleted slot, never uses more space than before, and makes all the free
  bytes available in one piece.
\<close>

theorem leaf_defragment:
  assumes "leaf_wf p"
  shows "leaf_wf (LeafPage_DefragmentPage p) \<and> tuples (LeafPage_DefragmentPage p) = tuples p \<and>
    CheckGarbageBytes (LeafPage_DefragmentPage p) = 0 \<and>
    slot_array_size (LeafPage_DefragmentPage p) = length (tuples p) \<and>
    CheckAvailableSpace p + CheckGarbageBytes p \<le> CheckAvailableSpace (LeafPage_DefragmentPage p) \<and>
    same_links p (LeafPage_DefragmentPage p)"
  using Defragment_used [OF assms] Defragment_fresh [OF assms] space_accounting [OF assms]
  by (simp add: fresh_page_def same_links_def CheckGarbageBytes_def tuples_def)

theorem leaf_defragment_witness:
  "tuples (LeafPage_DefragmentPage (sample_page 5 10 3 100)) = tuples (sample_page 5 10 3 100) \<and>
    slot_array_size (LeafPage_DefragmentPage (sample_page 5 10 3 100)) = 3"
proof -
  have "length (tuples (sample_page 5 10 3 100)) = 3" using arg_cong [OF sample_keys, of length] by simp
  then show ?thesis using leaf_defragment [OF sample_leaf(1)] by simp
qed

lemma sum_delete_first:
  "sum_list (map length ts) = sum_list (map length (delete_first (has_key k) ts)) +
    (case find (has_key k) ts of None \<Rightarrow> 0 | Some t \<Rightarrow> length t)"
  by (induction ts) auto

end
