(* ===== verification/Internal_Properties.thy ===== *)
theory Internal_Properties
  imports Samples
begin

text \<open>
  The properties of internal pages: what each operation of \<open>internal_page.cpp\<close> does to the keys
  and the children of a page, each with a concrete page it applies to.
\<close>

section \<open>Routing\<close>

lemma upper_bound_insert:
  "sorted xs \<Longrightarrow> std_upper_bound (insert_at (std_upper_bound xs k) k xs) x =
    (if x < k then std_upper_bound xs x else Suc (std_upper_bound xs x))"
  unfolding std_upper_bound_def insert_at_def
proof (induction xs)
  case (Cons y xs)
  show ?case
  proof (cases "y \<le> k")
    case False
    then have "\<not> y \<le> x" if "x < k" using that by simp
    then show ?thesis using False by auto
  next
    case True
    then show ?thesis using Cons by auto
  qed
qed auto

lemma upper_bound_mono: "x \<le> y \<Longrightarrow> std_upper_bound xs x \<le> std_upper_bound xs y"
  by (induction xs) (auto simp: std_upper_bound_def)

text \<open>
  C20. Insertion of a separator. On a page with a free slot \<open>InsertKeyValue\<close> puts the key behind
  the keys that are not above it and the child right behind that key's position, keeps the page
  well-formed, sends the key itself to the new child, and keeps the route of every smaller key
  and of every key whose route was not the child that was divided.
\<close>

theorem internal_insert:
  assumes "internal_wf p" and "CheckSlotAvailable p"
    and "i = std_upper_bound (keys p) k" and "q = InsertKeyValue p k pid"
  shows "internal_wf q \<and> keys q = insert_at i k (keys p) \<and>
    children q = insert_at (Suc i) pid (children p) \<and> ip_id q = ip_id p \<and>
    (\<forall>x. GetChildPageID q x =
      (if k \<le> x \<and> std_upper_bound (keys p) x = i then pid else GetChildPageID p x)) \<and>
    (\<forall>j \<ge> 4096. q j = p j)"
proof -
  have room: "num_keys p < 254" using assms(2) by (simp add: CheckSlotAvailable_def)
  note v = InsertKeyValue_views [OF assms(1) room assms(3,4)]
  have wf: "internal_wf q" using InsertKeyValue_wf [OF assms(1) room] assms(4) by simp
  have "GetChildPageID q x = (if k \<le> x \<and> std_upper_bound (keys p) x = i then pid else GetChildPageID p x)" for x
  proof -
    let ?u = "std_upper_bound (keys p) x"
    have u: "?u \<le> num_keys p" "i \<le> num_keys p" using std_bounds_le(1) [of "keys p"] assms(3) by simp_all
    have s: "std_upper_bound (keys q) x = (if x < k then ?u else Suc ?u)"
      using upper_bound_insert [OF internal_wfD(2) [OF assms(1)]] v(1) assms(3) by simp
    have m: "x < k \<Longrightarrow> ?u \<le> i" "k \<le> x \<Longrightarrow> i \<le> ?u" using upper_bound_mono assms(3) by auto
    show ?thesis
      unfolding GetChildPageID_route [OF wf] GetChildPageID_route [OF assms(1)] v(2) s
      using u m by (auto simp: nth_insert_at not_less)
  qed
  then show ?thesis using v wf by simp
qed

theorem internal_insert_witness:
  "GetChildPageID (InsertKeyValue (sample_node 9 10 100 3) 11 77) 11 = 77"
proof -
  let ?p = "sample_node 9 10 100 3"
  note f = sample_node_facts [of 3 10 100 9, simplified]
  have "CheckSlotAvailable ?p" by (simp add: CheckSlotAvailable_def f)
  from internal_insert [OF f(1) this refl refl, of 11 77] show ?thesis by simp
qed

section \<open>Splitting\<close>

text \<open>
  C21. Split. \<open>HandleSplit\<close> of a page distributes its keys with the new one in their order over
  the old page, the key it returns and the new page, and the children with the new one over
  the two pages; the returned key separates the halves, both pages are well-formed with their
  identities, their sizes differ by one at most, and from a full page no half underflows.
\<close>

theorem internal_split:
  assumes "internal_wf p" and "InternalPage_HandleSplit p page k pid new_pid = (key, old, new)"
  shows "internal_wf old \<and> internal_wf new \<and>
    keys old @ key # keys new = insert_at (std_upper_bound (keys p) k) k (keys p) \<and>
    children old @ children new = insert_at (Suc (std_upper_bound (keys p) k)) pid (children p) \<and>
    (\<forall>x \<in> set (keys old). x \<le> key) \<and> (\<forall>x \<in> set (keys new). key \<le> x) \<and>
    ip_id old = ip_id p \<and> ip_id new = new_pid \<and>
    num_keys old = Suc (num_keys p) div 2 \<and> num_keys new = num_keys p div 2 \<and>
    (\<not> CheckSlotAvailable p \<longrightarrow> \<not> fst (CheckUnderflow old 0) \<and> \<not> fst (CheckUnderflow new 0))"
proof -
  note v = HandleSplit_views [OF assms refl]
  have "sorted (keys old @ key # keys new)"
    unfolding v(1) by (rule sorted_insert_upper [OF internal_wfD(2) [OF assms(1)]])
  then have "(\<forall>x \<in> set (keys old). x \<le> key) \<and> (\<forall>x \<in> set (keys new). key \<le> x)"
    by (simp add: sorted_append)
  moreover have "\<not> fst (CheckUnderflow old 0) \<and> \<not> fst (CheckUnderflow new 0)" if "\<not> CheckSlotAvailable p"
    using that internal_wfD(1) [OF assms(1)] v(3,4) CheckUnderflow_zero [OF v(5)] CheckUnderflow_zero [OF v(6)]
    by (simp add: CheckSlotAvailable_def)
  ultimately show ?thesis using v by blast
qed

theorem internal_split_witness:
  "\<exists>key old new. InternalPage_HandleSplit (sample_node 9 0 0 254) (\<lambda>_. 0) 7 255 10 = (key, old, new) \<and>
    num_keys old = 127 \<and> num_keys new = 127 \<and> \<not> fst (CheckUnderflow new 0)"
proof -
  let ?p = "sample_node 9 0 0 254"
  note f = sample_node_facts [of 254 0 0 9, simplified]
  obtain key old new where r: "InternalPage_HandleSplit ?p (\<lambda>_. 0) 7 255 10 = (key, old, new)"
    by (metis prod_cases3)
  have "\<not> CheckSlotAvailable ?p" by (simp add: CheckSlotAvailable_def f)
  then show ?thesis using internal_split [OF f(1) r] r f(2) by simp
qed

section \<open>Rebalancing\<close>

text \<open>A page's missing bytes as the tree computes them from its used space.\<close>

lemma lend_pairs_granted:
  assumes "internal_wf s" "num_keys p \<le> 126" "127 \<le> num_keys s" "internal_wf p"
    and "rep = InternalPage_CanLend s (INTERNAL_UNDERFLOW_THRESHOLD + 1 - CheckUsedSpace p)"
  shows "can_borrow rep \<longleftrightarrow> 254 \<le> num_keys s + num_keys p"
    "can_borrow rep \<Longrightarrow> borrow_amount rep = 127 - num_keys p"
  using CanLend_pairs [OF assms(1-3)] assms(5) CheckUsedSpace_wf [OF assms(4)] by simp_all

text \<open>
  C22. Borrowing from the left. When a page underflows (126 keys at most) and its left neighbour,
  which does not, grants the bytes it lacks, \<open>HandleLeftBorrow\<close> succeeds: it rotates the last
  keys and children of the neighbour through the parent, so that the keys of the neighbour,
  the separator and the keys of the page keep their sequence, and so do the children; the
  pages stay well-formed, the page has exactly the 127 keys it needs and the neighbour at
  least as many.
\<close>

theorem internal_left_borrow:
  assumes "internal_wf page" "internal_wf b" "internal_wf l"
    and "separator page j (ip_id l) (ip_id b)" and "sorted (keys l @ keys page ! j # keys b)"
    and "num_keys b \<le> 126" "127 \<le> num_keys l"
    and "rep = InternalPage_CanLend l (INTERNAL_UNDERFLOW_THRESHOLD + 1 - CheckUsedSpace b)" "can_borrow rep"
  shows "\<exists>page' b' l'. InternalPage_HandleLeftBorrow page b l rep = Some (page', b', l') \<and>
    rotated j page l b page' l' b' \<and> internal_wf b' \<and> internal_wf l' \<and>
    sorted (keys l' @ keys page' ! j # keys b') \<and> num_keys b' = 127 \<and> 127 \<le> num_keys l'"
proof -
  note g = lend_pairs_granted [OF assms(3,6,7,2,8)]
  have n: "borrow_amount rep = 127 - num_keys b" "254 \<le> num_keys l + num_keys b"
    using g assms(9) by simp_all
  obtain page' b' l' where r: "InternalPage_HandleLeftBorrow page b l rep = Some (page', b', l')"
    "rotated j page l b page' l' b'" "num_keys b' = 127" "num_keys l' = num_keys l - (127 - num_keys b)"
    using HandleLeftBorrow_views [OF assms(1-4), of rep] n assms(6,7) by auto
  have "num_keys l' \<le> 254" using r(4) internal_wfD(1) [OF assms(3)] by simp
  then show ?thesis
    using rotated_wf [OF r(2) assms(1,3,2,5)] r n assms(6,7) by simp
qed

text \<open>Two sample pages under a sample parent: the left one has the keys below the separator.\<close>

lemma sample_family:
  assumes "n + m \<le> 255" "n \<le> 254" "m \<le> 254" "c + n < 256" "d + m < 256"
  shows "sorted (keys (sample_node 10 0 c n) @ keys (sample_node 1 n 10 1) ! 0 # keys (sample_node 11 (Suc n) d m))"
    "separator (sample_node 1 n 10 1) 0 (ip_id (sample_node 10 0 c n)) (ip_id (sample_node 11 (Suc n) d m))"
    "internal_wf (sample_node 1 n 10 1)" "internal_wf (sample_node 10 0 c n)"
    "internal_wf (sample_node 11 (Suc n) d m)"
    "num_keys (sample_node 10 0 c n) = n" "num_keys (sample_node 11 (Suc n) d m) = m"
proof -
  note p = sample_node_facts [of 1 n 10 1] and l = sample_node_facts [of n 0 c 10]
    and r = sample_node_facts [of m "Suc n" d 11]
  have le: "(word_of_nat a :: 64 word) \<le> word_of_nat b" if "a \<le> b" "b < 256" for a b
    using that by (simp add: word_le_nat_alt unat_of_nat)
  have "sorted (keys (sample_node 10 0 c n))" "sorted (keys (sample_node 11 (Suc n) d m))"
    using l(1) r(1) assms by (simp_all add: internal_wf_def)
  moreover have "keys (sample_node 1 n 10 1) ! 0 = word_of_nat n" using p(3) assms by simp
  moreover have "\<forall>x \<in> set (keys (sample_node 10 0 c n)). x \<le> word_of_nat n"
    using l(3) assms by (auto intro!: le)
  moreover have "\<forall>x \<in> set (keys (sample_node 11 (Suc n) d m)). word_of_nat n \<le> x"
    using r(3) assms by (auto intro!: le simp del: of_nat_Suc of_nat_add)
  ultimately show "sorted (keys (sample_node 10 0 c n) @ keys (sample_node 1 n 10 1) ! 0 # keys (sample_node 11 (Suc n) d m))"
    by (auto simp: sorted_append intro: order_trans)
  have "children (sample_node 1 n 10 1) = map (\<lambda>i. word_of_nat (10 + i)) [0..<2]"
    using p(4) assms by (simp add: numeral_2_eq_2)
  then have cs: "children (sample_node 1 n 10 1) = [10, 11]" by (simp add: upt_rec)
  show "separator (sample_node 1 n 10 1) 0 (ip_id (sample_node 10 0 c n)) (ip_id (sample_node 11 (Suc n) d m))"
    unfolding separator_def using cs p(2) l(5) r(5) assms by simp
  show "internal_wf (sample_node 1 n 10 1)" "internal_wf (sample_node 10 0 c n)"
    "internal_wf (sample_node 11 (Suc n) d m)"
    "num_keys (sample_node 10 0 c n) = n" "num_keys (sample_node 11 (Suc n) d m) = m"
    using p l r assms by simp_all
qed

theorem internal_left_borrow_witness:
  "\<exists>page' b' l'. InternalPage_HandleLeftBorrow (sample_node 1 200 10 1) (sample_node 11 (Suc 200) 50 54)
      (sample_node 10 0 0 200) (InternalPage_CanLend (sample_node 10 0 0 200) 1155) = Some (page', b', l') \<and>
    num_keys b' = 127 \<and> 127 \<le> num_keys l'"
proof -
  let ?p = "sample_node 1 200 10 1" and ?b = "sample_node 11 (Suc 200) 50 54" and ?l = "sample_node 10 0 0 200"
  have f: "200 + 54 \<le> (255::nat)" "200 \<le> (254::nat)" "54 \<le> (254::nat)" "0 + 200 < (256::nat)" "50 + 54 < (256::nat)"
    by simp_all
  note s = sample_family [OF f]
  have need: "INTERNAL_UNDERFLOW_THRESHOLD + 1 - CheckUsedSpace ?b = 1155"
    using CheckUsedSpace_wf [OF s(5)] s(7) by simp
  have k: "num_keys ?b \<le> 126" "127 \<le> num_keys ?l" using s(6,7) by simp_all
  have "can_borrow (InternalPage_CanLend ?l 1155)"
    using lend_pairs_granted(1) [OF s(4) k s(5) refl] s(6,7) need by simp
  then show ?thesis using internal_left_borrow [OF s(3,5,4,2,1) k refl] need by (auto simp only:)
qed

text \<open>
  C23. Borrowing from the right. When a page underflows and its right neighbour, which does not,
  grants the bytes it lacks, \<open>HandleRightBorrow\<close> succeeds: it rotates the first keys and
  children of the neighbour through the parent, with the sequences of keys and children kept;
  the pages stay well-formed, the page has exactly the 127 keys it needs and the neighbour at
  least as many.
\<close>

theorem internal_right_borrow:
  assumes "internal_wf page" "internal_wf b" "internal_wf l"
    and "separator page j (ip_id b) (ip_id l)" and "sorted (keys b @ keys page ! j # keys l)"
    and "num_keys b \<le> 126" "127 \<le> num_keys l"
    and "rep = InternalPage_CanLend l (INTERNAL_UNDERFLOW_THRESHOLD + 1 - CheckUsedSpace b)" "can_borrow rep"
  shows "\<exists>page' b' l'. InternalPage_HandleRightBorrow page b l rep = Some (page', b', l') \<and>
    rotated j page b l page' b' l' \<and> internal_wf b' \<and> internal_wf l' \<and>
    sorted (keys b' @ keys page' ! j # keys l') \<and> num_keys b' = 127 \<and> 127 \<le> num_keys l'"
proof -
  note g = lend_pairs_granted [OF assms(3,6,7,2,8)]
  have n: "borrow_amount rep = 127 - num_keys b" "254 \<le> num_keys l + num_keys b"
    using g assms(9) by simp_all
  obtain page' b' l' where r: "InternalPage_HandleRightBorrow page b l rep = Some (page', b', l')"
    "rotated j page b l page' b' l'" "num_keys b' = 127" "num_keys l' = num_keys l - (127 - num_keys b)"
    using HandleRightBorrow_views [OF assms(1-4), of rep] n assms(6,7) by auto
  have "num_keys l' \<le> 254" using r(4) internal_wfD(1) [OF assms(3)] by simp
  then show ?thesis
    using rotated_wf [OF r(2) assms(1-3,5)] r n assms(6,7) by simp
qed

theorem internal_right_borrow_witness:
  "\<exists>page' b' l'. InternalPage_HandleRightBorrow (sample_node 1 54 10 1) (sample_node 10 0 50 54)
      (sample_node 11 (Suc 54) 0 200) (InternalPage_CanLend (sample_node 11 (Suc 54) 0 200) 1155) =
      Some (page', b', l') \<and> num_keys b' = 127 \<and> 127 \<le> num_keys l'"
proof -
  let ?b = "sample_node 10 0 50 54" and ?l = "sample_node 11 (Suc 54) 0 200"
  have f: "54 + 200 \<le> (255::nat)" "54 \<le> (254::nat)" "200 \<le> (254::nat)" "50 + 54 < (256::nat)" "0 + 200 < (256::nat)"
    by simp_all
  note s = sample_family [OF f]
  have need: "INTERNAL_UNDERFLOW_THRESHOLD + 1 - CheckUsedSpace ?b = 1155"
    using CheckUsedSpace_wf [OF s(4)] s(6) by simp
  have k: "num_keys ?b \<le> 126" "127 \<le> num_keys ?l" using s(6,7) by simp_all
  have "can_borrow (InternalPage_CanLend ?l 1155)"
    using lend_pairs_granted(1) [OF s(5) k s(4) refl] s(6,7) need by simp
  then show ?thesis using internal_right_borrow [OF s(3,4,5,2,1) k refl] need by (auto simp only:)
qed

text \<open>
  C24. No merge overflows. When a page underflows and its neighbour, which does not, refuses to
  lend, the keys of the two pages and the separator fit in one page: \<open>MergePages\<close> of the right
  one into the left one gives a well-formed page with the keys of the left page, the
  separator, the keys of the right page, and the children of both in order, and
  \<open>DeletePartitionKeyAndChildPtr\<close> takes exactly that separator and the right page out of the
  parent.
\<close>

theorem internal_merge_after_refusal:
  assumes "internal_wf page" "internal_wf l" "internal_wf r"
    and "separator page j (ip_id l) (ip_id r)" and "sorted (keys l @ keys page ! j # keys r)"
    and "num_keys l \<le> 126 \<and> 127 \<le> num_keys r \<and>
        \<not> can_borrow (InternalPage_CanLend r (INTERNAL_UNDERFLOW_THRESHOLD + 1 - CheckUsedSpace l)) \<or>
      num_keys r \<le> 126 \<and> 127 \<le> num_keys l \<and>
        \<not> can_borrow (InternalPage_CanLend l (INTERNAL_UNDERFLOW_THRESHOLD + 1 - CheckUsedSpace r))"
    and "q = InternalPage_MergePages (keys page ! j) l r"
  shows "internal_wf q \<and> keys q = keys l @ keys page ! j # keys r \<and> children q = children l @ children r \<and>
    ip_id q = ip_id l \<and>
    (\<exists>page'. DeletePartitionKeyAndChildPtr page (ip_id l) (ip_id r) = Some (keys page ! j, page') \<and>
       internal_wf page' \<and> keys page' = delete_at j (keys page) \<and>
       children page' = delete_at (Suc j) (children page))"
proof -
  have room: "num_keys l + num_keys r + 1 \<le> 254"
    using assms(6) lend_pairs_granted(1) [OF assms(3) _ _ assms(2) refl]
      lend_pairs_granted(1) [OF assms(2) _ _ assms(3) refl] by auto
  note v = MergePages_views [OF assms(2,3) room assms(7)]
  have wf: "internal_wf q" unfolding internal_wf_def v(1,3,4) using room assms(2,5) by (simp add: internal_wf_def)
  obtain page' where d: "DeletePartitionKeyAndChildPtr page (ip_id l) (ip_id r) = Some (keys page ! j, page')"
    "keys page' = delete_at j (keys page)" "children page' = delete_at (Suc j) (children page)"
    "num_keys page' = num_keys page - 1" "ip_type page' = ip_type page"
    using DeletePartition_views [OF assms(1,4)] by blast
  have "internal_wf page'"
    by (rule internal_wf_smaller [OF assms(1) d(5,4,2)])
  then show ?thesis using wf v d by simp
qed

theorem internal_merge_after_refusal_witness:
  "\<exists>q. InternalPage_MergePages (keys (sample_node 1 100 10 1) ! 0) (sample_node 10 0 50 100)
      (sample_node 11 (Suc 100) 0 130) = q \<and> internal_wf q \<and> num_keys q = 231"
proof -
  let ?p = "sample_node 1 100 10 1" and ?l = "sample_node 10 0 50 100" and ?r = "sample_node 11 (Suc 100) 0 130"
  define q where "q = InternalPage_MergePages (keys ?p ! 0) ?l ?r"
  have f: "100 + 130 \<le> (255::nat)" "100 \<le> (254::nat)" "130 \<le> (254::nat)" "50 + 100 < (256::nat)" "0 + 130 < (256::nat)"
    by simp_all
  note s = sample_family [OF f]
  have k: "num_keys ?l \<le> 126" "127 \<le> num_keys ?r" using s(6,7) by simp_all
  have "\<not> can_borrow (InternalPage_CanLend ?r (INTERNAL_UNDERFLOW_THRESHOLD + 1 - CheckUsedSpace ?l))"
    using lend_pairs_granted(1) [OF s(5) k s(4) refl] s(6,7) by simp
  then have m: "internal_wf q" "keys q = keys ?l @ keys ?p ! 0 # keys ?r"
    using internal_merge_after_refusal [OF s(3-5,2,1) _ q_def] k by blast+
  have "num_keys q = 231" using arg_cong [OF m(2), of length] s(6,7) by simp
  then show ?thesis using m(1) q_def by blast
qed

text \<open>
  C25. Removing a child that was merged into its left neighbour. \<open>DeleteKeyAndChildPtr\<close> and
  \<open>DeletePartitionKeyAndChildPtr\<close> find their key in different ways, by its value and by its
  index, and leave the same page: the separator and the right child gone, the rest in order.
\<close>

theorem internal_delete:
  assumes "internal_wf p" and "separator p j l r"
  shows "keys (DeleteKeyAndChildPtr p l r) = delete_at j (keys p) \<and>
    children (DeleteKeyAndChildPtr p l r) = delete_at (Suc j) (children p) \<and>
    internal_wf (DeleteKeyAndChildPtr p l r) \<and> ip_id (DeleteKeyAndChildPtr p l r) = ip_id p \<and>
    (\<exists>q. DeletePartitionKeyAndChildPtr p l r = Some (keys p ! j, q) \<and> internal_wf q \<and>
       keys q = keys (DeleteKeyAndChildPtr p l r) \<and> children q = children (DeleteKeyAndChildPtr p l r))"
proof -
  note k = DeleteKey_views [OF assms refl]
  obtain q where d: "DeletePartitionKeyAndChildPtr p l r = Some (keys p ! j, q)"
    "keys q = delete_at j (keys p)" "children q = delete_at (Suc j) (children p)"
    "num_keys q = num_keys p - 1" "ip_type q = ip_type p"
    using DeletePartition_views [OF assms] by blast
  have "internal_wf (DeleteKeyAndChildPtr p l r)" "internal_wf q"
    using internal_wf_smaller [OF assms(1) k(4,3,1)] internal_wf_smaller [OF assms(1) d(5,4,2)] by simp_all
  then show ?thesis using k d by simp
qed

theorem internal_delete_witness:
  "children (DeleteKeyAndChildPtr (sample_node 9 10 100 3) 101 102) = [100, 101, 103]"
proof -
  let ?p = "sample_node 9 10 100 3"
  note f = sample_node_facts [of 3 10 100 9, simplified]
  have c: "children ?p = [100, 101, 102, 103]" using f(4) by (simp add: upt_rec)
  have "separator ?p 1 101 102" using f(2,6) c by (simp add: separator_def)
  from internal_delete [OF f(1) this] show ?thesis by (simp add: c delete_at_def numeral_2_eq_2)
qed

section \<open>Siblings\<close>

text \<open>
  Siblings. For a page that is a child of the given one, the four sibling functions give the
  neighbouring child or the error of the missing one at either end, and for any other page the
  error \<open>ChildPtrNotFound\<close>; between two neighbours the boundary key is the separator, which
  \<open>SetNewBoundaryKey\<close> replaces.
\<close>

theorem internal_siblings:
  assumes "internal_wf p" and "distinct (children p)" and "i \<le> num_keys p" and "x \<notin> set (children p)"
  shows "GetLeafLeftSibling p (children p ! i) =
      (if i = 0 then mk_result 0 LeftLeafSiblingDoesNotExist else mk_result (children p ! (i - 1)) ErrNone) \<and>
    GetLeafRightSibling p (children p ! i) =
      (if i = num_keys p then mk_result 0 RightLeafSiblingDoesNotExist else mk_result (children p ! Suc i) ErrNone) \<and>
    GetInternalLeftSibling p (children p ! i) =
      (if i = 0 then mk_result 0 LeftInternalSiblingDoesNotExist else mk_result (children p ! (i - 1)) ErrNone) \<and>
    GetInternalRightSibling p (children p ! i) =
      (if i = num_keys p then mk_result 0 RightInternalSiblingDoesNotExist
       else mk_result (children p ! Suc i) ErrNone) \<and>
    GetLeafLeftSibling p x = mk_result 0 ChildPtrNotFound \<and> GetInternalRightSibling p x = mk_result 0 ChildPtrNotFound \<and>
    (i < num_keys p \<longrightarrow> FindKeyFromChildren p (children p ! i) (children p ! Suc i) = i \<and>
       keys (SetNewBoundaryKey p k (children p ! i) (children p ! Suc i)) = (keys p)[i := k] \<and>
       children (SetNewBoundaryKey p k (children p ! i) (children p ! Suc i)) = children p)"
proof -
  have sep: "separator p i (children p ! i) (children p ! Suc i)" if "i < num_keys p"
    using that assms(2) by (simp add: separator_def)
  show ?thesis
    using left_sibling_spec [OF assms(2), of i] right_sibling_spec [OF assms(2), of i]
      sibling_missing [OF assms(4)] assms(3) FindKey_separator [OF assms(1) sep]
      SetNewBoundaryKey_views [OF assms(1) sep refl]
    by (simp add: GetLeafLeftSibling_def GetLeafRightSibling_def GetInternalLeftSibling_def
        GetInternalRightSibling_def)
qed

theorem internal_siblings_witness:
  "GetLeafRightSibling (sample_node 9 10 100 3) 101 = mk_result 102 ErrNone"
proof -
  note f = sample_node_facts [of 3 10 100 9, simplified]
  have c: "children (sample_node 9 10 100 3) = [100, 101, 102, 103]" using f(4) by (simp add: upt_rec)
  have "77 \<notin> set (children (sample_node 9 10 100 3))" by (simp add: c)
  from internal_siblings [OF f(1,6) _ this, of 1] show ?thesis by (simp add: f(2) c)
qed

section \<open>Two defects\<close>

text \<open>
  \<open>CanLend\<close> subtracts in \<open>size_t\<close>: asked for more than the page has, the difference wraps,
  the page claims it can lend more keys than it holds, and the borrow that follows leaves the
  lender's arrays.
\<close>

theorem internal_can_lend_wraps:
  assumes "internal_wf p" and "needed \<le> 4096" and "num_keys p < (needed + 15) div 16 - 1"
  shows "can_borrow (InternalPage_CanLend p needed) \<and>
    num_keys p < borrow_amount (InternalPage_CanLend p needed) \<and>
    InternalPage_HandleLeftBorrow page b p (InternalPage_CanLend p needed) = None \<and>
    InternalPage_HandleRightBorrow page b p (InternalPage_CanLend p needed) = None"
proof -
  define k where "k = needed div 16 + (if needed mod 16 = 0 then 0 else 1)"
  define a b where "a = needed div 16" and "b = needed mod 16"
  have ab: "needed = 16 * a + b" "b < 16" by (simp_all add: a_def b_def)
  have "(needed + 15) div 16 = a + (if b = 0 then 0 else 1)"
    by (rule div_nat_eqI) (use ab in \<open>simp_all split: if_splits\<close>)
  then have k: "k = (needed + 15) div 16" by (simp add: k_def a_def b_def)
  have le: "k \<le> 257" "num_keys p + 1 < k" using assms(2,3) unfolding k by simp_all
  have wrap: "x mod 18446744073709551616 = x + 18446744073709551616"
    if "x < 0" "- 5000 < x" for x :: int
  proof -
    have "x mod 18446744073709551616 = (x + 18446744073709551616) mod 18446744073709551616" by simp
    also have "\<dots> = x + 18446744073709551616" using that by (intro mod_pos_pos_trivial) simp_all
    finally show ?thesis .
  qed
  have "(int (16 * num_keys p + 8) - int (16 * k)) mod 18446744073709551616 =
      int (16 * num_keys p + 8) - int (16 * k) + 18446744073709551616"
    using wrap [of "int (16 * num_keys p + 8) - int (16 * k)"] le by simp
  then have "InternalPage_CanLend p needed = \<lparr>can_borrow = True, borrow_amount = k\<rparr>"
    unfolding InternalPage_CanLend_def Let_def CheckUsedSpace_wf [OF assms(1)] k_def [symmetric]
    using le by simp
  then show ?thesis
    using le by (simp add: InternalPage_HandleLeftBorrow_def InternalPage_HandleRightBorrow_def Let_def)
qed

theorem internal_can_lend_wraps_witness:
  "can_borrow (InternalPage_CanLend (sample_node 9 10 100 3) 1155)"
proof -
  note f = sample_node_facts [of 3 10 100 9, simplified]
  show ?thesis using internal_can_lend_wraps [OF f(1), of 1155] f(2) by simp
qed

text \<open>
  \<open>CheckUnderflow\<close> adds to its reference argument instead of setting it. From 0 it decides
  underflow exactly (126 keys at most) and computes the used bytes; the tree calls it with an
  uninitialised variable, and for every page there are values for which it answers yes and
  values for which it answers no.
\<close>

theorem internal_underflow_uninitialised:
  assumes "internal_wf p"
  shows "CheckUnderflow p 0 = (num_keys p \<le> 126, CheckUsedSpace p) \<and>
    (\<exists>u < 65536. fst (CheckUnderflow p u)) \<and> (\<exists>u < 65536. \<not> fst (CheckUnderflow p u))"
proof -
  define n where "n = 16 * num_keys p + 8"
  have n: "0 < n" "n < 65536" using internal_wfD(1) [OF assms] by (simp_all add: n_def)
  have c: "fst (CheckUnderflow p u) \<longleftrightarrow> u16 (int u + int n) \<le> 2026" for u
    by (simp add: CheckUnderflow_def Let_def n_def add.assoc algebra_simps)
  have "fst (CheckUnderflow p (65536 - n))" using n by (simp add: c of_nat_diff u16_def)
  moreover have "\<not> fst (CheckUnderflow p (65535 - n))" using n by (simp add: c of_nat_diff u16_def)
  moreover have "65536 - n < 65536" "65535 - n < 65536" using n by simp_all
  ultimately show ?thesis
    unfolding CheckUsedSpace_wf [OF assms] CheckUnderflow_zero [OF assms] by blast
qed

theorem internal_underflow_uninitialised_witness:
  "(\<exists>u < 65536. fst (CheckUnderflow (sample_node 9 0 0 200) u)) \<and> \<not> fst (CheckUnderflow (sample_node 9 0 0 200) 0)"
proof -
  have f: "internal_wf (sample_node 9 0 0 200)" "num_keys (sample_node 9 0 0 200) = 200"
    by (rule sample_node_facts; simp)+
  show ?thesis using internal_underflow_uninitialised [OF f(1)] f(2) by simp
qed

end
