(* ===== verification/Storage.thy ===== *)
theory Storage
  imports Commons
begin

text \<open>
  The storage manager (\<open>database/src/impl/storageManager/storageManager.cpp\<close>): the database
  file as an array of pages behind the system calls \<open>pread\<close>, \<open>pwrite\<close>, \<open>posix_fallocate\<close> and
  \<open>fstat\<close>. The system calls are a parameter; what the code relies on is the locale
  \<open>posix_file\<close>. Proved: a page reads back what the last successful write stored, other pages
  are untouched even by a failed write, the manager's own page is out of reach of its clients,
  and a restart continues with the page number the last allocation left.
\<close>

section \<open>System calls\<close>

text \<open>
  One descriptor of type \<open>'d\<close>. \<open>os_pread\<close> and \<open>os_pwrite\<close> transfer \<open>PAGE_SIZE\<close> bytes at an
  offset and return the byte count (-1 for an error) with the buffer or the file after the call.
\<close>

record 'd posix =
  os_fstat :: "'d \<Rightarrow> int option"
  os_pread :: "'d \<Rightarrow> nat \<Rightarrow> mem \<Rightarrow> int \<times> mem"
  os_pwrite :: "'d \<Rightarrow> nat \<Rightarrow> mem \<Rightarrow> int \<times> 'd"
  os_fallocate :: "'d \<Rightarrow> nat \<Rightarrow> int \<times> 'd"

record 'd StorageManager =
  fd_database :: 'd
  new_page_offset_index :: "64 word"

text \<open>\<open>pid * PAGE_SIZE\<close> in \<open>uint64_t\<close>.\<close>

definition page_offset :: "PageID \<Rightarrow> nat" where
  "page_offset pid = unat (pid * 4096)"

section \<open>Reading and writing pages\<close>

definition PrivateReadPage :: "'d posix \<Rightarrow> 'd StorageManager \<Rightarrow> PageID \<Rightarrow> mem \<Rightarrow> bool Result \<times> mem" where
  "PrivateReadPage os sm pid buffer =
    (let (byte_count, buffer) = os_pread os (fd_database sm) (page_offset pid) buffer
     in if byte_count = -1 then (mk_result False SystemErr, buffer)
        else if byte_count \<noteq> int PAGE_SIZE then (mk_result False FileCorruption, buffer)
        else (mk_result True ErrNone, buffer))"

definition ReadPage :: "'d posix \<Rightarrow> 'd StorageManager \<Rightarrow> PageID \<Rightarrow> mem \<Rightarrow> bool Result \<times> mem" where
  "ReadPage os sm pid buffer =
    (if pid = STORAGE_MANAGER_META_PAGE_ID then (mk_result False OperationNotAllowed, buffer)
     else
       let (byte_count, buffer) = os_pread os (fd_database sm) (page_offset pid) buffer
       in if byte_count = -1 then (mk_result False SystemErr, buffer)
          else if byte_count \<noteq> int PAGE_SIZE then (mk_result False FileCorruption, buffer)
          else (mk_result True ErrNone, buffer))"

definition PrivateWritePage ::
    "'d posix \<Rightarrow> 'd StorageManager \<Rightarrow> PageID \<Rightarrow> mem \<Rightarrow> bool Result \<times> 'd StorageManager" where
  "PrivateWritePage os sm pid buffer =
    (let (byte_count, fd) = os_pwrite os (fd_database sm) (page_offset pid) buffer;
         sm = sm\<lparr>fd_database := fd\<rparr>
     in if byte_count = -1 then (mk_result False SystemErr, sm)
        else if byte_count \<noteq> int PAGE_SIZE then (mk_result False DiskFullOrTruncated, sm)
        else (mk_result True ErrNone, sm))"

definition WritePage ::
    "'d posix \<Rightarrow> 'd StorageManager \<Rightarrow> PageID \<Rightarrow> mem \<Rightarrow> bool Result \<times> 'd StorageManager" where
  "WritePage os sm pid buffer =
    (if pid = STORAGE_MANAGER_META_PAGE_ID then (mk_result False OperationNotAllowed, sm)
     else
       let (byte_count, fd) = os_pwrite os (fd_database sm) (page_offset pid) buffer;
           sm = sm\<lparr>fd_database := fd\<rparr>
       in if byte_count = -1 then (mk_result False SystemErr, sm)
          else if byte_count \<noteq> int PAGE_SIZE then (mk_result False DiskFullOrTruncated, sm)
          else (mk_result True ErrNone, sm))"

section \<open>Allocation\<close>

text \<open>
  \<open>stack\<close> is the uninitialised local array the page is read into; it shows when the read fails,
  which the code does not check.
\<close>

definition SetNewPageOffsetIndex :: "'d posix \<Rightarrow> mem \<Rightarrow> 'd StorageManager \<Rightarrow> 64 word \<Rightarrow> 'd StorageManager" where
  "SetNewPageOffsetIndex os stack sm new_off =
    (let (_, page) = PrivateReadPage os sm STORAGE_MANAGER_META_PAGE_ID stack;
         page = store_u64 page MAGIC_NUMBER_SIZE new_off;
         (_, sm) = PrivateWritePage os sm STORAGE_MANAGER_META_PAGE_ID page
     in sm)"

definition StorageManager_AllocateNewPage ::
    "'d posix \<Rightarrow> mem \<Rightarrow> 'd StorageManager \<Rightarrow> PageID Result \<times> 'd StorageManager" where
  "StorageManager_AllocateNewPage os stack sm =
    (let (alloc_result, fd) = os_fallocate os (fd_database sm) (page_offset (new_page_offset_index sm));
         sm = sm\<lparr>fd_database := fd\<rparr>;
         sm = SetNewPageOffsetIndex os stack sm (new_page_offset_index sm + 1);
         sm = sm\<lparr>new_page_offset_index := new_page_offset_index sm + 1\<rparr>
     in (mk_result (new_page_offset_index sm - 1) ErrNone, sm))"

section \<open>Opening the file\<close>

text \<open>
  The calls of \<open>Bootstrap\<close> on the file system, in the state \<open>'s\<close> of the host: \<open>exists\<close> and
  \<open>create_directories\<close> of \<open>std::filesystem\<close>, where \<open>Inl\<close> is the exception they throw, and \<open>open\<close>
  (\<open>None\<close> for -1), whose last argument says whether \<open>O_CREAT\<close> is among the flags; the other flags
  and the mode are always the same.
\<close>

record ('d, 's) filesystem =
  fs_exists :: "'s \<Rightarrow> string \<Rightarrow> errno + bool"
  fs_create_directories :: "'s \<Rightarrow> string \<Rightarrow> (errno + unit) \<times> 's"
  fs_open :: "'s \<Rightarrow> string \<Rightarrow> bool \<Rightarrow> 'd option \<times> 's"

text \<open>
  \<open>path::parent_path\<close>: what is before the last slash, without slashes at its end; the root
  directory is its own parent, and a path without a slash has the empty path.
\<close>

definition parent_path :: "string \<Rightarrow> string" where
  "parent_path path =
    (if CHR ''/'' \<notin> set path then []
     else if \<forall>c \<in> set path. c = CHR ''/'' then path
     else
       let dir = rev (dropWhile (\<lambda>c. c = CHR ''/'') (dropWhile (\<lambda>c. c \<noteq> CHR ''/'') (rev path)))
       in if dir = [] then ''/'' else dir)"

text \<open>\<open>Bootstrap\<close> up to the call of \<open>open\<close>; \<open>Inl\<close> is an exception, which leaves the function.\<close>

definition open_database :: "('d, 's) filesystem \<Rightarrow> 's \<Rightarrow> string \<Rightarrow> (errno + 'd option) \<times> 's" where
  "open_database fs s DB_PATH =
    (let DATA_DIR = parent_path DB_PATH
     in case fs_exists fs s DATA_DIR of
          Inl e \<Rightarrow> (Inl e, s)
        | Inr dir_found \<Rightarrow>
            (let (created, s) = (if \<not> dir_found then fs_create_directories fs s DATA_DIR else (Inr (), s))
             in case created of
                  Inl e \<Rightarrow> (Inl e, s)
                | Inr _ \<Rightarrow>
                    (case (if DATA_DIR \<noteq> [] then fs_exists fs s DB_PATH else Inr True) of
                       Inl e \<Rightarrow> (Inl e, s)
                     | Inr file_found \<Rightarrow> apfst Inr (fs_open fs s DB_PATH (\<not> file_found)))))"

text \<open>
  A path in the working directory has the empty parent. \<open>exists\<close> is false of the empty path and
  \<open>create_directories\<close> throws for it, so the exception leaves \<open>Bootstrap\<close> before the file is opened.
\<close>

lemma parent_path_plain: "CHR ''/'' \<notin> set path \<Longrightarrow> parent_path path = []"
  by (simp add: parent_path_def)

lemma open_database_plain:
  assumes "CHR ''/'' \<notin> set path" and "fs_exists fs s [] = Inr False" and "fs_create_directories fs s [] = (Inl e, s')"
  shows "open_database fs s path = (Inl e, s')"
  using assms by (simp add: open_database_def parent_path_plain)

lemma open_database_found:
  assumes "fs_exists fs s (parent_path path) = Inr True" and "parent_path path \<noteq> []" and "fs_exists fs s path = Inr found"
    and "fs_open fs s path (\<not> found) = (fd, s')"
  shows "open_database fs s path = (Inr fd, s')"
  using assms by (simp add: open_database_def)

section \<open>Bootstrap\<close>

definition IsDatabaseFile :: "'d posix \<Rightarrow> mem \<Rightarrow> 'd \<Rightarrow> bool" where
  "IsDatabaseFile os stack fd =
    (case os_fstat os fd of
       None \<Rightarrow> False
     | Some st_size \<Rightarrow>
         if st_size < 0 \<or> st_size < int PAGE_SIZE then False
         else
           let (_, page) = os_pread os fd (page_offset STORAGE_MANAGER_META_PAGE_ID) stack
           in load_u32 page 0 = STORAGE_MANAGER_MAGIC_NUMBER)"

text \<open>
  \<open>Bootstrap\<close> after the call of \<open>open\<close>; \<open>opened\<close> is its result, \<open>None\<close> for -1. With a
  descriptor of -1 every system call fails and the function returns false.
\<close>

definition StorageManager_Bootstrap ::
    "'d posix \<Rightarrow> mem \<Rightarrow> 'd option \<Rightarrow> 'd StorageManager option" where
  "StorageManager_Bootstrap os stack opened =
    (case opened of
       None \<Rightarrow> None
     | Some fd \<Rightarrow>
         let sm = \<lparr>fd_database = fd, new_page_offset_index = 0\<rparr>;
             sm = (if \<not> IsDatabaseFile os stack fd then
                     let buffer = (\<lambda>_. 0);
                         buffer = store_u32 buffer 0 STORAGE_MANAGER_MAGIC_NUMBER;
                         off_start = DATABASE_META_PAGE_ID + 1;
                         buffer = store_u64 buffer MAGIC_NUMBER_SIZE off_start;
                         (_, sm) = PrivateWritePage os sm STORAGE_MANAGER_META_PAGE_ID buffer;
                         (_, sm) = PrivateWritePage os sm DATABASE_META_PAGE_ID (\<lambda>_. 0)
                     in sm
                   else sm);
             (_, page) = PrivateReadPage os sm STORAGE_MANAGER_META_PAGE_ID stack
         in Some (sm\<lparr>new_page_offset_index := load_u64 page MAGIC_NUMBER_SIZE\<rparr>))"

section \<open>What the code relies on\<close>

text \<open>
  \<open>file_byte\<close> is the content of the file. A full transfer moves exactly the page's bytes; a
  failed or short write may change nothing but the range it was given (and a failed one
  nothing); allocating space changes no byte; a read changes only the buffer it is given.
\<close>

locale posix_file =
  fixes os :: "'d posix" and file_byte :: "'d \<Rightarrow> nat \<Rightarrow> byte"
  assumes pread_full: "os_pread os d off buf = (4096, buf') \<Longrightarrow> i < 4096 \<Longrightarrow> buf' i = file_byte d (off + i)"
    and pread_frame: "os_pread os d off buf = (n, buf') \<Longrightarrow> 4096 \<le> i \<Longrightarrow> buf' i = buf i"
    and pwrite_full: "os_pwrite os d off buf = (4096, d') \<Longrightarrow> i < 4096 \<Longrightarrow> file_byte d' (off + i) = buf i"
    and pwrite_frame: "os_pwrite os d off buf = (n, d') \<Longrightarrow> i < off \<or> off + 4096 \<le> i \<Longrightarrow>
      file_byte d' i = file_byte d i"
    and pwrite_fail: "os_pwrite os d off buf = (-1, d') \<Longrightarrow> file_byte d' i = file_byte d i"
    and fallocate_keeps: "os_fallocate os d off = (n, d') \<Longrightarrow> file_byte d' i = file_byte d i"

text \<open>The bytes of a page on disk, for a page number whose offset does not wrap.\<close>

definition disk_page :: "('d \<Rightarrow> nat \<Rightarrow> byte) \<Rightarrow> 'd StorageManager \<Rightarrow> PageID \<Rightarrow> byte list" where
  "disk_page file_byte sm pid = map (file_byte (fd_database sm)) [page_offset pid..<page_offset pid + 4096]"

definition valid_pid :: "PageID \<Rightarrow> bool" where
  "valid_pid pid \<longleftrightarrow> unat pid < 4503599627370496"

lemma page_offset_valid: "valid_pid pid \<Longrightarrow> page_offset pid = 4096 * unat pid"
  by (simp add: valid_pid_def page_offset_def unat_word_ariths)

lemma page_offsets_apart:
  "valid_pid p \<Longrightarrow> valid_pid q \<Longrightarrow> p \<noteq> q \<Longrightarrow>
    page_offset p + 4096 \<le> page_offset q \<or> page_offset q + 4096 \<le> page_offset p"
proof -
  assume v: "valid_pid p" "valid_pid q" "p \<noteq> q"
  then have "unat p < unat q \<or> unat q < unat p" by (metis linorder_neqE_nat word_unat_eq_iff)
  then show ?thesis using v by (auto simp: page_offset_valid)
qed

context posix_file begin

abbreviation on_disk :: "'d StorageManager \<Rightarrow> PageID \<Rightarrow> byte list" where
  "on_disk \<equiv> disk_page file_byte"

lemma on_disk_nth: "i < 4096 \<Longrightarrow> on_disk sm pid ! i = file_byte (fd_database sm) (page_offset pid + i)"
  by (simp add: disk_page_def)

lemma length_on_disk: "length (on_disk sm pid) = 4096"
  by (simp add: disk_page_def)

lemma PrivateReadPage_ok:
  assumes "PrivateReadPage os sm pid buf = (r, buf')" "res_value r"
  shows "bytes buf' 0 4096 = on_disk sm pid"
proof (rule nth_equalityI)
  fix i assume "i < length (bytes buf' 0 4096)"
  then show "bytes buf' 0 4096 ! i = on_disk sm pid ! i"
    using assms pread_full [of "fd_database sm" "page_offset pid" buf buf' i]
    by (auto simp: PrivateReadPage_def Let_def on_disk_nth PAGE_SIZE_def split: prod.splits if_splits)
qed (simp add: length_on_disk)

lemma PrivateWritePage_ok:
  assumes "PrivateWritePage os sm pid buf = (r, sm')" "res_value r"
  shows "on_disk sm' pid = bytes buf 0 4096"
proof (rule nth_equalityI)
  fix i assume "i < length (on_disk sm' pid)"
  then show "on_disk sm' pid ! i = bytes buf 0 4096 ! i"
    using assms pwrite_full [of "fd_database sm" "page_offset pid" buf "fd_database sm'" i]
    by (auto simp: PrivateWritePage_def Let_def on_disk_nth length_on_disk PAGE_SIZE_def split: prod.splits if_splits)
qed (simp add: length_on_disk)

lemma PrivateWritePage_other:
  assumes "PrivateWritePage os sm pid buf = (r, sm')" "valid_pid pid" "valid_pid q" "q \<noteq> pid"
  shows "on_disk sm' q = on_disk sm q"
proof (rule nth_equalityI)
  fix i assume "i < length (on_disk sm' q)"
  then have i: "i < 4096" by (simp add: length_on_disk)
  obtain n fd where w: "os_pwrite os (fd_database sm) (page_offset pid) buf = (n, fd)" by fastforce
  have "file_byte fd (page_offset q + i) = file_byte (fd_database sm) (page_offset q + i)"
    using page_offsets_apart [OF assms(2,3)] assms(4) i by (intro pwrite_frame [OF w]) auto
  moreover have "fd_database sm' = fd" using assms(1) w by (auto simp: PrivateWritePage_def Let_def split: if_splits)
  ultimately show "on_disk sm' q ! i = on_disk sm q ! i" using i by (simp add: on_disk_nth)
qed (simp add: length_on_disk)

lemma ReadPage_private: "pid \<noteq> 0 \<Longrightarrow> ReadPage os sm pid buf = PrivateReadPage os sm pid buf"
  by (simp add: ReadPage_def PrivateReadPage_def STORAGE_MANAGER_META_PAGE_ID_def)

lemma WritePage_private: "pid \<noteq> 0 \<Longrightarrow> WritePage os sm pid buf = PrivateWritePage os sm pid buf"
  by (simp add: WritePage_def PrivateWritePage_def STORAGE_MANAGER_META_PAGE_ID_def)

lemma meta_page_protected:
  "ReadPage os sm 0 buf = (mk_result False OperationNotAllowed, buf)"
  "WritePage os sm 0 buf = (mk_result False OperationNotAllowed, sm)"
  by (simp_all add: ReadPage_def WritePage_def STORAGE_MANAGER_META_PAGE_ID_def)

lemma WritePage_index [simp]:
  "WritePage os sm pid buf = (r, sm') \<Longrightarrow> new_page_offset_index sm' = new_page_offset_index sm"
  by (auto simp: WritePage_def Let_def split: prod.splits if_splits)

text \<open>A write that fails outright leaves the disk alone; any write leaves other pages alone.\<close>

lemma PrivateWritePage_failed:
  assumes "PrivateWritePage os sm pid buf = (r, sm')" "res_err r = SystemErr"
  shows "on_disk sm' q = on_disk sm q"
proof -
  have "os_pwrite os (fd_database sm) (page_offset pid) buf = (-1, fd_database sm')"
    using assms by (auto simp: PrivateWritePage_def Let_def split: prod.splits if_splits)
  then show ?thesis by (simp add: disk_page_def pwrite_fail)
qed

lemma PrivateReadPage_outside:
  "PrivateReadPage os sm pid buf = (r, buf') \<Longrightarrow> 4096 \<le> i \<Longrightarrow> buf' i = buf i"
  using pread_frame by (auto simp: PrivateReadPage_def split: prod.splits if_splits)

end

section \<open>A regular file without faults\<close>

text \<open>
  On a regular file with space on the device a transfer inside the file is complete, a write or
  an allocation past its end extends it, and \<open>fstat\<close> reports its size.
\<close>

locale regular_file = posix_file os file_byte for os :: "'d posix" and file_byte +
  fixes file_size :: "'d \<Rightarrow> nat"
  assumes fstat_size: "os_fstat os d = Some (int (file_size d))"
    and pread_complete: "off + 4096 \<le> file_size d \<Longrightarrow> fst (os_pread os d off buf) = 4096"
    and pwrite_complete: "fst (os_pwrite os d off buf) = 4096"
    and pwrite_extends: "file_size (snd (os_pwrite os d off buf)) = max (file_size d) (off + 4096)"
    and fallocate_extends: "file_size (snd (os_fallocate os d off)) = max (file_size d) (off + 4096)"

definition persisted_index :: "('d \<Rightarrow> nat \<Rightarrow> byte) \<Rightarrow> 'd StorageManager \<Rightarrow> 64 word" where
  "persisted_index file_byte sm = load_u64 (of_bytes (disk_page file_byte sm 0)) 4"

definition persisted_magic :: "('d \<Rightarrow> nat \<Rightarrow> byte) \<Rightarrow> 'd StorageManager \<Rightarrow> nat" where
  "persisted_magic file_byte sm = load_u32 (of_bytes (disk_page file_byte sm 0)) 0"

text \<open>The manager and the file agree: a database file whose first page records the next page number.\<close>

definition storage_inv :: "('d \<Rightarrow> nat \<Rightarrow> byte) \<Rightarrow> ('d \<Rightarrow> nat) \<Rightarrow> 'd StorageManager \<Rightarrow> bool" where
  "storage_inv file_byte file_size sm \<longleftrightarrow> 4096 \<le> file_size (fd_database sm) \<and>
     persisted_magic file_byte sm = STORAGE_MANAGER_MAGIC_NUMBER \<and>
     persisted_index file_byte sm = new_page_offset_index sm"

lemma load_of_page: "bytes buf 0 4096 = pg \<Longrightarrow> a + k \<le> 4096 \<Longrightarrow> load_le (of_bytes pg) a k = load_le buf a k"
  by (rule load_le_cong) (auto simp: of_bytes_def)

lemma page_offset_0 [simp]: "page_offset 0 = 0"
  by (simp add: page_offset_def)

context regular_file begin

lemma PrivateReadPage_complete:
  assumes "page_offset pid + 4096 \<le> file_size (fd_database sm)"
  obtains buf' where "PrivateReadPage os sm pid buf = (mk_result True ErrNone, buf')"
    "bytes buf' 0 4096 = on_disk sm pid"
proof -
  obtain buf' where "os_pread os (fd_database sm) (page_offset pid) buf = (4096, buf')"
    using pread_complete [OF assms, of buf] by (metis prod.collapse)
  then have r: "PrivateReadPage os sm pid buf = (mk_result True ErrNone, buf')"
    by (simp add: PrivateReadPage_def PAGE_SIZE_def)
  show ?thesis by (rule that [OF r]) (rule PrivateReadPage_ok [OF r], simp)
qed

lemma PrivateWritePage_complete:
  obtains d' where "PrivateWritePage os sm pid buf = (mk_result True ErrNone, sm\<lparr>fd_database := d'\<rparr>)"
    "on_disk (sm\<lparr>fd_database := d'\<rparr>) pid = bytes buf 0 4096"
    "file_size d' = max (file_size (fd_database sm)) (page_offset pid + 4096)"
proof -
  obtain d' where w: "os_pwrite os (fd_database sm) (page_offset pid) buf = (4096, d')"
    using pwrite_complete [of "fd_database sm" "page_offset pid" buf] by (metis prod.collapse)
  then have r: "PrivateWritePage os sm pid buf = (mk_result True ErrNone, sm\<lparr>fd_database := d'\<rparr>)"
    by (simp add: PrivateWritePage_def PAGE_SIZE_def)
  show ?thesis
    by (rule that [OF r], rule PrivateWritePage_ok [OF r], simp)
      (use pwrite_extends [of "fd_database sm" "page_offset pid" buf] w in simp)
qed

lemma SetNewPageOffsetIndex_persists:
  assumes inv: "4096 \<le> file_size (fd_database sm)"
  shows "persisted_index file_byte (SetNewPageOffsetIndex os stack sm v) = v"
    "persisted_magic file_byte (SetNewPageOffsetIndex os stack sm v) = persisted_magic file_byte sm"
    "new_page_offset_index (SetNewPageOffsetIndex os stack sm v) = new_page_offset_index sm"
    "file_size (fd_database (SetNewPageOffsetIndex os stack sm v)) = file_size (fd_database sm)"
    "valid_pid q \<Longrightarrow> q \<noteq> 0 \<Longrightarrow> on_disk (SetNewPageOffsetIndex os stack sm v) q = on_disk sm q"
proof -
  obtain page where r: "PrivateReadPage os sm 0 stack = (mk_result True ErrNone, page)"
    "bytes page 0 4096 = on_disk sm 0"
    using inv by (rule PrivateReadPage_complete [of 0 sm stack, simplified])
  let ?page = "store_u64 page 4 v"
  obtain d' where w: "PrivateWritePage os sm 0 ?page = (mk_result True ErrNone, sm\<lparr>fd_database := d'\<rparr>)"
    "on_disk (sm\<lparr>fd_database := d'\<rparr>) 0 = bytes ?page 0 4096"
    "file_size d' = max (file_size (fd_database sm)) (page_offset 0 + 4096)"
    by (rule PrivateWritePage_complete)
  have e: "SetNewPageOffsetIndex os stack sm v = sm\<lparr>fd_database := d'\<rparr>"
    using r(1) w(1)
    by (simp add: SetNewPageOffsetIndex_def STORAGE_MANAGER_META_PAGE_ID_def MAGIC_NUMBER_SIZE_def)
  show "persisted_index file_byte (SetNewPageOffsetIndex os stack sm v) = v"
    by (simp add: persisted_index_def e load_of_page [OF w(2) [symmetric]] mem_simps)
  show "persisted_magic file_byte (SetNewPageOffsetIndex os stack sm v) = persisted_magic file_byte sm"
    by (simp add: persisted_magic_def e load_of_page [OF w(2) [symmetric]] load_of_page [OF r(2)] mem_simps)
  show "new_page_offset_index (SetNewPageOffsetIndex os stack sm v) = new_page_offset_index sm"
    "file_size (fd_database (SetNewPageOffsetIndex os stack sm v)) = file_size (fd_database sm)"
    using w(3) inv by (simp_all add: e)
  show "on_disk (SetNewPageOffsetIndex os stack sm v) q = on_disk sm q" if "valid_pid q" "q \<noteq> 0"
    unfolding e by (rule PrivateWritePage_other [OF w(1) _ that]) (simp add: valid_pid_def)
qed

lemma AllocateNewPage_correct:
  assumes inv: "storage_inv file_byte file_size sm"
    and r: "StorageManager_AllocateNewPage os stack sm = (r, sm')"
  shows "res_err r = ErrNone" "res_value r = new_page_offset_index sm"
    "new_page_offset_index sm' = new_page_offset_index sm + 1" "storage_inv file_byte file_size sm'"
    "page_offset (new_page_offset_index sm) + 4096 \<le> file_size (fd_database sm')"
    "valid_pid q \<Longrightarrow> q \<noteq> 0 \<Longrightarrow> on_disk sm' q = on_disk sm q"
    "file_size (fd_database sm) \<le> file_size (fd_database sm')"
proof -
  obtain n fd where f: "os_fallocate os (fd_database sm) (page_offset (new_page_offset_index sm)) = (n, fd)"
    by fastforce
  define sm1 where "sm1 = sm\<lparr>fd_database := fd\<rparr>"
  define sm2 where "sm2 = SetNewPageOffsetIndex os stack sm1 (new_page_offset_index sm + 1)"
  have sz: "file_size fd = max (file_size (fd_database sm)) (page_offset (new_page_offset_index sm) + 4096)"
    using fallocate_extends [of "fd_database sm" "page_offset (new_page_offset_index sm)"] f by simp
  have d1: "on_disk sm1 q = on_disk sm q" for q
    using fallocate_keeps [OF f] by (simp add: disk_page_def sm1_def)
  have "4096 \<le> file_size (fd_database sm1)" using inv sz by (simp add: sm1_def storage_inv_def)
  note s = SetNewPageOffsetIndex_persists [OF this, where stack = stack and v = "new_page_offset_index sm + 1",
      folded sm2_def]
  have eqs: "r = mk_result (new_page_offset_index sm) ErrNone"
    "sm' = sm2\<lparr>new_page_offset_index := new_page_offset_index sm + 1\<rparr>"
    using r f s(3) by (simp_all add: StorageManager_AllocateNewPage_def sm1_def [symmetric] sm2_def Let_def)
      (simp_all add: sm1_def)
  show "res_err r = ErrNone" "res_value r = new_page_offset_index sm"
    "new_page_offset_index sm' = new_page_offset_index sm + 1" by (simp_all add: eqs)
  have pd: "persisted_index file_byte (x\<lparr>new_page_offset_index := v\<rparr>) = persisted_index file_byte x"
    "persisted_magic file_byte (x\<lparr>new_page_offset_index := v\<rparr>) = persisted_magic file_byte x" for x :: "'d StorageManager" and v
    by (simp_all add: persisted_index_def persisted_magic_def disk_page_def)
  show "storage_inv file_byte file_size sm'"
    using inv s(1,2,4) sz d1 by (simp add: storage_inv_def eqs pd) (simp add: persisted_magic_def sm1_def)
  show "page_offset (new_page_offset_index sm) + 4096 \<le> file_size (fd_database sm')"
    "file_size (fd_database sm) \<le> file_size (fd_database sm')"
    using s(4) sz by (simp_all add: eqs sm1_def)
  show "on_disk sm' q = on_disk sm q" if "valid_pid q" "q \<noteq> 0"
    using s(5) [OF that] d1 by (simp add: eqs disk_page_def)
qed

lemma Bootstrap_restart:
  assumes inv: "storage_inv file_byte file_size sm"
  shows "StorageManager_Bootstrap os stack (Some (fd_database sm)) = Some sm"
proof -
  let ?sm = "\<lparr>fd_database = fd_database sm, new_page_offset_index = 0\<rparr>"
  have size: "page_offset 0 + 4096 \<le> file_size (fd_database ?sm)" using inv by (simp add: storage_inv_def)
  then obtain page where r: "PrivateReadPage os ?sm 0 stack = (mk_result True ErrNone, page)"
    "bytes page 0 4096 = on_disk ?sm 0" by (rule PrivateReadPage_complete)
  have same: "on_disk ?sm 0 = on_disk sm 0" by (simp add: disk_page_def)
  have pr: "os_pread os (fd_database sm) 0 stack = (4096, page)"
    using r(1) by (simp add: PrivateReadPage_def PAGE_SIZE_def mk_result_def split: prod.splits if_splits)
  have "load_u32 page 0 = STORAGE_MANAGER_MAGIC_NUMBER" "load_u64 page 4 = new_page_offset_index sm"
    using inv load_of_page [OF r(2), of 0 4] load_of_page [OF r(2), of 4 8]
    by (simp_all add: storage_inv_def persisted_magic_def persisted_index_def same)
  moreover have "IsDatabaseFile os stack (fd_database sm) \<longleftrightarrow> load_u32 page 0 = STORAGE_MANAGER_MAGIC_NUMBER"
    using size by (simp add: IsDatabaseFile_def fstat_size PAGE_SIZE_def pr STORAGE_MANAGER_META_PAGE_ID_def)
  ultimately show ?thesis
    using r(1)
    by (simp add: StorageManager_Bootstrap_def STORAGE_MANAGER_META_PAGE_ID_def MAGIC_NUMBER_SIZE_def)
qed

lemma Bootstrap_fresh:
  assumes fresh: "\<not> IsDatabaseFile os stack fd"
  obtains sm where "StorageManager_Bootstrap os stack (Some fd) = Some sm"
    "storage_inv file_byte file_size sm" "new_page_offset_index sm = 2"
    "on_disk sm DATABASE_META_PAGE_ID = replicate 4096 0" "8192 \<le> file_size (fd_database sm)"
proof -
  let ?sm = "\<lparr>fd_database = fd, new_page_offset_index = 0\<rparr>"
  define buffer where "buffer = store_u64 (store_u32 (\<lambda>_. 0) 0 STORAGE_MANAGER_MAGIC_NUMBER) 4 2"
  obtain d1 where w1: "PrivateWritePage os ?sm 0 buffer = (mk_result True ErrNone, ?sm\<lparr>fd_database := d1\<rparr>)"
    "on_disk (?sm\<lparr>fd_database := d1\<rparr>) 0 = bytes buffer 0 4096"
    "file_size d1 = max (file_size (fd_database ?sm)) (page_offset 0 + 4096)"
    by (rule PrivateWritePage_complete)
  let ?sm1 = "?sm\<lparr>fd_database := d1\<rparr>"
  obtain d2 where w2: "PrivateWritePage os ?sm1 1 (\<lambda>_. 0) = (mk_result True ErrNone, ?sm1\<lparr>fd_database := d2\<rparr>)"
    "on_disk (?sm1\<lparr>fd_database := d2\<rparr>) 1 = bytes (\<lambda>_. 0) 0 4096"
    "file_size d2 = max (file_size (fd_database ?sm1)) (page_offset 1 + 4096)"
    by (rule PrivateWritePage_complete)
  let ?sm2 = "?sm1\<lparr>fd_database := d2\<rparr>"
  have z: "on_disk ?sm2 0 = bytes buffer 0 4096"
    using PrivateWritePage_other [OF w2(1), of 0] w1(2) by (simp add: valid_pid_def)
  have "page_offset 0 + 4096 \<le> file_size (fd_database ?sm2)" using w1(3) w2(3) by simp
  then obtain page where r: "PrivateReadPage os ?sm2 0 stack = (mk_result True ErrNone, page)"
    "bytes page 0 4096 = on_disk ?sm2 0" by (rule PrivateReadPage_complete)
  have mg: "STORAGE_MANAGER_MAGIC_NUMBER < 256 ^ 4" by (simp add: magic_defs)
  have l: "load_le buffer 0 4 = STORAGE_MANAGER_MAGIC_NUMBER" "load_u64 buffer 4 = 2"
    using mg by (simp_all add: buffer_def mem_simps)
  have i: "load_u64 page 4 = 2"
    using load_of_page [OF r(2), of 4 8] load_of_page [OF z [symmetric], of 4 8] l(2) by simp
  let ?r = "?sm2\<lparr>new_page_offset_index := 2\<rparr>"
  have dr: "on_disk ?r q = on_disk ?sm2 q" for q unfolding disk_page_def by simp
  have b: "StorageManager_Bootstrap os stack (Some fd) = Some ?r"
    using fresh w1(1) w2(1) r(1) i
    by (simp add: StorageManager_Bootstrap_def STORAGE_MANAGER_META_PAGE_ID_def Let_def
        DATABASE_META_PAGE_ID_def MAGIC_NUMBER_SIZE_def buffer_def)
  have "persisted_magic file_byte ?r = STORAGE_MANAGER_MAGIC_NUMBER" "persisted_index file_byte ?r = 2"
    unfolding persisted_magic_def persisted_index_def dr z
    using l by (simp_all add: load_of_page [OF refl])
  then have s: "storage_inv file_byte file_size ?r"
    using w1(3) w2(3) by (simp add: storage_inv_def)
  have d: "on_disk ?r DATABASE_META_PAGE_ID = replicate 4096 0"
    unfolding dr DATABASE_META_PAGE_ID_def w2(2) by (simp add: bytes_def map_replicate_const)
  have f: "8192 \<le> file_size (fd_database ?r)" using w2(3) by (simp add: page_offset_def)
  have "new_page_offset_index ?r = 2" by simp
  from that [OF b s this d f] show ?thesis .
qed

end

section \<open>A file in memory\<close>

text \<open>The laws can be met: a file as its bytes and its size, every transfer complete.\<close>

definition file_os :: "(mem \<times> nat) posix" where
  "file_os = \<lparr>
     os_fstat = (\<lambda>(c, n). Some (int n)),
     os_pread = (\<lambda>(c, n) off buf.
       (if off + 4096 \<le> n then (4096, memcpy buf 0 c off 4096) else (0, buf))),
     os_pwrite = (\<lambda>(c, n) off buf. (4096, (memcpy c off buf 0 4096, max n (off + 4096)))),
     os_fallocate = (\<lambda>(c, n) off. (0, (c, max n (off + 4096))))\<rparr>"

interpretation mem_file: regular_file file_os fst snd
  by unfold_locales (auto simp: file_os_def memcpy_def split: if_splits)

end
