(* ===== verification/Pool_Coherence.thy ===== *)
theory Pool_Coherence
  imports Buffer_Pool
begin

text \<open>
  What the buffer pool promises its clients (\<open>bufferpool.cpp\<close> over \<open>storageManager.cpp\<close>): the
  pool's structure, the content of a page as a client sees it, and the proofs that evicting,
  requesting, releasing and shutting down keep that content, failed reads and writes included,
  as long as no pinned frame is taken for a victim.
\<close>

section \<open>Structure of the pool\<close>

text \<open>
  The page table sends pages to frames that carry their number; frames of the free list and
  frames of the queue are distinct, the former unmapped, the latter mapped and flagged; a frame that is
  not mapped is clean. Page 0 belongs to the storage manager and is never mapped.
\<close>

definition pool_inv :: "'d BufferPool \<Rightarrow> bool" where
  "pool_inv bp \<longleftrightarrow>
     (\<forall>pid i. page_table bp pid = Some i \<longrightarrow>
        i < POOL_SIZE \<and> fm_page_id (buffer_pool_meta bp i) = pid \<and> pid \<noteq> 0 \<and> valid_pid pid) \<and>
     distinct (free_frames bp) \<and>
     (\<forall>i \<in> set (free_frames bp). i < POOL_SIZE \<and> i \<notin> ran (page_table bp)) \<and>
     distinct (unpinned_frames bp) \<and> set (unpinned_frames bp) \<subseteq> ran (page_table bp) \<and>
     queue_flagged (unpinned_frames bp) (buffer_pool_meta bp) \<and>
     (\<forall>i. i \<notin> ran (page_table bp) \<longrightarrow> \<not> is_dirty (buffer_pool_meta bp i))"

lemma pool_invD:
  assumes "pool_inv bp"
  shows "page_table bp pid = Some i \<Longrightarrow> i < POOL_SIZE" "page_table bp pid = Some i \<Longrightarrow> pid \<noteq> 0"
    "page_table bp pid = Some i \<Longrightarrow> fm_page_id (buffer_pool_meta bp i) = pid"
    "page_table bp pid = Some i \<Longrightarrow> valid_pid pid" "distinct (free_frames bp)"
    "i \<in> set (free_frames bp) \<Longrightarrow> i < POOL_SIZE" "i \<in> set (free_frames bp) \<Longrightarrow> page_table bp q \<noteq> Some i"
    "distinct (unpinned_frames bp)" "i \<in> set (unpinned_frames bp) \<Longrightarrow> \<exists>pid. page_table bp pid = Some i"
    "i \<notin> ran (page_table bp) \<Longrightarrow> \<not> is_dirty (buffer_pool_meta bp i)"
    "i \<in> set (unpinned_frames bp) \<Longrightarrow> is_in_queue (buffer_pool_meta bp i)"
  using assms by (auto simp: pool_inv_def ran_def queue_flagged_def)

lemma page_table_inj:
  "pool_inv bp \<Longrightarrow> page_table bp p = Some i \<Longrightarrow> page_table bp q = Some i \<Longrightarrow> p = q"
  by (metis pool_invD(3))

text \<open>
  \<open>frames_ok\<close>: a clean frame holds what the disk holds. The set \<open>W\<close> names the pages whose
  clients hold a pin and may have written to the frame without having released it yet.
\<close>

definition frames_ok :: "('d \<Rightarrow> nat \<Rightarrow> byte) \<Rightarrow> PageID set \<Rightarrow> PageID set \<Rightarrow> 'd BufferPool \<Rightarrow> bool" where
  "frames_ok file_byte D W bp \<longleftrightarrow>
     (\<forall>pid i. page_table bp pid = Some i \<longrightarrow> is_dirty (buffer_pool_meta bp i) \<or> pid \<in> W \<or>
        bytes (buffer_pool bp i) 0 4096 = disk_page file_byte (storage_manager bp) pid) \<and>
     (\<forall>pid \<in> W - D. \<exists>i. page_table bp pid = Some i \<and> pin_count (buffer_pool_meta bp i) > 0)"

definition pool_but :: "('d \<Rightarrow> nat \<Rightarrow> byte) \<Rightarrow> PageID set \<Rightarrow> PageID set \<Rightarrow> 'd BufferPool \<Rightarrow> bool" where
  "pool_but file_byte D W bp \<longleftrightarrow> pool_inv bp \<and> frames_ok file_byte D W bp"

abbreviation pool_ok :: "('d \<Rightarrow> nat \<Rightarrow> byte) \<Rightarrow> PageID set \<Rightarrow> 'd BufferPool \<Rightarrow> bool" where
  "pool_ok file_byte W bp \<equiv> pool_but file_byte {} W bp"

lemma frames_ok_pinned:
  "frames_ok fb D W bp \<Longrightarrow> q \<in> W \<Longrightarrow> q \<notin> D \<Longrightarrow>
    \<exists>i. page_table bp q = Some i \<and> pin_count (buffer_pool_meta bp i) > 0"
  unfolding frames_ok_def by blast

lemma frames_ok_clean:
  "frames_ok fb D W bp \<Longrightarrow> page_table bp q = Some i \<Longrightarrow> \<not> is_dirty (buffer_pool_meta bp i) \<Longrightarrow> q \<notin> W \<Longrightarrow>
    disk_page fb (storage_manager bp) q = bytes (buffer_pool bp i) 0 4096"
  unfolding frames_ok_def by metis

text \<open>The content of a page as the clients of the pool see it.\<close>

definition page_view :: "('d \<Rightarrow> nat \<Rightarrow> byte) \<Rightarrow> 'd BufferPool \<Rightarrow> PageID \<Rightarrow> byte list" where
  "page_view file_byte bp pid =
    (case page_table bp pid of
       Some i \<Rightarrow> bytes (buffer_pool bp i) 0 4096
     | None \<Rightarrow> disk_page file_byte (storage_manager bp) pid)"

definition views_but :: "('d \<Rightarrow> nat \<Rightarrow> byte) \<Rightarrow> PageID set \<Rightarrow> 'd BufferPool \<Rightarrow> 'd BufferPool \<Rightarrow> bool" where
  "views_but file_byte D bp bp' \<longleftrightarrow>
     (\<forall>pid. pid \<noteq> 0 \<longrightarrow> valid_pid pid \<longrightarrow> pid \<notin> D \<longrightarrow> page_view file_byte bp' pid = page_view file_byte bp pid)"

abbreviation same_views :: "('d \<Rightarrow> nat \<Rightarrow> byte) \<Rightarrow> 'd BufferPool \<Rightarrow> 'd BufferPool \<Rightarrow> bool" where
  "same_views file_byte bp bp' \<equiv> views_but file_byte {} bp bp'"

lemma views_but_refl [simp]: "views_but fb D bp bp"
  by (simp add: views_but_def)

lemma views_but_trans: "views_but fb D a b \<Longrightarrow> views_but fb D b c \<Longrightarrow> views_but fb D a c"
  by (simp add: views_but_def)

lemma ran_remove:
  assumes "m p = Some i" "\<And>q. m q = Some i \<Longrightarrow> q = p"
  shows "ran (m(p := None)) = ran m - {i}"
proof (rule set_eqI)
  fix x
  have "x \<in> ran (m(p := None)) \<longleftrightarrow> (\<exists>q. q \<noteq> p \<and> m q = Some x)"
    by (auto simp: ran_def split: if_splits)
  also have "\<dots> \<longleftrightarrow> x \<in> ran m - {i}"
  proof
    assume "\<exists>q. q \<noteq> p \<and> m q = Some x"
    then show "x \<in> ran m - {i}" using assms(2) by (auto simp: ran_def)
  next
    assume "x \<in> ran m - {i}"
    then obtain q where "m q = Some x" "x \<noteq> i" by (auto simp: ran_def)
    then show "\<exists>q. q \<noteq> p \<and> m q = Some x" using assms(1) by (intro exI [of _ q]) auto
  qed
  finally show "x \<in> ran (m(p := None)) \<longleftrightarrow> x \<in> ran m - {i}" .
qed

lemma POOL_SIZE_val [simp]: "POOL_SIZE = 1000"
  by (simp add: POOL_SIZE_def)

lemma BufferPool_new_ok:
  "pool_but fb D {} (BufferPool_new memory sm)" "page_view fb (BufferPool_new memory sm) pid = disk_page fb sm pid"
  by (auto simp: pool_but_def pool_inv_def frames_ok_def BufferPool_new_def page_view_def empty_meta_def
      queue_flagged_def)

text \<open>A change of reference bits, queue flags and the queue is invisible.\<close>

lemma queue_change_ok:
  assumes ok: "pool_but fb D W bp" and m: "same_frames (buffer_pool_meta bp) m"
    and q: "distinct q" "set q \<subseteq> set (unpinned_frames bp)" "queue_flagged q m"
  shows "pool_but fb D W (bp\<lparr>unpinned_frames := q, buffer_pool_meta := m\<rparr>)"
    "views_but fb D bp (bp\<lparr>unpinned_frames := q, buffer_pool_meta := m\<rparr>)"
  using assms
  by (auto simp: pool_but_def pool_inv_def frames_ok_def same_frames_def views_but_def page_view_def
      split: option.splits)

lemma FindPageToEvict_ok:
  assumes ok: "pool_but fb D W bp" and r: "FindPageToEvict bp = (r, bp')"
  shows "pool_but fb D W bp'" "views_but fb D bp bp'" "page_table bp' = page_table bp"
    "buffer_pool bp' = buffer_pool bp" "storage_manager bp' = storage_manager bp"
    "free_frames bp' = free_frames bp"
proof -
  note f = FindPageToEvict_frame [OF r]
  have d: "distinct (unpinned_frames bp)" "queue_flagged (unpinned_frames bp) (buffer_pool_meta bp)"
    using ok by (simp_all add: pool_but_def pool_inv_def)
  show "pool_but fb D W bp'" "views_but fb D bp bp'"
    using queue_change_ok [OF ok f(1) f(3) [OF d(1)] f(2) f(4) [OF d]] f(5) by simp_all
  show "page_table bp' = page_table bp"
    by (subst f(5)) simp
  show "buffer_pool bp' = buffer_pool bp" by (subst f(5)) simp
  show "storage_manager bp' = storage_manager bp" by (subst f(5)) simp
  show "free_frames bp' = free_frames bp" by (subst f(5)) simp
qed

section \<open>Changes of one frame\<close>

text \<open>
  The steps an eviction, a load and a flush consist of, as changes of the pool. First, a page of
  the disk changes that has a dirty frame: nobody sees it.
\<close>

lemma dirty_disk_ok:
  assumes ok: "pool_but fb D W bp" and i: "page_table bp pid = Some i" "is_dirty (buffer_pool_meta bp i)"
    and others: "\<And>q. q \<noteq> pid \<Longrightarrow> valid_pid q \<Longrightarrow> disk_page fb sm q = disk_page fb (storage_manager bp) q"
  shows "pool_but fb D W (bp\<lparr>storage_manager := sm\<rparr>)" "views_but fb D bp (bp\<lparr>storage_manager := sm\<rparr>)"
proof -
  have inv: "pool_inv bp" and fr: "frames_ok fb D W bp" using ok by (simp_all add: pool_but_def)
  have "is_dirty (buffer_pool_meta bp j) \<or> q \<in> W \<or> bytes (buffer_pool bp j) 0 4096 = disk_page fb sm q"
    if "page_table bp q = Some j" for q j
    using fr that i others [of q] pool_invD(4) [OF inv that] by (cases "q = pid") (auto simp: frames_ok_def)
  then have "frames_ok fb D W (bp\<lparr>storage_manager := sm\<rparr>)" using fr by (simp add: frames_ok_def)
  then show "pool_but fb D W (bp\<lparr>storage_manager := sm\<rparr>)" using inv by (simp add: pool_but_def pool_inv_def)
  have "disk_page fb sm q = disk_page fb (storage_manager bp) q" if "page_table bp q = None" "valid_pid q" for q
    using that i(1) by (intro others) auto
  then show "views_but fb D bp (bp\<lparr>storage_manager := sm\<rparr>)"
    by (auto simp: views_but_def page_view_def split: option.splits)
qed

text \<open>A frame with the content of the disk leaves the page table.\<close>

lemma unmap_inv:
  assumes inv: "pool_inv bp" and i: "page_table bp pid = Some i" "i \<notin> set (unpinned_frames bp)"
  shows "pool_inv (bp\<lparr>page_table := (page_table bp)(pid := None), buffer_pool_meta := (buffer_pool_meta bp)(i := empty_meta)\<rparr>)"
    (is "pool_inv ?bp")
proof -
  have inj: "q = pid" if "page_table bp q = Some i" for q using page_table_inj [OF inv that i(1)] .
  have ran: "ran (page_table ?bp) = ran (page_table bp) - {i}"
    using ran_remove [of "page_table bp", OF i(1) inj] by simp
  show ?thesis
    unfolding pool_inv_def ran
  proof (intro conjI)
    show "\<forall>q j. page_table ?bp q = Some j \<longrightarrow>
        j < POOL_SIZE \<and> fm_page_id (buffer_pool_meta ?bp j) = q \<and> q \<noteq> 0 \<and> valid_pid q"
      using inv inj by (auto simp: pool_inv_def)
    show "queue_flagged (unpinned_frames ?bp) (buffer_pool_meta ?bp)"
      using inv i(2) by (simp add: pool_inv_def queue_flagged_def)
    show "\<forall>j. j \<notin> ran (page_table bp) - {i} \<longrightarrow> \<not> is_dirty (buffer_pool_meta ?bp j)"
      using inv by (simp add: pool_inv_def empty_meta_def)
  qed (use inv i(2) in \<open>auto simp: pool_inv_def\<close>)
qed

lemma unmap_ok:
  assumes ok: "pool_but fb D W bp" and i: "page_table bp pid = Some i" "i \<notin> set (unpinned_frames bp)"
    and free: "pid \<notin> W \<or> pid \<in> D" and disk: "pid \<notin> D \<Longrightarrow> disk_page fb (storage_manager bp) pid = bytes (buffer_pool bp i) 0 4096"
    and bp': "bp' = bp\<lparr>page_table := (page_table bp)(pid := None), buffer_pool_meta := (buffer_pool_meta bp)(i := empty_meta)\<rparr>"
  shows "pool_but fb D W bp'" "views_but fb D bp bp'"
proof -
  have inv: "pool_inv bp" and fr: "frames_ok fb D W bp" using ok by (simp_all add: pool_but_def)
  have off: "j \<noteq> i" if "page_table bp q = Some j" "q \<noteq> pid" for q j using page_table_inj [OF inv that(1)] i(1) that(2) by auto
  have "frames_ok fb D W bp'"
    unfolding frames_ok_def
  proof (intro conjI allI impI ballI)
    fix q j assume "page_table bp' q = Some j"
    then have q: "q \<noteq> pid" "page_table bp q = Some j" by (auto simp: bp' split: if_splits)
    then show "is_dirty (buffer_pool_meta bp' j) \<or> q \<in> W \<or>
        bytes (buffer_pool bp' j) 0 4096 = disk_page fb (storage_manager bp') q"
      using fr off by (auto simp: frames_ok_def bp')
  next
    fix q assume q: "q \<in> W - D"
    then obtain j where j: "page_table bp q = Some j" "pin_count (buffer_pool_meta bp j) > 0"
      using frames_ok_pinned [OF fr, of q] by auto
    have "q \<noteq> pid" using q free by blast
    then show "\<exists>j. page_table bp' q = Some j \<and> pin_count (buffer_pool_meta bp' j) > 0"
      using j off by (simp add: bp')
  qed
  then show "pool_but fb D W bp'" using unmap_inv [OF inv i] by (simp add: pool_but_def bp')
  show "views_but fb D bp bp'"
    using i(1) disk by (auto simp: views_but_def page_view_def bp' split: option.splits)
qed

text \<open>A free frame, filled from the disk, enters the page table.\<close>

lemma map_frame_ok:
  assumes ok: "pool_but fb D W bp" and pid: "pid \<noteq> 0" "valid_pid pid" "page_table bp pid = None"
    and i: "i < POOL_SIZE" "i \<notin> ran (page_table bp)" "i \<notin> set (free_frames bp)"
    and rd: "bytes frame 0 4096 = disk_page fb (storage_manager bp) pid"
    and bp': "bp' = bp\<lparr>buffer_pool := (buffer_pool bp)(i := frame), page_table := (page_table bp)(pid \<mapsto> i),
      buffer_pool_meta := (buffer_pool_meta bp)(i :=
        \<lparr>fm_page_id = pid, pin_count = 1, is_dirty = False, reference_bit = 1, is_in_queue = False\<rparr>)\<rparr>"
  shows "pool_but fb D W bp'" "views_but fb D bp bp'"
proof -
  have inv: "pool_inv bp" and fr: "frames_ok fb D W bp" using ok by (simp_all add: pool_but_def)
  have pW: "pid \<notin> W \<or> pid \<in> D" using frames_ok_pinned [OF fr, of pid] pid(3) by auto
  have ni: "page_table bp q \<noteq> Some i" for q using i(2) by (auto simp: ran_def)
  have ran: "ran (page_table bp') = insert i (ran (page_table bp))" using pid(3) by (simp add: bp')
  have "pool_inv bp'"
    unfolding pool_inv_def ran using inv i ni pid by (auto simp: pool_inv_def queue_flagged_def bp' ran_def)
  moreover have "frames_ok fb D W bp'"
    unfolding frames_ok_def
  proof (intro conjI allI impI ballI)
    fix q j assume "page_table bp' q = Some j"
    then show "is_dirty (buffer_pool_meta bp' j) \<or> q \<in> W \<or>
        bytes (buffer_pool bp' j) 0 4096 = disk_page fb (storage_manager bp') q"
      using fr ni rd by (auto simp: frames_ok_def bp' split: if_splits)
  next
    fix q assume q: "q \<in> W - D"
    then obtain j where j: "page_table bp q = Some j" "pin_count (buffer_pool_meta bp j) > 0"
      using frames_ok_pinned [OF fr, of q] by auto
    then have "j \<noteq> i" "q \<noteq> pid" using ni q pW by auto
    then show "\<exists>j. page_table bp' q = Some j \<and> pin_count (buffer_pool_meta bp' j) > 0"
      using j by (simp add: bp')
  qed
  ultimately show "pool_but fb D W bp'" by (simp add: pool_but_def)
  show "views_but fb D bp bp'"
    using ni rd pid(3) by (auto simp: views_but_def page_view_def bp' split: option.splits)
qed

text \<open>A frame whose content has reached the disk becomes clean.\<close>

lemma clean_frame_ok:
  assumes ok: "pool_but fb D W bp" and i: "page_table bp pid = Some i"
    and disk: "disk_page fb (storage_manager bp) pid = bytes (buffer_pool bp i) 0 4096"
    and bp': "bp' = bp\<lparr>buffer_pool_meta := (buffer_pool_meta bp)(i := buffer_pool_meta bp i\<lparr>is_dirty := False\<rparr>)\<rparr>"
  shows "pool_but fb D W bp'" "views_but fb D bp bp'"
proof -
  have inv: "pool_inv bp" and fr: "frames_ok fb D W bp" using ok by (simp_all add: pool_but_def)
  have "frames_ok fb D W bp'"
    unfolding frames_ok_def
  proof (intro conjI allI impI ballI)
    fix q j assume q: "page_table bp' q = Some j"
    show "is_dirty (buffer_pool_meta bp' j) \<or> q \<in> W \<or>
        bytes (buffer_pool bp' j) 0 4096 = disk_page fb (storage_manager bp') q"
    proof (cases "j = i")
      case True
      then have "q = pid" using page_table_inj [OF inv _ i] q by (simp add: bp')
      then show ?thesis using disk True by (simp add: bp')
    qed (use fr q in \<open>simp add: frames_ok_def bp'\<close>)
  next
    fix q assume "q \<in> W - D"
    then show "\<exists>j. page_table bp' q = Some j \<and> pin_count (buffer_pool_meta bp' j) > 0"
      using frames_ok_pinned [OF fr, of q] by (auto simp: bp')
  qed
  moreover have "pool_inv bp'" using inv by (auto simp: bp' pool_inv_def queue_flagged_def)
  ultimately show "pool_but fb D W bp'" by (simp add: pool_but_def)
  show "views_but fb D bp bp'" by (auto simp: views_but_def page_view_def bp' split: option.splits)
qed

context posix_file begin

section \<open>Evicting keeps every page\<close>

text \<open>The disk after the write of a dirty frame, or none.\<close>

lemma write_back_disk:
  assumes pid: "pid \<noteq> 0" "valid_pid pid"
    and w: "(if dirty then WritePage os sm pid p else (mk_result True ErrNone, sm)) = (ws, sm')"
  shows "q \<noteq> pid \<Longrightarrow> valid_pid q \<Longrightarrow> disk_page file_byte sm' q = disk_page file_byte sm q"
    "res_err ws = ErrNone \<Longrightarrow> dirty \<Longrightarrow> disk_page file_byte sm' pid = bytes p 0 4096"
    "res_err ws \<noteq> ErrNone \<Longrightarrow> dirty" "\<not> dirty \<Longrightarrow> sm' = sm"
proof -
  show "disk_page file_byte sm' q = disk_page file_byte sm q" if "q \<noteq> pid" "valid_pid q"
  proof (cases dirty)
    case True
    then have "PrivateWritePage os sm pid p = (ws, sm')" using w pid by (simp add: WritePage_private)
    then show ?thesis by (rule PrivateWritePage_other [OF _ pid(2) that(2,1)])
  qed (use w in simp)
  show "disk_page file_byte sm' pid = bytes p 0 4096" if e: "res_err ws = ErrNone" "dirty"
  proof -
    have "PrivateWritePage os sm pid p = (ws, sm')" using w pid e(2) by (simp add: WritePage_private)
    moreover have "res_value ws" using calculation e(1)
      by (auto simp: PrivateWritePage_def Let_def split: prod.splits if_splits)
    ultimately show ?thesis by (rule PrivateWritePage_ok)
  qed
  show "dirty" if "res_err ws \<noteq> ErrNone" using w that by (auto split: if_splits)
  show "sm' = sm" if "\<not> dirty" using w that by simp
qed

lemma EvictPage_ok:
  assumes ok: "pool_but file_byte D W bp" and i: "page_table bp pid = Some i" "i \<notin> set (unpinned_frames bp)"
    and free: "pid \<notin> W \<or> pid \<in> D" and r: "EvictPage os bp i = (r, bp')"
  shows "pool_but file_byte D W bp'" "views_but file_byte D bp bp'"
    "res_err r = ErrNone \<Longrightarrow> res_value r = i \<and> page_table bp' = (page_table bp)(pid := None)"
    "res_err r \<noteq> ErrNone \<Longrightarrow> page_table bp' = page_table bp"
    "free_frames bp' = free_frames bp"
proof -
  let ?m = "buffer_pool_meta bp i"
  have inv: "pool_inv bp" and fr: "frames_ok file_byte D W bp" using ok by (simp_all add: pool_but_def)
  have pid: "fm_page_id ?m = pid" "pid \<noteq> 0" "valid_pid pid" using pool_invD(2-4) [OF inv i(1)] by simp_all
  obtain ws sm where w: "(if is_dirty ?m then WritePage os (storage_manager bp) pid (buffer_pool bp i)
      else (mk_result True ErrNone, storage_manager bp)) = (ws, sm)" by fastforce
  note wb = write_back_disk [OF pid(2,3) w]
  define bp1 where "bp1 = bp\<lparr>storage_manager := sm\<rparr>"
  define bp2 where "bp2 = bp1\<lparr>page_table := (page_table bp1)(pid := None),
    buffer_pool_meta := (buffer_pool_meta bp1)(i := empty_meta)\<rparr>"
  have bp': "(r, bp') = (if res_err ws \<noteq> ErrNone then (mk_result 0 (res_err ws), bp1)
      else (mk_result i ErrNone, bp2))"
    using r w unfolding EvictPage_def Let_def pid(1) by (auto simp: bp1_def bp2_def split: if_splits)
  have ok1: "pool_but file_byte D W bp1" "views_but file_byte D bp bp1"
    using dirty_disk_ok [OF ok i(1) _ wb(1)] ok wb(4) by (cases "is_dirty ?m"; simp add: bp1_def)+
  have ok2: "pool_but file_byte D W bp2" "views_but file_byte D bp bp2" if e: "res_err ws = ErrNone"
  proof -
    have "disk_page file_byte sm pid = bytes (buffer_pool bp i) 0 4096" if "pid \<notin> D"
      using wb(2) [OF e] wb(4) frames_ok_clean [OF fr i(1)] free that by (cases "is_dirty ?m") auto
    then show "pool_but file_byte D W bp2" "views_but file_byte D bp bp2"
      using unmap_ok [OF ok1(1) _ _ free _ bp2_def] i views_but_trans [OF ok1(2)] by (simp_all add: bp1_def)
  qed
  show "pool_but file_byte D W bp'" "views_but file_byte D bp bp'"
    using bp' ok1 ok2 by (auto split: if_splits)
  show "res_err r = ErrNone \<Longrightarrow> res_value r = i \<and> page_table bp' = (page_table bp)(pid := None)"
    "res_err r \<noteq> ErrNone \<Longrightarrow> page_table bp' = page_table bp" "free_frames bp' = free_frames bp"
    using bp' by (auto simp: bp1_def bp2_def split: if_splits)
qed

end

section \<open>Requesting a page\<close>

text \<open>The search for a frame does not have to fall back on a pinned one.\<close>

definition can_claim :: "'d BufferPool \<Rightarrow> bool" where
  "can_claim bp \<longleftrightarrow> free_frames bp \<noteq> [] \<or> unpinned_frames bp = [] \<or>
     (\<exists>i \<in> set (unpinned_frames bp). pin_count (buffer_pool_meta bp i) = 0)"

lemma take_free_ok:
  assumes ok: "pool_but fb D W bp" and ne: "free_frames bp \<noteq> []"
    and bp': "bp' = bp\<lparr>free_frames := butlast (free_frames bp)\<rparr>"
  shows "pool_but fb D W bp'" "views_but fb D bp bp'" "last (free_frames bp) < POOL_SIZE"
    "last (free_frames bp) \<notin> ran (page_table bp')" "last (free_frames bp) \<notin> set (free_frames bp')"
proof -
  have inv: "pool_inv bp" using ok by (simp add: pool_but_def)
  have l: "last (free_frames bp) \<in> set (free_frames bp)" using ne by simp
  have "distinct (butlast (free_frames bp) @ [last (free_frames bp)])"
    using pool_invD(5) [OF inv] ne by simp
  then show "last (free_frames bp) \<notin> set (free_frames bp')" by (simp add: bp')
  show "last (free_frames bp) < POOL_SIZE" "last (free_frames bp) \<notin> ran (page_table bp')"
    using pool_invD(6,7) [OF inv l] by (auto simp: bp' ran_def)
  show "views_but fb D bp bp'" by (auto simp: bp' views_but_def page_view_def split: option.splits)
  show "pool_but fb D W bp'"
    using ok by (auto simp: bp' pool_but_def pool_inv_def frames_ok_def distinct_butlast dest: in_set_butlastD)
qed

lemma FindPageToEvict_empty:
  "unpinned_frames bp = [] \<Longrightarrow> FindPageToEvict bp = (r, bp') \<Longrightarrow> res_err r = AllPagesPinned"
  by (auto simp: FindPageToEvict_def)

context posix_file begin

text \<open>The victim of the search is evicted: its page is not written to by anybody.\<close>

lemma evict_victim_ok:
  assumes ok: "pool_but file_byte D W bp" and can: "\<exists>i \<in> set (unpinned_frames bp). pin_count (buffer_pool_meta bp i) = 0"
    and fv: "FindPageToEvict bp = (v, bp1)" and v: "res_err v = ErrNone" and ev: "EvictPage os bp1 (res_value v) = (e, bp2)"
  shows "pool_but file_byte D W bp2" "views_but file_byte D bp bp2" "free_frames bp2 = free_frames bp"
    "page_table bp q = None \<Longrightarrow> page_table bp2 q = None"
    "res_err e = ErrNone \<Longrightarrow> res_value e < POOL_SIZE \<and> res_value e \<notin> ran (page_table bp2)"
proof -
  note fo = FindPageToEvict_ok [OF ok fv]
  have inv: "pool_inv bp" and fr: "frames_ok file_byte D W bp" using ok by (simp_all add: pool_but_def)
  have u: "res_value v \<in> set (unpinned_frames bp)"
    "pin_count (buffer_pool_meta bp (res_value v)) = 0" "res_value v \<notin> set (unpinned_frames bp1)"
    using FindPageToEvict_victim [OF pool_invD(8) [OF inv] can fv] v by blast+
  obtain pid where pid: "page_table bp pid = Some (res_value v)" using pool_invD(9) [OF inv u(1)] by blast
  have W: "pid \<notin> W \<or> pid \<in> D" using frames_ok_pinned [OF fr, of pid] u(2) pid by auto
  have pid1: "page_table bp1 pid = Some (res_value v)" using fo(3) pid by simp
  note eo = EvictPage_ok [OF fo(1) pid1 u(3) W ev]
  show "pool_but file_byte D W bp2" "free_frames bp2 = free_frames bp" using eo(1,5) fo(6) by simp_all
  show "views_but file_byte D bp bp2" by (rule views_but_trans [OF fo(2) eo(2)])
  show "page_table bp2 q = None" if "page_table bp q = None"
    using that eo(3,4) fo(3) by (cases "res_err e = ErrNone") auto
  show "res_value e < POOL_SIZE \<and> res_value e \<notin> ran (page_table bp2)" if "res_err e = ErrNone"
    using eo(3) [OF that] fo(3) page_table_inj [OF inv _ pid] pool_invD(1) [OF inv pid]
    by (auto simp: ran_def split: if_splits)
qed

lemma claim_frame_ok:
  assumes ok: "pool_but file_byte D W bp" and can: "can_claim bp" and r: "claim_frame os bp = (f, bp')"
  shows "pool_but file_byte D W bp'" "views_but file_byte D bp bp'"
    "page_table bp q = None \<Longrightarrow> page_table bp' q = None"
    "f = Some i \<Longrightarrow> i < POOL_SIZE \<and> i \<notin> ran (page_table bp') \<and> i \<notin> set (free_frames bp')"
proof -
  have "pool_but file_byte D W bp' \<and> views_but file_byte D bp bp' \<and>
    (page_table bp q = None \<longrightarrow> page_table bp' q = None) \<and>
    (f = Some i \<longrightarrow> i < POOL_SIZE \<and> i \<notin> ran (page_table bp') \<and> i \<notin> set (free_frames bp'))"
  proof (cases "free_frames bp = []")
    case False
    then have "f = Some (last (free_frames bp))" "bp' = bp\<lparr>free_frames := butlast (free_frames bp)\<rparr>"
      using r by (simp_all add: claim_frame_def CheckFreeSpace_def)
    then show ?thesis using take_free_ok [OF ok False] by auto
  next
    case True
    obtain v bp1 where fv: "FindPageToEvict bp = (v, bp1)" by fastforce
    obtain e bp2 where ev: "EvictPage os bp1 (res_value v) = (e, bp2)" by fastforce
    have cf: "(f, bp') = (if res_err v \<noteq> ErrNone then (None, bp1)
        else if res_err e \<noteq> ErrNone then (None, bp2) else (Some (res_value e), bp2))"
      using r True fv ev by (auto simp: claim_frame_def CheckFreeSpace_def)
    show ?thesis
    proof (cases "res_err v = ErrNone")
      case False
      then show ?thesis using cf FindPageToEvict_ok [OF ok fv] by simp
    next
      case vic: True
      then have "\<exists>i \<in> set (unpinned_frames bp). pin_count (buffer_pool_meta bp i) = 0"
        using can True FindPageToEvict_empty [OF _ fv] by (auto simp: can_claim_def)
      from evict_victim_ok [OF ok this fv vic ev] show ?thesis using cf vic True by (auto split: if_splits)
    qed
  qed
  then show "pool_but file_byte D W bp'" "views_but file_byte D bp bp'"
    "page_table bp q = None \<Longrightarrow> page_table bp' q = None"
    "f = Some i \<Longrightarrow> i < POOL_SIZE \<and> i \<notin> ran (page_table bp') \<and> i \<notin> set (free_frames bp')" by simp_all
qed

lemma load_frame_ok:
  assumes ok: "pool_but file_byte D W bp" and pid: "pid \<noteq> 0" "valid_pid pid" "page_table bp pid = None"
    and i: "i < POOL_SIZE" "i \<notin> ran (page_table bp)" "i \<notin> set (free_frames bp)"
    and r: "load_frame os bp pid i = (r, bp')"
  shows "pool_but file_byte D W bp'" "views_but file_byte D bp bp'"
    "res_err r = ErrNone \<Longrightarrow> res_value r = Some i \<and> page_table bp' pid = Some i \<and>
       pin_count (buffer_pool_meta bp' i) = 1"
    "res_err r \<noteq> ErrNone \<Longrightarrow> res_value r = None"
proof -
  have ni: "page_table bp q \<noteq> Some i" for q using i(2) by (auto simp: ran_def)
  obtain rs frame where rd: "PrivateReadPage os (storage_manager bp) pid (buffer_pool bp i) = (rs, frame)"
    by fastforce
  define bp1 where "bp1 = bp\<lparr>buffer_pool := (buffer_pool bp)(i := frame)\<rparr>"
  define bp2 where "bp2 = bp\<lparr>buffer_pool := (buffer_pool bp)(i := frame), page_table := (page_table bp)(pid \<mapsto> i),
      buffer_pool_meta := (buffer_pool_meta bp)(i :=
        \<lparr>fm_page_id = pid, pin_count = 1, is_dirty = False, reference_bit = 1, is_in_queue = False\<rparr>)\<rparr>"
  have lf: "(r, bp') = (if res_value rs = False then (mk_result None SystemErr, bp1)
      else (mk_result (Some i) ErrNone, bp2))"
    using r rd by (auto simp: load_frame_def ReadPage_private [OF pid(1)] bp1_def bp2_def)
  have ok1: "pool_but file_byte D W bp1" "views_but file_byte D bp bp1"
    using ok ni by (auto simp: pool_but_def pool_inv_def frames_ok_def views_but_def page_view_def bp1_def split: option.splits)
  have ok2: "pool_but file_byte D W bp2" "views_but file_byte D bp bp2" if "res_value rs"
    using map_frame_ok [OF ok pid i PrivateReadPage_ok [OF rd that] bp2_def] by simp_all
  show "pool_but file_byte D W bp'" "views_but file_byte D bp bp'"
    using lf ok1 ok2 by (auto split: if_splits)
  show "res_err r = ErrNone \<Longrightarrow> res_value r = Some i \<and> page_table bp' pid = Some i \<and>
       pin_count (buffer_pool_meta bp' i) = 1" "res_err r \<noteq> ErrNone \<Longrightarrow> res_value r = None"
    using lf by (auto simp: bp2_def split: if_splits)
qed

lemma RequestPage_ok:
  assumes ok: "pool_but file_byte D W bp" and pid: "pid \<noteq> 0" "valid_pid pid"
    and can: "page_table bp pid \<noteq> None \<or> can_claim bp"
    and pins: "\<And>i. page_table bp pid = Some i \<Longrightarrow> pin_count (buffer_pool_meta bp i) < 65535"
    and r: "RequestPage os bp pid = (r, bp')"
  shows "pool_but file_byte D W bp'" "views_but file_byte D bp bp'"
    "res_err r = ErrNone \<Longrightarrow> \<exists>i. res_value r = Some i \<and> page_table bp' pid = Some i \<and>
       pin_count (buffer_pool_meta bp' i) \<in> {1..65535}"
    "res_err r \<noteq> ErrNone \<Longrightarrow> res_value r = None"
proof -
  have "pool_but file_byte D W bp' \<and> views_but file_byte D bp bp' \<and>
    (res_err r = ErrNone \<longrightarrow> (\<exists>i. res_value r = Some i \<and> page_table bp' pid = Some i \<and>
       pin_count (buffer_pool_meta bp' i) \<in> {1..65535})) \<and> (res_err r \<noteq> ErrNone \<longrightarrow> res_value r = None)"
  proof (cases "page_table bp pid")
    case (Some i)
    let ?m = "buffer_pool_meta bp i"
    let ?bp = "bp\<lparr>buffer_pool_meta := (buffer_pool_meta bp)(i :=
        ?m\<lparr>pin_count := pin_count ?m + 1, reference_bit := 1\<rparr>)\<rparr>"
    have u: "u16 (int (pin_count ?m) + 1) = pin_count ?m + 1" using pins [OF Some] by (simp add: nat_add_distrib)
    have res: "r = mk_result (Some i) ErrNone" "bp' = ?bp"
      using r Some by (simp_all add: RequestPage_def Let_def u)
    have "pool_inv ?bp" using ok by (auto simp: pool_but_def pool_inv_def queue_flagged_def)
    moreover have "frames_ok file_byte D W ?bp"
      using ok by (fastforce simp: pool_but_def frames_ok_def)
    ultimately show ?thesis using Some res pins [OF Some]
      by (auto simp: pool_but_def views_but_def page_view_def split: option.splits)
  next
    case None
    obtain f bp1 where c: "claim_frame os bp = (f, bp1)" by fastforce
    have can': "can_claim bp" using can None by simp
    note co = claim_frame_ok [OF ok can' c]
    show ?thesis
    proof (cases f)
      case fn: None
      then show ?thesis using r None c co(1,2) by (auto simp: RequestPage_def)
    next
      case (Some i)
      then have l: "load_frame os bp1 pid i = (r, bp')" using r None c by (simp add: RequestPage_def)
      note lo = load_frame_ok [OF co(1) pid co(3) [OF None] _ _ _ l]
      show ?thesis using lo co(2,4) Some by (auto intro: views_but_trans)
    qed
  qed
  then show "pool_but file_byte D W bp'" "views_but file_byte D bp bp'"
    "res_err r = ErrNone \<Longrightarrow> \<exists>i. res_value r = Some i \<and> page_table bp' pid = Some i \<and>
       pin_count (buffer_pool_meta bp' i) \<in> {1..65535}"
    "res_err r \<noteq> ErrNone \<Longrightarrow> res_value r = None" by simp_all
qed

end

section \<open>Releasing a page\<close>

text \<open>A client that wrote to a page has to say so when it releases it.\<close>

lemma ReleasePage_ok:
  assumes ok: "pool_but fb D W bp" and i: "page_table bp pid = Some i"
    and pins: "0 < pin_count (buffer_pool_meta bp i)" "pin_count (buffer_pool_meta bp i) \<le> 65535"
    and honest: "pid \<in> W \<Longrightarrow> dirty \<or> pid \<in> D" and r: "ReleasePage bp pid dirty = (r, bp')"
  shows "res_err r = ErrNone" "pool_but fb D (W - ({pid} - D)) bp'" "views_but fb D bp bp'"
proof -
  let ?m = "buffer_pool_meta bp i"
  define push where "push = (pin_count ?m = 1 \<and> \<not> is_in_queue ?m)"
  define m' where "m' = ?m\<lparr>pin_count := pin_count ?m - 1, is_in_queue := is_in_queue ?m \<or> push,
    is_dirty := is_dirty ?m \<or> dirty\<rparr>"
  have inv: "pool_inv bp" and fr: "frames_ok fb D W bp" using ok by (simp_all add: pool_but_def)
  have u: "u16 (int (pin_count ?m) - 1) = pin_count ?m - 1" using pins by (simp add: nat_diff_distrib)
  have res: "r = mk_result True ErrNone" "bp' = bp\<lparr>unpinned_frames :=
      (if push then unpinned_frames bp @ [i] else unpinned_frames bp),
      buffer_pool_meta := (buffer_pool_meta bp)(i := m')\<rparr>"
    using r i pins(1) by (auto simp: ReleasePage_def Let_def u push_def m'_def)
  show "res_err r = ErrNone" by (simp add: res)
  show "views_but fb D bp bp'" by (auto simp: res views_but_def page_view_def split: option.splits)
  have iran: "i \<in> ran (page_table bp)" using i by (auto simp: ran_def)
  have "i \<notin> set (unpinned_frames bp)" if push using that pool_invD(11) [OF inv] by (auto simp: push_def)
  then have "pool_inv bp'"
    using inv iran by (auto simp: pool_inv_def res queue_flagged_def m'_def)
  moreover have "frames_ok fb D (W - ({pid} - D)) bp'"
    unfolding frames_ok_def
  proof (intro conjI allI impI ballI)
    fix q j assume "page_table bp' q = Some j"
    then have q: "page_table bp q = Some j" by (simp add: res)
    show "is_dirty (buffer_pool_meta bp' j) \<or> q \<in> W - ({pid} - D) \<or>
        bytes (buffer_pool bp' j) 0 4096 = disk_page fb (storage_manager bp') q"
    proof (cases "j = i")
      case True
      then have "q = pid" using page_table_inj [OF inv q] i by simp
      then show ?thesis using fr i honest True by (auto simp: frames_ok_def res m'_def)
    next
      case False
      then have "q \<noteq> pid" using q i by auto
      then show ?thesis using fr q False by (auto simp: frames_ok_def res)
    qed
  next
    fix q assume q: "q \<in> W - ({pid} - D) - D"
    then obtain j where j: "page_table bp q = Some j" "pin_count (buffer_pool_meta bp j) > 0"
      using frames_ok_pinned [OF fr, of q] by auto
    have "j \<noteq> i" using page_table_inj [OF inv j(1), of pid] i q by auto
    then show "\<exists>j. page_table bp' q = Some j \<and> pin_count (buffer_pool_meta bp' j) > 0"
      using j by (simp add: res)
  qed
  ultimately show "pool_but fb D (W - ({pid} - D)) bp'" by (simp add: pool_but_def)
qed


section \<open>Writing to a pinned page\<close>

text \<open>A client's stores through the pointer it got: frame \<open>i\<close> becomes \<open>p\<close>.\<close>

definition write_frame :: "'d BufferPool \<Rightarrow> nat \<Rightarrow> mem \<Rightarrow> 'd BufferPool" where
  "write_frame bp i p = bp\<lparr>buffer_pool := (buffer_pool bp)(i := p)\<rparr>"

lemma write_frame_ok:
  assumes ok: "pool_but fb D W bp" and i: "page_table bp pid = Some i" "0 < pin_count (buffer_pool_meta bp i)"
  shows "pool_but fb D (insert pid W) (write_frame bp i p)"
    "page_view fb (write_frame bp i p) pid = bytes p 0 4096"
    "q \<noteq> pid \<Longrightarrow> page_view fb (write_frame bp i p) q = page_view fb bp q"
proof -
  have inv: "pool_inv bp" and fr: "frames_ok fb D W bp" using ok by (simp_all add: pool_but_def)
  have inj: "page_table bp q = Some i \<Longrightarrow> q = pid" for q using page_table_inj [OF inv _ i(1)] by blast
  show "page_view fb (write_frame bp i p) pid = bytes p 0 4096"
    using i(1) by (simp add: page_view_def write_frame_def)
  show "page_view fb (write_frame bp i p) q = page_view fb bp q" if "q \<noteq> pid"
    using inj [of q] that by (auto simp: page_view_def write_frame_def split: option.splits)
  have "pool_inv (write_frame bp i p)" using inv by (simp add: pool_inv_def write_frame_def)
  moreover have "frames_ok fb D (insert pid W) (write_frame bp i p)"
    unfolding frames_ok_def
  proof (intro conjI allI impI ballI)
    fix q j assume q: "page_table (write_frame bp i p) q = Some j"
    then show "is_dirty (buffer_pool_meta (write_frame bp i p) j) \<or> q \<in> insert pid W \<or>
        bytes (buffer_pool (write_frame bp i p) j) 0 4096 =
        disk_page fb (storage_manager (write_frame bp i p)) q"
      using fr inj [of q] by (cases "q = pid") (auto simp: frames_ok_def write_frame_def)
  next
    fix q assume "q \<in> insert pid W - D"
    then show "\<exists>j. page_table (write_frame bp i p) q = Some j \<and>
        0 < pin_count (buffer_pool_meta (write_frame bp i p) j)"
      using frames_ok_pinned [OF fr, of q] i by (auto simp: write_frame_def)
  qed
  ultimately show "pool_but fb D (insert pid W) (write_frame bp i p)" by (simp add: pool_but_def)
qed

section \<open>Shutdown\<close>

context regular_file begin

lemma flush_frame_ok:
  assumes ok: "pool_but file_byte D W bp"
  shows "pool_but file_byte D W (flush_frame os i bp)" "views_but file_byte D bp (flush_frame os i bp)"
    "\<not> is_dirty (buffer_pool_meta (flush_frame os i bp) i)"
    "is_dirty (buffer_pool_meta (flush_frame os i bp) j) \<Longrightarrow> is_dirty (buffer_pool_meta bp j)"
proof -
  have inv: "pool_inv bp" using ok by (simp add: pool_but_def)
  let ?m = "buffer_pool_meta bp i" and ?bp = "flush_frame os i bp"
  have "pool_but file_byte D W ?bp \<and> views_but file_byte D bp ?bp \<and> \<not> is_dirty (buffer_pool_meta ?bp i) \<and>
    (is_dirty (buffer_pool_meta ?bp j) \<longrightarrow> is_dirty (buffer_pool_meta bp j))"
  proof (cases "is_dirty ?m")
    case False
    then show ?thesis using ok by (simp add: flush_frame_def)
  next
    case True
    then have "i \<in> ran (page_table bp)" using pool_invD(10) [OF inv] by blast
    then obtain pid where t: "page_table bp pid = Some i" by (auto simp: ran_def)
    note pid = pool_invD(2-4) [OF inv t]
    obtain d' where w: "PrivateWritePage os (storage_manager bp) pid (buffer_pool bp i) =
        (mk_result True ErrNone, storage_manager bp\<lparr>fd_database := d'\<rparr>)"
      "disk_page file_byte (storage_manager bp\<lparr>fd_database := d'\<rparr>) pid = bytes (buffer_pool bp i) 0 4096"
      by (rule PrivateWritePage_complete)
    let ?sm = "storage_manager bp\<lparr>fd_database := d'\<rparr>"
    let ?bp1 = "bp\<lparr>storage_manager := ?sm\<rparr>"
    have e: "?bp = ?bp1\<lparr>buffer_pool_meta := (buffer_pool_meta ?bp1)(i := buffer_pool_meta ?bp1 i\<lparr>is_dirty := False\<rparr>)\<rparr>"
      using True w(1) pid by (simp add: flush_frame_def WritePage_private)
    have ok1: "pool_but file_byte D W ?bp1" "views_but file_byte D bp ?bp1"
      using dirty_disk_ok [OF ok t True] PrivateWritePage_other [OF w(1) pid(3)] by blast+
    have "pool_but file_byte D W ?bp" "views_but file_byte D ?bp1 ?bp"
      using clean_frame_ok [OF ok1(1) _ _ e, of pid] t w(2) by simp_all
    then show ?thesis using views_but_trans [OF ok1(2)] True by (auto simp: e)
  qed
  then show "pool_but file_byte D W ?bp" "views_but file_byte D bp ?bp" "\<not> is_dirty (buffer_pool_meta ?bp i)"
    "is_dirty (buffer_pool_meta ?bp j) \<Longrightarrow> is_dirty (buffer_pool_meta bp j)" by simp_all
qed

lemma flush_frames_ok:
  "pool_but file_byte D W bp \<Longrightarrow> pool_but file_byte D W (fold (flush_frame os) is bp) \<and>
    views_but file_byte D bp (fold (flush_frame os) is bp) \<and>
    (\<forall>i. is_dirty (buffer_pool_meta (fold (flush_frame os) is bp) i) \<longrightarrow>
      i \<notin> set is \<and> is_dirty (buffer_pool_meta bp i))"
proof (induction "is" arbitrary: bp)
  case (Cons i "is")
  note f = flush_frame_ok [OF Cons.prems]
  note ih = Cons.IH [OF f(1) [of i]]
  show ?case
    using ih f(2-4) [of i] by (auto intro: views_but_trans)
qed simp

lemma BufferPool_delete_persists:
  assumes ok: "pool_but file_byte D W bp" and dead: "W \<subseteq> D" and pid: "pid \<noteq> 0" "valid_pid pid" "pid \<notin> D"
  shows "disk_page file_byte (storage_manager (BufferPool_delete os bp)) pid = page_view file_byte bp pid"
proof -
  let ?bp = "BufferPool_delete os bp"
  have f: "pool_but file_byte D W ?bp" "views_but file_byte D bp ?bp"
    "\<And>i. is_dirty (buffer_pool_meta ?bp i) \<Longrightarrow> i \<notin> set [0..<POOL_SIZE]"
    using flush_frames_ok [OF ok, of "[0..<POOL_SIZE]"] by (auto simp: BufferPool_delete_def)
  have inv: "pool_inv ?bp" and fr: "frames_ok file_byte D W ?bp" using f(1) by (simp_all add: pool_but_def)
  have "page_view file_byte ?bp pid = disk_page file_byte (storage_manager ?bp) pid"
  proof (cases "page_table ?bp pid")
    case (Some i)
    then have "\<not> is_dirty (buffer_pool_meta ?bp i)" using pool_invD(1) [OF inv Some] f(3) [of i] by auto
    then show ?thesis using fr Some dead pid(3) by (auto simp: frames_ok_def page_view_def)
  qed (simp add: page_view_def)
  then show ?thesis using f(2) pid by (simp add: views_but_def)
qed

end

end
