(* ===== verification/Page_Cache.thy ===== *)
theory Page_Cache
  imports Pool_Coherence
begin

text \<open>
  The contract between the buffer pool and the code above it: a page is requested, read or
  written through its pin, and released. A client that keeps to it can forget that pages move
  between frames and the disk. The lemmas hold for any cache that keeps the contract; the pool
  of \<open>bufferpool.cpp\<close> keeps it over any file that behaves like \<open>posix_file\<close>.
\<close>

definition client_page :: "PageID \<Rightarrow> bool" where
  "client_page pid \<longleftrightarrow> pid \<noteq> 0 \<and> valid_pid pid"

locale page_cache =
  fixes ok :: "PageID set \<Rightarrow> 's \<Rightarrow> bool"
    and view :: "'s \<Rightarrow> PageID \<Rightarrow> byte list"
    and ready :: "'s \<Rightarrow> PageID \<Rightarrow> bool"
    and pinned :: "'s \<Rightarrow> PageID \<Rightarrow> nat \<Rightarrow> bool"
    and request :: "'s \<Rightarrow> PageID \<Rightarrow> nat option Result \<times> 's"
    and put_page :: "'s \<Rightarrow> nat \<Rightarrow> mem \<Rightarrow> 's"
    and release :: "'s \<Rightarrow> PageID \<Rightarrow> bool \<Rightarrow> bool Result \<times> 's"
  assumes request_ok: "ok W s \<Longrightarrow> client_page pid \<Longrightarrow> ready s pid \<Longrightarrow> request s pid = (r, s') \<Longrightarrow> ok W s'"
    and request_view: "ok W s \<Longrightarrow> client_page pid \<Longrightarrow> ready s pid \<Longrightarrow> request s pid = (r, s') \<Longrightarrow>
      client_page q \<Longrightarrow> view s' q = view s q"
    and request_pins: "ok W s \<Longrightarrow> client_page pid \<Longrightarrow> ready s pid \<Longrightarrow> request s pid = (r, s') \<Longrightarrow>
      res_err r = ErrNone \<Longrightarrow> \<exists>i. res_value r = Some i \<and> pinned s' pid i"
    and put_ok: "ok W s \<Longrightarrow> pinned s pid i \<Longrightarrow> ok (insert pid W) (put_page s i p)"
    and put_view: "ok W s \<Longrightarrow> pinned s pid i \<Longrightarrow>
      view (put_page s i p) q = (if q = pid then bytes p 0 4096 else view s q)"
    and put_pinned: "pinned (put_page s i p) q j \<longleftrightarrow> pinned s q j"
    and release_ok: "ok W s \<Longrightarrow> pinned s pid i \<Longrightarrow> (pid \<in> W \<Longrightarrow> dirty) \<Longrightarrow> release s pid dirty = (b, s') \<Longrightarrow>
      res_err b = ErrNone \<and> ok (W - {pid}) s'"
    and release_view: "ok W s \<Longrightarrow> pinned s pid i \<Longrightarrow> (pid \<in> W \<Longrightarrow> dirty) \<Longrightarrow> release s pid dirty = (b, s') \<Longrightarrow>
      client_page q \<Longrightarrow> view s' q = view s q"

context page_cache begin

text \<open>Read a page and let it go: nothing changes.\<close>

lemma read_release:
  assumes ok: "ok {} s" and pid: "client_page pid" "ready s pid"
    and rq: "request s pid = (r, s1)" "res_err r = ErrNone" and rl: "release s1 pid False = (r', s2)"
  shows "ok {} s2" "client_page q \<Longrightarrow> view s2 q = view s q"
proof -
  obtain i where i: "pinned s1 pid i" using request_pins [OF ok pid rq] by blast
  note ok1 = request_ok [OF ok pid rq(1)]
  have h: "pid \<in> {} \<Longrightarrow> False" by simp
  show "ok {} s2" using release_ok [OF ok1 i h rl] by simp
  show "view s2 q = view s q" if "client_page q"
    using release_view [OF ok1 i h rl that] request_view [OF ok pid rq(1) that] by simp
qed

text \<open>Request a page, write it, release it dirty: that page changes, and only that page.\<close>

lemma update_release:
  assumes ok: "ok {} s" and pid: "client_page pid" "ready s pid"
    and rq: "request s pid = (r, s1)" "res_value r = Some i" "res_err r = ErrNone"
    and rl: "release (put_page s1 i p) pid True = (r', s2)"
  shows "ok {} s2" "client_page q \<Longrightarrow> view s2 q = (if q = pid then bytes p 0 4096 else view s q)"
proof -
  have i: "pinned s1 pid i" using request_pins [OF ok pid rq(1,3)] rq(2) by auto
  note ok1 = request_ok [OF ok pid rq(1)]
  have i2: "pinned (put_page s1 i p) pid i" using i by (simp add: put_pinned)
  note ok2 = put_ok [OF ok1 i, of p]
  have h: "pid \<in> {pid} \<Longrightarrow> True" by simp
  show "ok {} s2" using release_ok [OF ok2 i2 h rl] by simp
  show "view s2 q = (if q = pid then bytes p 0 4096 else view s q)" if "client_page q"
    using release_view [OF ok2 i2 h rl that] put_view [OF ok1 i, of p q] request_view [OF ok pid rq(1) that]
    by simp
qed

end

section \<open>The pool keeps the contract\<close>

definition pool_ready :: "'d BufferPool \<Rightarrow> PageID \<Rightarrow> bool" where
  "pool_ready bp pid \<longleftrightarrow>
     (case page_table bp pid of
        Some i \<Rightarrow> pin_count (buffer_pool_meta bp i) < 65535
      | None \<Rightarrow> can_claim bp)"

definition pool_pinned :: "'d BufferPool \<Rightarrow> PageID \<Rightarrow> nat \<Rightarrow> bool" where
  "pool_pinned bp pid i \<longleftrightarrow>
     page_table bp pid = Some i \<and> pin_count (buffer_pool_meta bp i) \<in> {1..65535}"

context posix_file begin

lemma pool_request:
  assumes "pool_ok file_byte W bp" "client_page pid" "pool_ready bp pid" "RequestPage os bp pid = (r, bp')"
  shows "pool_ok file_byte W bp'" "same_views file_byte bp bp'"
    "res_err r = ErrNone \<Longrightarrow> \<exists>i. res_value r = Some i \<and> pool_pinned bp' pid i"
proof -
  have pid: "pid \<noteq> 0" "valid_pid pid" using assms(2) by (simp_all add: client_page_def)
  have can: "page_table bp pid \<noteq> None \<or> can_claim bp"
    using assms(3) by (simp add: pool_ready_def split: option.splits)
  have pins: "\<And>i. page_table bp pid = Some i \<Longrightarrow> pin_count (buffer_pool_meta bp i) < 65535"
    using assms(3) by (simp add: pool_ready_def)
  note * = RequestPage_ok [OF assms(1) pid can pins assms(4)]
  show "pool_ok file_byte W bp'" "same_views file_byte bp bp'" using *(1,2) by simp_all
  show "\<exists>i. res_value r = Some i \<and> pool_pinned bp' pid i" if "res_err r = ErrNone"
    using *(3) [OF _ that] by (auto simp: pool_pinned_def)
qed

end

sublocale posix_file \<subseteq> pool: page_cache "pool_ok file_byte" "page_view file_byte" pool_ready
  pool_pinned "RequestPage os" write_frame ReleasePage
proof unfold_locales
  fix W s pid r s' q and i j :: nat and p dirty and r' :: "bool Result"
  show "pool_ok file_byte W s'" if "pool_ok file_byte W s" "client_page pid" "pool_ready s pid"
    "RequestPage os s pid = (r, s')"
    using pool_request(1) [OF that] .
  show "page_view file_byte s' q = page_view file_byte s q" if "pool_ok file_byte W s" "client_page pid"
    "pool_ready s pid" "RequestPage os s pid = (r, s')" "client_page q"
    using pool_request(2) [OF that(1-4)] that(5) by (simp add: views_but_def client_page_def)
  show "\<exists>i. res_value r = Some i \<and> pool_pinned s' pid i" if "pool_ok file_byte W s" "client_page pid"
    "pool_ready s pid" "RequestPage os s pid = (r, s')" "res_err r = ErrNone"
    using pool_request(3) [OF that] .
  show "pool_ok file_byte (insert pid W) (write_frame s i p)" if "pool_ok file_byte W s" "pool_pinned s pid i"
    using that write_frame_ok(1) [where fb = file_byte and D = "{}" and W = W and bp = s and pid = pid and i = i and p = p] by (simp add: pool_pinned_def)
  show "page_view file_byte (write_frame s i p) q = (if q = pid then bytes p 0 4096 else page_view file_byte s q)"
    if "pool_ok file_byte W s" "pool_pinned s pid i"
    using that write_frame_ok(2,3) [where fb = file_byte and D = "{}" and W = W and bp = s and pid = pid and i = i and p = p] by (simp add: pool_pinned_def)
  show "pool_pinned (write_frame s i p) q j \<longleftrightarrow> pool_pinned s q j"
    by (simp add: pool_pinned_def write_frame_def)
  show "res_err r' = ErrNone \<and> pool_ok file_byte (W - {pid}) s'" if "pool_ok file_byte W s"
    "pool_pinned s pid i" "pid \<in> W \<Longrightarrow> dirty" "ReleasePage s pid dirty = (r', s')"
    using that ReleasePage_ok(1,2) [of file_byte "{}" W s pid i dirty r' s'] by (simp add: pool_pinned_def)
  show "page_view file_byte s' q = page_view file_byte s q" if "pool_ok file_byte W s"
    "pool_pinned s pid i" "pid \<in> W \<Longrightarrow> dirty" "ReleasePage s pid dirty = (r', s')" "client_page q"
    using that ReleasePage_ok(3) [of file_byte "{}" W s pid i dirty r' s']
    by (simp add: pool_pinned_def views_but_def client_page_def)
qed

end
