(* ===== verification/Pool_Run.thy ===== *)
theory Pool_Run
  imports Page_Cache
begin

text \<open>
  Runs of the buffer pool as a step relation: requests, writes through a pinned frame and
  releases, in any order and number, by clients that keep the rules (a page is requested only
  when a frame can be claimed, written only under a pin, and released as dirty after a write).
  The abstract memory is a map from page numbers to contents on which only a write acts; every
  run of the pool, evictions, re-reads and failed system calls included, refines it.
\<close>

datatype pool_event =
    Request PageID
  | Write PageID mem
  | Release PageID bool

inductive pool_step :: "'d posix \<Rightarrow> PageID set \<times> 'd BufferPool \<Rightarrow> pool_event \<Rightarrow>
    PageID set \<times> 'd BufferPool \<Rightarrow> bool" for os where
  do_request: "client_page pid \<Longrightarrow> pool_ready bp pid \<Longrightarrow> RequestPage os bp pid = (r, bp') \<Longrightarrow>
    pool_step os (W, bp) (Request pid) (W, bp')"
| do_write: "pool_pinned bp pid i \<Longrightarrow> pool_step os (W, bp) (Write pid p) (insert pid W, write_frame bp i p)"
| do_release: "pool_pinned bp pid i \<Longrightarrow> (pid \<in> W \<longrightarrow> dirty) \<Longrightarrow> ReleasePage bp pid dirty = (r, bp') \<Longrightarrow>
    pool_step os (W, bp) (Release pid dirty) (W - {pid}, bp')"

inductive_cases request_stepE: "pool_step os s (Request pid) s'"
inductive_cases write_stepE: "pool_step os s (Write pid p) s'"
inductive_cases release_stepE: "pool_step os s (Release pid dirty) s'"

inductive pool_run :: "'d posix \<Rightarrow> PageID set \<times> 'd BufferPool \<Rightarrow> pool_event list \<Rightarrow>
    PageID set \<times> 'd BufferPool \<Rightarrow> bool" for os where
  stop: "pool_run os s [] s"
| step: "pool_step os s e s1 \<Longrightarrow> pool_run os s1 es s2 \<Longrightarrow> pool_run os s (e # es) s2"

inductive_cases run_nilE: "pool_run os s [] s'"
inductive_cases run_consE: "pool_run os s (e # es) s'"

text \<open>The abstract memory.\<close>

fun apply_event :: "pool_event \<Rightarrow> (PageID \<Rightarrow> byte list) \<Rightarrow> PageID \<Rightarrow> byte list" where
  "apply_event (Request pid) m = m"
| "apply_event (Write pid p) m = m(pid := bytes p 0 4096)"
| "apply_event (Release pid dirty) m = m"

definition apply_events :: "pool_event list \<Rightarrow> (PageID \<Rightarrow> byte list) \<Rightarrow> PageID \<Rightarrow> byte list" where
  "apply_events es m = fold apply_event es m"

lemma apply_events_simps [simp]:
  "apply_events [] m = m" "apply_events (e # es) m = apply_events es (apply_event e m)"
  by (simp_all add: apply_events_def)

lemma apply_events_cong:
  "(\<And>q. P q \<Longrightarrow> m q = m' q) \<Longrightarrow> P q \<Longrightarrow> apply_events es m q = apply_events es m' q"
proof (induction es arbitrary: m m')
  case (Cons e es)
  have "apply_event e m q = apply_event e m' q" if "P q" for q using Cons.prems(1) that by (cases e) auto
  then show ?case using Cons.IH [of "apply_event e m" "apply_event e m'"] Cons.prems(2) by simp
qed simp

context posix_file begin

text \<open>The abstraction of a pool state, and one step.\<close>

lemma step_refines:
  assumes "pool_ok file_byte W bp" and "pool_step os (W, bp) e (W', bp')"
  shows "pool_ok file_byte W' bp'"
    "client_page q \<Longrightarrow> page_view file_byte bp' q = apply_event e (page_view file_byte bp) q"
proof -
  have "pool_ok file_byte W' bp' \<and>
    (client_page q \<longrightarrow> page_view file_byte bp' q = apply_event e (page_view file_byte bp) q)"
  proof (cases e)
    case (Request pid)
    with assms(2) obtain r where "client_page pid" "pool_ready bp pid" "RequestPage os bp pid = (r, bp')" "W' = W"
      by (auto elim: request_stepE)
    then show ?thesis
      using pool.request_ok [OF assms(1)] pool.request_view [OF assms(1)] by (simp add: Request)
  next
    case (Write pid p)
    with assms(2) obtain i where i: "pool_pinned bp pid i" "bp' = write_frame bp i p" "W' = insert pid W"
      by (auto elim: write_stepE)
    then show ?thesis
      using pool.put_ok [OF assms(1) i(1)] pool.put_view [OF assms(1) i(1)] by (simp add: Write)
  next
    case (Release pid dirty)
    with assms(2) obtain i r where i: "pool_pinned bp pid i" "pid \<in> W \<longrightarrow> dirty"
        "ReleasePage bp pid dirty = (r, bp')" "W' = W - {pid}"
      by (auto elim: release_stepE)
    then have "pid \<in> W \<Longrightarrow> dirty" by simp
    then show ?thesis
      using pool.release_ok [OF assms(1) i(1) _ i(3)] pool.release_view [OF assms(1) i(1) _ i(3)]
      by (simp add: Release i(4))
  qed
  then show "pool_ok file_byte W' bp'"
    "client_page q \<Longrightarrow> page_view file_byte bp' q = apply_event e (page_view file_byte bp) q" by simp_all
qed

lemma run_refines:
  "pool_run os s es s' \<Longrightarrow> pool_ok file_byte (fst s) (snd s) \<Longrightarrow> pool_ok file_byte (fst s') (snd s') \<and>
    (\<forall>q. client_page q \<longrightarrow> page_view file_byte (snd s') q = apply_events es (page_view file_byte (snd s)) q)"
proof (induction rule: pool_run.induct)
  case (step s e s1 es s2)
  obtain W bp W1 bp1 where s: "s = (W, bp)" "s1 = (W1, bp1)" by (cases s; cases s1) blast
  note one = step_refines [OF step.prems [unfolded s fst_conv snd_conv] step.hyps(1) [unfolded s]]
  have rest: "page_view file_byte (snd s2) q = apply_events es (page_view file_byte bp1) q" if "client_page q" for q
    using step.IH one(1) that by (simp add: s)
  have "page_view file_byte (snd s2) q = apply_events (e # es) (page_view file_byte bp) q" if "client_page q" for q
    using rest [OF that] apply_events_cong [of client_page, OF one(2) that] by simp
  then show ?case using step.IH one(1) by (simp add: s)
qed simp

end

section \<open>Allocation through the pool\<close>

text \<open>A change of the file that leaves every client page alone is invisible.\<close>

lemma disk_change_ok:
  assumes ok: "pool_but fb D W bp"
    and same: "\<And>q. valid_pid q \<Longrightarrow> q \<noteq> 0 \<Longrightarrow> disk_page fb sm q = disk_page fb (storage_manager bp) q"
  shows "pool_but fb D W (bp\<lparr>storage_manager := sm\<rparr>)" "views_but fb D bp (bp\<lparr>storage_manager := sm\<rparr>)"
proof -
  have inv: "pool_inv bp" using ok by (simp add: pool_but_def)
  show "pool_but fb D W (bp\<lparr>storage_manager := sm\<rparr>)"
    using ok same pool_invD(2,4) [OF inv] by (auto simp: pool_but_def pool_inv_def frames_ok_def)
  show "views_but fb D bp (bp\<lparr>storage_manager := sm\<rparr>)"
    using same by (simp add: views_but_def page_view_def split: option.split)
qed

lemma EvictPage_index:
  "EvictPage os bp i = (r, bp') \<Longrightarrow>
    new_page_offset_index (storage_manager bp') = new_page_offset_index (storage_manager bp)"
  by (auto simp: EvictPage_def WritePage_def Let_def split: prod.splits if_splits)

lemma FindPageToEvict_index:
  "FindPageToEvict bp = (r, bp') \<Longrightarrow> storage_manager bp' = storage_manager bp"
  by (auto simp: FindPageToEvict_def Let_def split: prod.splits option.splits)

lemma claim_frame_index:
  assumes "claim_frame os bp = (f, bp')"
  shows "new_page_offset_index (storage_manager bp') = new_page_offset_index (storage_manager bp)"
proof (cases "free_frames bp = []")
  case True
  obtain r bp1 where f: "FindPageToEvict bp = (r, bp1)" by fastforce
  obtain e bp2 where e: "EvictPage os bp1 (res_value r) = (e, bp2)" by fastforce
  show ?thesis
    using assms True f e FindPageToEvict_index [OF f] EvictPage_index [OF e]
    by (auto simp: claim_frame_def CheckFreeSpace_def Let_def split: if_splits)
qed (use assms in \<open>auto simp: claim_frame_def CheckFreeSpace_def\<close>)

lemma RequestPage_index:
  assumes "RequestPage os bp pid = (r, bp')"
  shows "new_page_offset_index (storage_manager bp') = new_page_offset_index (storage_manager bp)"
proof (cases "page_table bp pid")
  case None
  obtain f bp1 where c: "claim_frame os bp = (f, bp1)" by fastforce
  show ?thesis
    using assms None c claim_frame_index [OF c]
    by (auto simp: RequestPage_def load_frame_def Let_def split: option.splits prod.splits if_splits)
qed (use assms in \<open>auto simp: RequestPage_def Let_def\<close>)

context regular_file begin

lemma pool_allocate_ok:
  assumes ok: "pool_ok file_byte W bp" and sm: "storage_inv file_byte file_size (storage_manager bp)"
    and pid: "client_page (new_page_offset_index (storage_manager bp))"
    and ready: "pool_ready bp (new_page_offset_index (storage_manager bp))"
    and r: "BufferPool_AllocateNewPage os stack bp = (r, bp')"
  shows "pool_ok file_byte W bp'" "same_views file_byte bp bp'"
    "new_page_offset_index (storage_manager bp') = new_page_offset_index (storage_manager bp) + 1"
    "res_err r = ErrNone \<Longrightarrow> new_pid (res_value r) = new_page_offset_index (storage_manager bp) \<and>
      (\<exists>i. new_ptr (res_value r) = Some i \<and> pool_pinned bp' (new_pid (res_value r)) i)"
proof -
  let ?pid = "new_page_offset_index (storage_manager bp)"
  obtain a sm' where a: "StorageManager_AllocateNewPage os stack (storage_manager bp) = (a, sm')" by fastforce
  note al = AllocateNewPage_correct [OF sm a]
  define bp1 where "bp1 = bp\<lparr>storage_manager := sm'\<rparr>"
  obtain q bp2 where q: "RequestPage os bp1 ?pid = (q, bp2)" by fastforce
  have "disk_page file_byte sm' p = disk_page file_byte (storage_manager bp) p" if "valid_pid p" "p \<noteq> 0" for p
    using al(6) [OF that] .
  then have v: "pool_ok file_byte W bp1" "same_views file_byte bp bp1"
    using disk_change_ok [OF ok, of sm'] by (simp_all add: bp1_def)
  have "pool_ready bp1 ?pid" using ready by (simp add: pool_ready_def bp1_def can_claim_def split: option.splits)
  note rq = pool_request [OF v(1) pid this q]
  have bp': "bp' = bp2" and res: "res_err r = res_err q"
    "res_err q = ErrNone \<Longrightarrow> res_value r = \<lparr>new_ptr = res_value q, new_pid = ?pid\<rparr>"
    using r a q al(2) by (auto simp: BufferPool_AllocateNewPage_def Let_def bp1_def split: if_splits)
  show "pool_ok file_byte W bp'" "same_views file_byte bp bp'"
    using rq(1,2) v(2) views_but_trans by (auto simp: bp')
  show "new_page_offset_index (storage_manager bp') = ?pid + 1"
    using RequestPage_index [OF q] al(3) by (simp add: bp' bp1_def)
  show "new_pid (res_value r) = ?pid \<and> (\<exists>i. new_ptr (res_value r) = Some i \<and> pool_pinned bp' (new_pid (res_value r)) i)"
    if "res_err r = ErrNone" using that res rq(3) by (auto simp: bp')
qed

end

end
