(* ===== verification/Pool_Properties.thy ===== *)
theory Pool_Properties
  imports Pool_Run
begin

text \<open>
  The properties of the storage manager and of the buffer pool, over any file that keeps the laws
  of \<open>posix_file\<close> (transfers may fail) or of \<open>regular_file\<close> (they do not), each applied to a
  file in memory.
\<close>

section \<open>A sample pool\<close>

text \<open>A database file of ten pages with byte \<open>0\<close> everywhere but in its first page, and a pool on it.\<close>

definition sample_file :: "mem \<times> nat" where
  "sample_file = (store_u64 (store_u32 (\<lambda>_. 0) 0 STORAGE_MANAGER_MAGIC_NUMBER) 4 10, 40960)"

definition sample_storage :: "(mem \<times> nat) StorageManager" where
  "sample_storage = \<lparr>fd_database = sample_file, new_page_offset_index = 10\<rparr>"

definition sample_pool :: "(mem \<times> nat) BufferPool" where
  "sample_pool = BufferPool_new (\<lambda>_ _. 0) sample_storage"

lemma sample_pool_fields [simp]:
  "storage_manager sample_pool = sample_storage" "page_table sample_pool = (\<lambda>_. None)"
  "free_frames sample_pool = [0..<1000]" "unpinned_frames sample_pool = []"
  "buffer_pool_meta sample_pool = (\<lambda>_. empty_meta)" "buffer_pool sample_pool = (\<lambda>_ _. 0)"
  "new_page_offset_index sample_storage = 10"
  by (simp_all add: sample_pool_def BufferPool_new_def sample_storage_def)

lemma sample_client_page [simp]: "client_page 5" "client_page 10"
  by (simp_all add: client_page_def valid_pid_def)

lemma sample_ready [simp]: "pool_ready sample_pool pid"
  by (simp add: pool_ready_def can_claim_def)

definition sample_page_5 :: mem where
  "sample_page_5 = memcpy (\<lambda>_. 0) 0 (fst sample_file) 20480 4096"

definition sample_pool_5 :: "(mem \<times> nat) BufferPool" where
  "sample_pool_5 = sample_pool
    \<lparr>free_frames := [0..<999], buffer_pool := (\<lambda>_ _. 0)(999 := sample_page_5),
     buffer_pool_meta := (\<lambda>_. empty_meta)(999 :=
       \<lparr>fm_page_id = 5, pin_count = 1, is_dirty = False, reference_bit = 1, is_in_queue = False\<rparr>),
     page_table := [5 \<mapsto> 999]\<rparr>"

lemma sample_request: "RequestPage file_os sample_pool 5 = (mk_result (Some 999) ErrNone, sample_pool_5)"
proof -
  have b: "butlast [0..<1000] = [0..<999::nat]"
    using upt_Suc_append [of 0 999] by simp
  have l: "last [0..<1000] = (999::nat)" by simp
  have "page_offset 5 = 20480" by (simp add: page_offset_def)
  then show ?thesis
    by (simp add: RequestPage_def claim_frame_def CheckFreeSpace_def load_frame_def ReadPage_def file_os_def
        STORAGE_MANAGER_META_PAGE_ID_def PAGE_SIZE_def b l sample_pool_5_def sample_page_5_def)
      (simp add: sample_storage_def sample_file_def PAGE_SIZE_def)
qed

text \<open>A client overwrites page 5 and releases it.\<close>

definition sample_pool_6 :: "(mem \<times> nat) BufferPool" where
  "sample_pool_6 = snd (ReleasePage (write_frame sample_pool_5 999 (\<lambda>_. 7)) 5 True)"

lemma sample_pinned: "pool_pinned sample_pool_5 5 999"
  by (simp add: pool_pinned_def sample_pool_5_def)

lemma sample_run:
  "pool_run file_os ({}, sample_pool) [Request 5, Write 5 (\<lambda>_. 7), Release 5 True] ({}, sample_pool_6)"
proof (intro pool_run.intros)
  show "pool_step file_os ({}, sample_pool) (Request 5) ({}, sample_pool_5)"
    by (rule do_request [OF _ _ sample_request]) simp_all
  show "pool_step file_os ({}, sample_pool_5) (Write 5 (\<lambda>_. 7)) ({5}, write_frame sample_pool_5 999 (\<lambda>_. 7))"
    using do_write [OF sample_pinned] by fastforce
  let ?w = "write_frame sample_pool_5 999 (\<lambda>_. 7)"
  obtain r where r: "ReleasePage ?w 5 True = (r, sample_pool_6)"
    unfolding sample_pool_6_def by (metis prod.collapse)
  have "pool_pinned ?w 5 999" using sample_pinned by (simp add: pool_pinned_def write_frame_def)
  from do_release [OF this _ r, of "{5}"]
  show "pool_step file_os ({5}, ?w) (Release 5 True) ({}, sample_pool_6)" by simp
qed (rule stop)

lemma sample_disk_5: "disk_page fst sample_storage 5 = replicate 4096 0"
proof (rule nth_equalityI)
  fix i assume "i < length (disk_page fst sample_storage 5)"
  then have i: "i < 4096" by (simp only: mem_file.length_on_disk)
  have o: "page_offset 5 = 20480" by (simp add: page_offset_def)
  show "disk_page fst sample_storage 5 ! i = replicate 4096 0 ! i"
    unfolding mem_file.on_disk_nth [OF i] o using i
    by (simp add: sample_storage_def sample_file_def store_le_outside)
qed (simp only: mem_file.length_on_disk length_replicate)

section \<open>The buffer pool\<close>

text \<open>
  C26. The pool is transparent. From a new pool on any file, every run of requests, writes and
  releases by disciplined clients, with evictions, re-reads and failing system calls in
  between, leaves every page exactly as the writes alone left it: the content a client sees is
  that of the last write to the page, or what the file held.
\<close>

theorem pool_run_transparent:
  assumes "posix_file os file_byte" and "pool_run os ({}, BufferPool_new memory sm) es (W, bp)"
    and "client_page pid"
  shows "page_view file_byte bp pid = apply_events es (disk_page file_byte sm) pid \<and> pool_ok file_byte W bp"
proof -
  let ?new = "BufferPool_new memory sm"
  have "pool_ok file_byte (fst ({}, ?new)) (snd ({}, ?new))" by (simp add: BufferPool_new_ok)
  from posix_file.run_refines [OF assms(1,2) this]
  have ok: "pool_ok file_byte W bp"
    and v: "page_view file_byte bp pid = apply_events es (page_view file_byte ?new) pid"
    using assms(3) by simp_all
  have "page_view file_byte ?new = disk_page file_byte sm" by (rule ext) (simp add: BufferPool_new_ok)
  then show ?thesis using ok v by simp
qed

theorem pool_run_transparent_witness: "page_view fst sample_pool_6 5 = replicate 4096 7"
  using pool_run_transparent [OF mem_file.posix_file_axioms sample_run [unfolded sample_pool_def]]
  by (simp add: bytes_def map_replicate_const)

text \<open>
  Requesting a page. When a frame can be claimed, a request succeeds with a frame that holds the
  page and is pinned for the caller, or it fails with a null pointer; in both cases the
  structure of the pool is intact and no page changed its content.
\<close>

theorem pool_request_page:
  assumes "posix_file os file_byte" and "pool_ok file_byte W bp" and "client_page pid" and "pool_ready bp pid"
    and "RequestPage os bp pid = (r, bp')"
  shows "pool_ok file_byte W bp' \<and> (\<forall>q. client_page q \<longrightarrow> page_view file_byte bp' q = page_view file_byte bp q) \<and>
    (if res_err r = ErrNone
     then \<exists>i. res_value r = Some i \<and> pool_pinned bp' pid i \<and> bytes (buffer_pool bp' i) 0 4096 = page_view file_byte bp pid
     else res_value r = None)"
proof -
  note q = posix_file.pool_request [OF assms]
  have v: "page_view file_byte bp' q = page_view file_byte bp q" if "client_page q" for q
    using q(2) that by (simp add: views_but_def client_page_def)
  have "res_value r = None" if "res_err r \<noteq> ErrNone"
  proof (rule posix_file.RequestPage_ok(4) [OF assms(1,2) _ _ _ _ assms(5) that])
    show "pid \<noteq> 0" "valid_pid pid" using assms(3) by (simp_all add: client_page_def)
    show "page_table bp pid \<noteq> None \<or> can_claim bp"
      "\<And>i. page_table bp pid = Some i \<Longrightarrow> pin_count (buffer_pool_meta bp i) < 65535"
      using assms(4) by (simp_all add: pool_ready_def split: option.splits)
  qed
  moreover have "bytes (buffer_pool bp' i) 0 4096 = page_view file_byte bp pid" if "pool_pinned bp' pid i" for i
    using v [OF assms(3)] that by (simp add: pool_pinned_def page_view_def)
  ultimately show ?thesis using q(1,3) v by auto
qed

theorem pool_request_page_witness:
  "pool_pinned sample_pool_5 5 999 \<and> bytes (buffer_pool sample_pool_5 999) 0 4096 = replicate 4096 0"
proof -
  have ok: "pool_ok fst {} sample_pool" by (simp add: sample_pool_def BufferPool_new_ok)
  have "page_view fst sample_pool 5 = replicate 4096 0" by (simp add: page_view_def sample_disk_5)
  then show ?thesis
    using pool_request_page [OF mem_file.posix_file_axioms ok sample_client_page(1) sample_ready sample_request]
    by simp
qed

text \<open>
  C27. Nothing is lost at shutdown. On a file without faults, after any run whose clients released
  what they wrote, the destructor of the pool leaves on disk, page by page, what the run's
  writes made of the initial content.
\<close>

theorem pool_shutdown_persists:
  assumes "regular_file os file_byte file_size"
    and "pool_run os ({}, BufferPool_new memory sm) es ({}, bp)" and "client_page pid"
  shows "disk_page file_byte (storage_manager (BufferPool_delete os bp)) pid =
    apply_events es (disk_page file_byte sm) pid"
proof -
  let ?new = "BufferPool_new memory sm"
  have pf: "posix_file os file_byte" using assms(1) by (rule regular_file.axioms)
  have "pool_ok file_byte (fst ({}, ?new)) (snd ({}, ?new))" by (simp add: BufferPool_new_ok)
  from posix_file.run_refines [OF pf assms(2) this]
  have ok: "pool_ok file_byte {} bp"
    and v: "page_view file_byte bp pid = apply_events es (page_view file_byte ?new) pid"
    using assms(3) by simp_all
  have "page_view file_byte ?new = disk_page file_byte sm" by (rule ext) (simp add: BufferPool_new_ok)
  then show ?thesis
    using regular_file.BufferPool_delete_persists [OF assms(1) ok] assms(3) v by (simp add: client_page_def)
qed

theorem pool_shutdown_persists_witness:
  "disk_page fst (storage_manager (BufferPool_delete file_os sample_pool_6)) 5 = replicate 4096 7"
  using pool_shutdown_persists [OF mem_file.regular_file_axioms sample_run [unfolded sample_pool_def]]
  by (simp add: bytes_def map_replicate_const)

text \<open>
  The replacement finds a victim. When the queue holds an unpinned frame, the second-chance
  search ends within its bound with an unpinned frame of the queue, takes it out of the queue,
  and changes neither the page table nor a frame nor a pin count.
\<close>

theorem pool_victim_unpinned:
  assumes "pool_ok file_byte W bp" and "\<exists>i \<in> set (unpinned_frames bp). pin_count (buffer_pool_meta bp i) = 0"
    and "FindPageToEvict bp = (r, bp')"
  shows "res_err r = ErrNone \<and> res_value r \<in> set (unpinned_frames bp) \<and>
    res_value r \<notin> set (unpinned_frames bp') \<and> pin_count (buffer_pool_meta bp (res_value r)) = 0 \<and>
    page_table bp' = page_table bp \<and> buffer_pool bp' = buffer_pool bp \<and>
    same_frames (buffer_pool_meta bp) (buffer_pool_meta bp') \<and> pool_ok file_byte W bp'"
proof -
  have "distinct (unpinned_frames bp)" using assms(1) by (simp add: pool_but_def pool_inv_def)
  note v = FindPageToEvict_victim [OF this assms(2,3)]
  show ?thesis
    using v FindPageToEvict_ok [OF assms(1,3)] FindPageToEvict_frame(1) [OF assms(3)] by simp
qed

theorem pool_victim_unpinned_witness:
  "\<exists>r bp'. FindPageToEvict sample_pool_6 = (r, bp') \<and> res_value r = 999"
proof -
  have q: "unpinned_frames sample_pool_6 = [999]" "pin_count (buffer_pool_meta sample_pool_6 999) = 0"
    by (simp_all add: sample_pool_6_def ReleasePage_def write_frame_def sample_pool_5_def)
  have ok: "pool_ok fst {} sample_pool_6"
    using mem_file.run_refines [OF sample_run] by (simp add: sample_pool_def BufferPool_new_ok)
  obtain r bp' where r: "FindPageToEvict sample_pool_6 = (r, bp')" by fastforce
  show ?thesis using pool_victim_unpinned [OF ok _ r] q r by simp
qed

text \<open>
  Allocation through the pool. With the manager in step with its file and a frame to claim,
  \<open>AllocateNewPage\<close> hands out the next page number pinned in a frame, or reports an error;
  either way the number is used up, the pool is intact, and no page changed its content.
\<close>

theorem pool_allocate:
  assumes "regular_file os file_byte file_size" and "pool_ok file_byte W bp"
    and "storage_inv file_byte file_size (storage_manager bp)"
    and "client_page (new_page_offset_index (storage_manager bp))"
    and "pool_ready bp (new_page_offset_index (storage_manager bp))"
    and "BufferPool_AllocateNewPage os stack bp = (r, bp')"
  shows "pool_ok file_byte W bp' \<and> (\<forall>q. client_page q \<longrightarrow> page_view file_byte bp' q = page_view file_byte bp q) \<and>
    new_page_offset_index (storage_manager bp') = new_page_offset_index (storage_manager bp) + 1 \<and>
    (res_err r = ErrNone \<longrightarrow> new_pid (res_value r) = new_page_offset_index (storage_manager bp) \<and>
      (\<exists>i. new_ptr (res_value r) = Some i \<and> pool_pinned bp' (new_pid (res_value r)) i))"
  using regular_file.pool_allocate_ok [OF assms] by (auto simp: views_but_def client_page_def)

lemma sample_storage_inv: "storage_inv fst snd sample_storage"
proof -
  have d: "bytes (fst sample_file) 0 4096 = disk_page fst sample_storage 0"
    by (simp add: disk_page_def bytes_def sample_storage_def)
  have "STORAGE_MANAGER_MAGIC_NUMBER < 256 ^ 4" by (simp add: magic_defs)
  then show ?thesis
    by (simp add: storage_inv_def persisted_magic_def persisted_index_def load_of_page [OF d])
      (simp add: sample_storage_def sample_file_def mem_simps)
qed

theorem pool_allocate_witness:
  "new_page_offset_index (storage_manager (snd (BufferPool_AllocateNewPage file_os (\<lambda>_. 0) sample_pool))) = 11"
proof -
  obtain r bp' where r: "BufferPool_AllocateNewPage file_os (\<lambda>_. 0) sample_pool = (r, bp')" by fastforce
  have ok: "pool_ok fst {} sample_pool" by (simp add: sample_pool_def BufferPool_new_ok)
  from pool_allocate [OF mem_file.regular_file_axioms ok _ _ _ r] show ?thesis
    using r sample_storage_inv by simp
qed

section \<open>The storage manager\<close>

text \<open>
  C28. A write reaches its page and no other. A successful \<open>WritePage\<close> makes the page read back
  the buffer, any write leaves every other page alone, one that fails outright leaves the file
  alone, and the manager's own page can be neither read nor written.
\<close>

theorem storage_read_after_write:
  assumes "posix_file os file_byte" and "pid \<noteq> 0" "valid_pid pid" and "WritePage os sm pid buf = (w, sm')"
  shows "(res_value w \<longrightarrow> disk_page file_byte sm' pid = bytes buf 0 4096) \<and>
    (\<forall>rd x y. res_value w \<longrightarrow> ReadPage os sm' pid x = (rd, y) \<longrightarrow> res_value rd \<longrightarrow> bytes y 0 4096 = bytes buf 0 4096) \<and>
    (\<forall>q. valid_pid q \<longrightarrow> q \<noteq> pid \<longrightarrow> disk_page file_byte sm' q = disk_page file_byte sm q) \<and>
    (res_err w = SystemErr \<longrightarrow> (\<forall>q. disk_page file_byte sm' q = disk_page file_byte sm q)) \<and>
    ReadPage os sm 0 buf = (mk_result False OperationNotAllowed, buf) \<and>
    WritePage os sm 0 buf = (mk_result False OperationNotAllowed, sm)"
proof -
  have w: "PrivateWritePage os sm pid buf = (w, sm')"
    using posix_file.WritePage_private [OF assms(1,2)] assms(4) by simp
  have "bytes y 0 4096 = disk_page file_byte sm' pid" if "ReadPage os sm' pid x = (rd, y)" "res_value rd" for rd x y
    using posix_file.PrivateReadPage_ok [OF assms(1) _ that(2)] posix_file.ReadPage_private [OF assms(1,2)] that(1)
    by simp
  then show ?thesis
    using posix_file.PrivateWritePage_ok [OF assms(1) w] posix_file.PrivateWritePage_other [OF assms(1) w assms(3)]
      posix_file.PrivateWritePage_failed [OF assms(1) w] posix_file.meta_page_protected [OF assms(1)]
    by auto
qed

theorem storage_read_after_write_witness:
  "\<exists>w sm'. WritePage file_os sample_storage 5 (\<lambda>_. 7) = (w, sm') \<and>
    disk_page fst sm' 5 = replicate 4096 7 \<and> disk_page fst sm' 6 = disk_page fst sample_storage 6"
proof -
  obtain w sm' where r: "WritePage file_os sample_storage 5 (\<lambda>_. 7) = (w, sm')" by fastforce
  have "res_value w"
    using r by (auto simp: WritePage_def file_os_def sample_storage_def sample_file_def PAGE_SIZE_def
        STORAGE_MANAGER_META_PAGE_ID_def)
  then show ?thesis
    using storage_read_after_write [OF mem_file.posix_file_axioms _ _ r] r
    by (simp add: valid_pid_def bytes_def map_replicate_const)
qed

text \<open>
  Allocation survives a restart. On a file without faults \<open>AllocateNewPage\<close> hands out the next
  page number, which lies inside the file afterwards, records its successor in the file, and
  changes no other page; opening the file again gives exactly the manager that was left.
\<close>

theorem storage_allocate:
  assumes "regular_file os file_byte file_size" and "storage_inv file_byte file_size sm"
    and "StorageManager_AllocateNewPage os stack sm = (r, sm')"
  shows "r = mk_result (new_page_offset_index sm) ErrNone \<and>
    new_page_offset_index sm' = new_page_offset_index sm + 1 \<and> storage_inv file_byte file_size sm' \<and>
    page_offset (new_page_offset_index sm) + 4096 \<le> file_size (fd_database sm') \<and>
    (\<forall>q. valid_pid q \<longrightarrow> q \<noteq> 0 \<longrightarrow> disk_page file_byte sm' q = disk_page file_byte sm q) \<and>
    StorageManager_Bootstrap os stack' (Some (fd_database sm')) = Some sm'"
proof -
  note a = regular_file.AllocateNewPage_correct [OF assms]
  have "r = mk_result (new_page_offset_index sm) ErrNone"
    using a(1,2) by (cases r) (simp add: mk_result_def)
  then show ?thesis using a regular_file.Bootstrap_restart [OF assms(1) a(4)] by blast
qed

theorem storage_allocate_witness:
  "\<exists>sm'. StorageManager_AllocateNewPage file_os (\<lambda>_. 0) sample_storage = (mk_result 10 ErrNone, sm') \<and>
    StorageManager_Bootstrap file_os (\<lambda>_. 0) (Some (fd_database sm')) = Some sm'"
proof -
  obtain r sm' where r: "StorageManager_AllocateNewPage file_os (\<lambda>_. 0) sample_storage = (r, sm')" by fastforce
  show ?thesis
    using storage_allocate [OF mem_file.regular_file_axioms sample_storage_inv r, of "\<lambda>_. 0"] r by simp
qed

text \<open>
  Bootstrap. A file that is not a database becomes one: \<open>Bootstrap\<close> writes the two meta pages,
  page numbers start at 2, and opening the result again gives the same manager; a failed
  \<open>open\<close> is reported.
\<close>

theorem storage_bootstrap:
  assumes "regular_file os file_byte file_size" and "\<not> IsDatabaseFile os stack fd"
  shows "\<exists>sm. StorageManager_Bootstrap os stack (Some fd) = Some sm \<and>
    storage_inv file_byte file_size sm \<and> new_page_offset_index sm = 2 \<and>
    disk_page file_byte sm DATABASE_META_PAGE_ID = replicate 4096 0 \<and>
    StorageManager_Bootstrap os stack' (Some (fd_database sm)) = Some sm \<and>
    StorageManager_Bootstrap os stack None = None"
proof -
  obtain sm where sm: "StorageManager_Bootstrap os stack (Some fd) = Some sm"
    "storage_inv file_byte file_size sm" "new_page_offset_index sm = 2"
    "disk_page file_byte sm DATABASE_META_PAGE_ID = replicate 4096 0" "8192 \<le> file_size (fd_database sm)"
    by (rule regular_file.Bootstrap_fresh [OF assms])
  then show ?thesis
    using regular_file.Bootstrap_restart [OF assms(1) sm(2)] by (simp add: StorageManager_Bootstrap_def)
qed

theorem storage_bootstrap_witness:
  "\<exists>sm. StorageManager_Bootstrap file_os (\<lambda>_. 0) (Some (\<lambda>_. 0, 0)) = Some sm \<and> new_page_offset_index sm = 2"
proof -
  have "\<not> IsDatabaseFile file_os (\<lambda>_. 0) (\<lambda>_. 0, 0)"
    by (simp add: IsDatabaseFile_def file_os_def PAGE_SIZE_def)
  from storage_bootstrap [OF mem_file.regular_file_axioms this] show ?thesis by blast
qed

section \<open>A defect\<close>

text \<open>
  C36. A pinned page can be evicted. When the free list is empty and the queue holds only frames
  that were pinned again after they entered it, the search reports the last of them as the
  victim without looking at its pin count, and \<open>EvictPage\<close> takes the page out of the table
  under the client that holds the pin.
\<close>

theorem pool_pinned_victim:
  assumes "pool_inv bp" and "unpinned_frames bp \<noteq> []"
    and "\<forall>i \<in> set (unpinned_frames bp). 0 < pin_count (buffer_pool_meta bp i) \<and> \<not> is_dirty (buffer_pool_meta bp i)"
  shows "\<exists>bp1 pid. FindPageToEvict bp = (mk_result (last (unpinned_frames bp)) ErrNone, bp1) \<and>
    page_table bp pid = Some (last (unpinned_frames bp)) \<and>
    0 < pin_count (buffer_pool_meta bp1 (last (unpinned_frames bp))) \<and>
    page_table (snd (EvictPage os bp1 (last (unpinned_frames bp)))) pid = None"
proof -
  let ?q = "unpinned_frames bp" and ?i = "last (unpinned_frames bp)"
  have q: "distinct ?q" "?i \<in> set ?q" using assms(1,2) by (simp_all add: pool_inv_def)
  have "\<forall>i \<in> set ?q. 0 < pin_count (buffer_pool_meta bp i)" using assms(3) by blast
  from find_loop_pinned [OF _ assms(2) q(1) this, of "2 * length ?q" None]
  obtain m where m: "find_loop (2 * length ?q) ?q (buffer_pool_meta bp) None = (Some ?i, [], m)" by auto
  obtain pid where pid: "page_table bp pid = Some ?i" using pool_invD(9) [OF assms(1) q(2)] by blast
  define bp1 where "bp1 = bp\<lparr>unpinned_frames := [], buffer_pool_meta := m\<rparr>"
  have f: "FindPageToEvict bp = (mk_result ?i ErrNone, bp1)" by (simp add: FindPageToEvict_def m bp1_def)
  have same: "pin_count (m ?i) = pin_count (buffer_pool_meta bp ?i)" "fm_page_id (m ?i) = pid"
    "is_dirty (m ?i) = is_dirty (buffer_pool_meta bp ?i)"
    using find_loop_frame [OF m] pool_invD(3) [OF assms(1) pid] by (simp_all add: same_frames_def)
  then have "page_table (snd (EvictPage os bp1 ?i)) pid = None"
    using assms(3) q(2) by (simp add: EvictPage_def bp1_def mk_result_def)
  then show ?thesis using f pid same(1) assms(3) q(2) by (auto simp: bp1_def)
qed

text \<open>A client requests page 5 and releases it, another one requests it: the page is pinned and queued.\<close>

theorem pool_pinned_victim_witness:
  "\<exists>bp1. FindPageToEvict (snd (RequestPage file_os (snd (ReleasePage sample_pool_5 5 False)) 5)) =
    (mk_result 999 ErrNone, bp1) \<and> 0 < pin_count (buffer_pool_meta bp1 999)"
proof -
  let ?bp = "snd (RequestPage file_os (snd (ReleasePage sample_pool_5 5 False)) 5)"
  have u: "unpinned_frames ?bp = [999]" "pin_count (buffer_pool_meta ?bp 999) = 1"
    "\<not> is_dirty (buffer_pool_meta ?bp 999)"
    by (simp_all add: ReleasePage_def RequestPage_def sample_pool_5_def)
  have "pool_inv ?bp"
    by (auto simp: pool_inv_def ReleasePage_def RequestPage_def sample_pool_5_def queue_flagged_def valid_pid_def
        empty_meta_def split: if_splits)
  from pool_pinned_victim [OF this, of file_os] u show ?thesis by auto
qed

end
