(* ===== verification/Checksum.thy ===== *)
theory Checksum
  imports Commons
begin

unbundle bit_operations_syntax

text \<open>
  The checksum of the network headers (\<open>commons/src/impl/utils/utils.cpp\<close>): a 32-bit
  FNV-1a hash of all but the last four bytes of a packed struct, stored in these four bytes.
  Proved: a struct sealed by \<open>SetChecksum\<close> verifies, sealing changes nothing else, and
  every corruption of a single byte of a verified struct is detected.
\<close>

section \<open>The code\<close>

fun hash_loop :: "32 word \<Rightarrow> byte list \<Rightarrow> 32 word" where
  "hash_loop hash [] = hash"
| "hash_loop hash (b # data) = hash_loop ((hash XOR ucast b) * 0x01000193) data"

definition CalculateHash :: "mem \<Rightarrow> nat \<Rightarrow> 32 word" where
  "CalculateHash data len = hash_loop 0x811c9dc5 (bytes data 0 len)"

definition SetChecksum :: "mem \<Rightarrow> nat \<Rightarrow> mem" where
  "SetChecksum struct_ptr total_size =
    (let data_length = total_size - 4;
         checksum = CalculateHash struct_ptr data_length
     in store_u32 struct_ptr data_length (unat checksum))"

definition VerifyChecksum :: "mem \<Rightarrow> nat \<Rightarrow> bool" where
  "VerifyChecksum struct_ptr total_size =
    (let data_length = total_size - 4;
         calculated = CalculateHash struct_ptr data_length;
         provided = load_u32 struct_ptr data_length
     in unat calculated = provided)"

section \<open>The hash is injective in every byte\<close>

lemma mult_unit_cancel: "c * d = (1 :: 'a::comm_monoid_mult) \<Longrightarrow> a * c = b * c \<longleftrightarrow> a = b"
  by (metis mult.assoc mult.right_neutral)

lemma fnv_prime_cancel: "a * 0x01000193 = b * (0x01000193 :: 32 word) \<longleftrightarrow> a = b"
  by (rule mult_unit_cancel [where d = 899433627]) simp

lemma xor_cancel: "a XOR c = b XOR c \<longleftrightarrow> a = (b :: 'a::len word)"
  by (metis bit.xor_left_self xor.commute)

lemma ucast_byte_inject: "(ucast a :: 32 word) = ucast b \<Longrightarrow> a = (b :: byte)"
  by transfer simp

lemma hash_loop_inject: "hash_loop h bs = hash_loop h' bs \<longleftrightarrow> h = h'"
  by (induction bs arbitrary: h h') (simp_all only: hash_loop.simps fnv_prime_cancel xor_cancel)

lemma hash_loop_append: "hash_loop h (xs @ ys) = hash_loop (hash_loop h xs) ys"
  by (induction xs arbitrary: h) simp_all

lemma hash_loop_byte:
  "b \<noteq> c \<Longrightarrow> hash_loop h (xs @ b # ys) \<noteq> hash_loop h (xs @ c # ys)"
proof
  assume "b \<noteq> c" and "hash_loop h (xs @ b # ys) = hash_loop h (xs @ c # ys)"
  then have "hash_loop h xs XOR ucast b = hash_loop h xs XOR ucast c"
    by (simp only: hash_loop_append hash_loop.simps hash_loop_inject fnv_prime_cancel)
  then have "(ucast b :: 32 word) = ucast c" by (simp only: xor.commute xor_cancel)
  then show False using \<open>b \<noteq> c\<close> ucast_byte_inject by blast
qed

section \<open>Sealing and verifying\<close>

lemma CalculateHash_cong:
  "(\<And>i. i < n \<Longrightarrow> m i = m' i) \<Longrightarrow> CalculateHash m n = CalculateHash m' n"
  unfolding CalculateHash_def by (metis add_0 bytes_cong)

lemma SetChecksum_data: "i < n - 4 \<Longrightarrow> SetChecksum m n i = m i"
  by (simp add: SetChecksum_def Let_def store_le_outside)

lemma SetChecksum_verifies: "4 \<le> n \<Longrightarrow> VerifyChecksum (SetChecksum m n) n"
proof -
  have "CalculateHash (SetChecksum m n) (n - 4) = CalculateHash m (n - 4)"
    by (rule CalculateHash_cong) (rule SetChecksum_data)
  moreover have "unat (CalculateHash m (n - 4)) < 256 ^ 4"
    using unsigned_less [of "CalculateHash m (n - 4)"] by simp
  ultimately show ?thesis
    by (simp add: VerifyChecksum_def SetChecksum_def Let_def)
qed

lemma bytes_split_at:
  "i < n \<Longrightarrow> bytes m 0 n = bytes m 0 i @ m i # bytes m (Suc i) (n - Suc i)"
  using bytes_append [of m 0 i "Suc (n - Suc i)"] bytes_append [of m i 1 "n - Suc i"]
  by (simp add: bytes_def)

lemma CalculateHash_upd:
  assumes "i < n" "b \<noteq> m i"
  shows "CalculateHash (m(i := b)) n \<noteq> CalculateHash m n"
proof -
  have "bytes (m(i := b)) 0 i = bytes m 0 i"
    and "bytes (m(i := b)) (Suc i) (n - Suc i) = bytes m (Suc i) (n - Suc i)"
    by (rule bytes_cong, simp)+
  then show ?thesis
    using assms hash_loop_byte [of b "m i"]
    by (simp add: CalculateHash_def bytes_split_at [OF assms(1)])
qed

lemma load_le_upd:
  "a \<le> i \<Longrightarrow> i < a + n \<Longrightarrow> b \<noteq> m i \<Longrightarrow> load_le (m(i := b)) a n \<noteq> load_le m a n"
proof (induction n arbitrary: a)
  case 0
  then show ?case by simp
next
  case (Suc n)
  show ?case
  proof (cases "i = a")
    case True
    have tail: "load_le (m(i := b)) (Suc a) n = load_le m (Suc a) n"
      by (rule load_le_cong) (use True in auto)
    have "unat b \<noteq> unat (m a)" using Suc.prems True by (simp add: word_unat_eq_iff)
    then show ?thesis by (simp only: load_le.simps tail [unfolded True] True fun_upd_same add_right_cancel not_False_eq_True)
  next
    case False
    then have "load_le (m(i := b)) (Suc a) n \<noteq> load_le m (Suc a) n"
      using Suc.prems by (intro Suc.IH) auto
    with False show ?thesis by (simp del: fun_upd_apply add: load_le.simps fun_upd_other)
  qed
qed

lemma VerifyChecksum_detects:
  assumes ok: "VerifyChecksum m n" and i: "i < n" and b: "b \<noteq> m i" and n: "4 \<le> n"
  shows "\<not> VerifyChecksum (m(i := b)) n"
proof (cases "i < n - 4")
  case True
  have "load_u32 (m(i := b)) (n - 4) = load_u32 m (n - 4)"
    by (rule load_le_cong) (use True in auto)
  then show ?thesis
    using ok CalculateHash_upd [where m = m, OF True b] by (simp add: VerifyChecksum_def Let_def word_unat_eq_iff)
next
  case False
  have "CalculateHash (m(i := b)) (n - 4) = CalculateHash m (n - 4)"
    by (rule CalculateHash_cong) (use False in auto)
  moreover have "load_u32 (m(i := b)) (n - 4) \<noteq> load_u32 m (n - 4)"
    by (rule load_le_upd) (use False i n b in auto)
  ultimately show ?thesis using ok by (simp add: VerifyChecksum_def Let_def)
qed

end
