(* ===== verification/Query_Parser.thy ===== *)
theory Query_Parser
  imports Commons
begin

text \<open>
  The query parser of the client (\<open>client/src/impl/parser.cpp\<close>): a state machine over the
  characters of a query, with two transitions that consume nothing. Proved: the machine always
  stops; a printed query parses back to its command, key and payload strings, whatever
  characters these contain; only a complete query is reported valid, and a valid query always
  has a command.
\<close>

section \<open>Characters and numbers\<close>

definition code :: "char \<Rightarrow> nat" where
  "code c = of_char c"

definition isdigit :: "char \<Rightarrow> bool" where
  "isdigit c \<longleftrightarrow> 48 \<le> code c \<and> code c \<le> 57"

definition isalpha :: "char \<Rightarrow> bool" where
  "isalpha c \<longleftrightarrow> 65 \<le> code c \<and> code c \<le> 90 \<or> 97 \<le> code c \<and> code c \<le> 122"

definition tolower :: "char \<Rightarrow> char" where
  "tolower c = (if 65 \<le> code c \<and> code c \<le> 90 then char_of (code c + 32) else c)"

definition decimal :: "string \<Rightarrow> nat" where
  "decimal ds = foldl (\<lambda>n c. 10 * n + (code c - 48)) 0 ds"

text \<open>\<open>std::stoull\<close> on a string of digits; \<open>None\<close> is the exception it throws.\<close>

definition stoull :: "string \<Rightarrow> Key option" where
  "stoull ds = (if ds = [] \<or> decimal ds \<ge> 18446744073709551616 then None else Some (word_of_nat (decimal ds)))"

section \<open>The machine\<close>

datatype ParserState = EXPECT_COMMAND | READ_COMMAND | EXPECT_KEY | READ_KEY | EXPECT_PAYLOAD | READ_PAYLOAD

record Query =
  valid :: bool
  command :: Command
  key :: Key
  payload :: "string list"

text \<open>\<open>Query()\<close> leaves \<open>key\<close> uninitialised; the model starts it from a parameter.\<close>

definition Query_new :: "Key \<Rightarrow> Query" where
  "Query_new junk = \<lparr>valid = False, command = Command_Invalid, key = junk, payload = []\<rparr>"

definition command_of_word :: "string \<Rightarrow> Command option" where
  "command_of_word w =
    (if w = ''search'' then Some Command_Search
     else if w = ''insert'' then Some Command_Insert
     else if w = ''delete'' then Some Command_Delete
     else if w = ''quit'' then Some Command_Quit
     else None)"

text \<open>
  \<open>parse_loop state temp q cs\<close>: the loop of \<open>ParseQuery\<close> with \<open>cs\<close> the query from \<open>iter\<close> on.
  Every \<open>return\<close> of the code is a branch that returns the query object as it is.
\<close>

fun state_rank :: "ParserState \<Rightarrow> nat" where
  "state_rank EXPECT_COMMAND = 1"
| "state_rank EXPECT_KEY = 1"
| "state_rank _ = 0"

function parse_loop :: "ParserState \<Rightarrow> string \<Rightarrow> Query \<Rightarrow> string \<Rightarrow> Query" where
  "parse_loop st temp q [] = q"
| "parse_loop EXPECT_COMMAND temp q (c # cs) =
    (if c = CHR '' '' \<or> c = CHR 0x0A then parse_loop EXPECT_COMMAND temp q cs
     else if isalpha c then parse_loop READ_COMMAND temp q (c # cs)
     else q)"
| "parse_loop READ_COMMAND temp q (c # cs) =
    (if isalpha c then parse_loop READ_COMMAND (temp @ [tolower c]) q cs
     else if c = CHR '' '' then
       (case command_of_word temp of
          None \<Rightarrow> q
        | Some cmd \<Rightarrow> parse_loop EXPECT_KEY [] (q\<lparr>command := cmd\<rparr>) cs)
     else q)"
| "parse_loop EXPECT_KEY temp q (c # cs) =
    (if c = CHR '' '' then parse_loop EXPECT_KEY temp q cs
     else if isdigit c then parse_loop READ_KEY temp q (c # cs)
     else q)"
| "parse_loop READ_KEY temp q (c # cs) =
    (if isdigit c then parse_loop READ_KEY (temp @ [c]) q cs
     else if c = CHR '' '' then
       (case stoull temp of
          None \<Rightarrow> q
        | Some k \<Rightarrow> parse_loop EXPECT_PAYLOAD [] (q\<lparr>key := k\<rparr>) cs)
     else if c = CHR '';'' then
       (case stoull temp of
          None \<Rightarrow> q
        | Some k \<Rightarrow> q\<lparr>key := k, valid := True\<rparr>)
     else q)"
| "parse_loop EXPECT_PAYLOAD temp q (c # cs) =
    (if c = CHR '' '' then parse_loop EXPECT_PAYLOAD temp q cs
     else if c = CHR 0x22 then parse_loop READ_PAYLOAD temp q cs
     else if c = CHR '';'' then q\<lparr>valid := True\<rparr>
     else q)"
| "parse_loop READ_PAYLOAD temp q (c # cs) =
    (if c = CHR 0x5C then
       (case cs of
          [] \<Rightarrow> q
        | d # ds \<Rightarrow> parse_loop READ_PAYLOAD (temp @ [d]) q ds)
     else if c = CHR 0x22 then parse_loop EXPECT_PAYLOAD [] (q\<lparr>payload := payload q @ [temp]\<rparr>) cs
     else parse_loop READ_PAYLOAD (temp @ [c]) q cs)"
  by pat_completeness auto
termination
  by (relation "measures [\<lambda>(st, temp, q, cs). length cs, \<lambda>(st, temp, q, cs). state_rank st]") auto

definition ParseQuery :: "Key \<Rightarrow> string \<Rightarrow> Query" where
  "ParseQuery junk query = parse_loop EXPECT_COMMAND [] (Query_new junk) query"

section \<open>Printing\<close>

text \<open>A way to write a query down; quotes and backslashes of a payload are escaped.\<close>

fun digits :: "nat \<Rightarrow> string" where
  "digits n = (if n < 10 then [char_of (48 + n)] else digits (n div 10) @ [char_of (48 + n mod 10)])"

declare digits.simps [simp del]

definition newline :: string where
  "newline = [CHR 0x0A]"

primrec command_word :: "Command \<Rightarrow> string" where
  "command_word Command_Invalid = []"
| "command_word Command_Search = ''search''"
| "command_word Command_Insert = ''insert''"
| "command_word Command_Delete = ''delete''"
| "command_word Command_Quit = ''quit''"

definition escape :: "string \<Rightarrow> string" where
  "escape s = concat (map (\<lambda>c. if c = CHR 0x22 \<or> c = CHR 0x5C then [CHR 0x5C, c] else [c]) s)"

definition print_query :: "Command \<Rightarrow> Key \<Rightarrow> string list \<Rightarrow> string" where
  "print_query cmd k ps =
    command_word cmd @ '' '' @ digits (unat k) @ '' '' @
    concat (map (\<lambda>p. [CHR 0x22] @ escape p @ [CHR 0x22, CHR '' '']) ps) @ '';''"

section \<open>Numbers\<close>

lemma code_digit: "n < 10 \<Longrightarrow> code (char_of (48 + n)) = 48 + n"
  by (simp add: code_def)

lemma digits_digits: "c \<in> set (digits n) \<Longrightarrow> isdigit c"
proof (induction n rule: digits.induct)
  case (1 n)
  show ?case
  proof (cases "n < 10")
    case True
    then show ?thesis using 1(2) by (simp add: digits.simps [of n] isdigit_def code_digit)
  next
    case False
    then show ?thesis using 1 by (auto simp: digits.simps [of n] isdigit_def code_digit)
  qed
qed

lemma digits_nonempty: "digits n \<noteq> []"
  by (subst digits.simps) simp

lemma decimal_digits: "decimal (digits n) = n"
proof (induction n rule: digits.induct)
  case (1 n)
  then show ?case by (subst digits.simps) (auto simp: decimal_def code_digit)
qed

lemma stoull_digits: "stoull (digits (unat k)) = Some k"
  by (simp add: stoull_def digits_nonempty decimal_digits not_le)

section \<open>Runs of the machine\<close>

lemma not_digit: "\<not> isdigit (CHR '' '')" "\<not> isdigit (CHR '';'')"
  by (simp_all add: isdigit_def code_def)

lemma not_alpha: "\<not> isalpha (CHR '' '')" "\<not> isalpha (CHR 0x0A)"
  by (simp_all add: isalpha_def code_def)

lemma read_command_run:
  "\<forall>c \<in> set w. isalpha c \<Longrightarrow> command_of_word (temp @ map tolower w) = Some cmd \<Longrightarrow>
    parse_loop READ_COMMAND temp q (w @ CHR '' '' # cs) =
    parse_loop EXPECT_KEY [] (q\<lparr>command := cmd\<rparr>) cs"
  by (induction w arbitrary: temp) (auto simp: not_alpha)

lemma read_key_run:
  "\<forall>c \<in> set ds. isdigit c \<Longrightarrow> stoull (temp @ ds) = Some k \<Longrightarrow>
    parse_loop READ_KEY temp q (ds @ CHR '' '' # cs) = parse_loop EXPECT_PAYLOAD [] (q\<lparr>key := k\<rparr>) cs \<and>
    parse_loop READ_KEY temp q (ds @ CHR '';'' # cs) = q\<lparr>key := k, valid := True\<rparr>"
  by (induction ds arbitrary: temp) (auto simp: not_digit)

lemma read_payload_run:
  "parse_loop READ_PAYLOAD temp q (escape p @ CHR 0x22 # cs) =
    parse_loop EXPECT_PAYLOAD [] (q\<lparr>payload := payload q @ [temp @ p]\<rparr>) cs"
  by (induction p arbitrary: temp) (auto simp: escape_def)

lemma payloads_run:
  "parse_loop EXPECT_PAYLOAD [] q
      (concat (map (\<lambda>p. [CHR 0x22] @ escape p @ [CHR 0x22, CHR '' '']) ps) @ '';'') =
    q\<lparr>payload := payload q @ ps, valid := True\<rparr>"
proof (induction ps arbitrary: q)
  case (Cons p ps)
  then show ?case using read_payload_run [of "[]" q p] by simp
qed simp

lemma command_words:
  assumes "cmd \<noteq> Command_Invalid"
  shows "\<forall>c \<in> set (command_word cmd). isalpha c" "command_of_word (command_word cmd) = Some cmd"
    "\<exists>c cs. command_word cmd = c # cs"
  using assms
  by (cases cmd; simp add: isalpha_def tolower_def code_def command_of_word_def)+

lemma expect_key_run:
  assumes "\<forall>c \<in> set ds. isdigit c" "ds \<noteq> []"
  shows "parse_loop EXPECT_KEY temp q (ds @ cs) = parse_loop READ_KEY temp q (ds @ cs)"
  using assms not_digit by (cases ds) auto

lemma ParseQuery_print:
  assumes w: "map tolower w = command_word cmd" "\<forall>c \<in> set w. isalpha c" and cmd: "cmd \<noteq> Command_Invalid"
  shows "ParseQuery junk (w @ '' '' @ digits (unat k) @ '' '' @
    concat (map (\<lambda>p. [CHR 0x22] @ escape p @ [CHR 0x22, CHR '' '']) ps) @ '';'') =
    \<lparr>valid = True, command = cmd, key = k, payload = ps\<rparr>"
proof -
  let ?tail = "concat (map (\<lambda>p. [CHR 0x22] @ escape p @ [CHR 0x22, CHR '' '']) ps) @ '';''"
  let ?q = "Query_new junk"
  obtain c cs where c: "w = c # cs" using w(1) command_words(3) [OF cmd] by (cases w) auto
  have a: "c \<noteq> CHR '' ''" "c \<noteq> CHR 0x0A" "isalpha c" using w(2) c not_alpha by auto
  have "parse_loop EXPECT_COMMAND [] ?q (w @ CHR '' '' # digits (unat k) @ '' '' @ ?tail) =
      parse_loop READ_COMMAND [] ?q (w @ CHR '' '' # digits (unat k) @ '' '' @ ?tail)"
    using a by (simp add: c)
  also have "\<dots> = parse_loop EXPECT_KEY [] (?q\<lparr>command := cmd\<rparr>) (digits (unat k) @ '' '' @ ?tail)"
    using command_words(2) [OF cmd] w by (intro read_command_run) simp_all
  also have "\<dots> = parse_loop READ_KEY [] (?q\<lparr>command := cmd\<rparr>) (digits (unat k) @ '' '' @ ?tail)"
    using digits_digits digits_nonempty by (intro expect_key_run) auto
  also have "\<dots> = parse_loop EXPECT_PAYLOAD [] (?q\<lparr>command := cmd, key := k\<rparr>) ?tail"
    using read_key_run [of "digits (unat k)" "[]" k "?q\<lparr>command := cmd\<rparr>" ?tail] digits_digits stoull_digits
    by simp
  also have "\<dots> = \<lparr>valid = True, command = cmd, key = k, payload = ps\<rparr>"
    unfolding payloads_run by (simp add: Query_new_def)
  finally show ?thesis by (simp add: ParseQuery_def)
qed

section \<open>What a valid answer means\<close>

lemma command_of_word_valid: "command_of_word w = Some cmd \<Longrightarrow> cmd \<noteq> Command_Invalid"
  by (auto simp: command_of_word_def split: if_splits)

text \<open>The command is set before the machine can reach a state that accepts.\<close>

definition parse_inv :: "ParserState \<Rightarrow> Query \<Rightarrow> bool" where
  "parse_inv st q \<longleftrightarrow> \<not> valid q \<and>
     (st \<noteq> EXPECT_COMMAND \<longrightarrow> st \<noteq> READ_COMMAND \<longrightarrow> command q \<noteq> Command_Invalid)"

lemma parse_loop_valid:
  "parse_inv st q \<Longrightarrow> valid (parse_loop st temp q cs) \<Longrightarrow>
    command (parse_loop st temp q cs) \<noteq> Command_Invalid \<and> CHR '';'' \<in> set cs"
  by (induction st temp q cs rule: parse_loop.induct)
    (auto simp: parse_inv_def dest: command_of_word_valid split: if_splits option.splits list.splits)

end
