(* ===== verification/Client_Properties.thy ===== *)
theory Client_Properties
  imports Protocol
begin

text \<open>
  The properties of the client's parser and of the wire protocol: what a typed query parses to,
  which queries are valid, what the checksum of a header detects, what the client reads from a reply.
\<close>

section \<open>The parser\<close>

text \<open>
  C32. A query means what it says. A command word in any case, the digits of a key and payload
  strings of any characters, quoted and escaped, parse to exactly that command, key and
  payload, whatever the uninitialised key was.
\<close>

theorem parser_roundtrip:
  assumes "cmd \<noteq> Command_Invalid" and "map tolower w = command_word cmd" and "\<forall>c \<in> set w. isalpha c"
  shows "ParseQuery junk (w @ '' '' @ digits (unat k) @ '' '' @
      concat (map (\<lambda>p. [CHR 0x22] @ escape p @ [CHR 0x22, CHR '' '']) ps) @ '';'') =
    \<lparr>valid = True, command = cmd, key = k, payload = ps\<rparr>"
  by (rule ParseQuery_print [OF assms(2,3,1)])

theorem parser_roundtrip_witness:
  "ParseQuery 99 (''INSERT'' @ '' '' @ digits (unat (42 :: Key)) @ '' '' @
      concat (map (\<lambda>p. [CHR 0x22] @ escape p @ [CHR 0x22, CHR '' '']) [''a\"b'', [CHR 0x5C]]) @ '';'') =
    \<lparr>valid = True, command = Command_Insert, key = 42, payload = [''a\"b'', [CHR 0x5C]]\<rparr>"
proof (rule parser_roundtrip)
  show "map tolower ''INSERT'' = command_word Command_Insert" by code_simp
  show "\<forall>c \<in> set ''INSERT''. isalpha c" by code_simp
qed simp

text \<open>The key is set before the machine can reach a state that accepts.\<close>

lemma parse_loop_key:
  "\<not> valid q \<Longrightarrow> st \<noteq> EXPECT_PAYLOAD \<Longrightarrow> st \<noteq> READ_PAYLOAD \<Longrightarrow> valid (parse_loop st temp q cs) \<Longrightarrow>
    parse_loop st temp (q\<lparr>key := j\<rparr>) cs = parse_loop st temp q cs"
proof (induction st temp q cs rule: parse_loop.induct)
  case (3 temp q c cs)
  have swap: "q\<lparr>key := j, command := cmd\<rparr> = q\<lparr>command := cmd, key := j\<rparr>" for cmd by simp
  show ?case
  proof (cases "isalpha c")
    case False
    then show ?thesis using 3 by (cases "command_of_word temp") (auto simp only: parse_loop.simps swap
          split: if_splits option.splits, simp_all)
  qed (use 3 in simp)
qed (auto split: if_splits option.splits)

text \<open>
  C31. Only complete queries are valid. A query the parser reports valid has a command and its
  terminating semicolon, and does not depend on the uninitialised key field.
\<close>

theorem parser_valid:
  assumes "valid (ParseQuery junk s)"
  shows "command (ParseQuery junk s) \<noteq> Command_Invalid \<and> CHR '';'' \<in> set s \<and>
    ParseQuery junk' s = ParseQuery junk s"
proof -
  have "parse_inv EXPECT_COMMAND (Query_new junk)" by (simp add: parse_inv_def Query_new_def)
  moreover have "Query_new junk' = (Query_new junk)\<lparr>key := junk'\<rparr>" by (simp add: Query_new_def)
  ultimately show ?thesis
    using parse_loop_valid [of EXPECT_COMMAND "Query_new junk" "[]" s] assms
      parse_loop_key [of "Query_new junk" EXPECT_COMMAND "[]" s junk']
    by (simp add: ParseQuery_def Query_new_def)
qed

theorem parser_valid_witness:
  "ParseQuery 7 ''delete 5;'' = ParseQuery 0 ''delete 5;''"
proof -
  have "valid (ParseQuery 0 ''delete 5;'')"
    by (simp add: ParseQuery_def Query_new_def isalpha_def isdigit_def code_def tolower_def command_of_word_def
        stoull_def decimal_def)
  then show ?thesis using parser_valid by blast
qed

section \<open>Checksums and replies\<close>

text \<open>
  C33. The checksum. A struct sealed by \<open>SetChecksum\<close> verifies, sealing changes only the checksum
  field, and the change of any single byte of a struct that verifies is detected.
\<close>

theorem checksum_detects:
  assumes "4 \<le> n" and "i < n" and "b \<noteq> m i"
  shows "VerifyChecksum (SetChecksum m n) n \<and> (\<forall>j. j < n - 4 \<longrightarrow> SetChecksum m n j = m j) \<and>
    (VerifyChecksum m n \<longrightarrow> \<not> VerifyChecksum (m(i := b)) n)"
  using SetChecksum_verifies [OF assms(1)] SetChecksum_data VerifyChecksum_detects [where m = m, OF _ assms(2,3,1)] by blast

theorem checksum_detects_witness:
  "VerifyChecksum (SetChecksum (\<lambda>_. 0) 13) 13 \<and> \<not> VerifyChecksum ((SetChecksum (\<lambda>_. 0) 13)(8 := 3)) 13"
proof -
  have "SetChecksum (\<lambda>_. 0) 13 8 = 0" by (simp add: SetChecksum_data)
  then show ?thesis
    using checksum_detects [of 13 8 3 "SetChecksum (\<lambda>_. 0) 13"] SetChecksum_verifies [of 13 "\<lambda>_. 0"] by simp
qed

text \<open>
  Replies. The client reads from a reply exactly the status and the body the server wrote,
  leaves what follows alone, and takes a reply with a corrupted header byte behind the
  checksum's back for an empty response.
\<close>

theorem client_reads_reply:
  assumes "14 + length body < 4294967296" and "status < 256" and "cmd \<noteq> cmd'"
  shows "client_receive cmd (bytes (make_response_header stack cmd status (14 + length body)) 0 14 @ body @ rest) =
      Some \<lparr>status_code = status, response_payload = body\<rparr> \<and>
    client_receive cmd' (bytes (make_response_header stack cmd status (14 + length body)) 0 14 @ body @ rest) =
      Some empty_response"
proof -
  let ?h = "make_response_header stack cmd status (14 + length body)"
  have ld: "load_le (of_bytes (bytes ?h 0 14)) a k = load_le ?h a k" if "a + k \<le> 14" for a k
    using load_of_bytes_prefix [OF that, of ?h "[]"] by simp
  have "client_receive cmd' (bytes ?h 0 14 @ body @ rest) = Some empty_response"
    unfolding client_receive_def Let_def sizes
    using response_header_fields(4) [OF assms(1,2), of stack cmd] assms(3)
    by (simp add: ld Command_code_inject)
  then show ?thesis using client_receive_reply [OF assms(1,2)] by simp
qed

theorem client_reads_reply_witness:
  "client_receive Command_Search (bytes (make_response_header (\<lambda>_. 0) Command_Search 1 17) 0 14 @ [65, 66, 67] @ []) =
    Some \<lparr>status_code = 1, response_payload = [65, 66, 67]\<rparr>"
  using client_reads_reply [of "[65, 66, 67]" 1 Command_Search Command_Quit "\<lambda>_. 0" "[]"] by simp

end
