(* ===== verification/BTree.thy ===== *)
theory BTree
  imports Pool_Run Leaf_Rebalance Internal_Page "HOL-Library.Monad_Syntax"
begin

text \<open>
  The B+ tree (\<open>database/src/impl/b-tree/b-tree.cpp\<close>) as it is written: every operation on the
  buffer pool, in the order of the code. The state is the pool and the number of the root page;
  a function returns \<open>None\<close> where the code dereferences a null pointer or lets an exception
  escape, and where the fuel given for a descent ends before a leaf is reached.
\<close>

section \<open>State\<close>

record 'd BTree =
  root_page_id :: PageID
  bt_pool :: "'d BufferPool"

text \<open>
  What the tree does with the pool. A page pointer is the index of its frame; using the null
  pointer of a failed request is \<open>None\<close>. The page behind a pointer is \<open>buffer_pool bp i\<close>, a store
  through it is \<open>write_frame\<close>. \<open>stack\<close> is the uninitialised array of the storage manager.
\<close>

definition request_page :: "'d posix \<Rightarrow> 'd BufferPool \<Rightarrow> PageID \<Rightarrow> (nat \<times> 'd BufferPool) option" where
  "request_page os bp pid =
    (let (r, bp) = RequestPage os bp pid
     in case res_value r of None \<Rightarrow> None | Some i \<Rightarrow> Some (i, bp))"

definition release_page :: "'d BufferPool \<Rightarrow> PageID \<Rightarrow> bool \<Rightarrow> 'd BufferPool" where
  "release_page bp pid dirty = snd (ReleasePage bp pid dirty)"

definition alloc_page :: "'d posix \<Rightarrow> mem \<Rightarrow> 'd BufferPool \<Rightarrow> (nat \<times> PageID \<times> 'd BufferPool) option" where
  "alloc_page os stack bp =
    (let (r, bp) = BufferPool_AllocateNewPage os stack bp
     in case new_ptr (res_value r) of None \<Rightarrow> None | Some i \<Rightarrow> Some (i, new_pid (res_value r), bp))"

section \<open>Opening and the root\<close>

text \<open>
  The start can fail with a return code (from the constructor of the tree it is an exception,
  which \<open>Server::Bootstrap\<close> catches) or crash: the page of a new root is not checked, and making
  a leaf of the null pointer of a failed allocation is undefined.
\<close>

datatype boot_failure = BootFailed | NullPage

definition BTree_new :: "'d posix \<Rightarrow> mem \<Rightarrow> 'd BufferPool \<Rightarrow> boot_failure + 'd BTree" where
  "BTree_new os stack bf =
    (case request_page os bf DATABASE_META_PAGE_ID of
       None \<Rightarrow> Inl BootFailed
     | Some (i, bp) \<Rightarrow>
         if load_u32 (buffer_pool bp i) 0 = DATABASE_MAGIC_NUMBER then
           let root = load_u64 (buffer_pool bp i) MAGIC_NUMBER_SIZE
           in Inr \<lparr>root_page_id = root, bt_pool = release_page bp DATABASE_META_PAGE_ID False\<rparr>
         else
           (case alloc_page os stack bp of
              None \<Rightarrow> Inl NullPage
            | Some (j, root, bp) \<Rightarrow>
                let bp = write_frame bp j (LeafPage_MakePage (buffer_pool bp j) 0 0 (\<lambda>_. 0) root 0 0);
                    bp = release_page bp root True;
                    meta_page = store_u32 (buffer_pool bp i) 0 DATABASE_MAGIC_NUMBER;
                    bp = write_frame bp i (store_u64 meta_page MAGIC_NUMBER_SIZE root)
                in Inr \<lparr>root_page_id = root, bt_pool = release_page bp DATABASE_META_PAGE_ID True\<rparr>))"

definition SetNewRoot :: "'d posix \<Rightarrow> 'd BTree \<Rightarrow> PageID \<Rightarrow> 'd BTree option" where
  "SetNewRoot os bt new_root_id = do {
     (i, bp) \<leftarrow> request_page os (bt_pool bt) DATABASE_META_PAGE_ID;
     let bp = write_frame bp i (store_u64 (buffer_pool bp i) MAGIC_NUMBER_SIZE new_root_id);
     Some \<lparr>root_page_id = new_root_id, bt_pool = release_page bp DATABASE_META_PAGE_ID True\<rparr>
   }"

definition GetRootPageID :: "'d BTree \<Rightarrow> PageID" where
  "GetRootPageID bt = root_page_id bt"

section \<open>Insertion\<close>

definition no_split :: SplitReport where
  "no_split = \<lparr>was_split = False, new_page_id = 0, boundary_key = 0\<rparr>"

text \<open>
  \<open>FindPageToWrite\<close> at a leaf, with the leaf in frame \<open>i\<close>. The result is the report, the target
  page (its frame and number, left pinned) and the pool.
\<close>

definition leaf_to_write :: "'d posix \<Rightarrow> mem \<Rightarrow> 'd BufferPool \<Rightarrow> nat \<Rightarrow> Key \<Rightarrow> nat \<Rightarrow>
    (SplitReport \<times> (nat \<times> PageID) \<times> 'd BufferPool) option" where
  "leaf_to_write os stack bp i key buffer_size =
    (let page = buffer_pool bp i;
         total_space = u16 (int (CheckAvailableSpace page) + int (CheckGarbageBytes page));
         min_entry = min MIN_LEAF_PAGE_DATA
           ((SLOT_SIZE + TUPLE_HEADER_SIZE + buffer_size) mod 18446744073709551616)
     in if min_entry \<le> total_space then Some (no_split, (i, page_id page), bp)
        else do {
          (j, new_pid, bp) \<leftarrow> alloc_page os stack bp;
          let (boundary_key, old, new) = LeafPage_HandleSplit (buffer_pool bp i) (buffer_pool bp j) new_pid;
          let bp = write_frame (write_frame bp i old) j new;
          let report = \<lparr>was_split = True, new_page_id = new_pid, boundary_key = boundary_key\<rparr>;
          if boundary_key \<le> key
          then Some (report, (j, new_pid), release_page bp (page_id old) True)
          else Some (report, (i, page_id old), release_page bp new_pid True)
        })"

text \<open>\<open>FindPageToWrite\<close> at an internal page in frame \<open>i\<close>, after the recursive call.\<close>

definition insert_separator :: "'d posix \<Rightarrow> mem \<Rightarrow> PageID \<Rightarrow> nat \<Rightarrow> SplitReport \<Rightarrow> 'd BufferPool \<Rightarrow>
    (SplitReport \<times> 'd BufferPool) option" where
  "insert_separator os stack pid i report bp =
    (if was_split report then
       let page = buffer_pool bp i
       in if CheckSlotAvailable page then
            let page = InsertKeyValue page (boundary_key report) (new_page_id report);
                bp = write_frame bp i page
            in Some (no_split, release_page bp (page_id page) True)
          else do {
            (j, new_pid, bp) \<leftarrow> alloc_page os stack bp;
            let (boundary_key, old, new) = InternalPage_HandleSplit (buffer_pool bp i) (buffer_pool bp j)
              (boundary_key report) (new_page_id report) new_pid;
            let bp = write_frame (write_frame bp i old) j new;
            let bp = release_page (release_page bp pid True) new_pid True;
            Some (\<lparr>was_split = True, new_page_id = new_pid, boundary_key = boundary_key\<rparr>, bp)
          }
     else Some (no_split, release_page bp pid False))"

fun FindPageToWrite :: "'d posix \<Rightarrow> mem \<Rightarrow> nat \<Rightarrow> 'd BufferPool \<Rightarrow> PageID \<Rightarrow> Key \<Rightarrow> nat \<Rightarrow>
    (SplitReport \<times> (nat \<times> PageID) \<times> 'd BufferPool) option" where
  "FindPageToWrite os stack 0 bp pid key buffer_size = None"
| "FindPageToWrite os stack (Suc fuel) bp pid key buffer_size = do {
     (i, bp) \<leftarrow> request_page os bp pid;
     if page_type (buffer_pool bp i) = PageType_code LeafPage then leaf_to_write os stack bp i key buffer_size
     else do {
       let child_page_id = GetChildPageID (buffer_pool bp i) key;
       (report, to_write_page, bp) \<leftarrow> FindPageToWrite os stack fuel bp child_page_id key buffer_size;
       (report, bp) \<leftarrow> insert_separator os stack pid i report bp;
       Some (report, to_write_page, bp)
     }
   }"

text \<open>The new root above a root that was split.\<close>

definition grow_root :: "'d posix \<Rightarrow> mem \<Rightarrow> SplitReport \<Rightarrow> 'd BTree \<Rightarrow> 'd BTree option" where
  "grow_root os stack report bt =
    (if was_split report then do {
       (j, new_root_id, bp) \<leftarrow> alloc_page os stack (bt_pool bt);
       let keys_ptr = put_elem (\<lambda>_. 0) 0 0 (boundary_key report);
       let children_ptr = put_elem (put_elem (\<lambda>_. 0) 0 0 (root_page_id bt)) 0 1 (new_page_id report);
       let bp = write_frame bp j (InternalPage_MakePage (buffer_pool bp j) keys_ptr 0 children_ptr 0 1 new_root_id);
       bt \<leftarrow> SetNewRoot os (bt\<lparr>bt_pool := bp\<rparr>) new_root_id;
       Some (bt\<lparr>bt_pool := release_page (bt_pool bt) (root_page_id bt) True\<rparr>)
     }
     else Some bt)"

text \<open>
  The loop of \<open>Insert\<close>: \<open>i\<close> and \<open>pid\<close> are the page written last, \<open>addr\<close> the address of its
  overflow information; the bytes left to write start at \<open>buffer\<close>.
\<close>

function overflow_loop :: "'d posix \<Rightarrow> mem \<Rightarrow> 'd BufferPool \<Rightarrow> nat \<Rightarrow> PageID \<Rightarrow> nat option \<Rightarrow> mem \<Rightarrow> nat \<Rightarrow>
    (PageID \<times> 'd BufferPool) option" where
  "overflow_loop os stack bp i pid addr buffer buffer_size =
    (if buffer_size = 0 then Some (pid, bp)
     else do {
       (j, new_pid, bp) \<leftarrow> alloc_page os stack bp;
       let page = store_u8 (buffer_pool bp j) 0 (PageType_code OverflowPage);
       let bp = write_frame bp j (store_u64 page 1 new_pid);
       a \<leftarrow> addr;
       let bp = write_frame bp i (store_u64 (store_u8 (buffer_pool bp i) a 1) (a + 1) new_pid);
       let bp = release_page bp pid True;
       let (write_status, page) = LeafPage_WriteChunkOverflow (buffer_pool bp j) buffer buffer_size;
       let bp = write_frame bp j page;
       overflow_loop os stack bp j new_pid (overflow_info_store_address write_status)
         (ptr buffer (written write_status)) (buffer_size - written write_status)
     })"
  by pat_completeness auto
termination
proof (relation "measure (\<lambda>(os, stack, bp, i, pid, addr, buffer, buffer_size). buffer_size)", goal_cases)
  case (2 os stack bp i pid addr buffer buffer_size)
  then show ?case
    by (auto simp: LeafPage_WriteChunkOverflow_def Let_def PAGE_SIZE_def OVERFLOW_PAGE_HEADER_SIZE_def
        split: if_splits)
qed simp

declare overflow_loop.simps [simp del]

definition BTree_Insert :: "'d posix \<Rightarrow> mem \<Rightarrow> nat \<Rightarrow> 'd BTree \<Rightarrow> mem \<Rightarrow> nat \<Rightarrow> Key \<Rightarrow> (bool \<times> 'd BTree) option" where
  "BTree_Insert os stack fuel bt buffer buffer_size key = do {
     (report, (i, pid), bp) \<leftarrow> FindPageToWrite os stack fuel (bt_pool bt) (root_page_id bt) key buffer_size;
     bt \<leftarrow> grow_root os stack report (bt\<lparr>bt_pool := bp\<rparr>);
     let (write_status, page) = LeafPage_WriteChunkLeaf (buffer_pool (bt_pool bt) i) buffer buffer_size key None;
     let bp = write_frame (bt_pool bt) i page;
     (pid, bp) \<leftarrow> overflow_loop os stack bp i pid (overflow_info_store_address write_status)
       (ptr buffer (written write_status)) (buffer_size - written write_status);
     Some (True, bt\<lparr>bt_pool := release_page bp pid True\<rparr>)
   }"

end
