(* ===== verification/Payload_Stream.thy ===== *)
theory Payload_Stream
  imports BTree
begin

text \<open>
  The reader a search returns (\<open>PayloadStream\<close> in \<open>database/src/impl/page/leaf_page.cpp\<close>) and the
  search of the tree that creates it (\<open>database/src/impl/b-tree/b-tree.cpp\<close>). The stream walks the
  chunk of a tuple in its leaf and then the chain of overflow pages, one pin at a time.
\<close>

section \<open>The stream\<close>

text \<open>
  The pointer to the pool is left out: it is null exactly in the default stream, which has
  nothing to read and never uses it.
\<close>

record PayloadStream =
  curr_pid :: PageID
  curr_page_offset :: nat
  curr_page_end :: nat
  total_bytes :: nat
  bytes_read :: nat
  overflow :: bool
  ps_overflow_page :: PageID

definition u64 :: "int \<Rightarrow> nat" where
  "u64 i = nat (i mod 18446744073709551616)"

lemma u64_small [simp]: "0 \<le> i \<Longrightarrow> i < 18446744073709551616 \<Longrightarrow> u64 i = nat i"
  by (simp add: u64_def)

definition PayloadStream_empty :: PayloadStream where
  "PayloadStream_empty = \<lparr>curr_pid = 0, curr_page_offset = 0, curr_page_end = 0, total_bytes = 0,
     bytes_read = 0, overflow = False, ps_overflow_page = 0\<rparr>"

definition PayloadStream_new :: "PageID \<Rightarrow> SearchResult \<Rightarrow> PayloadStream" where
  "PayloadStream_new leaf_pid r =
    \<lparr>curr_pid = leaf_pid, curr_page_offset = tuple_offset r + TUPLE_HEADER_SIZE,
     curr_page_end = tuple_end_offset r, total_bytes = total_tuple_size r, bytes_read = 0,
     overflow = sr_overflow r, ps_overflow_page = overflow_page_id r\<rparr>"

text \<open>\<open>ReadPage\<close> returns the offset behind the last byte read, here with the bytes it copied.\<close>

definition PayloadStream_ReadPage :: "mem \<Rightarrow> nat \<Rightarrow> nat \<Rightarrow> nat \<Rightarrow> nat \<times> byte list" where
  "PayloadStream_ReadPage page n start_offset max_offset =
    (let possible_reads = u64 (int max_offset - int start_offset + 1)
     in if n \<le> possible_reads then (start_offset + n, bytes page start_offset n)
        else (start_offset + possible_reads, bytes page start_offset possible_reads))"

lemma ReadPage_progress:
  assumes "PayloadStream_ReadPage page n start bound = (r, c)"
  shows "r - start \<le> n" "start = 18 \<Longrightarrow> bound = 4095 \<Longrightarrow> 0 < n \<Longrightarrow> 0 < r - start"
  using assms by (auto simp: PayloadStream_ReadPage_def Let_def split: if_splits)

definition PayloadRemaining :: "PayloadStream \<Rightarrow> nat" where
  "PayloadRemaining s = u64 (int (total_bytes s) - int (bytes_read s))"

definition IsEOF :: "PayloadStream \<Rightarrow> bool" where
  "IsEOF s \<longleftrightarrow> total_bytes s \<le> bytes_read s"

text \<open>
  The loop of \<open>NextBytes\<close> with the frame \<open>i\<close> of the current page; \<open>None\<close> is the null pointer of a
  failed request. In an overflow page every round reads a byte at least.
\<close>

function next_loop :: "'d posix \<Rightarrow> 'd BufferPool \<Rightarrow> PayloadStream \<Rightarrow> nat \<Rightarrow> nat \<Rightarrow> byte list \<Rightarrow>
    (byte list \<times> PayloadStream \<times> 'd BufferPool) option" where
  "next_loop os bp s i bytes_to_read acc =
    (if bytes_to_read = 0 then Some (acc, s, bp)
     else
       let (result, chunk) = PayloadStream_ReadPage (buffer_pool bp i) bytes_to_read (curr_page_offset s)
             (u64 (int (curr_page_end s) - 1));
           bytes_read_from_page = result - curr_page_offset s;
           s = s\<lparr>bytes_read := bytes_read s + bytes_read_from_page\<rparr>;
           bytes_to_read = bytes_to_read - bytes_read_from_page
       in if result = curr_page_end s then
            (if overflow s then do {
               let bp = release_page bp (curr_pid s) False;
               let s = s\<lparr>curr_pid := ps_overflow_page s, curr_page_offset := OVERFLOW_PAGE_HEADER_SIZE,
                         curr_page_end := PAGE_SIZE\<rparr>;
               (j, bp) \<leftarrow> request_page os bp (curr_pid s);
               let curr_page = buffer_pool bp j;
               let s = s\<lparr>overflow := (load_u8 curr_page 9 > 0), ps_overflow_page := load_u64 curr_page 10\<rparr>;
               next_loop os bp s j bytes_to_read (acc @ chunk)
             }
             else Some (acc @ chunk, s, bp))
          else Some (acc @ chunk, s\<lparr>curr_page_offset := result\<rparr>, bp))"
  by pat_completeness auto
termination
proof (relation "measure (\<lambda>(os, bp, s, i, b, acc).
    2 * b + (if curr_page_offset s = OVERFLOW_PAGE_HEADER_SIZE \<and> curr_page_end s = PAGE_SIZE then 0 else 1))", goal_cases)
  case 1
  then show ?case by simp
next
  case (2 os bp s i b acc x r c n s1 b1 bp1 s2 a j bp2 page s3)
  have rd: "PayloadStream_ReadPage (buffer_pool bp i) b (curr_page_offset s) (u64 (int (curr_page_end s) - 1)) = (r, c)"
    using 2(2,3) by simp
  have b1: "b1 = b - (r - curr_page_offset s)" using 2(4,6) by simp
  have "0 < r - curr_page_offset s" if "curr_page_offset s = 18" "curr_page_end s = 4096"
    using ReadPage_progress(2) [OF rd] that 2(1) by simp
  moreover have "curr_page_offset s3 = 18" "curr_page_end s3 = 4096"
    unfolding 2(14) 2(10) by (simp_all add: PAGE_SIZE_def OVERFLOW_PAGE_HEADER_SIZE_def)
  ultimately show ?case
    using ReadPage_progress(1) [OF rd] 2(1) by (auto simp: b1 PAGE_SIZE_def OVERFLOW_PAGE_HEADER_SIZE_def)
qed

declare next_loop.simps [simp del]

text \<open>\<open>NextBytes\<close>: the bytes put into the caller's buffer, the stream and the pool after the call.\<close>

definition NextBytes :: "'d posix \<Rightarrow> 'd BufferPool \<Rightarrow> PayloadStream \<Rightarrow> nat \<Rightarrow>
    (byte list \<times> PayloadStream \<times> 'd BufferPool) option" where
  "NextBytes os bp s n =
    (let total_possible_read_size = u64 (int (total_bytes s) - int (bytes_read s));
         bytes_to_read = min n total_possible_read_size
     in if total_possible_read_size = 0 then Some ([], s, bp)
        else do {
          (i, bp) \<leftarrow> request_page os bp (curr_pid s);
          (out, s, bp) \<leftarrow> next_loop os bp s i bytes_to_read [];
          Some (out, s, release_page bp (curr_pid s) False)
        })"

section \<open>Search\<close>

text \<open>A page that is neither internal nor a leaf is not released.\<close>

fun search_from :: "'d posix \<Rightarrow> nat \<Rightarrow> 'd BufferPool \<Rightarrow> PageID \<Rightarrow> Key \<Rightarrow> (PayloadStream \<times> 'd BufferPool) option" where
  "search_from os 0 bp pid key = None"
| "search_from os (Suc fuel) bp pid key = do {
     (i, bp) \<leftarrow> request_page os bp pid;
     let page = buffer_pool bp i;
     if page_type page = PageType_code InternalPage then
       let child_pid = GetChildPageID page key
       in search_from os fuel (release_page bp pid False) child_pid key
     else if page_type page = PageType_code LeafPage then
       let result = LeafPage_Search page key
       in if \<not> found result then Some (PayloadStream_empty, release_page bp pid False)
          else Some (PayloadStream_new pid result, release_page bp pid False)
     else Some (PayloadStream_empty, bp)
   }"

definition BTree_Search :: "'d posix \<Rightarrow> nat \<Rightarrow> 'd BTree \<Rightarrow> Key \<Rightarrow> (PayloadStream \<times> 'd BTree) option" where
  "BTree_Search os fuel bt key = do {
     (s, bp) \<leftarrow> search_from os fuel (bt_pool bt) (root_page_id bt) key;
     Some (s, bt\<lparr>bt_pool := bp\<rparr>)
   }"

end
