(* ===== verification/Pool_Pins.thy ===== *)
theory Pool_Pins
  imports Pool_Run "HOL-Library.Multiset"
begin

text \<open>
  The pool for a client that counts its pins. \<open>pins_ok\<close> says that the pin counts are exactly the
  client's, that no frame is lost, and that every unpinned frame waits in the queue; it makes
  requests and allocations total as long as fewer pages are pinned than there are frames.
  \<open>cache\<close> packs what a client knows: its pins, the frames of its pinned pages, the content of
  every page and the next page number. The four rules at the end are all the tree needs.
\<close>

section \<open>Counting pins\<close>

definition pins_ok :: "PageID multiset \<Rightarrow> 'd BufferPool \<Rightarrow> bool" where
  "pins_ok P bp \<longleftrightarrow>
     (\<forall>pid i. page_table bp pid = Some i \<longrightarrow>
        pin_count (buffer_pool_meta bp i) = count P pid \<and>
        (is_in_queue (buffer_pool_meta bp i) \<longrightarrow> i \<in> set (unpinned_frames bp)) \<and>
        (pid \<notin># P \<longrightarrow> i \<in> set (unpinned_frames bp))) \<and>
     (\<forall>pid. pid \<in># P \<longrightarrow> page_table bp pid \<noteq> None)"

text \<open>No frame is lost, except possibly \<open>c\<close>.\<close>

definition frames_kept :: "nat set \<Rightarrow> 'd BufferPool \<Rightarrow> bool" where
  "frames_kept C bp \<longleftrightarrow> (\<forall>i < POOL_SIZE. i \<in> set (free_frames bp) \<or> i \<in> ran (page_table bp) \<or> i \<in> C)"

lemma pins_okD:
  assumes "pins_ok P bp"
  shows "page_table bp pid = Some i \<Longrightarrow> pin_count (buffer_pool_meta bp i) = count P pid"
    "page_table bp pid = Some i \<Longrightarrow> is_in_queue (buffer_pool_meta bp i) \<Longrightarrow> i \<in> set (unpinned_frames bp)"
    "page_table bp pid = Some i \<Longrightarrow> pid \<notin># P \<Longrightarrow> i \<in> set (unpinned_frames bp)"
    "pid \<in># P \<Longrightarrow> \<exists>i. page_table bp pid = Some i"
  using assms by (auto simp: pins_ok_def)

lemma find_loop_drops:
  "find_loop k q m idx = (idx', q', m') \<Longrightarrow> (is_in_queue (m' i) \<longrightarrow> is_in_queue (m i)) \<and>
    (i \<in> set q \<longrightarrow> i \<notin> set q' \<longrightarrow> idx' = Some i \<or> pin_count (m i) > 0 \<and> \<not> is_in_queue (m' i))"
proof (induction k q m idx rule: find_loop.induct)
  case (3 k j q m idx)
  consider "pin_count (m j) > 0" | "pin_count (m j) = 0" "reference_bit (m j) = 1"
    | "pin_count (m j) = 0" "reference_bit (m j) \<noteq> 1" by blast
  then show ?case
  proof cases
    case 1
    define m1 where "m1 = m(j := (m j)\<lparr>is_in_queue := False\<rparr>)"
    have "find_loop k q m1 (Some j) = (idx', q', m')" using "3.prems" 1 by (simp add: m1_def)
    from "3.IH"(1) [OF 1 this [unfolded m1_def], folded m1_def] show ?thesis
      using 1 by (auto simp: m1_def split: if_splits)
  next
    case 2
    define m1 where "m1 = m(j := (m j)\<lparr>reference_bit := 0\<rparr>)"
    have n: "\<not> pin_count (m j) > 0" using 2 by simp
    have "find_loop k (q @ [j]) m1 (Some j) = (idx', q', m')" using "3.prems" 2 by (simp add: m1_def)
    from "3.IH"(2) [OF n 2(2) this [unfolded m1_def], folded m1_def] show ?thesis
      using 2 by (auto simp: m1_def split: if_splits)
  qed (use "3.prems" in auto)
qed auto

lemma FindPageToEvict_drops:
  assumes "FindPageToEvict bp = (r, bp')" "res_err r = ErrNone" "i \<in> set (unpinned_frames bp)"
    "i \<notin> set (unpinned_frames bp')"
  shows "res_value r = i \<or> pin_count (buffer_pool_meta bp i) > 0 \<and> \<not> is_in_queue (buffer_pool_meta bp' i)"
proof -
  obtain idx q m where l: "find_loop (2 * length (unpinned_frames bp)) (unpinned_frames bp)
      (buffer_pool_meta bp) None = (idx, q, m)" by (metis prod_cases3)
  show ?thesis
    using assms l find_loop_drops [OF l, of i] by (auto simp: FindPageToEvict_def Let_def split: option.splits)
qed

lemma FindPageToEvict_flags:
  assumes "FindPageToEvict bp = (r, bp')" "is_in_queue (buffer_pool_meta bp' i)"
  shows "is_in_queue (buffer_pool_meta bp i)"
proof -
  obtain idx q m where l: "find_loop (2 * length (unpinned_frames bp)) (unpinned_frames bp)
      (buffer_pool_meta bp) None = (idx, q, m)" by (metis prod_cases3)
  show ?thesis
    using assms l find_loop_drops [OF l, of i] by (auto simp: FindPageToEvict_def Let_def split: option.splits)
qed

text \<open>With fewer pins than frames and no free frame, an unpinned frame is in the queue.\<close>

lemma unpinned_exists:
  assumes inv: "pool_inv bp" and pins: "pins_ok P bp" and kept: "frames_kept {} bp"
    and free: "free_frames bp = []" and few: "size P < 1000"
  shows "\<exists>i \<in> set (unpinned_frames bp). pin_count (buffer_pool_meta bp i) = 0"
proof -
  define f where "f = (\<lambda>i. fm_page_id (buffer_pool_meta bp i))"
  have all: "\<exists>pid. page_table bp pid = Some i \<and> f i = pid" if "i < 1000" for i
    using kept that free pool_invD(3) [OF inv] by (fastforce simp: frames_kept_def ran_def f_def)
  have "inj_on f {..<1000}"
    by (rule inj_onI) (metis all lessThan_iff option.inject)
  then have "card (f ` {..<1000}) = 1000" by (simp add: card_image)
  moreover have "card (set_mset P) \<le> size P"
    unfolding size_multiset_overloaded_eq card_eq_sum by (rule sum_mono) (simp add: Suc_le_eq)
  ultimately have "\<not> f ` {..<1000} \<subseteq> set_mset P" using few card_mono [of "set_mset P" "f ` {..<1000}"] by auto
  then obtain i where i: "i < 1000" "f i \<notin># P" by auto
  then have t: "page_table bp (f i) = Some i" using all by blast
  then show ?thesis
    using pins_okD(1,3) [OF pins t] i(2) by (auto simp: not_in_iff intro!: bexI [of _ i])
qed

section \<open>The storage below the pool\<close>

text \<open>Every page below the next page number lies in the file.\<close>

definition store_ok :: "('d \<Rightarrow> nat \<Rightarrow> byte) \<Rightarrow> ('d \<Rightarrow> nat) \<Rightarrow> PageID \<Rightarrow> 'd StorageManager \<Rightarrow> bool" where
  "store_ok file_byte file_size n sm \<longleftrightarrow> storage_inv file_byte file_size sm \<and>
     new_page_offset_index sm = n \<and> unat n \<le> 4503599627370496 \<and> 4096 * unat n \<le> file_size (fd_database sm)"

lemma below_index:
  assumes "store_ok fb fs n sm" "pid < n"
  shows "valid_pid pid" "page_offset pid + 4096 \<le> fs (fd_database sm)"
proof -
  have l: "unat pid < unat n" using assms(2) by (simp add: word_less_nat_alt)
  then show v: "valid_pid pid" using assms(1) by (simp add: valid_pid_def store_ok_def)
  have "4096 * Suc (unat pid) \<le> 4096 * unat n" using l by (intro mult_le_mono2) simp
  then show "page_offset pid + 4096 \<le> fs (fd_database sm)"
    using assms(1) by (simp add: page_offset_valid [OF v] store_ok_def)
qed

context regular_file begin

lemma write_store_ok:
  assumes st: "store_ok file_byte file_size n sm" and pid: "pid \<noteq> 0" "valid_pid pid"
    and w: "PrivateWritePage os sm pid buf = (r, sm')"
  shows "store_ok file_byte file_size n sm'" "res_err r = ErrNone"
proof -
  obtain d' where d: "PrivateWritePage os sm pid buf = (mk_result True ErrNone, sm\<lparr>fd_database := d'\<rparr>)"
    "file_size d' = max (file_size (fd_database sm)) (page_offset pid + 4096)"
    by (rule PrivateWritePage_complete)
  have v: "valid_pid 0" by (simp add: valid_pid_def)
  have z: "on_disk sm' 0 = on_disk sm 0" using PrivateWritePage_other [OF w pid(2) v] pid(1) by simp
  show "store_ok file_byte file_size n sm'"
    using st d w z by (auto simp: store_ok_def storage_inv_def persisted_magic_def persisted_index_def)
  show "res_err r = ErrNone" using w d(1) by auto
qed

lemma EvictPage_total:
  assumes inv: "pool_inv bp" and i: "page_table bp pid = Some i"
    and st: "store_ok file_byte file_size n (storage_manager bp)" and r: "EvictPage os bp i = (r, bp')"
  shows "r = mk_result i ErrNone" "store_ok file_byte file_size n (storage_manager bp')"
    "page_table bp' = (page_table bp)(pid := None)" "free_frames bp' = free_frames bp"
    "unpinned_frames bp' = unpinned_frames bp" "buffer_pool bp' = buffer_pool bp"
    "buffer_pool_meta bp' = (buffer_pool_meta bp)(i := empty_meta)"
proof -
  note p = pool_invD(2-4) [OF inv i]
  obtain ws sm where w: "PrivateWritePage os (storage_manager bp) pid (buffer_pool bp i) = (ws, sm)" by fastforce
  have e: "EvictPage os bp i = (mk_result i ErrNone,
      bp\<lparr>storage_manager := (if is_dirty (buffer_pool_meta bp i) then sm else storage_manager bp),
         page_table := (page_table bp)(pid := None),
         buffer_pool_meta := (buffer_pool_meta bp)(i := empty_meta)\<rparr>)"
    using write_store_ok(2) [OF st p(1,3) w] w
    by (simp add: EvictPage_def p(2) WritePage_private [OF p(1)])
  then show "r = mk_result i ErrNone" "store_ok file_byte file_size n (storage_manager bp')"
    "page_table bp' = (page_table bp)(pid := None)" "free_frames bp' = free_frames bp"
    "unpinned_frames bp' = unpinned_frames bp" "buffer_pool bp' = buffer_pool bp"
    "buffer_pool_meta bp' = (buffer_pool_meta bp)(i := empty_meta)"
    using r st write_store_ok(1) [OF st p(1,3) w] by auto
qed

text \<open>
  The search for a victim goes over the queue of unpinned frames: of a mapped frame other than the
  victim it keeps the pins, and leaves it in the queue when it may be evicted later.
\<close>

lemma victim_search_pins:
  assumes inv: "pool_inv bp" and pins: "pins_ok P bp" and fv: "FindPageToEvict bp = (v, bp1)" and u: "res_err v = ErrNone"
    and pid: "page_table bp pid = Some (res_value v)" and q: "q \<noteq> pid" "page_table bp q = Some i"
  shows "i \<noteq> res_value v" "pin_count (buffer_pool_meta bp1 i) = count P q"
    "is_in_queue (buffer_pool_meta bp1 i) \<longrightarrow> i \<in> set (unpinned_frames bp1)"
    "q \<notin># P \<longrightarrow> i \<in> set (unpinned_frames bp1)"
proof -
  show ic: "i \<noteq> res_value v" using page_table_inj [OF inv q(2), of pid] pid q(1) by blast
  have drop: "i \<in> set (unpinned_frames bp1)"
    if "i \<in> set (unpinned_frames bp)" "pin_count (buffer_pool_meta bp i) = 0 \<or> is_in_queue (buffer_pool_meta bp1 i)"
  proof (rule ccontr)
    assume "i \<notin> set (unpinned_frames bp1)"
    from FindPageToEvict_drops [OF fv u that(1) this] show False using that(2) ic by auto
  qed
  show "is_in_queue (buffer_pool_meta bp1 i) \<longrightarrow> i \<in> set (unpinned_frames bp1)"
    using drop pins_okD(2) [OF pins q(2)] FindPageToEvict_flags [OF fv] by blast
  show "q \<notin># P \<longrightarrow> i \<in> set (unpinned_frames bp1)"
    using drop pins_okD(1,3) [OF pins q(2)] by (metis count_eq_zero_iff)
  show "pin_count (buffer_pool_meta bp1 i) = count P q"
    using pins_okD(1) [OF pins q(2)] FindPageToEvict_frame(1) [OF fv] by (simp add: same_frames_def)
qed

lemma claim_frame_total:
  assumes ok: "pool_but file_byte D W bp" and pins: "pins_ok P bp" and kept: "frames_kept {} bp"
    and few: "size P < 1000" and st: "store_ok file_byte file_size n (storage_manager bp)"
    and r: "claim_frame os bp = (f, bp')"
  shows "\<exists>c. f = Some c \<and> pins_ok P bp' \<and> frames_kept {c} bp' \<and>
    store_ok file_byte file_size n (storage_manager bp') \<and>
    (\<forall>pid. pid \<in># P \<longrightarrow> page_table bp' pid = page_table bp pid)"
proof (cases "free_frames bp = []")
  case False
  let ?c = "last (free_frames bp)"
  have e: "f = Some ?c" "bp' = bp\<lparr>free_frames := butlast (free_frames bp)\<rparr>"
    using r False by (simp_all add: claim_frame_def CheckFreeSpace_def)
  have "set (free_frames bp) = insert ?c (set (butlast (free_frames bp)))"
    using append_butlast_last_id [OF False] by (metis list.set(2) rotate1.simps(2) set_rotate1)
  then show ?thesis
    using pins kept st by (auto simp: e pins_ok_def frames_kept_def)
next
  case True
  have inv: "pool_inv bp" using ok by (simp add: pool_but_def)
  obtain v bp1 where fv: "FindPageToEvict bp = (v, bp1)" by fastforce
  note fo = FindPageToEvict_ok [OF ok fv]
  note u = FindPageToEvict_victim [OF pool_invD(8) [OF inv] unpinned_exists [OF inv pins kept True few] fv]
  define c where "c = res_value v"
  obtain pid where pid: "page_table bp pid = Some c" using pool_invD(9) [OF inv u(2)] by (auto simp: c_def)
  have np: "pid \<notin># P" using pins_okD(1) [OF pins pid] u(3) by (simp add: c_def not_in_iff)
  have inv1: "pool_inv bp1" using fo(1) by (simp add: pool_but_def)
  obtain e bp2 where ev: "EvictPage os bp1 c = (e, bp2)" by fastforce
  have t1: "page_table bp1 pid = Some c" using fo(3) pid by simp
  note et = EvictPage_total [OF inv1 t1 _ ev, of n, unfolded fo(5), OF st]
  have res: "f = Some c" "bp' = bp2"
    using r True fv u(1) ev et(1) by (simp_all add: claim_frame_def CheckFreeSpace_def c_def)
  have table: "page_table bp2 = (page_table bp)(pid := None)" using et(3) fo(3) by simp
  have one: "pin_count (buffer_pool_meta bp2 i) = count P q \<and>
      (is_in_queue (buffer_pool_meta bp2 i) \<longrightarrow> i \<in> set (unpinned_frames bp2)) \<and>
      (q \<notin># P \<longrightarrow> i \<in> set (unpinned_frames bp2))" if t: "page_table bp2 q = Some i" for q i
  proof -
    have q: "q \<noteq> pid" "page_table bp q = Some i" using t by (auto simp: table split: if_splits)
    note vp = victim_search_pins [OF inv pins fv u(1) pid [unfolded c_def] q]
    have "buffer_pool_meta bp2 i = buffer_pool_meta bp1 i" using vp(1) by (simp add: et(7) c_def)
    then show ?thesis using vp(2-4) by (simp add: et(5))
  qed
  have "ran (page_table bp2) = ran (page_table bp) - {c}"
    unfolding table by (rule ran_remove [of "page_table bp", OF pid]) (rule page_table_inj [OF inv _ pid])
  then have "frames_kept {c} bp2"
    using kept True by (auto simp: frames_kept_def)
  moreover have "pins_ok P bp2"
    using one pins_okD(4) [OF pins] np by (auto simp: pins_ok_def table)
  ultimately show ?thesis using et(2) np res table by (intro exI [of _ c]) auto
qed

lemma load_frame_total:
  assumes pins: "pins_ok P bp" and kept: "frames_kept {c} bp" and pid: "pid \<noteq> 0" "pid < n" "page_table bp pid = None"
    and c: "c \<notin> ran (page_table bp)"
    and st: "store_ok file_byte file_size n (storage_manager bp)" and r: "load_frame os bp pid c = (r, bp')"
  shows "r = mk_result (Some c) ErrNone \<and> pins_ok (add_mset pid P) bp' \<and> frames_kept {} bp' \<and>
    store_ok file_byte file_size n (storage_manager bp') \<and> page_table bp' = (page_table bp)(pid \<mapsto> c)"
proof -
  obtain frame where rd: "PrivateReadPage os (storage_manager bp) pid (buffer_pool bp c) = (mk_result True ErrNone, frame)"
    by (rule PrivateReadPage_complete [OF below_index(2) [OF st pid(2)]])
  have e: "r = mk_result (Some c) ErrNone"
    "bp' = bp\<lparr>buffer_pool := (buffer_pool bp)(c := frame),
       buffer_pool_meta := (buffer_pool_meta bp)(c :=
         \<lparr>fm_page_id = pid, pin_count = 1, is_dirty = False, reference_bit = 1, is_in_queue = False\<rparr>),
       page_table := (page_table bp)(pid \<mapsto> c)\<rparr>"
    using r rd by (simp_all add: load_frame_def ReadPage_private [OF pid(1)])
  have np: "count P pid = 0" using pins_okD(4) [OF pins, of pid] pid(3) by (cases "pid \<in># P") (auto simp: count_eq_zero_iff)
  have "page_table bp q \<noteq> Some c" for q using c by (auto simp: ran_def)
  then have "pins_ok (add_mset pid P) bp'" using pins np by (auto simp: pins_ok_def e)
  moreover have "frames_kept {} bp'" using kept pid(3) by (auto simp: frames_kept_def e)
  ultimately show ?thesis using st by (simp add: e)
qed

lemma RequestPage_total:
  assumes ok: "pool_but file_byte D W bp" and pins: "pins_ok P bp" and kept: "frames_kept {} bp"
    and few: "size P < 1000" and st: "store_ok file_byte file_size n (storage_manager bp)"
    and pid: "pid \<noteq> 0" "pid < n" and r: "RequestPage os bp pid = (r, bp')"
  shows "\<exists>i. r = mk_result (Some i) ErrNone \<and> page_table bp' pid = Some i \<and> pool_but file_byte D W bp' \<and>
    views_but file_byte D bp bp' \<and> pins_ok (add_mset pid P) bp' \<and> frames_kept {} bp' \<and>
    store_ok file_byte file_size n (storage_manager bp') \<and>
    (\<forall>q. q \<in># P \<longrightarrow> page_table bp' q = page_table bp q)"
proof -
  have inv: "pool_inv bp" using ok by (simp add: pool_but_def)
  have v: "valid_pid pid" using below_index(1) [OF st pid(2)] .
  have small: "count P q < 1000" for q using few count_le_size [of P q] by simp
  have can: "can_claim bp" if "page_table bp pid = None"
    using unpinned_exists [OF inv pins kept _ few] by (auto simp: can_claim_def)
  have pc: "pin_count (buffer_pool_meta bp i) < 65535" if "page_table bp pid = Some i" for i
    using pins_okD(1) [OF pins that] small [of pid] by simp
  have "page_table bp pid \<noteq> None \<or> can_claim bp" using can by blast
  note ro = RequestPage_ok [OF ok pid(1) v this pc r]
  show ?thesis
  proof (cases "page_table bp pid")
    case (Some i)
    let ?m = "buffer_pool_meta bp i"
    have u: "u16 (int (pin_count ?m) + 1) = pin_count ?m + 1" using pc [OF Some] by (simp add: nat_add_distrib)
    have e: "r = mk_result (Some i) ErrNone" "bp' = bp\<lparr>buffer_pool_meta := (buffer_pool_meta bp)(i :=
        ?m\<lparr>pin_count := pin_count ?m + 1, reference_bit := 1\<rparr>)\<rparr>"
      using r Some by (simp_all add: RequestPage_def Let_def u)
    have "pins_ok (add_mset pid P) bp'"
      unfolding pins_ok_def
    proof (intro conjI allI impI)
      fix q j assume t: "page_table bp' q = Some j"
      then have q: "page_table bp q = Some j" by (simp add: e)
      have "j = i \<longleftrightarrow> q = pid" using page_table_inj [OF inv q, of pid] q Some by (metis option.inject)
      then show "pin_count (buffer_pool_meta bp' j) = count (add_mset pid P) q"
        "is_in_queue (buffer_pool_meta bp' j) \<Longrightarrow> j \<in> set (unpinned_frames bp')"
        "q \<notin># add_mset pid P \<Longrightarrow> j \<in> set (unpinned_frames bp')"
        using pins_okD(1-3) [OF pins q] by (auto simp: e)
    next
      fix q assume "q \<in># add_mset pid P"
      then show "page_table bp' q \<noteq> None" using pins_okD(4) [OF pins, of q] Some by (auto simp: e)
    qed
    then show ?thesis using ro kept st Some by (auto simp: e frames_kept_def)
  next
    case None
    obtain f bp1 where c: "claim_frame os bp = (f, bp1)" by fastforce
    note co = claim_frame_ok [OF ok can [OF None] c]
    obtain i where i: "f = Some i" "pins_ok P bp1" "frames_kept {i} bp1"
      "store_ok file_byte file_size n (storage_manager bp1)" "\<forall>q. q \<in># P \<longrightarrow> page_table bp1 q = page_table bp q"
      using claim_frame_total [OF ok pins kept few st c] by blast
    have l: "load_frame os bp1 pid i = (r, bp')" using r None c i(1) by (simp add: RequestPage_def)
    have "i \<notin> ran (page_table bp1)" using co(4) i(1) by simp
    from load_frame_total [OF i(2,3) pid co(3) [OF None] this i(4) l] show ?thesis
      using ro(1,2) i(5) pins_okD(4) [OF pins, of pid] None by (intro exI [of _ i]) auto
  qed
qed

end

end
