(* ===== verification/Tree_Cache.thy ===== *)
theory Tree_Cache
  imports Pool_Pins BTree
begin

text \<open>
  What the tree knows of the pool, as one assertion, and the rules for the five things it does
  with it: request, allocate, look, store, release. With them a tree operation is followed step
  by step on pins and page contents alone; that pages move between frames and the disk is
  settled below.
\<close>

section \<open>The assertion\<close>

text \<open>
  \<open>cache D P W F V n bp\<close>: the client holds the pins \<open>P\<close>; page \<open>pid\<close> of \<open>P\<close> is in frame \<open>F pid\<close>; \<open>V\<close>
  is the content of every page; the pages \<open>W\<close> were written and not yet released; \<open>n\<close> is the next
  page number. The pages \<open>D\<close> are dead: they were written and then released as clean, so that
  nothing is known of them, and nobody reads them any more.
\<close>

definition same_page :: "mem \<Rightarrow> mem \<Rightarrow> bool" where
  "same_page p q \<longleftrightarrow> (\<forall>k < 4096. p k = q k)"

definition image :: "mem \<Rightarrow> mem" where
  "image p = of_bytes (bytes p 0 4096)"

definition cache :: "('d \<Rightarrow> nat \<Rightarrow> byte) \<Rightarrow> ('d \<Rightarrow> nat) \<Rightarrow> PageID set \<Rightarrow> PageID multiset \<Rightarrow> PageID set \<Rightarrow> (PageID \<Rightarrow> nat) \<Rightarrow>
    (PageID \<Rightarrow> mem) \<Rightarrow> PageID \<Rightarrow> 'd BufferPool \<Rightarrow> bool" where
  "cache file_byte file_size D P W F V n bp \<longleftrightarrow>
     pool_but file_byte D (W \<union> D) bp \<and> pins_ok P bp \<and> size P \<le> 1000 \<and> frames_kept {} bp \<and>
     store_ok file_byte file_size n (storage_manager bp) \<and>
     (\<forall>pid. pid \<in># P \<longrightarrow> page_table bp pid = Some (F pid) \<and> pid \<noteq> 0 \<and> pid < n \<and> pid \<notin> D) \<and>
     (\<forall>q. client_page q \<longrightarrow> q \<notin> D \<longrightarrow> V q = of_bytes (page_view file_byte bp q)) \<and>
     (\<forall>q \<in> D. q \<noteq> 0 \<and> q < n)"

lemma same_page_image [simp]: "same_page p (image p)" "same_page (image p) p"
  by (simp_all add: same_page_def image_def of_bytes_def)

lemma same_page_sym: "same_page p q \<Longrightarrow> same_page q p"
  by (simp add: same_page_def)

lemma cacheD:
  assumes "cache fb fs D P W F V n bp"
  shows "pool_but fb D (W \<union> D) bp" "pool_inv bp" "pins_ok P bp" "frames_kept {} bp" "store_ok fb fs n (storage_manager bp)"
    "pid \<in># P \<Longrightarrow> page_table bp pid = Some (F pid)" "pid \<in># P \<Longrightarrow> pid \<noteq> 0" "pid \<in># P \<Longrightarrow> pid < n"
    "client_page q \<Longrightarrow> q \<notin> D \<Longrightarrow> V q = of_bytes (page_view fb bp q)" "count P q \<le> 1000"
    "q \<in> D \<Longrightarrow> q \<noteq> 0" "q \<in> D \<Longrightarrow> q < n" "pid \<in># P \<Longrightarrow> pid \<notin> D"
  using assms count_le_size [of P q] by (simp_all add: cache_def pool_but_def)

lemma cache_client: "cache fb fs D P W F V n bp \<Longrightarrow> pid \<noteq> 0 \<Longrightarrow> pid < n \<Longrightarrow> client_page pid"
  by (simp add: client_page_def below_index(1) [OF cacheD(5)])

section \<open>Looking, storing, releasing\<close>

lemma cache_frame:
  assumes c: "cache fb fs D P W F V n bp" and p: "pid \<in># P"
  shows "same_page (buffer_pool bp (F pid)) (V pid)"
proof -
  have "client_page pid" using cache_client [OF c cacheD(7,8) [OF c p]] .
  then show ?thesis
    using cacheD(6) [OF c p] cacheD(9) [OF c _ cacheD(13) [OF c p]] by (simp add: same_page_def page_view_def of_bytes_def)
qed

lemma cache_frames_apart:
  assumes c: "cache fb fs D P W F V n bp" and "p \<in># P" "q \<in># P" "p \<noteq> q"
  shows "F p \<noteq> F q"
  using page_table_inj [OF cacheD(2) [OF c]] cacheD(6) [OF c] assms(2-4) by metis

lemma cache_write:
  assumes c: "cache fb fs D P W F V n bp" and p: "pid \<in># P"
  shows "cache fb fs D P (insert pid W) F (V(pid := image m)) n (write_frame bp (F pid) m)"
proof -
  note t = cacheD(6) [OF c p]
  have "0 < pin_count (buffer_pool_meta bp (F pid))"
    using pins_okD(1) [OF cacheD(3) [OF c] t] p by simp
  note w = write_frame_ok [OF cacheD(1) [OF c] t this, where p = m]
  have "(V(pid := image m)) q = of_bytes (page_view fb (write_frame bp (F pid) m) q)" if "client_page q" "q \<notin> D" for q
    using w(2,3) cacheD(9) [OF c that] by (simp add: image_def)
  then show ?thesis
    using c w(1) by (simp add: cache_def pins_ok_def frames_kept_def write_frame_def)
qed

text \<open>
  One pin less: the frame goes into the queue when it was the last one and the frame is not there yet.
\<close>

lemma unpin_pins:
  assumes inv: "pool_inv bp" and pins: "pins_ok P bp" and t: "page_table bp pid = Some i" and p: "pid \<in># P"
    and bp': "page_table bp' = page_table bp" "unpinned_frames bp' = (if push then unpinned_frames bp @ [i] else unpinned_frames bp)"
      "buffer_pool_meta bp' = (buffer_pool_meta bp)(i := m')"
    and m': "pin_count m' = pin_count (buffer_pool_meta bp i) - 1" "is_in_queue m' \<longleftrightarrow> is_in_queue (buffer_pool_meta bp i) \<or> push"
    and push: "push \<longleftrightarrow> pin_count (buffer_pool_meta bp i) = 1 \<and> \<not> is_in_queue (buffer_pool_meta bp i)"
  shows "pins_ok (P - {#pid#}) bp'"
  unfolding pins_ok_def
proof (intro conjI allI impI)
  fix q j assume "page_table bp' q = Some j"
  then have q: "page_table bp q = Some j" by (simp add: bp')
  have j: "j = i \<longleftrightarrow> q = pid" using page_table_inj [OF inv q, of pid] q t by (metis option.inject)
  note po = pins_okD(1-3) [OF pins q]
  show "pin_count (buffer_pool_meta bp' j) = count (P - {#pid#}) q"
    using po(1) j by (cases "q = pid") (auto simp: bp' m')
  show "j \<in> set (unpinned_frames bp')" if "is_in_queue (buffer_pool_meta bp' j)"
    using po(2) j that by (cases "q = pid") (auto simp: bp' m')
  show "j \<in> set (unpinned_frames bp')" if "q \<notin># P - {#pid#}"
  proof (cases "q = pid")
    case True
    have "count (P - {#pid#}) pid = 0" "0 < count P pid" using that True p by (simp_all only: not_in_iff count_greater_zero_iff)
    moreover have "count (P - {#pid#}) pid = count P pid - 1" by simp
    ultimately have "count P pid = 1" by linarith
    then have "push \<or> is_in_queue (buffer_pool_meta bp i)" using po(1) True j by (auto simp: push)
    then show ?thesis using po(2) True j by (auto simp: bp')
  next
    case False
    then have "q \<notin># P" using that by (simp add: in_diff_count not_in_iff)
    then show ?thesis using po(3) by (auto simp: bp')
  qed
next
  fix q assume "q \<in># P - {#pid#}"
  then show "page_table bp' q \<noteq> None" using pins_okD(4) [OF pins, of q] by (auto simp: bp' dest: in_diffD)
qed

lemma release_page_cache:
  assumes c: "cache fb fs D P W F V n bp" and p: "pid \<in># P" and d: "pid \<in> W \<Longrightarrow> dirty \<or> pid \<in> D'"
    and D': "D' = D \<or> D' = insert pid D \<and> pid \<notin># P - {#pid#}"
  shows "cache fb fs D' (P - {#pid#}) (W - {pid}) F V n (release_page bp pid dirty)"
proof -
  note t = cacheD(6) [OF c p] and pins = cacheD(3) [OF c] and inv = cacheD(2) [OF c]
  let ?i = "F pid" and ?m = "buffer_pool_meta bp (F pid)"
  obtain r bp' where r: "ReleasePage bp pid dirty = (r, bp')" by fastforce
  have k: "0 < pin_count ?m" "pin_count ?m \<le> 65535"
    using pins_okD(1) [OF pins t] p cacheD(10) [OF c, of pid] by simp_all
  have honest: "dirty \<or> pid \<in> D'" if "pid \<in> W \<union> D'" using that d by blast
  have "pool_but fb D' (W \<union> D') bp" using cacheD(1) [OF c] D' by (auto simp: pool_but_def frames_ok_def)
  note ro = ReleasePage_ok [OF this t k honest r]
  have w: "W \<union> D' - ({pid} - D') = W - {pid} \<union> D'" by blast
  define push where "push = (pin_count ?m = 1 \<and> \<not> is_in_queue ?m)"
  define m' where "m' = ?m\<lparr>pin_count := pin_count ?m - 1, is_in_queue := is_in_queue ?m \<or> push,
    is_dirty := is_dirty ?m \<or> dirty\<rparr>"
  have u: "u16 (int (pin_count ?m) - 1) = pin_count ?m - 1" using k by (simp add: nat_diff_distrib)
  have e: "bp' = bp\<lparr>unpinned_frames := (if push then unpinned_frames bp @ [?i] else unpinned_frames bp),
      buffer_pool_meta := (buffer_pool_meta bp)(?i := m')\<rparr>"
    using r t k(1) by (auto simp: ReleasePage_def Let_def u push_def m'_def)
  have "pins_ok (P - {#pid#}) bp'"
    by (rule unpin_pins [OF inv pins t p, where m' = m' and push = push]) (simp_all add: e m'_def push_def)
  moreover have "size (P - {#pid#}) \<le> 1000" using c p by (auto simp: cache_def size_Diff_singleton)
  moreover have "of_bytes (page_view fb bp' q) = V q" if "client_page q" "q \<notin> D'" for q
    using ro(3) cacheD(9) [OF c that(1)] that D' by (auto simp: views_but_def client_page_def)
  moreover have "\<forall>q \<in> D'. q \<noteq> 0 \<and> q < n" "\<forall>q \<in># P - {#pid#}. q \<notin> D'"
    using D' cacheD(7,8) [OF c p] cacheD(11-13) [OF c] by (auto dest: in_diffD)
  ultimately show ?thesis
    using c ro(2) [unfolded w] r by (auto simp: cache_def release_page_def frames_kept_def e dest: in_diffD)
qed

lemma cache_release:
  assumes "cache fb fs D P W F V n bp" and "pid \<in># P" and "pid \<in> W \<Longrightarrow> dirty"
  shows "cache fb fs D (P - {#pid#}) (W - {pid}) F V n (release_page bp pid dirty)"
  by (rule release_page_cache [OF assms(1,2)]) (use assms(3) in auto)

text \<open>A page nobody will request again may be released clean although it was written.\<close>

lemma cache_bury:
  assumes "cache fb fs D (add_mset pid P) W F V n bp" and "pid \<notin># P"
  shows "cache fb fs (insert pid D) P (W - {pid}) F V n (release_page bp pid False)"
  using release_page_cache [OF assms(1), of pid False "insert pid D"] assms(2) by simp

section \<open>Requesting and allocating\<close>

context regular_file begin

lemma cache_request:
  assumes c: "cache file_byte file_size D P W F V n bp" and few: "size P < 1000" and pid: "pid \<noteq> 0" "pid < n" "pid \<notin> D"
  shows "\<exists>i bp'. request_page os bp pid = Some (i, bp') \<and>
    cache file_byte file_size D (add_mset pid P) W (F(pid := i)) V n bp' \<and> (pid \<in># P \<longrightarrow> i = F pid)"
proof -
  obtain r bp' where r: "RequestPage os bp pid = (r, bp')" by fastforce
  from RequestPage_total [OF cacheD(1,3,4) [OF c] few cacheD(5) [OF c] pid(1,2) r] obtain i where
    i: "r = mk_result (Some i) ErrNone" "page_table bp' pid = Some i" "pool_but file_byte D (W \<union> D) bp'"
      "views_but file_byte D bp bp'" "pins_ok (add_mset pid P) bp'" "frames_kept {} bp'"
      "store_ok file_byte file_size n (storage_manager bp')" "\<forall>q. q \<in># P \<longrightarrow> page_table bp' q = page_table bp q"
    by blast
  have "cache file_byte file_size D (add_mset pid P) W (F(pid := i)) V n bp'"
    using i few pid cacheD(6-9,11-13) [OF c] by (auto simp: cache_def views_but_def client_page_def)
  moreover have "i = F pid" if "pid \<in># P" using i(2,8) cacheD(6) [OF c that] that by simp
  ultimately show ?thesis using r i(1) by (auto simp: request_page_def)
qed

lemma cache_alloc:
  assumes c: "cache file_byte file_size D P W F V n bp" and few: "size P < 1000"
    and n: "n \<noteq> 0" "unat n < 4503599627370496"
  shows "\<exists>i bp'. alloc_page os stack bp = Some (i, n, bp') \<and>
    cache file_byte file_size D (add_mset n P) W (F(n := i)) V (n + 1) bp' \<and> n \<notin># P \<and> n \<notin> D"
proof -
  note st = cacheD(5) [OF c]
  obtain a sm' where a: "StorageManager_AllocateNewPage os stack (storage_manager bp) = (a, sm')" by fastforce
  have sm: "storage_inv file_byte file_size (storage_manager bp)" "new_page_offset_index (storage_manager bp) = n"
    using st by (simp_all add: store_ok_def)
  note al = AllocateNewPage_correct [OF sm(1) a, unfolded sm(2)]
  define bp1 where "bp1 = bp\<lparr>storage_manager := sm'\<rparr>"
  have v: "valid_pid n" using n(2) by (simp add: valid_pid_def)
  have n1: "unat (n + 1) = Suc (unat n)" using n(2) by (simp add: unat_word_ariths)
  then have lt: "q < n + 1 \<longleftrightarrow> q = n \<or> q < n" for q
    by (auto simp: word_less_nat_alt less_Suc_eq word_unat_eq_iff)
  have st1: "store_ok file_byte file_size (n + 1) sm'"
    using al(3-5) n(2) by (simp add: store_ok_def n1 page_offset_valid [OF v])
  have nD: "n \<notin> D" using cacheD(12) [OF c, of n] by auto
  have nP: "n \<notin># P" using cacheD(8) [OF c, of n] by auto
  have ok1: "pool_but file_byte D (W \<union> D) bp1" "views_but file_byte D bp bp1"
    using disk_change_ok [OF cacheD(1) [OF c], of sm'] al(6) by (simp_all add: bp1_def)
  have c1: "cache file_byte file_size D P W F V (n + 1) bp1"
    using c ok1 st1 lt
    by (auto simp: cache_def pins_ok_def frames_kept_def bp1_def views_but_def client_page_def)
  have "n < n + 1" by (simp add: lt)
  from cache_request [OF c1 few n(1) this nD] obtain i bp' where
    i: "request_page os bp1 n = Some (i, bp')" "cache file_byte file_size D (add_mset n P) W (F(n := i)) V (n + 1) bp'"
    by blast
  have "res_err (fst (RequestPage os bp1 n)) = ErrNone"
    using RequestPage_total [OF cacheD(1,3,4) [OF c1] few cacheD(5) [OF c1] n(1) \<open>n < n + 1\<close> prod.collapse [symmetric]] by auto
  then have "alloc_page os stack bp = Some (i, n, bp')"
    using a al(1,2) i(1)
    by (auto simp: alloc_page_def BufferPool_AllocateNewPage_def request_page_def bp1_def Let_def
        split: prod.splits option.splits)
  then show ?thesis using i(2) nP nD by blast
qed

end

end
