(* ===== verification/Tree_Shape.thy ===== *)
theory Tree_Shape
  imports Tree_Cache
begin

text \<open>
  The tree the pages form: leaves with their tuples, inner nodes with their keys and subtrees.
  \<open>tree_at\<close> says that given page contents store a tree, \<open>tree_in\<close> that its keys are where a
  descent looks for them, \<open>level\<close> that its leaves are at one depth. The abstract descent and the
  abstract insertion are here, with what they do to the sequence of all tuples.
\<close>

section \<open>Pages with the same content\<close>

lemma same_page_load: "same_page p q \<Longrightarrow> a + k \<le> 4096 \<Longrightarrow> load_le p a k = load_le q a k"
  by (rule load_le_cong) (simp add: same_page_def)

lemma same_page_bytes: "same_page p q \<Longrightarrow> a + k \<le> 4096 \<Longrightarrow> bytes p a k = bytes q a k"
  by (rule bytes_cong) (simp add: same_page_def)

lemma same_page_headers:
  assumes "same_page p q"
  shows "page_type p = page_type q" "page_id p = page_id q" "slot_array_size p = slot_array_size q"
    "free_space_end_offset p = free_space_end_offset q" "garbage_bytes p = garbage_bytes q"
    "left_pid p = left_pid q" "right_pid p = right_pid q" "num_keys p = num_keys q"
  using same_page_load [OF assms] by simp_all

lemma same_page_slots:
  assumes s: "same_page p q" and n: "31 + 5 * slot_array_size p \<le> 4096"
  shows "slots p = slots q"
proof -
  have "slot_at p i = slot_at q i" if "i < slot_array_size p" for i
    using that n same_page_load [OF s] by (simp add: slot_at_def slot_addr_def)
  then show ?thesis by (simp add: slots_def same_page_headers(3) [OF s, symmetric])
qed

lemma same_page_leaf:
  assumes wf: "leaf_wf p" and s: "same_page p q"
  shows "leaf_wf q" "tuples q = tuples p" "slots q = slots p"
proof -
  show sl: "slots q = slots p" using same_page_slots [OF s] leaf_wfD(2,3) [OF wf] by simp
  have "tuple_of q t = tuple_of p t" if "t \<in> set (live (slots p))" for t
    using same_page_bytes [OF s] leaf_wfD(5) [OF wf that] by (simp add: tuple_of_def)
  then show ts: "tuples q = tuples p" by (simp add: tuples_def sl)
  show "leaf_wf q"
    using wf unfolding leaf_wf_def sl ts same_page_headers [OF s] .
qed

lemma same_page_space:
  assumes s: "same_page p q"
  shows "CheckAvailableSpace p = CheckAvailableSpace q" "CheckGarbageBytes p = CheckGarbageBytes q"
  by (simp_all add: CheckAvailableSpace_def CheckGarbageBytes_def same_page_headers [OF s])

lemma same_page_elem: "same_page p q \<Longrightarrow> a + 8 * i + 8 \<le> 4096 \<Longrightarrow> elem p a i = elem q a i"
  using same_page_load [of p q "a + 8 * i" 8] by (simp add: elem_def)

lemma same_page_internal:
  assumes wf: "internal_wf p" and s: "same_page p q"
  shows "internal_wf q" "keys q = keys p" "children q = children p"
proof -
  have n: "num_keys q = num_keys p" "num_keys p \<le> 254"
    using same_page_headers(8) [OF s] internal_wfD(1) [OF wf] by simp_all
  show k: "keys q = keys p" "children q = children p"
    unfolding keys_def children_def n(1)
    by (rule arr_cong, use n(2) same_page_elem [OF s] in \<open>simp add: start_pointers\<close>)+
  show "internal_wf q" using wf unfolding internal_wf_def k n(1) same_page_headers(1) [OF s] .
qed

section \<open>The shape\<close>

datatype page_tree = LeafT PageID "byte list list" | NodeT PageID "Key list" "page_tree list"

primrec root_of :: "page_tree \<Rightarrow> PageID" where
  "root_of (LeafT pid ts) = pid"
| "root_of (NodeT pid ks cs) = pid"

primrec tree_tuples :: "page_tree \<Rightarrow> byte list list" where
  "tree_tuples (LeafT pid ts) = ts"
| "tree_tuples (NodeT pid ks cs) = concat (map tree_tuples cs)"

primrec tree_pages :: "page_tree \<Rightarrow> PageID list" where
  "tree_pages (LeafT pid ts) = [pid]"
| "tree_pages (NodeT pid ks cs) = pid # concat (map tree_pages cs)"

fun level :: "nat \<Rightarrow> page_tree \<Rightarrow> bool" where
  "level 0 (LeafT pid ts) \<longleftrightarrow> True"
| "level (Suc h) (NodeT pid ks cs) \<longleftrightarrow> (\<forall>c \<in> set cs. level h c)"
| "level _ _ \<longleftrightarrow> False"

fun tree_at :: "(PageID \<Rightarrow> mem) \<Rightarrow> page_tree \<Rightarrow> bool" where
  "tree_at V (LeafT pid ts) \<longleftrightarrow> leaf_wf (V pid) \<and> page_id (V pid) = pid \<and> tuples (V pid) = ts"
| "tree_at V (NodeT pid ks cs) \<longleftrightarrow> internal_wf (V pid) \<and> page_id (V pid) = pid \<and> keys (V pid) = ks \<and>
     children (V pid) = map root_of cs \<and> (\<forall>c \<in> set cs. tree_at V c)"

text \<open>
  \<open>tree_in lo hi\<close>: the tuples have keys from \<open>lo\<close> on and below \<open>hi\<close>, strictly ascending, and the
  separators bound their neighbours. The bounds are numbers, since the last is \<open>2 ^ 64\<close>.
\<close>

definition key_in :: "nat \<Rightarrow> nat \<Rightarrow> Key \<Rightarrow> bool" where
  "key_in lo hi k \<longleftrightarrow> lo \<le> unat k \<and> unat k < hi"

fun tree_in :: "nat \<Rightarrow> nat \<Rightarrow> page_tree \<Rightarrow> bool"
  and forest_in :: "nat \<Rightarrow> nat \<Rightarrow> Key list \<Rightarrow> page_tree list \<Rightarrow> bool" where
  "tree_in lo hi (LeafT pid ts) \<longleftrightarrow> sorted_wrt (<) (map tuple_key ts) \<and> (\<forall>t \<in> set ts. key_in lo hi (tuple_key t))"
| "tree_in lo hi (NodeT pid ks cs) \<longleftrightarrow> forest_in lo hi ks cs"
| "forest_in lo hi [] [c] \<longleftrightarrow> lo < hi \<and> tree_in lo hi c"
| "forest_in lo hi (k # ks) (c # cs) \<longleftrightarrow> lo < unat k \<and> tree_in lo (unat k) c \<and> forest_in (unat k) hi ks cs"
| "forest_in lo hi _ _ \<longleftrightarrow> False"

lemma root_in_pages [simp]: "root_of t \<in> set (tree_pages t)"
  by (cases t) simp_all

lemma tree_at_frame:
  "tree_at V t \<Longrightarrow> (\<And>p. p \<in> set (tree_pages t) \<Longrightarrow> V' p = V p) \<Longrightarrow> tree_at V' t"
  by (induction t) auto

lemma tree_at_level_type:
  assumes "tree_at V t" "level h t"
  shows "page_type (V (root_of t)) = (if h = 0 then PageType_code LeafPage else PageType_code InternalPage)"
  using assms by (cases t; cases h) (auto simp: leaf_wf_def internal_wf_def)

lemma level_NodeT: "level h (NodeT pid ks cs) \<longleftrightarrow> (\<exists>h'. h = Suc h' \<and> (\<forall>c \<in> set cs. level h' c))"
  by (cases h) auto

lemma level_LeafT [simp]: "level h (LeafT pid ts) \<longleftrightarrow> h = 0"
  by (cases h) auto

text \<open>The leaves from left to right.\<close>

primrec leaf_pids :: "page_tree \<Rightarrow> PageID list" where
  "leaf_pids (LeafT pid ts) = [pid]"
| "leaf_pids (NodeT pid ks cs) = concat (map leaf_pids cs)"

lemma leaf_pids_pages: "set (leaf_pids t) \<subseteq> set (tree_pages t)"
  by (induction t) auto

text \<open>
  In a tree that only grew every inner node has a key, so two children at least; then the height
  is at most the logarithm of the number of pages.
\<close>

fun keyed :: "page_tree \<Rightarrow> bool" where
  "keyed (LeafT pid ts) \<longleftrightarrow> True"
| "keyed (NodeT pid ks cs) \<longleftrightarrow> ks \<noteq> [] \<and> (\<forall>c \<in> set cs. keyed c)"

text \<open>
  The occupancy the code maintains: every inner node below the root has at least half of its
  keys. After deletions the root may have no key left and one child, which may be such a page
  again: a chain of them stands above a tree of the first kind.
\<close>

fun filled :: "page_tree \<Rightarrow> bool" where
  "filled (LeafT pid ts) \<longleftrightarrow> True"
| "filled (NodeT pid ks cs) \<longleftrightarrow> 127 \<le> length ks \<and> (\<forall>c \<in> set cs. filled c)"

fun chained :: "page_tree \<Rightarrow> bool" where
  "chained (LeafT pid ts) \<longleftrightarrow> True"
| "chained (NodeT pid ks cs) \<longleftrightarrow> (if ks = [] then \<forall>c \<in> set cs. chained c else \<forall>c \<in> set cs. filled c)"

lemma filled_keyed: "filled t \<Longrightarrow> keyed t"
  by (induction t) auto

lemma filled_chained: "filled t \<Longrightarrow> chained t"
  by (cases t) auto

lemma forest_two: "forest_in lo hi ks cs \<Longrightarrow> ks \<noteq> [] \<Longrightarrow> \<exists>c d ds. cs = c # d # ds"
proof (cases ks)
  case (Cons k ks')
  assume "forest_in lo hi ks cs"
  then obtain c cs' where "cs = c # cs'" "forest_in (unat k) hi ks' cs'" using Cons by (cases cs) auto
  then show ?thesis by (cases cs') (auto elim: forest_in.elims)
qed simp

lemma forest_member: "forest_in lo hi ks cs \<Longrightarrow> c \<in> set cs \<Longrightarrow> \<exists>a b. tree_in a b c"
proof (induction ks arbitrary: lo cs)
  case Nil
  then show ?case by (cases cs rule: list.exhaust [case_names Nil Cons]) (auto elim: forest_in.elims)
next
  case (Cons k ks)
  then show ?case by (cases cs) auto
qed

lemma height_pages: "tree_in lo hi t \<Longrightarrow> level h t \<Longrightarrow> keyed t \<Longrightarrow> 2 ^ h \<le> length (tree_pages t)"
proof (induction t arbitrary: h lo hi)
  case (NodeT pid ks cs)
  obtain h' where h: "h = Suc h'" "\<forall>c \<in> set cs. level h' c" using NodeT.prems(2) by (auto simp: level_NodeT)
  obtain c d ds where cs: "cs = c # d # ds" using forest_two [of lo hi ks cs] NodeT.prems(1,3) by auto
  have "2 ^ h' \<le> length (tree_pages x)" if "x \<in> {c, d}" for x
  proof -
    have x: "x \<in> set cs" using that cs by auto
    have "forest_in lo hi ks cs" using NodeT.prems(1) by simp
    from forest_member [OF this x] obtain a b where "tree_in a b x" by blast
    then show ?thesis using NodeT.IH [OF x] h(2) x NodeT.prems(3) by simp
  qed
  then have "2 ^ h' \<le> length (tree_pages c)" "2 ^ h' \<le> length (tree_pages d)" by simp_all
  then show ?case by (simp add: h(1) cs)
qed simp

text \<open>A tree that satisfies the bounds has a leaf.\<close>

lemma tree_in_leaves: "tree_in lo hi t \<Longrightarrow> leaf_pids t \<noteq> []"
  and forest_in_leaves: "forest_in lo hi ks cs \<Longrightarrow> concat (map leaf_pids cs) \<noteq> []"
  by (induction lo hi t and lo hi ks cs rule: tree_in_forest_in.induct) auto

section \<open>The chain of the leaves\<close>

text \<open>\<open>linked V ps e\<close>: the right link of every page of \<open>ps\<close> is the next one, that of the last one is \<open>e\<close>.\<close>

definition linked :: "(PageID \<Rightarrow> mem) \<Rightarrow> PageID list \<Rightarrow> PageID \<Rightarrow> bool" where
  "linked V ps e \<longleftrightarrow> map (\<lambda>p. right_pid (V p)) ps = drop 1 ps @ [e]"

definition relinks :: "(PageID \<Rightarrow> mem) \<Rightarrow> (PageID \<Rightarrow> mem) \<Rightarrow> PageID list \<Rightarrow> PageID list \<Rightarrow> bool" where
  "relinks V V' ps ps' \<longleftrightarrow> ps \<noteq> [] \<and> ps' \<noteq> [] \<and> hd ps' = hd ps \<and> (\<forall>e. linked V ps e \<longrightarrow> linked V' ps' e)"

lemma linked_append:
  "ps \<noteq> [] \<Longrightarrow> qs \<noteq> [] \<Longrightarrow> linked V (ps @ qs) e \<longleftrightarrow> linked V ps (hd qs) \<and> linked V qs e"
proof (induction ps)
  case (Cons p ps)
  then show ?case by (cases ps; cases qs) (auto simp: linked_def)
qed simp

lemma linked_frame: "linked V ps e \<Longrightarrow> (\<And>p. p \<in> set ps \<Longrightarrow> right_pid (V' p) = right_pid (V p)) \<Longrightarrow> linked V' ps e"
  by (simp add: linked_def cong: map_cong)

lemma relinks_frame: "ps \<noteq> [] \<Longrightarrow> (\<And>p. p \<in> set ps \<Longrightarrow> right_pid (V' p) = right_pid (V p)) \<Longrightarrow> relinks V V' ps ps"
  unfolding relinks_def using linked_frame by blast

lemma relinks_refl [simp]: "relinks V V ps ps \<longleftrightarrow> ps \<noteq> []"
  by (auto simp: relinks_def)

lemma relinks_nonempty:
  assumes "relinks V V' ps ps'"
  shows "ps \<noteq> []" "ps' \<noteq> []"
  using assms by (simp_all add: relinks_def)

lemma relinks_trans: "relinks V V1 ps qs \<Longrightarrow> relinks V1 V2 qs rs \<Longrightarrow> relinks V V2 ps rs"
  by (simp add: relinks_def)

lemma relinks_append:
  assumes "relinks V V' ps ps'" "relinks V V' qs qs'"
  shows "relinks V V' (ps @ qs) (ps' @ qs')"
  using assms by (auto simp: relinks_def linked_append)

lemma relinks_middle:
  assumes r: "relinks V V' ps ps'" and o: "\<And>p. p \<in> set as \<union> set bs \<Longrightarrow> right_pid (V' p) = right_pid (V p)"
  shows "relinks V V' (as @ ps @ bs) (as @ ps' @ bs)"
proof -
  have "relinks V V' (ps @ bs) (ps' @ bs)"
    using r relinks_append [OF r relinks_frame] o by (cases "bs = []") auto
  then show ?thesis using relinks_append [OF relinks_frame] o by (cases "as = []") auto
qed

section \<open>Focus on one subtree\<close>

definition lower :: "nat \<Rightarrow> Key list \<Rightarrow> nat" where
  "lower lo ks = (if ks = [] then lo else unat (last ks))"

definition upper :: "nat \<Rightarrow> Key list \<Rightarrow> nat" where
  "upper hi ks = (if ks = [] then hi else unat (hd ks))"

fun left_part :: "nat \<Rightarrow> Key list \<Rightarrow> page_tree list \<Rightarrow> bool" where
  "left_part lo [] [] \<longleftrightarrow> True"
| "left_part lo (k # ks) (c # cs) \<longleftrightarrow> lo < unat k \<and> tree_in lo (unat k) c \<and> left_part (unat k) ks cs"
| "left_part lo _ _ \<longleftrightarrow> False"

fun right_part :: "nat \<Rightarrow> Key list \<Rightarrow> page_tree list \<Rightarrow> bool" where
  "right_part hi [] [] \<longleftrightarrow> True"
| "right_part hi (k # ks) (c # cs) \<longleftrightarrow> unat k < upper hi ks \<and> tree_in (unat k) (upper hi ks) c \<and> right_part hi ks cs"
| "right_part hi _ _ \<longleftrightarrow> False"

lemma bound_simps [simp]:
  "lower lo [] = lo" "lower lo (k # ks) = lower (unat k) ks" "lower lo (ks @ [k]) = unat k"
  "upper hi [] = hi" "upper hi (k # ks) = unat k"
  by (auto simp: lower_def upper_def)

lemma forest_focus_right: "length ks = length cs \<Longrightarrow>
    forest_in lo hi ks (c # cs) \<longleftrightarrow> lo < upper hi ks \<and> tree_in lo (upper hi ks) c \<and> right_part hi ks cs"
  by (induction ks cs arbitrary: lo c rule: list_induct2) auto

lemma forest_focus:
  assumes "length ks1 = length cs1" "length ks2 = length cs2"
  shows "forest_in lo hi (ks1 @ ks2) (cs1 @ c # cs2) \<longleftrightarrow> left_part lo ks1 cs1 \<and>
    lower lo ks1 < upper hi ks2 \<and> tree_in (lower lo ks1) (upper hi ks2) c \<and> right_part hi ks2 cs2"
  using assms
  by (induction ks1 cs1 arbitrary: lo rule: list_induct2) (auto simp: forest_focus_right)

lemma forest_length: "forest_in lo hi ks cs \<Longrightarrow> length cs = Suc (length ks)"
  by (induction ks arbitrary: lo cs) (auto elim: forest_in.elims)

lemma forest_le: "forest_in lo hi ks cs \<Longrightarrow> lo < hi"
  by (induction ks arbitrary: lo cs) (force elim: forest_in.elims)+

lemma forest_sorted: "forest_in lo hi ks cs \<Longrightarrow> sorted ks \<and> (\<forall>k \<in> set ks. lo < unat k)"
proof (induction ks arbitrary: lo cs)
  case (Cons k ks)
  then obtain c cs' where cs: "cs = c # cs'" "lo < unat k" "forest_in (unat k) hi ks cs'"
    by (cases cs) auto
  from Cons.IH [OF cs(3)] show ?case using cs(2) by (auto simp: word_le_nat_alt less_imp_le intro: less_trans)
qed simp

text \<open>Every node splits at the subtree a key belongs to.\<close>

lemma forest_split:
  assumes f: "forest_in lo hi ks cs" and i: "i = std_upper_bound ks x" and x: "key_in lo hi x"
  obtains ks1 ks2 cs1 c cs2 where "ks = ks1 @ ks2" "cs = cs1 @ c # cs2" "length ks1 = length cs1"
    "length ks2 = length cs2" "length cs1 = i" "key_in (lower lo ks1) (upper hi ks2) x"
    "left_part lo ks1 cs1" "tree_in (lower lo ks1) (upper hi ks2) c" "right_part hi ks2 cs2"
proof -
  have s: "sorted ks" using forest_sorted [OF f] by simp
  note le = std_bounds_le(1) [of ks x, folded i] and l = forest_length [OF f]
  note sp = upper_bound_split [OF s, of x, folded i]
  have "lower lo (take i ks) \<le> unat x"
  proof (cases "take i ks = []")
    case False
    then have "last (take i ks) \<in> set (take i ks)" by (rule last_in_set)
    then show ?thesis using sp(1) False by (auto simp: lower_def word_le_nat_alt)
  next
    case True
    then have "lower lo (take i ks) = lo" by (simp only: lower_def simp_thms if_True)
    then show ?thesis using x by (simp add: key_in_def)
  qed
  moreover have "unat x < upper hi (drop i ks)"
  proof (cases "drop i ks = []")
    case False
    then have "hd (drop i ks) \<in> set (drop i ks)" by (rule hd_in_set)
    then show ?thesis using sp(2) False by (auto simp: upper_def word_less_nat_alt)
  next
    case True
    then have "upper hi (drop i ks) = hi" by (simp only: upper_def simp_thms if_True)
    then show ?thesis using x by (simp add: key_in_def)
  qed
  ultimately have k: "key_in (lower lo (take i ks)) (upper hi (drop i ks)) x" by (simp add: key_in_def)
  have cs: "cs = take i cs @ cs ! i # drop (Suc i) cs" and len: "length (take i ks) = length (take i cs)"
    "length (drop i ks) = length (drop (Suc i) cs)" "length (take i cs) = i"
    using le l by (simp_all add: id_take_nth_drop [symmetric])
  have "left_part lo (take i ks) (take i cs)" "tree_in (lower lo (take i ks)) (upper hi (drop i ks)) (cs ! i)"
    "right_part hi (drop i ks) (drop (Suc i) cs)"
    using f forest_focus [OF len(1,2), of lo hi "cs ! i"] by (simp_all flip: cs)
  from that [OF _ cs len k this] show ?thesis by simp
qed

section \<open>The sequence of all tuples\<close>

definition ordered :: "nat \<Rightarrow> nat \<Rightarrow> byte list list \<Rightarrow> bool" where
  "ordered lo hi ts \<longleftrightarrow> sorted_wrt (<) (map tuple_key ts) \<and> (\<forall>t \<in> set ts. key_in lo hi (tuple_key t))"

lemma ordered_append:
  assumes "ordered lo m xs" "ordered m hi ys" "lo \<le> m" "m \<le> hi"
  shows "ordered lo hi (xs @ ys)"
  using assms by (fastforce simp: ordered_def key_in_def sorted_wrt_append word_less_nat_alt)

lemma tree_in_ordered: "tree_in lo hi t \<Longrightarrow> ordered lo hi (tree_tuples t)"
  and forest_in_ordered: "forest_in lo hi ks cs \<Longrightarrow> ordered lo hi (concat (map tree_tuples cs))"
proof (induction lo hi t and lo hi ks cs rule: tree_in_forest_in.induct)
  case (4 lo hi k ks c cs)
  then show ?case using forest_le [of "unat k" hi ks cs] by (auto intro: ordered_append)
qed (simp_all add: ordered_def)

lemma left_part_ordered: "left_part lo ks cs \<Longrightarrow> ordered lo (lower lo ks) (concat (map tree_tuples cs)) \<and> lo \<le> lower lo ks"
proof (induction lo ks cs rule: left_part.induct)
  case (2 lo k ks c cs)
  then have "ordered lo (lower (unat k) ks) (tree_tuples c @ concat (map tree_tuples cs))"
    by (intro ordered_append) (auto intro: tree_in_ordered)
  then show ?case using 2 by auto
qed (simp_all add: ordered_def)

lemma right_part_ordered:
  "right_part hi ks cs \<Longrightarrow> ordered (upper hi ks) hi (concat (map tree_tuples cs)) \<and> (ks \<noteq> [] \<longrightarrow> upper hi ks \<le> hi)"
proof (induction hi ks cs rule: right_part.induct)
  case (2 hi k ks c cs)
  then have "upper hi ks \<le> hi" by (cases "ks = []") auto
  then have "ordered (unat k) hi (tree_tuples c @ concat (map tree_tuples cs))"
    using 2 by (intro ordered_append) (auto intro: tree_in_ordered)
  then show ?case using 2 \<open>upper hi ks \<le> hi\<close> by auto
qed (simp_all add: ordered_def)

section \<open>Descent and insertion\<close>

lemma size_nth [termination_simp]: "i < length cs \<Longrightarrow> size (cs ! i :: page_tree) < Suc (size_list size cs)"
  using size_list_estimation' [of "cs ! i" cs "size (cs ! i)" size] by simp

text \<open>The leaf a key belongs to, and the tree with a tuple put into that leaf.\<close>

fun leaf_of :: "page_tree \<Rightarrow> Key \<Rightarrow> PageID \<times> byte list list" where
  "leaf_of (LeafT pid ts) x = (pid, ts)"
| "leaf_of (NodeT pid ks cs) x =
    (let i = std_upper_bound ks x in if i < length cs then leaf_of (cs ! i) x else (pid, []))"

fun put_tuple :: "byte list \<Rightarrow> page_tree \<Rightarrow> page_tree" where
  "put_tuple u (LeafT pid ts) = LeafT pid (insert_tuple u ts)"
| "put_tuple u (NodeT pid ks cs) =
    (let i = std_upper_bound ks (tuple_key u)
     in NodeT pid ks (if i < length cs then cs[i := put_tuple u (cs ! i)] else cs))"

lemma insert_tuple_middle:
  assumes "ordered lo m xs" "ordered m' hi zs" "key_in m m' (tuple_key u)"
  shows "insert_tuple u (xs @ ys @ zs) = xs @ insert_tuple u ys @ zs"
proof -
  have "tuple_key t < tuple_key u" if "t \<in> set xs" for t
    using that assms(1,3) by (fastforce simp: ordered_def key_in_def word_less_nat_alt)
  then have l: "filter (\<lambda>t. tuple_key t \<le> tuple_key u) xs = xs" "filter (\<lambda>t. tuple_key u < tuple_key t) xs = []"
    by (auto simp: filter_id_conv filter_empty_conv intro: less_imp_le dest: less_asym)
  have "tuple_key u < tuple_key t" if "t \<in> set zs" for t
    using that assms(2,3) by (fastforce simp: ordered_def key_in_def word_less_nat_alt)
  then have r: "filter (\<lambda>t. tuple_key u < tuple_key t) zs = zs" "filter (\<lambda>t. tuple_key t \<le> tuple_key u) zs = []"
    by (auto simp: filter_id_conv filter_empty_conv not_le)
  show ?thesis by (simp add: insert_tuple_def l r)
qed

lemma find_middle:
  assumes "ordered lo m xs" "ordered m' hi zs" "key_in m m' x"
  shows "find (has_key x) (xs @ ys @ zs) = find (has_key x) ys"
proof -
  have "find (has_key x) xs = None"
    using assms(1,3) by (fastforce simp: ordered_def key_in_def has_key_def find_None_iff)
  moreover have "find (has_key x) zs = None"
    using assms(2,3) by (fastforce simp: ordered_def key_in_def has_key_def find_None_iff)
  moreover have "find P (as @ bs) = (case find P as of None \<Rightarrow> find P bs | Some a \<Rightarrow> Some a)"
    for P and as bs :: "byte list list" by (induction as) auto
  ultimately show ?thesis by (simp split: option.split)
qed

lemma insert_tuple_strict:
  assumes "ordered lo hi ts" "key_in lo hi (tuple_key u)" "tuple_key u \<notin> tuple_key ` set ts"
  shows "ordered lo hi (insert_tuple u ts)"
proof -
  have "sorted_wrt (<) (map tuple_key (filter P ts))" for P
    using assms(1) by (simp add: ordered_def sorted_wrt_map sorted_wrt_filter)
  moreover have "tuple_key t < tuple_key u" if "t \<in> set ts" "tuple_key t \<le> tuple_key u" for t
    using that assms(3) by (metis image_eqI le_less)
  ultimately show ?thesis
    using assms(1,2) by (auto simp: ordered_def insert_tuple_def sorted_wrt_append intro: le_less_trans)
qed

lemma leaf_of_find:
  "tree_in lo hi t \<Longrightarrow> key_in lo hi x \<Longrightarrow> find (has_key x) (tree_tuples t) = find (has_key x) (snd (leaf_of t x))"
proof (induction t arbitrary: lo hi)
  case (NodeT pid ks cs)
  have f: "forest_in lo hi ks cs" using NodeT.prems by simp
  obtain ks1 ks2 cs1 c cs2 where s: "ks = ks1 @ ks2" "cs = cs1 @ c # cs2" "length ks1 = length cs1"
    "length ks2 = length cs2" "length cs1 = std_upper_bound ks x" "key_in (lower lo ks1) (upper hi ks2) x"
    "left_part lo ks1 cs1" "tree_in (lower lo ks1) (upper hi ks2) c" "right_part hi ks2 cs2"
    by (rule forest_split [OF f refl NodeT.prems(2)])
  have "find (has_key x) (tree_tuples c) = find (has_key x) (snd (leaf_of c x))"
    using NodeT.IH [of c, OF _ s(8,6)] by (simp add: s(2))
  moreover have "cs ! length cs1 = c" by (simp add: s(2))
  ultimately show ?case
    using find_middle [OF left_part_ordered [OF s(7), THEN conjunct1] right_part_ordered [OF s(9), THEN conjunct1] s(6)]
    by (simp add: Let_def flip: s(5)) (simp add: s(2))
qed simp

lemma all_map_cong:
  assumes "map P xs = map P ys"
  shows "(\<forall>x \<in> set xs. P x) \<longleftrightarrow> (\<forall>y \<in> set ys. P y)"
proof -
  have "(\<forall>x \<in> set zs. P x) \<longleftrightarrow> (\<forall>b \<in> set (map P zs). b)" for zs by simp
  then show ?thesis by (simp only: assms)
qed

lemma put_tuple_pages [simp]: "root_of (put_tuple u t) = root_of t" "tree_pages (put_tuple u t) = tree_pages t"
    "level h (put_tuple u t) = level h t" "leaf_pids (put_tuple u t) = leaf_pids t"
proof -
  show "leaf_pids (put_tuple u t) = leaf_pids t"
  proof (induction t)
    case (NodeT pid ks cs)
    let ?i = "std_upper_bound ks (tuple_key u)"
    have "map leaf_pids (cs[?i := put_tuple u (cs ! ?i)]) = map leaf_pids cs" if "?i < length cs"
      using NodeT.IH [of "cs ! ?i"] that by (simp add: map_update list_update_same_conv)
    then show ?case by (simp add: Let_def)
  qed simp
  show "root_of (put_tuple u t) = root_of t" by (cases t) (simp_all add: Let_def)
  show "tree_pages (put_tuple u t) = tree_pages t"
  proof (induction t)
    case (NodeT pid ks cs)
    let ?i = "std_upper_bound ks (tuple_key u)"
    have "map tree_pages (cs[?i := put_tuple u (cs ! ?i)]) = map tree_pages cs" if "?i < length cs"
      using NodeT.IH [of "cs ! ?i"] that by (simp add: map_update list_update_same_conv)
    then show ?case by (simp add: Let_def)
  qed simp
  show "level h (put_tuple u t) = level h t"
  proof (induction t arbitrary: h)
    case (NodeT pid ks cs)
    let ?i = "std_upper_bound ks (tuple_key u)"
    have "map (level h') (cs[?i := put_tuple u (cs ! ?i)]) = map (level h') cs" if "?i < length cs" for h'
      using NodeT.IH [of "cs ! ?i"] that by (simp add: map_update list_update_same_conv)
    then have "(\<forall>c \<in> set (cs[?i := put_tuple u (cs ! ?i)]). level h' c) \<longleftrightarrow> (\<forall>c \<in> set cs. level h' c)" if "?i < length cs" for h'
      using that by (intro all_map_cong) blast
    then show ?case by (simp add: Let_def level_NodeT)
  qed simp
qed

lemma filled_put_tuple: "filled t \<Longrightarrow> filled (put_tuple u t)"
proof (induction t)
  case (NodeT pid ks cs)
  then show ?case by (auto simp: Let_def dest!: set_update_subset_insert [THEN subsetD])
qed simp

lemma chained_put_tuple: "chained t \<Longrightarrow> chained (put_tuple u t)"
proof (induction t)
  case (NodeT pid ks cs)
  then show ?case
    by (auto simp: Let_def filled_put_tuple dest!: set_update_subset_insert [THEN subsetD])
qed simp

lemma keyed_put_tuple: "keyed t \<Longrightarrow> keyed (put_tuple u t)"
proof (induction t)
  case (NodeT pid ks cs)
  then show ?case by (auto simp: Let_def dest!: set_update_subset_insert [THEN subsetD])
qed simp

lemma nth_focus: "length cs1 = i \<Longrightarrow> (cs1 @ c # cs2) ! i = c" "length cs1 = i \<Longrightarrow> (cs1 @ c # cs2)[i := d] = cs1 @ d # cs2"
  by auto

lemma put_tuple_in:
  "tree_in lo hi t \<Longrightarrow> key_in lo hi (tuple_key u) \<Longrightarrow> tuple_key u \<notin> tuple_key ` set (tree_tuples t) \<Longrightarrow>
    tree_in lo hi (put_tuple u t) \<and> tree_tuples (put_tuple u t) = insert_tuple u (tree_tuples t)"
proof (induction t arbitrary: lo hi)
  case (LeafT pid ts)
  then show ?case using insert_tuple_strict [of lo hi ts u] by (simp add: ordered_def)
next
  case (NodeT pid ks cs)
  have f: "forest_in lo hi ks cs" using NodeT.prems by simp
  obtain ks1 ks2 cs1 c cs2 where s: "ks = ks1 @ ks2" "cs = cs1 @ c # cs2" "length ks1 = length cs1"
    "length ks2 = length cs2" "length cs1 = std_upper_bound ks (tuple_key u)"
    "key_in (lower lo ks1) (upper hi ks2) (tuple_key u)"
    "left_part lo ks1 cs1" "tree_in (lower lo ks1) (upper hi ks2) c" "right_part hi ks2 cs2"
    by (rule forest_split [OF f refl NodeT.prems(2)])
  have ih: "tree_in (lower lo ks1) (upper hi ks2) (put_tuple u c)"
    "tree_tuples (put_tuple u c) = insert_tuple u (tree_tuples c)"
    using NodeT.IH [of c, OF _ s(8,6)] NodeT.prems(3) by (auto simp: s(2))
  have p: "put_tuple u (NodeT pid ks cs) = NodeT pid ks (cs1 @ put_tuple u c # cs2)"
    by (simp add: Let_def flip: s(5)) (simp add: s(2))
  have "lower lo ks1 < upper hi ks2" using s(6) by (simp add: key_in_def)
  then have "forest_in lo hi ks (cs1 @ put_tuple u c # cs2)"
    unfolding s(1) forest_focus [OF s(3,4)] using s(7,9) ih(1) by simp
  moreover have "insert_tuple u (tree_tuples (NodeT pid ks cs)) =
      concat (map tree_tuples cs1) @ insert_tuple u (tree_tuples c) @ concat (map tree_tuples cs2)"
    using insert_tuple_middle [OF left_part_ordered [OF s(7), THEN conjunct1]
        right_part_ordered [OF s(9), THEN conjunct1] s(6)] by (simp add: s(2))
  ultimately show ?case by (simp only: p) (simp add: ih(2))
qed

lemma leaf_of_at:
  assumes "tree_at V t" "tree_in lo hi t" "key_in lo hi x" "leaf_of t x = (pid, ts)"
  shows "pid \<in> set (tree_pages t) \<and> leaf_wf (V pid) \<and> page_id (V pid) = pid \<and> tuples (V pid) = ts \<and>
    set ts \<subseteq> set (tree_tuples t)"
  using assms
proof (induction t arbitrary: lo hi)
  case (NodeT p ks cs)
  have f: "forest_in lo hi ks cs" using NodeT.prems by simp
  obtain ks1 ks2 cs1 c cs2 where s: "ks = ks1 @ ks2" "cs = cs1 @ c # cs2" "length ks1 = length cs1"
    "length ks2 = length cs2" "length cs1 = std_upper_bound ks x" "key_in (lower lo ks1) (upper hi ks2) x"
    "left_part lo ks1 cs1" "tree_in (lower lo ks1) (upper hi ks2) c" "right_part hi ks2 cs2"
    by (rule forest_split [OF f refl NodeT.prems(3)])
  have "cs ! length cs1 = c" "length cs1 < length cs" by (simp_all add: s(2))
  then have l: "leaf_of c x = (pid, ts)" using NodeT.prems(4) by (simp add: Let_def flip: s(5))
  have c: "c \<in> set cs" "tree_at V c" using NodeT.prems(1) by (simp_all add: s(2))
  from NodeT.IH [OF c s(8,6) l] show ?case using c(1) by auto
qed simp

lemma put_tuple_at:
  assumes "tree_at V t" "tree_in lo hi t" "key_in lo hi (tuple_key u)" "distinct (tree_pages t)"
    "leaf_of t (tuple_key u) = (pid, ts)" "leaf_wf q" "page_id q = pid" "tuples q = insert_tuple u ts"
  shows "tree_at (V(pid := q)) (put_tuple u t)"
  using assms(1-5)
proof (induction t arbitrary: lo hi)
  case (LeafT p ts')
  then show ?case using assms(6-8) by simp
next
  case (NodeT p ks cs)
  have f: "forest_in lo hi ks cs" using NodeT.prems by simp
  obtain ks1 ks2 cs1 c cs2 where s: "ks = ks1 @ ks2" "cs = cs1 @ c # cs2" "length ks1 = length cs1"
    "length ks2 = length cs2" "length cs1 = std_upper_bound ks (tuple_key u)"
    "key_in (lower lo ks1) (upper hi ks2) (tuple_key u)"
    "left_part lo ks1 cs1" "tree_in (lower lo ks1) (upper hi ks2) c" "right_part hi ks2 cs2"
    by (rule forest_split [OF f refl NodeT.prems(3)])
  have "cs ! length cs1 = c" "length cs1 < length cs" by (simp_all add: s(2))
  then have l: "leaf_of c (tuple_key u) = (pid, ts)" using NodeT.prems(5) by (simp add: Let_def flip: s(5))
  have c: "c \<in> set cs" "tree_at V c" "distinct (tree_pages c)" using NodeT.prems(1,4) by (simp_all add: s(2))
  note ih = NodeT.IH [OF c(1,2) s(8,6) c(3) l]
  have pc: "pid \<in> set (tree_pages c)" using leaf_of_at [OF c(2) s(8,6) l] by simp
  have p: "put_tuple u (NodeT p ks cs) = NodeT p ks (cs1 @ put_tuple u c # cs2)"
    by (simp add: Let_def flip: s(5)) (simp add: s(2))
  have "p \<noteq> pid" using NodeT.prems(4) pc by (auto simp: s(2))
  moreover have "tree_at (V(pid := q)) d" if "d \<in> set cs1 \<union> set cs2" for d
  proof (rule tree_at_frame)
    show "tree_at V d" using NodeT.prems(1) that by (auto simp: s(2))
    show "(V(pid := q)) a = V a" if "a \<in> set (tree_pages d)" for a
      using NodeT.prems(4) pc that \<open>d \<in> set cs1 \<union> set cs2\<close> by (auto simp: s(2))
  qed
  ultimately show ?case using ih NodeT.prems(1) unfolding p by (auto simp: s(2) fun_upd_def)
qed

end
