(* ===== verification/Tree_Search.thy ===== *)
theory Tree_Search
  imports Payload_Stream Tree_Shape
begin

text \<open>
  Search and reading. The descent of the code through the buffer pool ends at the leaf the
  abstract descent names and opens a stream on the tuple; the stream then delivers the bytes of
  the tuple and of its chain of overflow pages, in order and without a gap, in portions of any
  sizes, pages being evicted and read again in between.
\<close>

section \<open>What a stream will deliver\<close>

text \<open>
  \<open>chain_at D V n ps flag pid data\<close>: the overflow pages \<open>ps\<close>, reached through the link \<open>pid\<close> if
  \<open>flag\<close> is set, hold exactly \<open>data\<close>.
\<close>

fun chain_at :: "PageID set \<Rightarrow> (PageID \<Rightarrow> mem) \<Rightarrow> PageID \<Rightarrow> PageID list \<Rightarrow> bool \<Rightarrow> PageID \<Rightarrow> byte list \<Rightarrow> bool" where
  "chain_at D V n [] flag pid data \<longleftrightarrow> \<not> flag \<and> data = []"
| "chain_at D V n (q # qs) flag pid data \<longleftrightarrow> flag \<and> pid = q \<and> data \<noteq> [] \<and> q \<noteq> 0 \<and> q < n \<and> q \<notin> D \<and>
     page_type (V q) = PageType_code OverflowPage \<and>
     bytes (V q) 18 (min 4078 (length data)) = take 4078 data \<and>
     chain_at D V n qs (load_u8 (V q) 9 > 0) (load_u64 (V q) 10) (drop 4078 data)"

definition stream_on :: "PageID set \<Rightarrow> (PageID \<Rightarrow> mem) \<Rightarrow> PageID \<Rightarrow> PageID list \<Rightarrow> PayloadStream \<Rightarrow> byte list \<Rightarrow> bool" where
  "stream_on D V n ps s data \<longleftrightarrow>
     curr_pid s \<noteq> 0 \<and> curr_pid s < n \<and> curr_pid s \<notin> D \<and> curr_page_offset s \<le> curr_page_end s \<and>
     0 < curr_page_end s \<and> curr_page_end s \<le> 4096 \<and>
     bytes_read s + length data = total_bytes s \<and> total_bytes s < 18446744073709551616 \<and>
     bytes (V (curr_pid s)) (curr_page_offset s) (min (curr_page_end s - curr_page_offset s) (length data)) =
       take (curr_page_end s - curr_page_offset s) data \<and>
     chain_at D V n ps (overflow s) (ps_overflow_page s) (drop (curr_page_end s - curr_page_offset s) data)"

text \<open>A stream that will deliver \<open>data\<close>; the default stream delivers nothing.\<close>

definition stream_ok :: "PageID set \<Rightarrow> (PageID \<Rightarrow> mem) \<Rightarrow> PageID \<Rightarrow> PayloadStream \<Rightarrow> byte list \<Rightarrow> bool" where
  "stream_ok D V n s data \<longleftrightarrow> (\<exists>ps. stream_on D V n ps s data) \<or> data = [] \<and> bytes_read s = total_bytes s"

lemma chain_flag: "chain_at D V n ps flag pid data \<Longrightarrow> flag \<longleftrightarrow> data \<noteq> []"
  by (cases ps) auto

lemma chain_frame:
  "chain_at D V n ps flag pid data \<Longrightarrow> (\<And>q. q \<in> set ps \<Longrightarrow> V' q = V q) \<Longrightarrow> n \<le> n' \<Longrightarrow>
    chain_at D V' n' ps flag pid data"
  by (induction D V n ps flag pid data rule: chain_at.induct) auto

text \<open>A fresh stream on the tuple \<open>u\<close>, and what it takes for the tuple to hold \<open>data\<close>.\<close>

definition starts :: "PageID set \<Rightarrow> (PageID \<Rightarrow> mem) \<Rightarrow> PageID \<Rightarrow> byte list \<Rightarrow> PayloadStream \<Rightarrow> bool" where
  "starts D V n u s \<longleftrightarrow> (\<exists>pid off. pid \<noteq> 0 \<and> pid < n \<and> pid \<notin> D \<and> 21 \<le> length u \<and> off + length u \<le> 4096 \<and>
     bytes (V pid) off (length u) = u \<and>
     s = \<lparr>curr_pid = pid, curr_page_offset = off + 13, curr_page_end = off + length u, total_bytes = tuple_size u,
          bytes_read = 0, overflow = tuple_overflow u, ps_overflow_page = tuple_overflow_page u\<rparr>)"

definition stored :: "PageID set \<Rightarrow> (PageID \<Rightarrow> mem) \<Rightarrow> PageID \<Rightarrow> PageID list \<Rightarrow> byte list \<Rightarrow> byte list \<Rightarrow> bool" where
  "stored D V n ps u data \<longleftrightarrow> tuple_size u = length data \<and> tuple_payload u = take (length u - 13) data \<and>
     length u - 13 \<le> length data \<and>
     chain_at D V n ps (tuple_overflow u) (tuple_overflow_page u) (drop (length u - 13) data)"

lemma starts_stream:
  assumes "starts D V n u s" "stored D V n ps u data"
  shows "stream_ok D V n s data"
proof -
  obtain pid off where s: "pid \<noteq> 0" "pid < n" "pid \<notin> D" "21 \<le> length u" "off + length u \<le> 4096" "bytes (V pid) off (length u) = u"
    "s = \<lparr>curr_pid = pid, curr_page_offset = off + 13, curr_page_end = off + length u, total_bytes = tuple_size u,
          bytes_read = 0, overflow = tuple_overflow u, ps_overflow_page = tuple_overflow_page u\<rparr>"
    using assms(1) by (auto simp: starts_def)
  have l: "length data = tuple_size u" "tuple_size u < 18446744073709551616"
    using assms(2) load_u32_less [of "of_bytes u" 9] by (simp_all add: stored_def tuple_size_def)
  have "drop 13 (bytes (V pid) off (length u)) = bytes (V pid) (off + 13) (length u - 13)"
    using s(4) by (simp add: drop_bytes)
  then have "bytes (V pid) (off + 13) (length u - 13) = take (length u - 13) data"
    using assms(2) by (simp add: s(6) stored_def tuple_payload_def)
  then have "stream_on D V n ps s data"
    using s(1-5,7) l assms(2) by (auto simp: stream_on_def stored_def min_def)
  then show ?thesis by (auto simp: stream_ok_def)
qed

lemma stream_remaining:
  assumes "stream_ok D V n s data"
  shows "u64 (int (total_bytes s) - int (bytes_read s)) = length data" "PayloadRemaining s = length data"
    "IsEOF s \<longleftrightarrow> data = []"
proof -
  have "bytes_read s + length data = total_bytes s"
    "length data < 18446744073709551616"
    using assms by (auto simp: stream_ok_def stream_on_def)
  then show "u64 (int (total_bytes s) - int (bytes_read s)) = length data" "PayloadRemaining s = length data"
    "IsEOF s \<longleftrightarrow> data = []"
    by (auto simp: PayloadRemaining_def IsEOF_def simp flip: \<open>bytes_read s + length data = total_bytes s\<close>)
qed

text \<open>One round of the loop: the bytes it copies, and the stream it leaves.\<close>

lemma read_chunk:
  assumes s: "stream_on D V n ps s data" and pg: "same_page page (V (curr_pid s))" and b: "b \<le> length data"
    and k: "k = min b (curr_page_end s - curr_page_offset s)"
  shows "PayloadStream_ReadPage page b (curr_page_offset s) (u64 (int (curr_page_end s) - 1)) =
    (curr_page_offset s + k, take k data)"
proof -
  let ?off = "curr_page_offset s" and ?stop = "curr_page_end s" and ?pid = "curr_pid s"
  have bd: "?off \<le> ?stop" "0 < ?stop" "?stop \<le> 4096" using s by (simp_all add: stream_on_def)
  have v: "bytes (V ?pid) ?off (min (?stop - ?off) (length data)) = take (?stop - ?off) data"
    using s by (simp add: stream_on_def)
  have "bytes page ?off k = bytes (V ?pid) ?off k"
    by (rule same_page_bytes [OF pg]) (use bd in \<open>simp add: k\<close>)
  also have "\<dots> = take k (bytes (V ?pid) ?off (min (?stop - ?off) (length data)))"
    using b by (simp add: take_bytes k)
  also have "\<dots> = take k data" unfolding v by (simp add: k)
  finally have p: "bytes page ?off k = take k data" .
  have "u64 (int (u64 (int ?stop - 1)) - int ?off + 1) = ?stop - ?off"
    using bd by (simp add: nat_diff_distrib)
  then show ?thesis using p by (auto simp: PayloadStream_ReadPage_def k min_def Let_def)
qed

lemma read_stop:
  assumes s: "stream_on D V n ps s data" and b: "b \<le> length data"
    and k: "k = min b (curr_page_end s - curr_page_offset s)"
    and no: "\<not> (curr_page_offset s + k = curr_page_end s \<and> overflow s)"
  shows "k = b" "curr_page_offset s + k = curr_page_end s \<Longrightarrow>
      stream_ok D V n (s\<lparr>bytes_read := bytes_read s + k\<rparr>) (drop b data)"
    "curr_page_offset s + k \<noteq> curr_page_end s \<Longrightarrow>
      stream_ok D V n (s\<lparr>bytes_read := bytes_read s + k, curr_page_offset := curr_page_offset s + k\<rparr>) (drop b data)"
proof -
  let ?off = "curr_page_offset s" and ?stop = "curr_page_end s" and ?pid = "curr_pid s"
  have len: "length data \<le> ?stop - ?off" if "\<not> overflow s"
    using s chain_flag [of D V n ps "overflow s" "ps_overflow_page s" "drop (?stop - ?off) data"] that
    by (simp add: stream_on_def)
  show kb: "k = b" using no len b k s by (auto simp: stream_on_def min_def split: if_splits)
  show "stream_ok D V n (s\<lparr>bytes_read := bytes_read s + k\<rparr>) (drop b data)" if "?off + k = ?stop"
  proof -
    have "length data \<le> b" using that no len kb k by auto
    then show ?thesis using s b kb by (simp add: stream_ok_def stream_on_def)
  qed
  show "stream_ok D V n (s\<lparr>bytes_read := bytes_read s + k, curr_page_offset := ?off + k\<rparr>) (drop b data)"
    if ne: "?off + k \<noteq> ?stop"
  proof -
    have le: "b \<le> ?stop - ?off" using k kb by simp
    have "bytes (V ?pid) (?off + b) (min (?stop - ?off) (length data) - b) =
        drop b (bytes (V ?pid) ?off (min (?stop - ?off) (length data)))"
      using le b by (simp add: drop_bytes)
    also have "\<dots> = take (?stop - (?off + b)) (drop b data)"
      using s by (simp add: stream_on_def drop_take)
    also have "min (?stop - ?off) (length data) - b = min (?stop - (?off + b)) (length data - b)" by simp
    finally have v: "bytes (V ?pid) (?off + b) (min (?stop - (?off + b)) (length data - b)) =
        take (?stop - (?off + b)) (drop b data)" .
    have oe: "?off + b \<le> ?stop" using le s [unfolded stream_on_def] by linarith
    have "?stop - (?off + b) + b = ?stop - ?off" using oe by simp
    then have "drop (?stop - (?off + b)) (drop b data) = drop (?stop - ?off) data" by simp
    then have "stream_on D V n ps (s\<lparr>bytes_read := bytes_read s + k, curr_page_offset := ?off + k\<rparr>) (drop b data)"
      using s v kb oe b unfolding stream_on_def by simp
    then show ?thesis by (auto simp: stream_ok_def)
  qed
qed

lemma read_more:
  assumes s: "stream_on D V n ps s data" and b: "b \<le> length data"
    and k: "k = min b (curr_page_end s - curr_page_offset s)"
    and yes: "curr_page_offset s + k = curr_page_end s" "overflow s"
  obtains q qs where "ps = q # qs" "ps_overflow_page s = q" "q \<noteq> 0" "q < n" "q \<notin> D" "k \<le> b"
    "stream_on D V n qs (s\<lparr>bytes_read := bytes_read s + k, curr_pid := q, curr_page_offset := 18, curr_page_end := 4096,
       overflow := (load_u8 (V q) 9 > 0), ps_overflow_page := load_u64 (V q) 10\<rparr>) (drop k data)"
proof -
  let ?off = "curr_page_offset s" and ?stop = "curr_page_end s"
  have kr: "?stop - ?off = k" "k \<le> b" using yes(1) k by simp_all
  have c: "chain_at D V n ps (overflow s) (ps_overflow_page s) (drop k data)"
    using s unfolding stream_on_def kr(1) by simp
  then obtain q qs where ps: "ps = q # qs" using yes(2) by (cases ps) auto
  have "stream_on D V n qs (s\<lparr>bytes_read := bytes_read s + k, curr_pid := q, curr_page_offset := 18, curr_page_end := 4096,
       overflow := (load_u8 (V q) 9 > 0), ps_overflow_page := load_u64 (V q) 10\<rparr>) (drop k data)"
    using s c b kr(2) by (auto simp: stream_on_def ps)
  then show ?thesis using c kr(2) by (intro that [OF ps]) (simp_all add: ps)
qed

context regular_file begin

section \<open>Reading\<close>

lemma next_loop_stop:
  assumes c: "cache file_byte file_size D (add_mset (curr_pid s) P) {} F V n bp"
    and s: "stream_on D V n ps s data" and b: "b \<le> length data"
    and no: "b = 0 \<or> \<not> (curr_page_offset s + min b (curr_page_end s - curr_page_offset s) = curr_page_end s \<and> overflow s)"
  shows "\<exists>s' bp' F'. next_loop os bp s (F (curr_pid s)) b acc = Some (acc @ take b data, s', bp') \<and>
    cache file_byte file_size D (add_mset (curr_pid s') P) {} F' V n bp' \<and> stream_ok D V n s' (drop b data)"
proof (cases "b = 0")
  case True
  then show ?thesis using c s by (subst next_loop.simps) (auto simp: stream_ok_def)
next
  case False
  define k where "k = min b (curr_page_end s - curr_page_offset s)"
  have pg: "same_page (buffer_pool bp (F (curr_pid s))) (V (curr_pid s))" by (rule cache_frame [OF c]) simp
  note rd = read_chunk [OF s pg b k_def]
  have no: "\<not> (curr_page_offset s + k = curr_page_end s \<and> overflow s)" using no False by (simp add: k_def)
  note st = read_stop [OF s b k_def no]
  define s' where "s' = (if curr_page_offset s + k = curr_page_end s then s\<lparr>bytes_read := bytes_read s + k\<rparr>
    else s\<lparr>bytes_read := bytes_read s + k, curr_page_offset := curr_page_offset s + k\<rparr>)"
  have "next_loop os bp s (F (curr_pid s)) b acc = Some (acc @ take b data, s', bp)"
    using False no st(1) by (subst next_loop.simps) (auto simp: rd s'_def Let_def)
  moreover have "stream_ok D V n s' (drop b data)" "curr_pid s' = curr_pid s"
    using st(2,3) by (auto simp: s'_def)
  ultimately show ?thesis using c by (intro exI [of _ s'] exI [of _ bp] exI [of _ F]) simp
qed

lemma next_loop_correct:
  assumes "cache file_byte file_size D (add_mset (curr_pid s) P) {} F V n bp" and "size P < 1000"
    and "stream_on D V n ps s data" and "b \<le> length data"
  shows "\<exists>s' bp' F'. next_loop os bp s (F (curr_pid s)) b acc = Some (acc @ take b data, s', bp') \<and>
    cache file_byte file_size D (add_mset (curr_pid s') P) {} F' V n bp' \<and> stream_ok D V n s' (drop b data)"
  using assms
proof (induction ps arbitrary: bp s b acc data F)
  case Nil
  then have "\<not> overflow s" by (simp add: stream_on_def)
  then show ?case using next_loop_stop [OF Nil.prems(1,3,4)] by blast
next
  case (Cons q qs)
  let ?off = "curr_page_offset s" and ?stop = "curr_page_end s" and ?pid = "curr_pid s"
  note c = Cons.prems(1)
  define k where "k = min b (?stop - ?off)"
  have pg: "same_page (buffer_pool bp (F ?pid)) (V ?pid)" by (rule cache_frame [OF c]) simp
  note rd = read_chunk [OF Cons.prems(3) pg Cons.prems(4) k_def]
  show ?case
  proof (cases "b = 0 \<or> \<not> (?off + k = ?stop \<and> overflow s)")
    case True
    then show ?thesis using next_loop_stop [OF Cons.prems(1,3,4)] unfolding k_def by blast
  next
    case False
    then have nz: "b \<noteq> 0" and True: "?off + k = ?stop \<and> overflow s" by simp_all
    show ?thesis
    proof -
      obtain r rs where "q # qs = r # rs" "ps_overflow_page s = r" "r \<noteq> 0" "r < n" "r \<notin> D" "k \<le> b"
        "stream_on D V n rs (s\<lparr>bytes_read := bytes_read s + k, curr_pid := r, curr_page_offset := 18, curr_page_end := 4096,
          overflow := (load_u8 (V r) 9 > 0), ps_overflow_page := load_u64 (V r) 10\<rparr>) (drop k data)"
        by (rule read_more [OF Cons.prems(3,4) k_def conjunct1 [OF True] conjunct2 [OF True]])
      then have q: "ps_overflow_page s = q" "q \<noteq> 0" "q < n" "q \<notin> D" "k \<le> b"
        and st: "stream_on D V n qs (s\<lparr>bytes_read := bytes_read s + k, curr_pid := q, curr_page_offset := 18, curr_page_end := 4096,
          overflow := (load_u8 (V q) 9 > 0), ps_overflow_page := load_u64 (V q) 10\<rparr>) (drop k data)" by simp_all
      let ?bp1 = "release_page bp ?pid False"
      have "cache file_byte file_size D P {} F V n ?bp1" using cache_release [OF c, of ?pid False] by simp
      from cache_request [OF this Cons.prems(2) q(2-4)] obtain j bp2 where
        j: "request_page os ?bp1 q = Some (j, bp2)"
          "cache file_byte file_size D (add_mset q P) {} (F(q := j)) V n bp2" by blast
      have fr: "same_page (buffer_pool bp2 j) (V q)" using cache_frame [OF j(2), of q] by simp
      let ?s2 = "s\<lparr>bytes_read := bytes_read s + k, curr_pid := q, curr_page_offset := 18, curr_page_end := 4096,
        overflow := (load_u8 (V q) 9 > 0), ps_overflow_page := load_u64 (V q) 10\<rparr>"
      have u: "load_le (buffer_pool bp2 j) 9 (Suc 0) = load_le (V q) 9 (Suc 0)"
        "load_u64 (buffer_pool bp2 j) 10 = load_u64 (V q) 10"
        using same_page_load [OF fr] by simp_all
      have kk: "bytes_read s + ?stop - ?off = bytes_read s + k" "b + ?off - ?stop = b - k" using True by auto
      have l: "next_loop os bp s (F ?pid) b acc = next_loop os bp2 ?s2 j (b - k) (acc @ take k data)"
        using nz True j(1) q(1) kk
        by (subst next_loop.simps) (simp add: rd u OVERFLOW_PAGE_HEADER_SIZE_def PAGE_SIZE_def)
      have "curr_pid ?s2 = q" by simp
      then have c2: "cache file_byte file_size D (add_mset (curr_pid ?s2) P) {} (F(q := j)) V n bp2" using j(2) by simp
      have b2: "b - k \<le> length (drop k data)" using Cons.prems(4) by simp
      from Cons.IH [OF c2 Cons.prems(2) st b2, of "acc @ take k data"] show ?thesis
        unfolding l using q(5) by (simp add: take_add [symmetric] flip: take_drop)
    qed
  qed
qed

lemma NextBytes_correct:
  assumes c: "cache file_byte file_size D P {} F V n bp" and few: "size P < 1000" and s: "stream_ok D V n s data"
  shows "\<exists>s' bp' F'. NextBytes os bp s m = Some (take m data, s', bp') \<and>
    cache file_byte file_size D P {} F' V n bp' \<and> stream_ok D V n s' (drop m data)"
proof (cases "data = []")
  case True
  then show ?thesis using c s stream_remaining(1) [OF s] by (auto simp: NextBytes_def Let_def)
next
  case False
  then obtain ps where ps: "stream_on D V n ps s data" using s by (auto simp: stream_ok_def)
  then have "curr_pid s \<noteq> 0" "curr_pid s < n" "curr_pid s \<notin> D" by (simp_all add: stream_on_def)
  from cache_request [OF c few this] obtain i bp1 where
    i: "request_page os bp (curr_pid s) = Some (i, bp1)"
      "cache file_byte file_size D (add_mset (curr_pid s) P) {} (F(curr_pid s := i)) V n bp1" by blast
  let ?b = "min m (length data)"
  have b: "?b \<le> length data" by simp
  from next_loop_correct [OF i(2) few ps b, of "[]"] obtain s' bp' F' where
    l: "next_loop os bp1 s i ?b [] = Some (take m data, s', bp')"
      "cache file_byte file_size D (add_mset (curr_pid s') P) {} F' V n bp'" "stream_ok D V n s' (drop m data)"
    by (auto simp: min_def split: if_splits)
  have "cache file_byte file_size D P {} F' V n (release_page bp' (curr_pid s') False)"
    using cache_release [OF l(2), of "curr_pid s'" False] by simp
  then show ?thesis
    using False i(1) l(1,3) stream_remaining(1) [OF s] by (auto simp: NextBytes_def Let_def)
qed

section \<open>The descent\<close>

text \<open>
  What every descent, of a search, an insertion or a deletion, does first: it pins the page of the
  tree it has reached. A leaf is recognised as one; in an inner page the code finds the child whose
  bounds enclose the key.
\<close>

lemma enter_leaf:
  assumes c: "cache file_byte file_size D P {} F V n bp" and few: "size P < 1000" and t: "tree_at V (LeafT pid ts)"
    and p: "\<forall>p \<in> set (tree_pages (LeafT pid ts)). p \<noteq> 0 \<and> p < n \<and> p \<notin> D"
  obtains i bp1 where "request_page os bp pid = Some (i, bp1)"
    "cache file_byte file_size D (add_mset pid P) {} (F(pid := i)) V n bp1" "\<forall>q \<in># P. (F(pid := i)) q = F q"
    "same_page (V pid) (buffer_pool bp1 i)" "page_type (buffer_pool bp1 i) = PageType_code LeafPage"
proof -
  have "pid \<noteq> 0" "pid < n" "pid \<notin> D" using p by simp_all
  from cache_request [OF c few this] obtain i bp1 where
    i: "request_page os bp pid = Some (i, bp1)" "cache file_byte file_size D (add_mset pid P) {} (F(pid := i)) V n bp1"
      "pid \<in># P \<longrightarrow> i = F pid" by blast
  have sp: "same_page (V pid) (buffer_pool bp1 i)" using same_page_sym [OF cache_frame [OF i(2), of pid]] by simp
  have "leaf_wf (buffer_pool bp1 i)" using same_page_leaf(1) [OF _ sp] t by simp
  then show ?thesis using i by (intro that [OF i(1,2) _ sp leaf_wfD(1)]) auto
qed

lemma enter_node:
  assumes c: "cache file_byte file_size D P {} F V n bp" and few: "size P < 1000" and t: "tree_at V (NodeT pid ks cs)"
    and lv: "level h (NodeT pid ks cs)" and tin: "tree_in lo hi (NodeT pid ks cs)" and k: "key_in lo hi key"
    and p: "\<forall>p \<in> set (tree_pages (NodeT pid ks cs)). p \<noteq> 0 \<and> p < n \<and> p \<notin> D"
  obtains i bp1 h' ks1 ks2 cs1 c cs2 where "request_page os bp pid = Some (i, bp1)"
    "cache file_byte file_size D (add_mset pid P) {} (F(pid := i)) V n bp1" "\<forall>q \<in># P. (F(pid := i)) q = F q"
    "page_type (buffer_pool bp1 i) = PageType_code InternalPage" "GetChildPageID (buffer_pool bp1 i) key = root_of c"
    "h = Suc h'" "ks = ks1 @ ks2" "cs = cs1 @ c # cs2" "length ks1 = length cs1" "length ks2 = length cs2"
    "key_in (lower lo ks1) (upper hi ks2) key" "left_part lo ks1 cs1" "tree_in (lower lo ks1) (upper hi ks2) c"
    "right_part hi ks2 cs2" "\<forall>d \<in> set (cs1 @ c # cs2). tree_at V d \<and> level h' d"
    "\<forall>p \<in> set (tree_pages c). p \<noteq> 0 \<and> p < n \<and> p \<notin> D"
proof -
  have "pid \<noteq> 0" "pid < n" "pid \<notin> D" using p by simp_all
  from cache_request [OF c few this] obtain i bp1 where
    i: "request_page os bp pid = Some (i, bp1)" "cache file_byte file_size D (add_mset pid P) {} (F(pid := i)) V n bp1"
      "pid \<in># P \<longrightarrow> i = F pid" by blast
  have sp: "same_page (V pid) (buffer_pool bp1 i)" using same_page_sym [OF cache_frame [OF i(2), of pid]] by simp
  have pg: "internal_wf (V pid)" "keys (V pid) = ks" "children (V pid) = map root_of cs" using t by simp_all
  note it = same_page_internal [OF pg(1) sp]
  have ty: "page_type (buffer_pool bp1 i) = PageType_code InternalPage" using it(1) by (simp add: internal_wf_def)
  obtain h' where h: "h = Suc h'" "\<forall>c \<in> set cs. level h' c" using lv by (auto simp: level_NodeT)
  have f: "forest_in lo hi ks cs" using tin by simp
  obtain ks1 ks2 cs1 c cs2 where s: "ks = ks1 @ ks2" "cs = cs1 @ c # cs2" "length ks1 = length cs1"
    "length ks2 = length cs2" "length cs1 = std_upper_bound ks key" "key_in (lower lo ks1) (upper hi ks2) key"
    "left_part lo ks1 cs1" "tree_in (lower lo ks1) (upper hi ks2) c" "right_part hi ks2 cs2"
    by (rule forest_split [OF f refl k])
  have child: "GetChildPageID (buffer_pool bp1 i) key = root_of c"
    unfolding GetChildPageID_route [OF it(1)] it(2,3) pg(2,3) s(5) [symmetric] by (simp add: s(2) nth_append)
  show ?thesis using i(3) t p h(2)
    by (intro that [OF i(1,2) _ ty child h(1) s(1-4,6-9)]) (auto simp: s(2))
qed

text \<open>The stream a search returns starts at the payload of the tuple it has found.\<close>

lemma found_stream:
  assumes wf: "leaf_wf (V pid)" and sp: "same_page (V pid) page" and u: "find (has_key x) (tuples (V pid)) = Some u"
    and p: "pid \<noteq> 0" "pid < n" "pid \<notin> D"
  shows "found (LeafPage_Search page x)" "starts D V n u (PayloadStream_new pid (LeafPage_Search page x))"
proof -
  let ?r = "LeafPage_Search page x"
  note lf = same_page_leaf [OF wf sp]
  from LeafPage_Search_hit [OF lf(1), of x u] u lf(2) have r: "found ?r"
    "bytes page (tuple_offset ?r) (tuple_end_offset ?r - tuple_offset ?r) = u"
    "tuple_offset ?r + 21 \<le> tuple_end_offset ?r" "tuple_end_offset ?r \<le> 4096"
    "total_tuple_size ?r = tuple_size u" "sr_overflow ?r = tuple_overflow u"
    "overflow_page_id ?r = tuple_overflow_page u" by simp_all
  have len: "length u = tuple_end_offset ?r - tuple_offset ?r" using r(2) length_bytes by metis
  have u: "bytes (V pid) (tuple_offset ?r) (length u) = u"
    using same_page_bytes [OF sp, of "tuple_offset ?r" "length u"] r(2-4) len by simp
  show "found ?r" by (fact r(1))
  show "starts D V n u (PayloadStream_new pid ?r)"
    unfolding starts_def PayloadStream_new_def
    using p r len u by (intro exI [of _ pid] exI [of _ "tuple_offset ?r"]) (simp add: TUPLE_HEADER_SIZE_def)
qed

lemma search_from_correct:
  assumes "cache file_byte file_size D P {} F V n bp" and "size P < 1000"
    and "tree_at V t" "level h t" "tree_in lo hi t" "key_in lo hi x" and "\<forall>p \<in> set (tree_pages t). p \<noteq> 0 \<and> p < n \<and> p \<notin> D"
  shows "\<exists>s bp' F'. search_from os (Suc h) bp (root_of t) x = Some (s, bp') \<and>
    cache file_byte file_size D P {} F' V n bp' \<and>
    (case find (has_key x) (tree_tuples t) of
       None \<Rightarrow> s = PayloadStream_empty
     | Some u \<Rightarrow> u \<in> set (tree_tuples t) \<and> starts D V n u s)"
  using assms
proof (induction t arbitrary: h bp F lo hi)
  case (LeafT pid ts)
  obtain i bp1 where i: "request_page os bp pid = Some (i, bp1)"
    "cache file_byte file_size D (add_mset pid P) {} (F(pid := i)) V n bp1"
    "same_page (V pid) (buffer_pool bp1 i)" "page_type (buffer_pool bp1 i) = PageType_code LeafPage"
    by (rule enter_leaf [OF LeafT.prems(1-3,7)])
  let ?r = "LeafPage_Search (buffer_pool bp1 i) x"
  have wfV: "leaf_wf (V pid)" "tuples (V pid) = ts" using LeafT.prems(3) by simp_all
  note lf = same_page_leaf [OF wfV(1) i(3)]
  have c: "cache file_byte file_size D P {} (F(pid := i)) V n (release_page bp1 pid False)"
    using cache_release [OF i(2), of pid False] by simp
  have e: "search_from os (Suc h) bp pid x =
      Some (if found ?r then PayloadStream_new pid ?r else PayloadStream_empty, release_page bp1 pid False)"
    using i(1,4) by (simp add: Let_def)
  show ?case
  proof (cases "find (has_key x) ts")
    case None
    then have "\<not> found ?r"
      using LeafPage_Search_miss [OF lf(1), of x] wfV(2) lf(2) by (simp add: not_found_def)
    then show ?thesis using e c None by auto
  next
    case (Some u)
    then have "u \<in> set ts" by (auto simp: find_Some_iff)
    moreover have "found ?r" "starts D V n u (PayloadStream_new pid ?r)"
      using found_stream [where V = V and pid = pid and u = u and x = x and n = n and D = D, OF wfV(1) i(3)] Some LeafT.prems(7)
      by (simp_all add: wfV(2))
    ultimately show ?thesis using e c Some by auto
  qed
next
  case (NodeT pid ks cs)
  obtain i bp1 h' ks1 ks2 cs1 c cs2 where e: "request_page os bp pid = Some (i, bp1)"
    "cache file_byte file_size D (add_mset pid P) {} (F(pid := i)) V n bp1"
    "page_type (buffer_pool bp1 i) = PageType_code InternalPage" "GetChildPageID (buffer_pool bp1 i) x = root_of c" "h = Suc h'"
    and s: "cs = cs1 @ c # cs2" "key_in (lower lo ks1) (upper hi ks2) x" "left_part lo ks1 cs1"
      "tree_in (lower lo ks1) (upper hi ks2) c" "right_part hi ks2 cs2"
    and ok: "\<forall>d \<in> set (cs1 @ c # cs2). tree_at V d \<and> level h' d" "\<forall>p \<in> set (tree_pages c). p \<noteq> 0 \<and> p < n \<and> p \<notin> D"
    by (rule enter_node [OF NodeT.prems])
  have c: "cache file_byte file_size D P {} (F(pid := i)) V n (release_page bp1 pid False)"
    using cache_release [OF e(2), of pid False] by simp
  have go: "search_from os (Suc h) bp pid x = search_from os (Suc h') (release_page bp1 pid False) (root_of c) x"
    unfolding e(5) by (subst search_from.simps) (use e(1,3,4) in \<open>simp add: Let_def\<close>)
  have cc: "c \<in> set cs" "tree_at V c" "level h' c" using ok(1) by (simp_all add: s(1))
  have fd: "find (has_key x) (tree_tuples (NodeT pid ks cs)) = find (has_key x) (tree_tuples c)"
    using find_middle [OF left_part_ordered [OF s(3), THEN conjunct1] right_part_ordered [OF s(5), THEN conjunct1] s(2)]
    by (simp add: s(1))
  have sub: "set (tree_tuples c) \<subseteq> set (tree_tuples (NodeT pid ks cs))" using cc(1) by auto
  from NodeT.IH [OF cc(1) c NodeT.prems(2) cc(2,3) s(4,2) ok(2)] show ?case
    unfolding fd using sub go by (fastforce split: option.splits)
qed

end

end
