(* ===== verification/Tree_Insert.thy ===== *)
theory Tree_Insert
  imports Tree_Search
begin

text \<open>
  Insertion. What \<open>FindPageToWrite\<close> leaves is the same tree, with new pages where pages were
  split, a pinned leaf where the key belongs and room in that leaf; then \<open>Insert\<close> grows the root
  if it has to, writes the first chunk of the payload into the leaf and the rest into a chain of
  overflow pages.
\<close>

section \<open>Trees after a split\<close>

text \<open>As the code reports it: the page is whole, or a new page took the keys from a boundary on.\<close>

datatype split_result = Whole page_tree | Parts page_tree Key page_tree

fun report_of :: "split_result \<Rightarrow> SplitReport" where
  "report_of (Whole t) = no_split"
| "report_of (Parts l b r) = \<lparr>was_split = True, new_page_id = root_of r, boundary_key = b\<rparr>"

fun target_tree :: "split_result \<Rightarrow> Key \<Rightarrow> page_tree" where
  "target_tree (Whole t) x = t"
| "target_tree (Parts l b r) x = (if b \<le> x then r else l)"

fun result_pages :: "split_result \<Rightarrow> PageID list" where
  "result_pages (Whole t) = tree_pages t"
| "result_pages (Parts l b r) = tree_pages l @ tree_pages r"

fun result_tuples :: "split_result \<Rightarrow> byte list list" where
  "result_tuples (Whole t) = tree_tuples t"
| "result_tuples (Parts l b r) = tree_tuples l @ tree_tuples r"

fun result_at :: "(PageID \<Rightarrow> mem) \<Rightarrow> nat \<Rightarrow> nat \<Rightarrow> nat \<Rightarrow> PageID \<Rightarrow> split_result \<Rightarrow> bool" where
  "result_at V lo hi h root (Whole t) \<longleftrightarrow> tree_at V t \<and> tree_in lo hi t \<and> level h t \<and> root_of t = root"
| "result_at V lo hi h root (Parts l b r) \<longleftrightarrow> tree_at V l \<and> tree_at V r \<and> tree_in lo (unat b) l \<and>
     tree_in (unat b) hi r \<and> lo < unat b \<and> unat b < hi \<and> level h l \<and> level h r \<and> root_of l = root"

fun filled_result :: "split_result \<Rightarrow> bool" where
  "filled_result (Whole t) \<longleftrightarrow> filled t"
| "filled_result (Parts l b r) \<longleftrightarrow> filled l \<and> filled r"

fun chained_result :: "split_result \<Rightarrow> bool" where
  "chained_result (Whole t) \<longleftrightarrow> chained t"
| "chained_result (Parts l b r) \<longleftrightarrow> filled l \<and> filled r"

fun keyed_result :: "split_result \<Rightarrow> bool" where
  "keyed_result (Whole t) \<longleftrightarrow> keyed t"
| "keyed_result (Parts l b r) \<longleftrightarrow> keyed l \<and> keyed r"

fun result_leaves :: "split_result \<Rightarrow> PageID list" where
  "result_leaves (Whole t) = leaf_pids t"
| "result_leaves (Parts l b r) = leaf_pids l @ leaf_pids r"

lemma filled_result_chained: "filled_result r \<Longrightarrow> chained_result r"
  by (cases r) (simp_all add: filled_chained)

lemma result_leaves_pages: "set (result_leaves r) \<subseteq> set (result_pages r)"
  using leaf_pids_pages by (cases r) auto

text \<open>The pages of the result: those of the tree, and fresh ones.\<close>

definition fresh_pages :: "PageID list \<Rightarrow> PageID \<Rightarrow> PageID \<Rightarrow> PageID list \<Rightarrow> bool" where
  "fresh_pages old n n' ps \<longleftrightarrow> distinct ps \<and> (\<forall>p \<in> set ps. p \<in> set old \<or> n \<le> p \<and> p < n')"

definition leaf_room :: "mem \<Rightarrow> nat \<Rightarrow> bool" where
  "leaf_room p buffer_size \<longleftrightarrow> min 128 (18 + buffer_size) \<le> CheckAvailableSpace p + CheckGarbageBytes p"

text \<open>
  The postcondition of \<open>FindPageToWrite\<close> on a tree with root \<open>root\<close>, pages \<open>old\<close> and tuples \<open>ts\<close>:
  the result \<open>r\<close>, with the target leaf \<open>tpid\<close>.
\<close>

definition found_page :: "(PageID \<Rightarrow> mem) \<Rightarrow> (PageID \<Rightarrow> mem) \<Rightarrow> PageID \<Rightarrow> PageID \<Rightarrow> nat \<Rightarrow> nat \<Rightarrow> nat \<Rightarrow> page_tree \<Rightarrow>
    Key \<Rightarrow> nat \<Rightarrow> split_result \<Rightarrow> PageID \<Rightarrow> bool" where
  "found_page V V' n n' lo hi h t key bs r tpid \<longleftrightarrow>
     result_at V' lo hi h (root_of t) r \<and> result_tuples r = tree_tuples t \<and>
     fresh_pages (tree_pages t) n n' (result_pages r) \<and> fst (leaf_of (target_tree r key) key) = tpid \<and>
     leaf_room (V' tpid) bs \<and> tpid \<in> set (result_pages r) \<and> (filled t \<longrightarrow> filled_result r) \<and>
     (chained t \<longrightarrow> chained_result r \<and> (keyed t \<longrightarrow> keyed_result r)) \<and> relinks V V' (leaf_pids t) (result_leaves r) \<and>
     (\<forall>q. q \<notin> set (tree_pages t) \<longrightarrow> q < n \<longrightarrow> V' q = V q) \<and> n \<le> n' \<and> unat n' \<le> unat n + Suc h"

lemma fresh_pages_below:
  assumes "fresh_pages old n n' ps" "\<forall>p \<in> set old. p < n" "n \<le> n'" "p \<in> set ps"
  shows "p < n'"
proof (cases "p \<in> set old")
  case True
  then have "p < n" using assms(2) by blast
  then show ?thesis using assms(3) by simp
qed (use assms(1,4) in \<open>auto simp: fresh_pages_def\<close>)

lemma fresh_pages_mono: "fresh_pages old n m ps \<Longrightarrow> m \<le> n' \<Longrightarrow> fresh_pages old n n' ps"
  by (auto simp: fresh_pages_def intro: order.strict_trans2)

lemma fresh_pages_add:
  assumes f: "fresh_pages old n m (xs @ ys)" and old: "\<forall>p \<in> set old. p < n" and m: "n \<le> m" "m < n'"
  shows "fresh_pages old n n' (xs @ m # ys)"
proof -
  have "p < m" if "p \<in> set (xs @ ys)" for p using fresh_pages_below [OF f old m(1) that] .
  then have "m \<notin> set xs" "m \<notin> set ys" by auto
  then show ?thesis using fresh_pages_mono [OF f, of n'] m by (auto simp: fresh_pages_def)
qed

section \<open>Putting a split child back\<close>

fun splice :: "Key list \<Rightarrow> page_tree list \<Rightarrow> split_result \<Rightarrow> Key list \<Rightarrow> page_tree list \<Rightarrow> Key list \<times> page_tree list" where
  "splice ks1 cs1 (Whole c) ks2 cs2 = (ks1 @ ks2, cs1 @ c # cs2)"
| "splice ks1 cs1 (Parts l b r) ks2 cs2 = (ks1 @ b # ks2, cs1 @ l # r # cs2)"

lemma forest_append:
  "length ca = Suc (length ka) \<Longrightarrow> forest_in lo hi (ka @ m # kb) (ca @ cb) \<longleftrightarrow>
    forest_in lo (unat m) ka ca \<and> forest_in (unat m) hi kb cb"
proof (induction ka arbitrary: lo ca)
  case Nil
  then obtain c where "ca = [c]" by (cases ca) auto
  then show ?case by auto
next
  case (Cons k ka)
  then obtain c ca' where "ca = c # ca'" "length ca' = Suc (length ka)" by (cases ca) auto
  then show ?case using Cons.IH by simp
qed

lemma forest_splice:
  assumes l: "length ks1 = length cs1" "length ks2 = length cs2"
    and p: "left_part lo ks1 cs1" "right_part hi ks2 cs2" "lower lo ks1 < upper hi ks2"
    and r: "result_at V (lower lo ks1) (upper hi ks2) h root r" and s: "splice ks1 cs1 r ks2 cs2 = (ks, cs)"
  shows "forest_in lo hi ks cs"
proof (cases r)
  case (Whole c)
  then show ?thesis using s r p forest_focus [OF l] by auto
next
  case (Parts c b d)
  have l2: "length (b # ks2) = length (d # cs2)" using l by simp
  show ?thesis
    using s r p forest_focus [OF l(1) l2, of lo hi c] by (auto simp: Parts)
qed

lemma upper_bound_focus:
  assumes s: "sorted (ks1 @ ks2)" and k: "key_in (lower lo ks1) (upper hi ks2) key"
  shows "std_upper_bound (ks1 @ ks2) key = length ks1"
proof -
  have "x \<le> key" if "x \<in> set ks1" for x
  proof -
    have "ks1 \<noteq> []" using that by auto
    obtain ys y where ys: "ks1 = ys @ [y]" using \<open>ks1 \<noteq> []\<close> by (cases ks1 rule: rev_cases) auto
    have "x \<le> last ks1" using s that by (auto simp: ys sorted_append)
    moreover have "last ks1 \<le> key" using k \<open>ks1 \<noteq> []\<close> by (simp add: key_in_def lower_def word_le_nat_alt)
    ultimately show ?thesis by simp
  qed
  then have t: "takeWhile (\<lambda>y. y \<le> key) (ks1 @ ks2) = ks1 @ takeWhile (\<lambda>y. y \<le> key) ks2" by simp
  have "takeWhile (\<lambda>y. y \<le> key) ks2 = []"
    using k by (cases ks2) (auto simp: key_in_def word_le_nat_alt)
  then show ?thesis by (simp add: std_upper_bound_def t)
qed

lemma upper_bound_append:
  assumes s: "sorted (ka @ m # kb)"
  shows "std_upper_bound (ka @ m # kb) key =
    (if m \<le> key then Suc (length ka) + std_upper_bound kb key else std_upper_bound ka key)"
proof (cases "m \<le> key")
  case True
  then have "\<forall>y \<in> set ka. y \<le> key" using s by (auto simp: sorted_append intro: order.trans)
  then show ?thesis using True by (simp add: std_upper_bound_def)
next
  case False
  then show ?thesis by (induction ka) (auto simp: std_upper_bound_def)
qed

lemma leaf_of_append:
  assumes s: "sorted (ka @ m # kb)" and l: "length ca = Suc (length ka)" "length cb = Suc (length kb)"
  shows "leaf_of (NodeT p (ka @ m # kb) (ca @ cb)) key = leaf_of (target_tree (Parts (NodeT q ka ca) m (NodeT q' kb cb)) key) key"
  using std_bounds_le(1) [of ka key] std_bounds_le(1) [of kb key] l
  by (simp add: upper_bound_append [OF s] nth_append)

lemma leaf_of_splice:
  assumes f: "forest_in lo hi ks cs" and s: "splice ks1 cs1 r ks2 cs2 = (ks, cs)" and l: "length ks1 = length cs1"
    "length ks2 = length cs2" and k: "key_in (lower lo ks1) (upper hi ks2) key"
  shows "leaf_of (NodeT p ks cs) key = leaf_of (target_tree r key) key"
proof (cases r)
  case (Whole c)
  have so: "sorted (ks1 @ ks2)" using forest_sorted [OF f] s Whole by auto
  show ?thesis using s upper_bound_focus [OF so k] l by (auto simp: Whole nth_append)
next
  case (Parts c b d)
  have so: "sorted (ks1 @ b # ks2)" using forest_sorted [OF f] s Parts by auto
  have "std_upper_bound (ks1 @ b # ks2) key = (if b \<le> key then Suc (length ks1) else length ks1)"
  proof (cases "b \<le> key")
    case True
    then have "key_in (lower lo (ks1 @ [b])) (upper hi ks2) key" using k by (simp add: key_in_def word_le_nat_alt)
    from upper_bound_focus [OF _ this] show ?thesis using so True by simp
  next
    case False
    then have "key_in (lower lo ks1) (upper hi (b # ks2)) key" using k by (simp add: key_in_def word_le_nat_alt)
    from upper_bound_focus [OF so this] show ?thesis using False by simp
  qed
  then show ?thesis using s l by (auto simp: Parts nth_append)
qed

section \<open>Pages after a store\<close>

lemma image_leaf: "leaf_wf p \<Longrightarrow> leaf_wf (image p) \<and> tuples (image p) = tuples p \<and> page_id (image p) = page_id p"
  using same_page_leaf [OF _ same_page_image(1)] same_page_headers [OF same_page_image(1)] by metis

lemma image_internal: "internal_wf p \<Longrightarrow> internal_wf (image p) \<and> keys (image p) = keys p \<and>
    children (image p) = children p \<and> page_id (image p) = page_id p"
  using same_page_internal [OF _ same_page_image(1)] same_page_headers [OF same_page_image(1)] by metis

lemma lens_le: "\<forall>s \<in> set ss. len s \<le> c \<Longrightarrow> lens ss \<le> c * length ss"
  by (induction ss) auto

lemma full_leaf_tuples:
  assumes wf: "leaf_wf p" and used: "used_space p > 3937"
  shows "2 \<le> length (tuples p)"
proof -
  have "lens (live (slots p)) \<le> 808 * length (live (slots p))"
    using leaf_wfD(4) [OF wf live_sub] by (intro lens_le) blast
  then show ?thesis
    using used leaf_wf_slot_bound [OF wf] by (simp add: used_space_def tuples_def)
qed

section \<open>A leaf divided in two\<close>

text \<open>The tree part of a split of a full leaf: the two halves, their bounds, their links and the room in them.\<close>

lemma full_leaf_halves:
  assumes leaf: "leaf_wf q" "tuples q = ts" "page_id q = pid" and used: "used_space q > 3937"
    and hs: "LeafPage_HandleSplit q q' n = (b, old, new)"
  shows "leaf_wf old" "leaf_wf new" "tuples old @ tuples new = ts" "tuples old \<noteq> []"
    "\<exists>u us. tuples new = u # us \<and> b = tuple_key u" "page_id old = pid" "page_id new = n"
    "leaf_room (image old) bs" "leaf_room (image new) bs" "right_pid old = n" "right_pid new = right_pid q"
proof -
  note two = full_leaf_tuples [OF leaf(1) used]
  then have ne: "tuples q \<noteq> []" by auto
  note hp = HandleSplit_pages [OF leaf(1) ne hs]
  show "leaf_wf old" "leaf_wf new" "tuples old @ tuples new = ts" "page_id old = pid" "page_id new = n"
    "right_pid old = n" "right_pid new = right_pid q"
    using hp(1) leaf by (simp_all add: split_pages_def)
  show "tuples old \<noteq> []" by (rule hp(2) [OF two])
  show "\<exists>u us. tuples new = u # us \<and> b = tuple_key u"
    using hp(1) by (cases "tuples new") (auto simp: split_pages_def)
  show "leaf_room (image old) bs" "leaf_room (image new) bs"
    using hp(3) [OF used] by (auto simp: leaf_room_def min_def simp flip: same_page_space [OF same_page_image(1)])
qed

lemma leaf_halves_in:
  assumes t: "tree_in lo hi (LeafT pid (xs @ u # us))" and ne: "xs \<noteq> []"
  shows "tree_in lo (unat (tuple_key u)) (LeafT pid xs)" "tree_in (unat (tuple_key u)) hi (LeafT n (u # us))"
    "lo < unat (tuple_key u)" "unat (tuple_key u) < hi"
proof -
  obtain v vs where v: "xs = v # vs" using ne by (cases xs) auto
  show "lo < unat (tuple_key u)" "unat (tuple_key u) < hi"
    using t by (auto simp: v key_in_def word_less_nat_alt)
  then show "tree_in lo (unat (tuple_key u)) (LeafT pid xs)" "tree_in (unat (tuple_key u)) hi (LeafT n (u # us))"
    using t by (auto simp: key_in_def sorted_wrt_append word_less_nat_alt)
qed

lemma found_page_split_leaf:
  assumes t: "tree_at V (LeafT pid ts)" "tree_in lo hi (LeafT pid ts)" and sp: "same_page (V pid) q"
    and used: "used_space q > 3937" and hs: "LeafPage_HandleSplit q q' n = (b, old, new)"
    and n: "unat n < 4503599627370496" "pid < n"
  shows "found_page V (V(pid := image old, n := image new)) n (n + 1) lo hi 0 (LeafT pid ts) key bs
      (Parts (LeafT pid (tuples old)) b (LeafT n (tuples new))) (if b \<le> key then n else pid)"
    "page_id old = pid"
proof -
  have wfV: "leaf_wf (V pid)" "tuples (V pid) = ts" "page_id (V pid) = pid" using t(1) by simp_all
  note lf = same_page_leaf [OF wfV(1) sp]
  have q: "leaf_wf q" "tuples q = ts" "page_id q = pid" using lf wfV same_page_headers(2) [OF sp] by simp_all
  note h = full_leaf_halves [OF q used hs]
  show "page_id old = pid" by (rule h(6))
  let ?V = "V(pid := image old, n := image new)"
  have np: "n \<noteq> pid" using n(2) by auto
  obtain u us where u: "tuples new = u # us" "b = tuple_key u" using h(5) by blast
  have ts: "ts = tuples old @ u # us" using h(3) u(1) by simp
  note in2 = leaf_halves_in [OF t(2) [unfolded ts] h(4), folded u]
  have at: "tree_at ?V (LeafT pid (tuples old))" "tree_at ?V (LeafT n (tuples new))"
    using image_leaf [OF h(1)] image_leaf [OF h(2)] h(6,7) np by simp_all
  have "right_pid (?V pid) = n" "right_pid (?V n) = right_pid (V pid)"
    using np h(10,11) same_page_headers(7) [OF sp] same_page_headers(7) [OF same_page_image(2)] by simp_all
  then have lk: "relinks V ?V [pid] [pid, n]" by (simp add: relinks_def linked_def)
  have n1: "unat (n + 1) = Suc (unat n)" "n < n + 1" using n(1) by (simp_all add: unat_word_ariths word_less_nat_alt)
  have "result_at ?V lo hi 0 pid (Parts (LeafT pid (tuples old)) b (LeafT n (tuples new)))"
    using at in2 by simp
  then show "found_page V ?V n (n + 1) lo hi 0 (LeafT pid ts) key bs
      (Parts (LeafT pid (tuples old)) b (LeafT n (tuples new))) (if b \<le> key then n else pid)"
    unfolding found_page_def using h(3,8,9) np n1 n(2) lk by (auto simp: fresh_pages_def)
qed

context regular_file begin

section \<open>At a leaf\<close>

lemma leaf_to_write_split:
  assumes c: "cache file_byte file_size D (add_mset pid P) {} F V n bp" and few: "size P < 999"
    and n: "n \<noteq> 0" "unat n < 4503599627370496"
    and t: "tree_at V (LeafT pid ts)" "tree_in lo hi (LeafT pid ts)"
    and full: "CheckAvailableSpace (V pid) + CheckGarbageBytes (V pid) < 128"
    and no_room: "\<not> min MIN_LEAF_PAGE_DATA ((SLOT_SIZE + TUPLE_HEADER_SIZE + bs) mod 18446744073709551616)
      \<le> u16 (int (CheckAvailableSpace (buffer_pool bp (F pid))) + int (CheckGarbageBytes (buffer_pool bp (F pid))))"
  shows "\<exists>r tpid bp' F' V' W' n'. leaf_to_write os stack bp (F pid) key bs =
      Some (report_of r, (F' tpid, tpid), bp') \<and>
    cache file_byte file_size D (add_mset tpid P) W' F' V' n' bp' \<and> W' \<subseteq> {tpid} \<and>
    found_page V V' n n' lo hi 0 (LeafT pid ts) key bs r tpid \<and> (\<forall>p \<in># P. F' p = F p)"
proof -
  have size: "size (add_mset pid P) < 1000" using few by simp
  have pn: "pid < n" using cacheD(8) [OF c, of pid] by simp
  from cache_alloc [OF c size n, of stack] obtain j bp1 where
    j: "alloc_page os stack bp = Some (j, n, bp1)"
      "cache file_byte file_size D (add_mset n (add_mset pid P)) {} (F(n := j)) V (n + 1) bp1" "n \<notin># add_mset pid P"
    by blast
  have np: "n \<noteq> pid" and nP: "n \<notin># P" using j(3) by auto
  have sp: "same_page (V pid) (buffer_pool bp1 (F pid))"
    using same_page_sym [OF cache_frame [OF j(2), of pid]] np by simp
  have wf: "leaf_wf (V pid)" using t(1) by simp
  note lf = same_page_leaf [OF wf sp]
  have used: "used_space (buffer_pool bp1 (F pid)) > 3937"
    using full space_accounting [OF lf(1)] same_page_space [OF sp] by simp
  obtain b old new where hs: "LeafPage_HandleSplit (buffer_pool bp1 (F pid)) (buffer_pool bp1 j) n = (b, old, new)"
    by (metis prod_cases3)
  note fp = found_page_split_leaf [OF t sp used hs n(2) pn]
  let ?F = "F(n := j)" and ?V = "V(pid := image old, n := image new)" and ?other = "if b \<le> key then pid else n"
  let ?r = "Parts (LeafT pid (tuples old)) b (LeafT n (tuples new))" and ?tpid = "if b \<le> key then n else pid"
  let ?bp2 = "write_frame (write_frame bp1 (F pid) old) j new"
  let ?bp3 = "release_page ?bp2 ?other True" and ?W = "{n, pid} - {?other}"
  have c2: "cache file_byte file_size D (add_mset n (add_mset pid P)) {n, pid} ?F ?V (n + 1) ?bp2"
    using cache_write [OF cache_write [OF j(2), of pid old], of n new] np by simp
  have ms: "add_mset n (add_mset pid P) - {#?other#} = add_mset ?tpid P" by (simp add: add_mset_commute)
  have c3: "cache file_byte file_size D (add_mset ?tpid P) ?W ?F ?V (n + 1) ?bp3"
    unfolding ms [symmetric] by (rule cache_release [OF c2]) simp_all
  have "leaf_to_write os stack bp (F pid) key bs = Some (report_of ?r, (?F ?tpid, ?tpid), ?bp3)"
    using no_room fp(2) np by (simp add: leaf_to_write_def Let_def j(1) hs)
  moreover have "?W \<subseteq> {?tpid}" "\<forall>p \<in># P. ?F p = F p" using nP by auto
  ultimately show ?thesis using fp(1) c3 by blast
qed

lemma leaf_to_write_correct:
  assumes c: "cache file_byte file_size D (add_mset pid P) {} F V n bp" and few: "size P < 999"
    and n: "n \<noteq> 0" "unat n < 4503599627370496" and bs: "bs < 4294967278"
    and t: "tree_at V (LeafT pid ts)" "tree_in lo hi (LeafT pid ts)" and k: "key_in lo hi key"
  shows "\<exists>r tpid bp' F' V' W' n'. leaf_to_write os stack bp (F pid) key bs =
      Some (report_of r, (F' tpid, tpid), bp') \<and>
    cache file_byte file_size D (add_mset tpid P) W' F' V' n' bp' \<and> W' \<subseteq> {tpid} \<and>
    found_page V V' n n' lo hi 0 (LeafT pid ts) key bs r tpid \<and> (\<forall>p \<in># P. F' p = F p)"
proof -
  let ?page = "buffer_pool bp (F pid)"
  have sp: "same_page (V pid) ?page" using same_page_sym [OF cache_frame [OF c, of pid]] by simp
  have wfV: "leaf_wf (V pid)" "page_id (V pid) = pid" using t(1) by simp_all
  note lf = same_page_leaf [OF wfV(1) sp]
  have id: "page_id ?page = pid" using wfV(2) same_page_headers(2) [OF sp] by simp
  define total where "total = CheckAvailableSpace (V pid) + CheckGarbageBytes (V pid)"
  have tot: "u16 (int (CheckAvailableSpace ?page) + int (CheckGarbageBytes ?page)) = total"
    using space_accounting [OF lf(1)] same_page_space [OF sp] by (simp add: nat_add_distrib total_def)
  have mn: "min MIN_LEAF_PAGE_DATA ((SLOT_SIZE + TUPLE_HEADER_SIZE + bs) mod 18446744073709551616) = min 128 (18 + bs)"
    using bs by simp
  show ?thesis
  proof (cases "min 128 (18 + bs) \<le> total")
    case True
    have "leaf_to_write os stack bp (F pid) key bs = Some (no_split, (F pid, pid), bp)"
      using True unfolding leaf_to_write_def Let_def tot mn id by simp
    moreover have "leaf_room (V pid) bs" using True by (simp add: leaf_room_def total_def)
    ultimately show ?thesis
      using c t by (intro exI [of _ "Whole (LeafT pid ts)"] exI [of _ pid] exI [of _ bp] exI [of _ F] exI [of _ V]
          exI [of _ "{}"] exI [of _ n]) (simp add: found_page_def fresh_pages_def)
  next
    case False
    then have "CheckAvailableSpace (V pid) + CheckGarbageBytes (V pid) < 128" by (simp add: total_def)
    moreover have "\<not> min MIN_LEAF_PAGE_DATA ((SLOT_SIZE + TUPLE_HEADER_SIZE + bs) mod 18446744073709551616)
      \<le> u16 (int (CheckAvailableSpace ?page) + int (CheckGarbageBytes ?page))" using False unfolding tot mn .
    ultimately show ?thesis by (rule leaf_to_write_split [OF c few n t])
  qed
qed

end

section \<open>At an internal page\<close>

lemma fresh_pages_splice:
  assumes f: "fresh_pages (tree_pages c) n n2 (result_pages r)" and d: "distinct (tree_pages (NodeT pid ks (cs1 @ c # cs2)))"
    and b: "\<forall>p \<in> set (tree_pages (NodeT pid ks (cs1 @ c # cs2))). p < n"
    and s: "splice ks1 cs1 r ks2 cs2 = (ks', cs')"
  shows "fresh_pages (tree_pages (NodeT pid ks (cs1 @ c # cs2))) n n2 (tree_pages (NodeT pid ks' cs'))"
    "pid \<notin> set (concat (map tree_pages cs'))"
    "concat (map tree_pages cs') = concat (map tree_pages cs1) @ result_pages r @ concat (map tree_pages cs2)"
proof -
  show e: "concat (map tree_pages cs') = concat (map tree_pages cs1) @ result_pages r @ concat (map tree_pages cs2)"
    using s by (cases r) auto
  have new: "p \<notin> set (result_pages r)" if "p \<in> set (tree_pages (NodeT pid ks (cs1 @ c # cs2)))" "p \<notin> set (tree_pages c)" for p
  proof
    assume "p \<in> set (result_pages r)"
    then have "n \<le> p" using f that(2) by (auto simp: fresh_pages_def)
    moreover have "p < n" using b that(1) by blast
    ultimately show False by simp
  qed
  have o: "p \<notin> set (result_pages r)" if "p = pid \<or> p \<in> set (concat (map tree_pages cs1)) \<or> p \<in> set (concat (map tree_pages cs2))" for p
    using that d by (intro new) auto
  show p: "pid \<notin> set (concat (map tree_pages cs'))" using d o unfolding e by auto
  have "distinct (concat (map tree_pages cs'))"
    using d o f unfolding e by (auto simp: fresh_pages_def)
  moreover have "\<forall>p \<in> set (concat (map tree_pages cs')). p \<in> set (tree_pages (NodeT pid ks (cs1 @ c # cs2))) \<or> n \<le> p \<and> p < n2"
    using f unfolding e by (auto simp: fresh_pages_def)
  ultimately show "fresh_pages (tree_pages (NodeT pid ks (cs1 @ c # cs2))) n n2 (tree_pages (NodeT pid ks' cs'))"
    using p unfolding fresh_pages_def by auto
qed

text \<open>
  What becomes of a node with keys \<open>ks\<close> and children \<open>cs\<close> in hand, more than a page may have: it is
  whole, or two nodes of at least 127 keys each, the second one on the new page \<open>n\<close>.
\<close>

fun node_result :: "PageID \<Rightarrow> Key list \<Rightarrow> page_tree list \<Rightarrow> PageID \<Rightarrow> PageID \<Rightarrow> split_result \<Rightarrow> bool" where
  "node_result pid ks cs n n' (Whole t) \<longleftrightarrow> t = NodeT pid ks cs"
| "node_result pid ks cs n n' (Parts l m r) \<longleftrightarrow> (\<exists>ka kb ca cb. ks = ka @ m # kb \<and> cs = ca @ cb \<and>
     length ca = Suc (length ka) \<and> 127 \<le> length ka \<and> 127 \<le> length kb \<and> n' = n + 1 \<and> n < n' \<and>
     l = NodeT pid ka ca \<and> r = NodeT n kb cb)"

lemma node_result_lists:
  assumes "node_result pid ks cs n n' r"
  shows "result_tuples r = concat (map tree_tuples cs)" "result_leaves r = concat (map leaf_pids cs)"
    "set (concat (map tree_pages cs)) \<subseteq> set (result_pages r)"
  using assms by (cases r; auto)+

lemma node_result_filled:
  assumes "node_result pid ks cs n n' r" "\<forall>d \<in> set cs. filled d"
  shows "127 \<le> length ks \<Longrightarrow> filled_result r" "ks \<noteq> [] \<Longrightarrow> chained_result r" "ks \<noteq> [] \<Longrightarrow> keyed_result r"
  using assms by (cases r; auto dest: filled_keyed)+

lemma node_result_fresh:
  assumes r: "node_result pid ks cs n n' r" and f: "fresh_pages old m n (tree_pages (NodeT pid ks cs))"
    and b: "\<forall>p \<in> set old. p < m" "m \<le> n" "n \<le> n'"
  shows "fresh_pages old m n' (result_pages r)"
proof (cases r)
  case (Whole t)
  then show ?thesis using r fresh_pages_mono [OF f b(3)] by simp
next
  case (Parts x k y)
  with r obtain ka kb ca cb where "cs = ca @ cb" "n < n'" "x = NodeT pid ka ca" "y = NodeT n kb cb" by auto
  then show ?thesis
    using fresh_pages_add [of old m n "pid # concat (map tree_pages ca)" "concat (map tree_pages cb)" n'] f b Parts by simp
qed

lemma node_result_leaf_of:
  assumes r: "node_result pid ks cs n n' r" and f: "forest_in lo hi ks cs"
  shows "leaf_of (target_tree r key) key = leaf_of (NodeT pid ks cs) key"
proof (cases r)
  case (Parts x m y)
  with r obtain ka kb ca cb where p: "ks = ka @ m # kb" "cs = ca @ cb" "length ca = Suc (length ka)"
    "x = NodeT pid ka ca" "y = NodeT n kb cb" by auto
  then have "length cb = Suc (length kb)" using forest_length [OF f] by simp
  then show ?thesis
    using forest_sorted [OF f] leaf_of_append [of ka m kb ca cb pid key pid n] p Parts by simp
qed (use r in simp)

text \<open>The postcondition of \<open>insert_separator\<close>: only the page \<open>pid\<close> and a new one changed.\<close>

definition separated :: "(PageID \<Rightarrow> mem) \<Rightarrow> (PageID \<Rightarrow> mem) \<Rightarrow> PageID \<Rightarrow> PageID \<Rightarrow> nat \<Rightarrow> nat \<Rightarrow> nat \<Rightarrow> PageID \<Rightarrow>
    Key list \<Rightarrow> page_tree list \<Rightarrow> split_result \<Rightarrow> bool" where
  "separated V V' n n' lo hi h pid ks cs r \<longleftrightarrow> result_at V' lo hi (Suc h) pid r \<and>
     (\<forall>q. q \<noteq> pid \<longrightarrow> q < n \<longrightarrow> V' q = V q) \<and> n \<le> n' \<and> unat n' \<le> Suc (unat n) \<and> node_result pid ks cs n n' r"

text \<open>
  A node in focus: the child \<open>c\<close> where the key belongs, which an insertion turned into \<open>r\<close>. The
  next lemmas are the inductive step of \<open>FindPageToWrite\<close> on trees, without the pool.
\<close>

lemma found_pageD:
  assumes "found_page V V' n n' lo hi h t key bs r tpid"
  shows "result_at V' lo hi h (root_of t) r" "fresh_pages (tree_pages t) n n' (result_pages r)" "n \<le> n'"
    "relinks V V' (leaf_pids t) (result_leaves r)" "q \<notin> set (tree_pages t) \<Longrightarrow> q < n \<Longrightarrow> V' q = V q"
  using assms by (simp_all add: found_page_def)

lemma beside_focus:
  assumes "distinct (tree_pages (NodeT pid ks (cs1 @ c # cs2)))" "q \<in> set (tree_pages d)" "d \<in> set cs1 \<union> set cs2"
  shows "q \<in> set (tree_pages (NodeT pid ks (cs1 @ c # cs2)))" "q \<notin> set (tree_pages c)"
  using assms by auto

lemma spliced_children:
  assumes fp: "found_page V V2 n n2 (lower lo ks1) (upper hi ks2) h c key bs r tpid"
    and node: "\<forall>d \<in> set (cs1 @ c # cs2). tree_at V d \<and> level h d" "distinct (tree_pages (NodeT pid ks (cs1 @ c # cs2)))"
      "\<forall>p \<in> set (tree_pages (NodeT pid ks (cs1 @ c # cs2))). p < n"
    and l: "length ks1 = length cs1" "length ks2 = length cs2" "left_part lo ks1 cs1" "right_part hi ks2 cs2"
    and k: "key_in (lower lo ks1) (upper hi ks2) key" and s: "splice ks1 cs1 r ks2 cs2 = (ks', cs')"
  shows "\<forall>d \<in> set cs'. tree_at V2 d \<and> level h d" "forest_in lo hi ks' cs'"
    "\<forall>p \<in> set (concat (map tree_pages cs')). p < n2" "tpid \<in> set (concat (map tree_pages cs'))"
    "pid \<notin> set (concat (map tree_pages cs'))"
proof -
  note f = fp [unfolded found_page_def]
  have fr: "fresh_pages (tree_pages c) n n2 (result_pages r)" and nn: "n \<le> n2" using f by simp_all
  note fps = fresh_pages_splice [OF fr node(2,3) s]
  have res: "result_at V2 (lower lo ks1) (upper hi ks2) h (root_of c) r" using f by simp
  have "tree_at V2 d \<and> level h d" if d: "d \<in> set cs1 \<union> set cs2" for d
  proof -
    have "V2 q = V q" if "q \<in> set (tree_pages d)" for q
      using beside_focus [OF node(2) that d] node(3) by (intro found_pageD(5) [OF fp]) blast+
    then show ?thesis using node(1) d tree_at_frame [of V d V2] by auto
  qed
  then show "\<forall>d \<in> set cs'. tree_at V2 d \<and> level h d" using s res by (cases r) auto
  have "lower lo ks1 < upper hi ks2" using k by (simp add: key_in_def)
  then show "forest_in lo hi ks' cs'" using forest_splice [OF l _ res s] by simp
  show "\<forall>p \<in> set (concat (map tree_pages cs')). p < n2"
    using fresh_pages_below [OF fps(1) node(3) nn] by simp
  show "tpid \<in> set (concat (map tree_pages cs'))" "pid \<notin> set (concat (map tree_pages cs'))"
    using f fps(2,3) by auto
qed

lemma spliced_links:
  assumes fp: "found_page V V2 n n2 lo' hi' h c key bs r tpid"
    and node: "distinct (tree_pages (NodeT pid ks (cs1 @ c # cs2)))" "\<forall>p \<in> set (tree_pages (NodeT pid ks (cs1 @ c # cs2))). p < n"
    and s: "splice ks1 cs1 r ks2 cs2 = (ks', cs')"
    and new: "\<forall>p \<in> set (concat (map tree_pages cs')). p < n2" "pid \<notin> set (concat (map tree_pages cs'))"
    and V': "\<forall>q. q \<noteq> pid \<longrightarrow> q < n2 \<longrightarrow> V' q = V2 q"
  shows "relinks V V' (leaf_pids (NodeT pid ks (cs1 @ c # cs2))) (concat (map leaf_pids cs'))"
proof -
  have "relinks V V2 (concat (map leaf_pids cs1) @ leaf_pids c @ concat (map leaf_pids cs2))
      (concat (map leaf_pids cs1) @ result_leaves r @ concat (map leaf_pids cs2))"
  proof (rule relinks_middle)
    show "relinks V V2 (leaf_pids c) (result_leaves r)" by (rule found_pageD(4) [OF fp])
    show "right_pid (V2 p) = right_pid (V p)" if p: "p \<in> set (concat (map leaf_pids cs1)) \<union> set (concat (map leaf_pids cs2))" for p
    proof -
      obtain d where "d \<in> set cs1 \<union> set cs2" "p \<in> set (tree_pages d)" using p leaf_pids_pages by auto
      then have "p \<notin> set (tree_pages c)" "p < n" using beside_focus [OF node(1)] node(2) by blast+
      then show ?thesis using found_pageD(5) [OF fp] by simp
    qed
  qed
  also have "concat (map leaf_pids cs1) @ result_leaves r @ concat (map leaf_pids cs2) = concat (map leaf_pids cs')"
    using s by (cases r) auto
  finally have l2: "relinks V V2 (leaf_pids (NodeT pid ks (cs1 @ c # cs2))) (concat (map leaf_pids cs'))" by simp
  moreover have "relinks V2 V' (concat (map leaf_pids cs')) (concat (map leaf_pids cs'))"
  proof (rule relinks_frame)
    show "concat (map leaf_pids cs') \<noteq> []" using relinks_nonempty(2) [OF l2] .
    show "right_pid (V' p) = right_pid (V2 p)" if "p \<in> set (concat (map leaf_pids cs'))" for p
    proof -
      have "p \<in> set (concat (map tree_pages cs'))" using that leaf_pids_pages by auto
      then have "p \<noteq> pid" "p < n2" using new by auto
      then show ?thesis using V' by simp
    qed
  qed
  ultimately show ?thesis by (rule relinks_trans)
qed

lemma splice_filled:
  assumes "splice ks1 cs1 r ks2 cs2 = (ks', cs')"
  shows "length (ks1 @ ks2) \<le> length ks'" "\<forall>d \<in> set (cs1 @ cs2). filled d \<Longrightarrow> filled_result r \<Longrightarrow> \<forall>d \<in> set cs'. filled d"
  using assms by (cases r; auto)+

lemma spliced_shape:
  assumes nr: "node_result pid ks' cs' n n' r'" and s: "splice ks1 cs1 r ks2 cs2 = (ks', cs')"
    and l: "length ks1 = length cs1" "length ks2 = length cs2"
    and c: "filled c \<longrightarrow> filled_result r" "chained c \<longrightarrow> chained_result r \<and> (keyed c \<longrightarrow> keyed_result r)"
  shows "filled (NodeT pid (ks1 @ ks2) (cs1 @ c # cs2)) \<Longrightarrow> filled_result r'"
    "chained (NodeT pid (ks1 @ ks2) (cs1 @ c # cs2)) \<Longrightarrow> chained_result r'"
    "chained (NodeT pid (ks1 @ ks2) (cs1 @ c # cs2)) \<Longrightarrow> keyed (NodeT pid (ks1 @ ks2) (cs1 @ c # cs2)) \<Longrightarrow> keyed_result r'"
proof -
  note nf = node_result_filled [OF nr] and sf = splice_filled [OF s]
  have all: "\<forall>d \<in> set cs'. filled d" if "\<forall>d \<in> set (cs1 @ c # cs2). filled d"
    by (rule sf(2)) (use that c(1) in auto)
  show "filled_result r'" if "filled (NodeT pid (ks1 @ ks2) (cs1 @ c # cs2))"
    by (rule nf(1) [OF all]) (use that sf(1) in auto)
  show "keyed_result r'" if "chained (NodeT pid (ks1 @ ks2) (cs1 @ c # cs2))" "keyed (NodeT pid (ks1 @ ks2) (cs1 @ c # cs2))"
    by (rule nf(3) [OF all]) (use that sf(1) in auto)
  show "chained_result r'" if ch: "chained (NodeT pid (ks1 @ ks2) (cs1 @ c # cs2))"
  proof (cases "ks1 @ ks2 = []")
    case False
    then show ?thesis by (intro nf(2) [OF all]) (use ch sf(1) in auto)
  next
    case True
    then have e: "ks1 = []" "ks2 = []" "cs1 = []" "cs2 = []" using l by simp_all
    then have "chained_result r" using c(2) ch by simp
    then show ?thesis using nr s e by (cases r; cases r') (auto simp: Cons_eq_append_conv)
  qed
qed

lemma found_page_node:
  assumes fp: "found_page V V2 n n2 (lower lo ks1) (upper hi ks2) h c key bs r tpid"
    and node: "\<forall>d \<in> set (cs1 @ c # cs2). tree_at V d \<and> level h d"
      "distinct (tree_pages (NodeT pid (ks1 @ ks2) (cs1 @ c # cs2)))"
      "\<forall>p \<in> set (tree_pages (NodeT pid (ks1 @ ks2) (cs1 @ c # cs2))). p < n"
    and l: "length ks1 = length cs1" "length ks2 = length cs2" "left_part lo ks1 cs1" "right_part hi ks2 cs2"
    and k: "key_in (lower lo ks1) (upper hi ks2) key" and s: "splice ks1 cs1 r ks2 cs2 = (ks', cs')"
    and sep: "separated V2 V' n2 n' lo hi h pid ks' cs' r'"
  shows "found_page V V' n n' lo hi (Suc h) (NodeT pid (ks1 @ ks2) (cs1 @ c # cs2)) key bs r' tpid"
proof -
  let ?t = "NodeT pid (ks1 @ ks2) (cs1 @ c # cs2)"
  note f = fp [unfolded found_page_def] and p = sep [unfolded separated_def]
  have fr: "fresh_pages (tree_pages c) n n2 (result_pages r)" and nr: "node_result pid ks' cs' n2 n' r'"
    and nn: "n \<le> n2" "n2 \<le> n'" using f p by simp_all
  note ch = spliced_children [OF fp node l k s] and fps = fresh_pages_splice [OF fr node(2,3) s]
  note nl = node_result_lists [OF nr] and sh = spliced_shape [OF nr s l(1,2), of c]
  have V': "V' tpid = V2 tpid" using p ch(3-5) by (metis (no_types))
  have ts: "result_tuples r' = tree_tuples ?t" using nl(1) s f by (cases r) auto
  have fresh: "fresh_pages (tree_pages ?t) n n' (result_pages r')"
    by (rule node_result_fresh [OF nr fps(1) node(3) nn])
  have leaf: "leaf_of (target_tree r' key) key = leaf_of (target_tree r key) key"
    unfolding node_result_leaf_of [OF nr ch(2)] by (rule leaf_of_splice [OF ch(2) s l(1,2) k])
  have links: "relinks V V' (leaf_pids ?t) (result_leaves r')"
    unfolding nl(2) by (rule spliced_links [OF fp node(2,3) s ch(3,5)]) (use p in simp)
  have frame: "V' q = V q" if "q \<notin> set (tree_pages ?t)" "q < n" for q
  proof -
    have "V2 q = V q" "q \<noteq> pid" "q < n2" using that f nn(1) by auto
    then show ?thesis using p by simp
  qed
  show ?thesis unfolding found_page_def
  proof (intro conjI impI allI)
    show "result_at V' lo hi (Suc h) (root_of ?t) r'" "unat n' \<le> unat n + Suc (Suc h)" using f p by simp_all
    show "fst (leaf_of (target_tree r' key) key) = tpid" "leaf_room (V' tpid) bs" using f leaf V' by simp_all
    show "tpid \<in> set (result_pages r')" using nl(3) ch(4) by blast
    show "filled ?t \<Longrightarrow> filled_result r'" "chained ?t \<Longrightarrow> chained_result r'" "chained ?t \<Longrightarrow> keyed ?t \<Longrightarrow> keyed_result r'"
      using sh f by blast+
    show "n \<le> n'" using nn by simp
  qed (use ts fresh links frame in auto)
qed

section \<open>Putting the separator into the node\<close>

text \<open>A node on its page \<open>pid\<close> whose child \<open>c\<close> has become \<open>r\<close>, which makes the lists \<open>ks'\<close> and \<open>cs'\<close>.\<close>

definition node_open :: "(PageID \<Rightarrow> mem) \<Rightarrow> PageID \<Rightarrow> nat \<Rightarrow> nat \<Rightarrow> nat \<Rightarrow> PageID \<Rightarrow> Key list \<Rightarrow> page_tree list \<Rightarrow>
    PageID \<Rightarrow> split_result \<Rightarrow> Key list \<Rightarrow> page_tree list \<Rightarrow> Key list \<Rightarrow> page_tree list \<Rightarrow> bool" where
  "node_open V n lo hi h pid ks1 cs1 root r ks2 cs2 ks' cs' \<longleftrightarrow>
     internal_wf (V pid) \<and> page_id (V pid) = pid \<and> keys (V pid) = ks1 @ ks2 \<and>
     children (V pid) = map root_of cs1 @ root # map root_of cs2 \<and> length ks1 = length cs1 \<and>
     result_at V (lower lo ks1) (upper hi ks2) h root r \<and> splice ks1 cs1 r ks2 cs2 = (ks', cs') \<and>
     forest_in lo hi ks' cs' \<and> (\<forall>d \<in> set cs'. tree_at V d \<and> level h d) \<and>
     (\<forall>p \<in> set (concat (map tree_pages cs')). p < n \<and> p \<noteq> pid)"

text \<open>Where the new key and child go on the page, and what the views of the page have to become.\<close>

lemma node_open_slot:
  assumes "node_open V n lo hi h pid ks1 cs1 root (Parts l b d) ks2 cs2 ks' cs'" and sp: "same_page (V pid) page"
  shows "internal_wf page" "page_id page = pid" "length ks1 = std_upper_bound (keys page) b"
    "insert_at (length ks1) b (keys page) = ks'" "insert_at (Suc (length ks1)) (root_of d) (children page) = map root_of cs'"
proof -
  note o = assms(1) [unfolded node_open_def]
  have wf: "internal_wf (V pid)" using o by simp
  note it = same_page_internal [OF wf sp]
  show "internal_wf page" "page_id page = pid" using it(1) o same_page_headers(2) [OF sp] by simp_all
  have e: "ks' = ks1 @ b # ks2" "cs' = cs1 @ l # d # cs2" "root_of l = root" and f: "forest_in lo hi ks' cs'"
    using o by simp_all
  then have "sorted (ks1 @ ks2)" using forest_sorted [OF f] by (auto simp: sorted_append)
  then have "std_upper_bound (ks1 @ ks2) b = length ks1"
    by (rule upper_bound_focus [where lo = lo and hi = hi]) (use o in \<open>simp add: key_in_def\<close>)
  then show "length ks1 = std_upper_bound (keys page) b" using it(2) o by simp
  show "insert_at (length ks1) b (keys page) = ks'" using it(2) o e by (simp add: insert_at_def)
  show "insert_at (Suc (length ks1)) (root_of d) (children page) = map root_of cs'"
    using it(3) o e by (simp add: insert_at_def)
qed

lemma node_open_frame:
  assumes "node_open V n lo hi h pid ks1 cs1 root r ks2 cs2 ks' cs'" and "d \<in> set cs'"
    and "\<And>p. p < n \<Longrightarrow> p \<noteq> pid \<Longrightarrow> V' p = V p"
  shows "tree_at V' d" "level h d"
proof -
  have "tree_at V d" "level h d" "\<forall>p \<in> set (tree_pages d). p < n \<and> p \<noteq> pid"
    using assms(1,2) by (auto simp: node_open_def)
  then show "tree_at V' d" "level h d" using tree_at_frame [of V d V'] assms(3) by auto
qed

lemma separated_put:
  assumes o: "node_open V n lo hi h pid ks1 cs1 root (Parts l b d) ks2 cs2 ks' cs'" and sp: "same_page (V pid) page"
    and room: "CheckSlotAvailable page" and q: "q = InsertKeyValue page b (root_of d)"
  shows "separated V (V(pid := image q)) n n lo hi h pid ks' cs' (Whole (NodeT pid ks' cs'))" "page_id q = pid"
proof -
  note s = node_open_slot [OF o sp]
  have lt: "num_keys page < 254" using room by (simp add: CheckSlotAvailable_def)
  note v = InsertKeyValue_views [OF s(1) lt s(3) q]
  have wf: "internal_wf q" unfolding q by (rule InsertKeyValue_wf [OF s(1) lt])
  show pq: "page_id q = pid" using v(5) s(2) by simp
  have f: "forest_in lo hi ks' cs'" using o by (simp add: node_open_def)
  have "tree_at (V(pid := image q)) x \<and> level h x" if "x \<in> set cs'" for x
    using node_open_frame [OF o that] by simp
  then show "separated V (V(pid := image q)) n n lo hi h pid ks' cs' (Whole (NodeT pid ks' cs'))"
    using image_internal [OF wf] v(1,2) s(4,5) pq f by (simp add: separated_def)
qed

lemma separated_split:
  assumes o: "node_open V n lo hi h pid ks1 cs1 root (Parts l b d) ks2 cs2 ks' cs'" and sp: "same_page (V pid) page"
    and full: "\<not> CheckSlotAvailable page" and n: "n \<noteq> pid" "unat n < 4503599627370496"
    and hs: "InternalPage_HandleSplit page page' b (root_of d) n = (m, old, new)"
  shows "\<exists>x y. separated V (V(pid := image old, n := image new)) n (n + 1) lo hi h pid ks' cs' (Parts x m y) \<and>
    root_of y = n" "page_id old = pid"
proof -
  note s = node_open_slot [OF o sp]
  note v = HandleSplit_views [OF s(1) hs s(3)]
  have "num_keys page = 254" using full internal_wfD(1) [OF s(1)] by (simp add: CheckSlotAvailable_def)
  then have half: "127 \<le> length (keys old)" "127 \<le> length (keys new)" using v(3,4) by simp_all
  have vk: "keys old @ m # keys new = ks'" "children old @ children new = map root_of cs'" using v(1,2) s(4,5) by simp_all
  have id: "page_id old = pid" "page_id new = n" using v(7,8) s(2) by simp_all
  show "page_id old = pid" by (rule id(1))
  define ca cb where "ca = take (Suc (num_keys old)) cs'" and "cb = drop (Suc (num_keys old)) cs'"
  have cab: "cs' = ca @ cb" by (simp add: ca_def cb_def)
  have f: "forest_in lo hi (keys old @ m # keys new) (ca @ cb)" using o by (simp add: node_open_def vk(1) flip: cab)
  have len: "length ca = Suc (length (keys old))" "length cb = Suc (length (keys new))"
    using forest_length [OF f] by (simp_all add: ca_def cb_def)
  have ch: "children old = map root_of ca" "children new = map root_of cb"
    using vk(2) len by (simp_all add: cab append_eq_append_conv)
  let ?V = "V(pid := image old, n := image new)" and ?x = "NodeT pid (keys old) ca" and ?y = "NodeT n (keys new) cb"
  have at: "tree_at ?V x \<and> level h x" if "x \<in> set (ca @ cb)" for x
    using that by (intro conjI node_open_frame [OF o, of x]) (auto simp flip: cab)
  have "tree_at ?V ?x" "tree_at ?V ?y" "level (Suc h) ?x" "level (Suc h) ?y"
    using image_internal [OF v(5)] image_internal [OF v(6)] ch id at n(1) by simp_all
  moreover have "forest_in lo (unat m) (keys old) ca" "forest_in (unat m) hi (keys new) cb"
    using f forest_append [OF len(1)] by simp_all
  moreover from this have "lo < unat m" "unat m < hi" using forest_le by blast+
  ultimately have "result_at ?V lo hi (Suc h) pid (Parts ?x m ?y)" by simp
  moreover have "n < n + 1" "unat (n + 1) = Suc (unat n)" using n(2) by (simp_all add: unat_word_ariths word_less_nat_alt)
  ultimately have "separated V ?V n (n + 1) lo hi h pid ks' cs' (Parts ?x m ?y)"
    using half len(1) vk(1) cab by (auto simp: separated_def)
  then show "\<exists>x y. separated V ?V n (n + 1) lo hi h pid ks' cs' (Parts x m y) \<and> root_of y = n" by force
qed

context regular_file begin

lemma insert_separator_split:
  assumes c: "cache file_byte file_size D (add_mset tpid (add_mset pid P)) W F V n bp" and W: "W \<subseteq> {tpid}"
    and few: "size P < 998" and n: "n \<noteq> 0" "unat n < 4503599627370496" and tp: "tpid \<noteq> pid"
    and o: "node_open V n lo hi h pid ks1 cs1 root (Parts l b d) ks2 cs2 ks' cs'"
    and full: "\<not> CheckSlotAvailable (buffer_pool bp (F pid))"
  shows "\<exists>r' bp' F' V' W' n'. insert_separator os stack pid (F pid) (report_of (Parts l b d)) bp = Some (report_of r', bp') \<and>
    cache file_byte file_size D (add_mset tpid P) W' F' V' n' bp' \<and> W' \<subseteq> {tpid} \<and> (\<forall>p \<in># add_mset tpid P. F' p = F p) \<and>
    separated V V' n n' lo hi h pid ks' cs' r'"
proof -
  have "size (add_mset tpid (add_mset pid P)) < 1000" using few by simp
  from cache_alloc [OF c this n, of stack] obtain j bp1 where
    j: "alloc_page os stack bp = Some (j, n, bp1)"
      "cache file_byte file_size D (add_mset n (add_mset tpid (add_mset pid P))) W (F(n := j)) V (n + 1) bp1"
      "n \<notin># add_mset tpid (add_mset pid P)" by blast
  have ne: "n \<noteq> pid" "n \<noteq> tpid" using j(3) by auto
  have sp0: "same_page (V pid) (buffer_pool bp (F pid))" using same_page_sym [OF cache_frame [OF c, of pid]] by simp
  have sp: "same_page (V pid) (buffer_pool bp1 (F pid))" using same_page_sym [OF cache_frame [OF j(2), of pid]] ne by simp
  have full1: "\<not> CheckSlotAvailable (buffer_pool bp1 (F pid))"
    using full same_page_headers(8) [OF sp] same_page_headers(8) [OF sp0] by (simp add: CheckSlotAvailable_def)
  obtain m old new where hs: "InternalPage_HandleSplit (buffer_pool bp1 (F pid)) (buffer_pool bp1 j) b (root_of d) n = (m, old, new)"
    by (metis prod_cases3)
  from separated_split [OF o sp full1 ne(1) n(2) hs] obtain x y where
    s: "separated V (V(pid := image old, n := image new)) n (n + 1) lo hi h pid ks' cs' (Parts x m y)" "root_of y = n"
      "page_id old = pid" by blast
  let ?F = "F(n := j)" and ?V = "V(pid := image old, n := image new)" and ?W = "insert n (insert pid W) - {pid} - {n}"
  let ?bp2 = "write_frame (write_frame bp1 (F pid) old) j new"
  let ?bp3 = "release_page (release_page ?bp2 pid True) n True"
  have c2: "cache file_byte file_size D (add_mset n (add_mset tpid (add_mset pid P))) (insert n (insert pid W)) ?F ?V (n + 1) ?bp2"
    using cache_write [OF cache_write [OF j(2), of pid old], of n new] ne by simp
  have c3: "cache file_byte file_size D (add_mset tpid P) ?W ?F ?V (n + 1) ?bp3"
    using cache_release [OF cache_release [OF c2, of pid True], of n True] by (simp add: add_mset_commute)
  have "insert_separator os stack pid (F pid) (report_of (Parts l b d)) bp = Some (report_of (Parts x m y), ?bp3)"
    using full j(1) hs s(2,3) by (simp add: insert_separator_def Let_def)
  moreover have "?W \<subseteq> {tpid}" "\<forall>p \<in># add_mset tpid P. ?F p = F p" using W j(3) by auto
  ultimately show ?thesis using c3 s(1) by blast
qed

lemma insert_separator_correct:
  assumes c: "cache file_byte file_size D (add_mset tpid (add_mset pid P)) W F V n bp" and W: "W \<subseteq> {tpid}"
    and few: "size P < 998" and n: "n \<noteq> 0" "unat n < 4503599627370496" and tp: "tpid \<noteq> pid"
    and o: "node_open V n lo hi h pid ks1 cs1 root r ks2 cs2 ks' cs'"
  shows "\<exists>r' bp' F' V' W' n'. insert_separator os stack pid (F pid) (report_of r) bp = Some (report_of r', bp') \<and>
    cache file_byte file_size D (add_mset tpid P) W' F' V' n' bp' \<and> W' \<subseteq> {tpid} \<and> (\<forall>p \<in># add_mset tpid P. F' p = F p) \<and>
    separated V V' n n' lo hi h pid ks' cs' r'"
proof (cases r)
  case (Whole c')
  have "cache file_byte file_size D (add_mset tpid P) (W - {pid}) F V n (release_page bp pid False)"
    using cache_release [OF c, of pid False] W tp by (auto simp: add_mset_commute)
  moreover have "separated V V n n lo hi h pid ks' cs' (Whole (NodeT pid ks' cs'))"
    using o by (auto simp: Whole node_open_def separated_def)
  ultimately show ?thesis
    using W by (intro exI [of _ "Whole (NodeT pid ks' cs')"] exI [of _ "release_page bp pid False"] exI [of _ F]
        exI [of _ V] exI [of _ "W - {pid}"] exI [of _ n])
      (auto simp: Whole insert_separator_def no_split_def)
next
  case (Parts l b d)
  note o = o [unfolded Parts]
  show ?thesis
  proof (cases "CheckSlotAvailable (buffer_pool bp (F pid))")
    case True
    define q where "q = InsertKeyValue (buffer_pool bp (F pid)) b (root_of d)"
    have sp: "same_page (V pid) (buffer_pool bp (F pid))" using same_page_sym [OF cache_frame [OF c, of pid]] by simp
    note sq = separated_put [OF o sp True q_def]
    let ?bp = "release_page (write_frame bp (F pid) q) pid True"
    have "cache file_byte file_size D (add_mset tpid P) (insert pid W - {pid}) F (V(pid := image q)) n ?bp"
      using cache_release [OF cache_write [OF c, of pid q], of pid True] by (simp add: add_mset_commute)
    moreover have "insert_separator os stack pid (F pid) (report_of r) bp = Some (report_of (Whole (NodeT pid ks' cs')), ?bp)"
      using True sq(2) by (simp add: insert_separator_def Parts Let_def flip: q_def)
    moreover have "insert pid W - {pid} \<subseteq> {tpid}" using W by auto
    ultimately show ?thesis using sq(1) by blast
  next
    case False
    then show ?thesis using insert_separator_split [OF c W few n tp o] by (simp add: Parts)
  qed
qed

section \<open>The descent\<close>

lemma FindPageToWrite_leaf:
  assumes c: "cache file_byte file_size D P {} F V n bp" and few: "size P < 997" and n: "n \<noteq> 0" "unat n < 4503599627370496"
    and bs: "bs < 4294967278" and t: "tree_at V (LeafT pid ts)" "tree_in lo hi (LeafT pid ts)" "key_in lo hi key"
    and p: "\<forall>p \<in> set (tree_pages (LeafT pid ts)). p \<noteq> 0 \<and> p < n \<and> p \<notin> D"
  shows "\<exists>r tpid bp' F' V' W' n'. FindPageToWrite os stack (Suc h) bp pid key bs = Some (report_of r, (F' tpid, tpid), bp') \<and>
    cache file_byte file_size D (add_mset tpid P) W' F' V' n' bp' \<and> W' \<subseteq> {tpid} \<and>
    found_page V V' n n' lo hi 0 (LeafT pid ts) key bs r tpid \<and> (\<forall>p \<in># P. F' p = F p)"
proof -
  have few': "size P < 1000" "size P < 999" using few by simp_all
  obtain i bp1 where i: "request_page os bp pid = Some (i, bp1)"
    "cache file_byte file_size D (add_mset pid P) {} (F(pid := i)) V n bp1" "\<forall>q \<in># P. (F(pid := i)) q = F q"
    "page_type (buffer_pool bp1 i) = PageType_code LeafPage"
    by (rule enter_leaf [OF c few'(1) t(1) p])
  then have "FindPageToWrite os stack (Suc h) bp pid key bs = leaf_to_write os stack bp1 ((F(pid := i)) pid) key bs"
    by simp
  then show ?thesis
    using leaf_to_write_correct [OF i(2) few'(2) n bs t, of stack] i(3) by (simp del: FindPageToWrite.simps)
qed

lemma FindPageToWrite_correct:
  assumes "cache file_byte file_size D P {} F V n bp" and "size P + h < 997" and "n \<noteq> 0" "unat n + h < 4503599627370496"
    and "bs < 4294967278" and "tree_at V t" "level h t" "tree_in lo hi t" "key_in lo hi key"
    and "distinct (tree_pages t)" "\<forall>p \<in> set (tree_pages t). p \<noteq> 0 \<and> p < n \<and> p \<notin> D"
  shows "\<exists>r tpid bp' F' V' W' n'. FindPageToWrite os stack (Suc h) bp (root_of t) key bs =
      Some (report_of r, (F' tpid, tpid), bp') \<and>
    cache file_byte file_size D (add_mset tpid P) W' F' V' n' bp' \<and> W' \<subseteq> {tpid} \<and>
    found_page V V' n n' lo hi h t key bs r tpid \<and> (\<forall>p \<in># P. F' p = F p)"
  using assms
proof (induction t arbitrary: h bp F P lo hi)
  case (LeafT pid ts)
  then show ?case
    using FindPageToWrite_leaf [OF LeafT.prems(1) _ LeafT.prems(3) _ LeafT.prems(5,6,8,9,11), where h = h and stack = stack]
    by (simp del: FindPageToWrite.simps tree_at.simps tree_in.simps tree_pages.simps)
next
  case (NodeT pid ks cs)
  have few0: "size P < 1000" using NodeT.prems(2) by simp
  obtain i bp1 h' ks1 ks2 cs1 c cs2 where i: "request_page os bp pid = Some (i, bp1)"
    "cache file_byte file_size D (add_mset pid P) {} (F(pid := i)) V n bp1" "\<forall>q \<in># P. (F(pid := i)) q = F q"
    "page_type (buffer_pool bp1 i) = PageType_code InternalPage" "GetChildPageID (buffer_pool bp1 i) key = root_of c"
    and h: "h = Suc h'" and s: "ks = ks1 @ ks2" "cs = cs1 @ c # cs2" "length ks1 = length cs1" "length ks2 = length cs2"
      "key_in (lower lo ks1) (upper hi ks2) key" "left_part lo ks1 cs1" "tree_in (lower lo ks1) (upper hi ks2) c" "right_part hi ks2 cs2"
    and ok: "\<forall>d \<in> set (cs1 @ c # cs2). tree_at V d \<and> level h' d" "\<forall>p \<in> set (tree_pages c). p \<noteq> 0 \<and> p < n \<and> p \<notin> D"
    by (rule enter_node [OF NodeT.prems(1) few0 NodeT.prems(6-9,11)])
  have ty: "page_type (buffer_pool bp1 i) \<noteq> PageType_code LeafPage" using i(4) by simp
  have cc: "c \<in> set cs" "tree_at V c" "level h' c" "distinct (tree_pages c)" using NodeT.prems(10) ok(1) by (auto simp: s(2))
  have few: "size (add_mset pid P) + h' < 997" "unat n + h' < 4503599627370496" using NodeT.prems(2,4) h by simp_all
  from NodeT.IH [OF cc(1) i(2) few(1) NodeT.prems(3) few(2) NodeT.prems(5) cc(2,3) s(7,5) cc(4) ok(2)]
  obtain r tpid bp2 F2 V2 W2 n2 where
    ih: "FindPageToWrite os stack (Suc h') bp1 (root_of c) key bs = Some (report_of r, (F2 tpid, tpid), bp2)"
      "cache file_byte file_size D (add_mset tpid (add_mset pid P)) W2 F2 V2 n2 bp2" "W2 \<subseteq> {tpid}"
      "found_page V V2 n n2 (lower lo ks1) (upper hi ks2) h' c key bs r tpid"
      "\<forall>p \<in># add_mset pid P. F2 p = (F(pid := i)) p" by blast
  have fi: "F2 pid = i" using ih(5) by simp
  obtain ks' cs' where sl: "splice ks1 cs1 r ks2 cs2 = (ks', cs')" by fastforce
  have node: "\<forall>d \<in> set (cs1 @ c # cs2). tree_at V d \<and> level h' d" "distinct (tree_pages (NodeT pid (ks1 @ ks2) (cs1 @ c # cs2)))"
    "\<forall>p \<in> set (tree_pages (NodeT pid (ks1 @ ks2) (cs1 @ c # cs2))). p < n"
    using NodeT.prems(10,11) ok(1) by (simp_all add: s)
  note ch = spliced_children [OF ih(4) node s(3,4,6,8,5) sl]
  have tp: "tpid \<noteq> pid" using ch(4,5) by auto
  have "V2 pid = V pid" by (rule found_pageD(5) [OF ih(4)]) (use node in auto)
  then have no: "node_open V2 n2 lo hi h' pid ks1 cs1 (root_of c) r ks2 cs2 ks' cs'"
    using NodeT.prems(6) s(1-3) found_pageD(1) [OF ih(4)] sl ch by (auto simp: node_open_def)
  have nn: "n \<le> n2" "unat n2 \<le> unat n + Suc h'" using ih(4) by (simp_all add: found_page_def)
  have "0 < unat n" using NodeT.prems(3) by (simp add: unat_gt_0)
  then have n2: "n2 \<noteq> 0" "unat n2 < 4503599627370496"
    using nn NodeT.prems(4) h by (auto simp: word_le_nat_alt)
  have few2: "size P < 998" using NodeT.prems(2) by simp
  from insert_separator_correct [OF ih(2,3) few2 n2 tp no, of stack] obtain r' bp' F' V' W' n' where
    sep: "insert_separator os stack pid i (report_of r) bp2 = Some (report_of r', bp')"
      "cache file_byte file_size D (add_mset tpid P) W' F' V' n' bp'" "W' \<subseteq> {tpid}"
      "\<forall>p \<in># add_mset tpid P. F' p = F2 p" "separated V2 V' n2 n' lo hi h' pid ks' cs' r'"
    unfolding fi by blast
  have "FindPageToWrite os stack (Suc h) bp (root_of (NodeT pid ks cs)) key bs = Some (report_of r', (F' tpid, tpid), bp')"
    unfolding h by (subst FindPageToWrite.simps) (use i(1,5) ty ih(1) sep(1,4) in \<open>simp add: Let_def del: FindPageToWrite.simps\<close>)
  moreover have "found_page V V' n n' lo hi h (NodeT pid ks cs) key bs r' tpid"
    unfolding h s(1,2) by (rule found_page_node [OF ih(4) node s(3,4,6,8,5) sl sep(5)])
  moreover have "\<forall>p \<in># P. F' p = F p" using sep(4) ih(5) i(3) by auto
  ultimately show ?case using sep(2,3) by blast
qed

end

end
