(* ===== verification/Tree_Write.thy ===== *)
theory Tree_Write
  imports Tree_Insert
begin

text \<open>
  The rest of \<open>Insert\<close>: the new root, the first chunk in the leaf and the chain of overflow pages.
  At the end stands what an insertion does to a tree that is at rest: one tuple more, which holds
  all bytes of the payload, everything else as it was.
\<close>

section \<open>The meta page and the root\<close>

definition meta_ok :: "(PageID \<Rightarrow> mem) \<Rightarrow> PageID \<Rightarrow> bool" where
  "meta_ok V root \<longleftrightarrow> load_u32 (V DATABASE_META_PAGE_ID) 0 = DATABASE_MAGIC_NUMBER \<and>
     load_u64 (V DATABASE_META_PAGE_ID) 4 = root"

lemma image_load: "a + k \<le> 4096 \<Longrightarrow> load_le (image p) a k = load_le p a k"
  by (rule same_page_load) simp_all

context regular_file begin

lemma SetNewRoot_correct:
  assumes c: "cache file_byte file_size D P W F V n bp" and few: "size P < 1000" and n: "1 < n" and D: "1 \<notin> D" and W: "1 \<notin> W"
    and m: "load_u32 (V DATABASE_META_PAGE_ID) 0 = DATABASE_MAGIC_NUMBER"
  shows "\<exists>bp' F' p. SetNewRoot os \<lparr>root_page_id = old, bt_pool = bp\<rparr> root = Some \<lparr>root_page_id = root, bt_pool = bp'\<rparr> \<and>
    cache file_byte file_size D P W F' (V(1 := p)) n bp' \<and> (\<forall>q \<in># P. F' q = F q) \<and> meta_ok (V(1 := p)) root"
proof -
  have "(1 :: PageID) \<noteq> 0" by simp
  from cache_request [OF c few this n D] obtain i bp1 where
    i: "request_page os bp 1 = Some (i, bp1)" "cache file_byte file_size D (add_mset 1 P) W (F(1 := i)) V n bp1"
      "1 \<in># P \<longrightarrow> i = F 1" by blast
  let ?p = "store_u64 (buffer_pool bp1 i) 4 root"
  let ?bp = "release_page (write_frame bp1 i ?p) 1 True"
  have sp: "same_page (buffer_pool bp1 i) (V 1)" using cache_frame [OF i(2), of 1] by simp
  have "cache file_byte file_size D P (insert 1 W - {1}) (F(1 := i)) (V(1 := image ?p)) n ?bp"
    using cache_release [OF cache_write [OF i(2), of 1 ?p], of 1 True] by simp
  moreover have "insert 1 W - {1} = W" using W by auto
  ultimately have "cache file_byte file_size D P W (F(1 := i)) (V(1 := image ?p)) n ?bp" by simp
  moreover have "load_u32 (image ?p) 0 = load_u32 (V 1) 0"
    using same_page_load [OF sp, of 0 4] by (simp add: image_load mem_simps)
  then have "meta_ok (V(1 := image ?p)) root"
    using m by (simp add: meta_ok_def DATABASE_META_PAGE_ID_def image_load)
  moreover have "SetNewRoot os \<lparr>root_page_id = old, bt_pool = bp\<rparr> root = Some \<lparr>root_page_id = root, bt_pool = ?bp\<rparr>"
    using i(1) by (simp add: SetNewRoot_def DATABASE_META_PAGE_ID_def MAGIC_NUMBER_SIZE_def)
  ultimately show ?thesis using i(3)
    by (intro exI [of _ ?bp] exI [of _ "F(1 := i)"] exI [of _ "image ?p"]) auto
qed

end

text \<open>The tree after a split of the root and the growth that follows it, on a new root \<open>n\<close>.\<close>

definition grown :: "(PageID \<Rightarrow> mem) \<Rightarrow> (PageID \<Rightarrow> mem) \<Rightarrow> PageID \<Rightarrow> PageID \<Rightarrow> nat \<Rightarrow> nat \<Rightarrow> nat \<Rightarrow> split_result \<Rightarrow>
    page_tree \<Rightarrow> nat \<Rightarrow> bool" where
  "grown V V' n n' lo hi h r t h' \<longleftrightarrow>
     tree_at V' t \<and> tree_in lo hi t \<and> level h' t \<and> h' \<le> Suc h \<and> tree_tuples t = result_tuples r \<and>
     distinct (tree_pages t) \<and> (\<forall>p \<in> set (tree_pages t). p \<in> set (result_pages r) \<or> n \<le> p \<and> p < n') \<and>
     (\<forall>key. leaf_of t key = leaf_of (target_tree r key) key) \<and> meta_ok V' (root_of t) \<and>
     (\<forall>q. q \<noteq> 1 \<longrightarrow> q < n \<longrightarrow> V' q = V q) \<and> n \<le> n' \<and> unat n' \<le> Suc (unat n) \<and>
     (chained_result r \<longrightarrow> chained t \<and> (h' = h \<or> keyed t)) \<and> (keyed_result r \<longrightarrow> keyed t) \<and> leaf_pids t = result_leaves r"

lemma grown_two:
  assumes r: "result_at V lo hi h root (Parts l k x)" and d: "distinct (result_pages (Parts l k x))"
    and b: "\<forall>p \<in> set (result_pages (Parts l k x)). 1 < p \<and> p < n" and n: "1 < n" "unat n < 4503599627370496"
    and q: "q = InternalPage_MakePage page (put_elem (\<lambda>_. 0) 0 0 k) 0
        (put_elem (put_elem (\<lambda>_. 0) 0 0 root) 0 1 (root_of x)) 0 1 n"
    and m: "meta_ok (V(n := image q, 1 := p)) n"
  shows "grown V (V(n := image q, 1 := p)) n (n + 1) lo hi h (Parts l k x) (NodeT n [k] [l, x]) (Suc h)"
proof -
  let ?V = "V(n := image q, 1 := p)" and ?t = "NodeT n [k] [l, x]"
  note v = MakePage_views [OF q]
  have vq: "keys q = [k]" "children q = [root, root_of x]" "ip_type q = PageType_code InternalPage" "page_id q = n"
    using v by (simp_all add: elem_put)
  have wf: "internal_wf q" using vq v(3) by (simp add: internal_wf_def)
  have lt: "n < n + 1" "unat (n + 1) = Suc (unat n)" using n(2) by (simp_all add: unat_word_ariths word_less_nat_alt)
  have ne: "n \<noteq> 1" using n(1) by auto
  have fr: "tree_at ?V y" if "tree_at V y" "set (tree_pages y) \<subseteq> set (result_pages (Parts l k x))" for y
    by (rule tree_at_frame [OF that(1)]) (use that(2) b in auto)
  have "tree_at ?V ?t" using r image_internal [OF wf] vq fr [of l] fr [of x] ne by simp
  moreover have "leaf_of ?t key = leaf_of (target_tree (Parts l k x) key) key" for key
    by (simp add: std_upper_bound_def)
  moreover have "distinct (tree_pages ?t)" using d b by auto
  ultimately show ?thesis using r m lt by (auto simp: grown_def filled_keyed)
qed

context regular_file begin

lemma grow_root_correct:
  assumes c: "cache file_byte file_size D (add_mset tpid P) W F V n bp" and W: "W \<subseteq> {tpid}" and tp: "tpid \<in> set (result_pages r)"
    and few: "size P < 900" and D: "1 \<notin> D" and n: "1 < n" "unat n < 4503599627370496"
    and r: "result_at V lo hi h root r" and m: "meta_ok V root"
    and d: "distinct (result_pages r)" and b: "\<forall>p \<in> set (result_pages r). 1 < p \<and> p < n"
  shows "\<exists>t bp' F' V' n' h'. grow_root os stack (report_of r) \<lparr>root_page_id = root, bt_pool = bp\<rparr> =
      Some \<lparr>root_page_id = root_of t, bt_pool = bp'\<rparr> \<and>
    cache file_byte file_size D (add_mset tpid P) W F' V' n' bp' \<and> F' tpid = F tpid \<and> grown V V' n n' lo hi h r t h'"
proof (cases r)
  case (Whole t)
  then show ?thesis
    using c r m d by (intro exI [of _ t] exI [of _ bp] exI [of _ F] exI [of _ V] exI [of _ n] exI [of _ h])
      (auto simp: grown_def grow_root_def no_split_def)
next
  case (Parts l k x)
  have n0: "n \<noteq> 0" using n(1) by auto
  have "size (add_mset tpid P) < 1000" using few by simp
  from cache_alloc [OF c this n0 n(2), of stack] obtain j bp1 where
    j: "alloc_page os stack bp = Some (j, n, bp1)"
      "cache file_byte file_size D (add_mset n (add_mset tpid P)) W (F(n := j)) V (n + 1) bp1" "n \<notin># add_mset tpid P" by blast
  define q where "q = InternalPage_MakePage (buffer_pool bp1 j) (put_elem (\<lambda>_. 0) 0 0 k) 0
      (put_elem (put_elem (\<lambda>_. 0) 0 0 root) 0 1 (root_of x)) 0 1 n"
  let ?bp2 = "write_frame bp1 j q" and ?V = "V(n := image q)"
  have c2: "cache file_byte file_size D (add_mset n (add_mset tpid P)) (insert n W) (F(n := j)) ?V (n + 1) ?bp2"
    using cache_write [OF j(2), of n q] by simp
  have "n < n + 1" using n(2) by (simp add: unat_word_ariths word_less_nat_alt)
  with n(1) have n1: "1 < n + 1" by (rule less_trans)
  have ne: "n \<noteq> 1" "1 \<notin> insert n W" "n \<notin> W" using n(1) W tp b j(3) by auto
  have mg: "load_u32 (?V DATABASE_META_PAGE_ID) 0 = DATABASE_MAGIC_NUMBER"
    using m ne by (simp add: meta_ok_def DATABASE_META_PAGE_ID_def)
  have few3: "size (add_mset n (add_mset tpid P)) < 1000" using few by simp
  from SetNewRoot_correct [OF c2 few3 n1 D ne(2) mg, of root n] obtain bp3 F3 p where
    s: "SetNewRoot os \<lparr>root_page_id = root, bt_pool = ?bp2\<rparr> n = Some \<lparr>root_page_id = n, bt_pool = bp3\<rparr>"
      "cache file_byte file_size D (add_mset n (add_mset tpid P)) (insert n W) F3 (?V(1 := p)) (n + 1) bp3"
      "\<forall>a \<in># add_mset n (add_mset tpid P). F3 a = (F(n := j)) a" "meta_ok (?V(1 := p)) n"
    by blast
  have "cache file_byte file_size D (add_mset tpid P) W F3 (?V(1 := p)) (n + 1) (release_page bp3 n True)"
    using cache_release [OF s(2), of n True] ne(3) by simp
  moreover have "grow_root os stack (report_of r) \<lparr>root_page_id = root, bt_pool = bp\<rparr> =
      Some \<lparr>root_page_id = root_of (NodeT n [k] [l, x]), bt_pool = release_page bp3 n True\<rparr>"
    using j(1) s(1) by (simp add: grow_root_def Parts q_def)
  moreover have "F3 tpid = F tpid" using s(3) j(3) by auto
  moreover note grown_two [OF r [unfolded Parts] d [unfolded Parts] b [unfolded Parts] n q_def s(4)]
  ultimately show ?thesis unfolding Parts by blast
qed

end

section \<open>The chain of overflow pages\<close>

definition link_to :: "mem \<Rightarrow> nat \<Rightarrow> PageID \<Rightarrow> mem" where
  "link_to p a n = store_u64 (store_u8 p a 1) (a + 1) n"

lemma same_page_store: "same_page p q \<Longrightarrow> same_page (store_le p a k v) (store_le q a k v)"
  by (simp add: same_page_def store_le_def)

lemma same_page_trans: "same_page p q \<Longrightarrow> same_page q r \<Longrightarrow> same_page p r"
  by (simp add: same_page_def)

lemma same_page_link: "same_page p q \<Longrightarrow> same_page (link_to p a n) (link_to q a n)"
  by (simp add: link_to_def same_page_store)

lemma buffer_pool_release [simp]: "buffer_pool (release_page bp p d) = buffer_pool bp"
  by (simp add: release_page_def ReleasePage_def Let_def split: option.split)

lemma buffer_pool_write [simp]: "buffer_pool (write_frame bp i p) = (buffer_pool bp)(i := p)"
  by (simp add: write_frame_def)

lemma bytes_Nil [simp]: "bytes m a 0 = []" "bytes m a n = [] \<longleftrightarrow> n = 0"
  by (auto simp: bytes_def)

text \<open>One page of a chain: what \<open>WriteChunkOverflow\<close> and, later, the link to the next page leave.\<close>

lemma overflow_page:
  assumes p: "load_u8 p 0 = PageType_code OverflowPage" and w: "LeafPage_WriteChunkOverflow p buffer bs = (st, q)"
    and s: "same_page q' (if bs \<le> 4078 then q else link_to q 9 m)"
  shows "page_type q' = PageType_code OverflowPage" "bytes q' 18 (min 4078 bs) = bytes buffer 0 (min 4078 bs)"
    "load_u8 q' 9 > 0 \<longleftrightarrow> 4078 < bs" "4078 < bs \<Longrightarrow> load_u64 q' 10 = m"
proof -
  note wc = WriteChunkOverflow_correct [OF w]
  let ?q = "if bs \<le> 4078 then q else link_to q 9 m"
  have "load_u8 q 0 = load_u8 p 0" by (rule load_le_cong) (use wc(5) in simp)
  then have "load_u8 ?q 0 = PageType_code OverflowPage" using p by (simp add: link_to_def mem_simps)
  then show "page_type q' = PageType_code OverflowPage" using same_page_load [OF s, of 0 1] by simp
  have "bytes ?q 18 (min 4078 bs) = bytes q 18 (min 4078 bs)" by (simp add: link_to_def mem_simps)
  then show "bytes q' 18 (min 4078 bs) = bytes buffer 0 (min 4078 bs)"
    using same_page_bytes [OF s, of 18 "min 4078 bs"] wc(1,2) by (simp add: min.commute)
  show "load_u8 q' 9 > 0 \<longleftrightarrow> 4078 < bs"
    using same_page_load [OF s, of 9 1] wc(4) by (auto simp: link_to_def mem_simps)
  show "load_u64 q' 10 = m" if "4078 < bs"
    using same_page_load [OF s, of 10 8] that by (simp add: link_to_def mem_simps)
qed

context regular_file begin

text \<open>One turn of the loop: a new page takes a chunk, and the page before is linked to it and released.\<close>

lemma overflow_turn:
  assumes c: "cache file_byte file_size D (add_mset pid P) W F V n bp" and W: "W \<subseteq> {pid}" and few: "size P < 998"
    and n: "n \<noteq> 0" "unat n < 4503599627370496" and bs: "0 < bs" and addr: "addr = Some a"
  shows "\<exists>q1 st q2 r bp' F'. load_u8 q1 0 = PageType_code OverflowPage \<and> LeafPage_WriteChunkOverflow q1 buffer bs = (st, q2) \<and>
    same_page (image r) (link_to (V pid) a n) \<and>
    cache file_byte file_size D (add_mset n P) {n} F' (V(pid := image r, n := image q2)) (n + 1) bp' \<and>
    overflow_loop os stack bp (F pid) pid addr buffer bs =
      overflow_loop os stack bp' (F' n) n (overflow_info_store_address st) (ptr buffer (min bs 4078)) (bs - min bs 4078) \<and>
    pid < n \<and> n \<notin> D"
proof -
  have "size (add_mset pid P) < 1000" using few by simp
  from cache_alloc [OF c this n, of stack] obtain j bp1 where
    j: "alloc_page os stack bp = Some (j, n, bp1)"
      "cache file_byte file_size D (add_mset n (add_mset pid P)) W (F(n := j)) V (n + 1) bp1" "n \<notin># add_mset pid P" by blast
  have pn: "pid < n" "pid \<noteq> n" "n \<noteq> pid" using cacheD(8) [OF c, of pid] by auto
  define q1 where "q1 = store_u64 (store_u8 (buffer_pool bp1 j) 0 (PageType_code OverflowPage)) 1 n"
  have t1: "load_u8 q1 0 = PageType_code OverflowPage" by (simp add: q1_def mem_simps)
  let ?bp2 = "write_frame bp1 j q1" and ?V1 = "V(n := image q1)" and ?F = "F(n := j)"
  have c1: "cache file_byte file_size D (add_mset n (add_mset pid P)) (insert n W) ?F ?V1 (n + 1) ?bp2"
    using cache_write [OF j(2), of n q1] by simp
  define r where "r = link_to (buffer_pool ?bp2 (F pid)) a n"
  have "same_page (buffer_pool ?bp2 (F pid)) (V pid)"
    using cache_frame [OF c1, of pid] pn by (simp del: buffer_pool_write)
  then have sr: "same_page (image r) (link_to (V pid) a n)"
    unfolding r_def by (rule same_page_trans [OF same_page_image(2) same_page_link])
  let ?bp3 = "release_page (write_frame ?bp2 (F pid) r) pid True" and ?V2 = "?V1(pid := image r)"
  have c2: "cache file_byte file_size D (add_mset n P) {n} ?F ?V2 (n + 1) ?bp3"
    using cache_release [OF cache_write [OF c1, of pid r], of pid True] W pn
    by (auto simp: add_mset_commute insert_Diff_if subset_singleton_iff)
  obtain st q2 where w: "LeafPage_WriteChunkOverflow q1 buffer bs = (st, q2)" by fastforce
  have fj: "F pid \<noteq> j" using cache_frames_apart [OF c1, of pid n] pn by simp
  let ?bp4 = "write_frame ?bp3 j q2"
  have "?V2(n := image q2) = V(pid := image r, n := image q2)" using pn by auto
  then have "cache file_byte file_size D (add_mset n P) {n} ?F (V(pid := image r, n := image q2)) (n + 1) ?bp4"
    using cache_write [OF c2, of n q2] by simp
  moreover have "overflow_loop os stack bp (F pid) pid addr buffer bs =
      overflow_loop os stack ?bp4 (?F n) n (overflow_info_store_address st) (ptr buffer (min bs 4078)) (bs - min bs 4078)"
    using bs addr j(1) w WriteChunkOverflow_correct(1) [OF w] fj
    by (subst overflow_loop.simps) (simp add: r_def link_to_def q1_def Let_def)
  moreover have "n \<notin> D" using cacheD(13) [OF c1, of n] by simp
  ultimately show ?thesis using t1 w sr pn(1) by blast
qed

lemma overflow_loop_correct:
  assumes "cache file_byte file_size D (add_mset pid P) W F V n bp" and "W \<subseteq> {pid}" and "size P < 998"
    and "n \<noteq> 0" "unat n + bs < 4503599627370496" and "0 < bs \<longrightarrow> addr = Some a"
  shows "\<exists>pid' bp' W' F' V' n' ps. overflow_loop os stack bp (F pid) pid addr buffer bs = Some (pid', bp') \<and>
    cache file_byte file_size D (add_mset pid' P) W' F' V' n' bp' \<and> W' \<subseteq> {pid'} \<and>
    chain_at D V' n' ps (0 < bs) n (bytes buffer 0 bs) \<and> distinct ps \<and> (\<forall>p \<in> set ps. n \<le> p \<and> p < n') \<and>
    (\<forall>q. q \<noteq> pid \<longrightarrow> q < n \<longrightarrow> V' q = V q) \<and>
    (if bs = 0 then V' pid = V pid else same_page (V' pid) (link_to (V pid) a n)) \<and>
    n \<le> n' \<and> unat n' \<le> unat n + bs"
  using assms
proof (induction bs arbitrary: pid W F V n bp addr a buffer rule: less_induct)
  case (less bs)
  show ?case
  proof (cases "bs = 0")
    case True
    have "overflow_loop os stack bp (F pid) pid addr buffer bs = Some (pid, bp)"
      by (subst overflow_loop.simps) (simp add: True)
    then show ?thesis
      using less.prems(1,2) True by (intro exI [of _ pid] exI [of _ bp] exI [of _ W] exI [of _ F] exI [of _ V] exI [of _ n]
          exI [of _ "[]"]) (simp add: bytes_def)
  next
    case False
    have nb: "unat n < 4503599627370496" "0 < bs" "addr = Some a" using less.prems(5,6) False by simp_all
    let ?k = "min bs 4078"
    from overflow_turn [OF less.prems(1-4) nb, of buffer stack] obtain q1 st q2 r bp4 F4 where
      t: "load_u8 q1 0 = PageType_code OverflowPage" "LeafPage_WriteChunkOverflow q1 buffer bs = (st, q2)"
        "same_page (image r) (link_to (V pid) a n)"
        "cache file_byte file_size D (add_mset n P) {n} F4 (V(pid := image r, n := image q2)) (n + 1) bp4"
        "overflow_loop os stack bp (F pid) pid addr buffer bs =
          overflow_loop os stack bp4 (F4 n) n (overflow_info_store_address st) (ptr buffer ?k) (bs - ?k)"
        "pid < n" "n \<notin> D" by blast
    let ?V = "V(pid := image r, n := image q2)"
    have lt: "n < n + 1" "unat (n + 1) = Suc (unat n)"
      using nb(1) by (simp_all add: unat_word_ariths word_less_nat_alt)
    then have n1: "n + 1 \<noteq> 0" by (metis nat.distinct(1) unat_0)
    have dec: "bs - ?k < bs" "unat (n + 1) + (bs - ?k) < 4503599627370496" using False less.prems(5) lt(2) by simp_all
    have ad: "0 < bs - ?k \<longrightarrow> overflow_info_store_address st = Some 9" using WriteChunkOverflow_correct(3) [OF t(2)] by auto
    from less.IH [OF dec(1) t(4) subset_refl less.prems(3) n1 dec(2) ad, where buffer = "ptr buffer ?k"]
    obtain pid' bp' W' F' V' n' ps where
      h: "overflow_loop os stack bp4 (F4 n) n (overflow_info_store_address st) (ptr buffer ?k) (bs - ?k) = Some (pid', bp')"
        "cache file_byte file_size D (add_mset pid' P) W' F' V' n' bp'" "W' \<subseteq> {pid'}"
        "chain_at D V' n' ps (0 < bs - ?k) (n + 1) (bytes (ptr buffer ?k) 0 (bs - ?k))" "distinct ps"
        "\<forall>p \<in> set ps. n + 1 \<le> p \<and> p < n'" "\<forall>q. q \<noteq> n \<longrightarrow> q < n + 1 \<longrightarrow> V' q = ?V q"
        "if bs - ?k = 0 then V' n = ?V n else same_page (V' n) (link_to (?V n) 9 (n + 1))"
        "n + 1 \<le> n'" "unat n' \<le> unat (n + 1) + (bs - ?k)"
      by (elim exE conjE) (rule that)
    have "same_page (V' n) (if bs \<le> 4078 then q2 else link_to q2 9 (n + 1))"
      using h(8) by (auto split: if_splits intro: same_page_trans [OF _ same_page_link])
    note pg = overflow_page [OF t(1,2) this]
    have nn: "n < p" if "n + 1 \<le> p" for p using lt(1) that by (rule less_le_trans)
    have "chain_at D V' n' ps (4078 < bs) (if 4078 < bs then n + 1 else load_u64 (V' n) 10) (bytes buffer ?k (bs - ?k))"
      using h(4) by (cases ps) (auto split: if_splits)
    then have ch: "chain_at D V' n' (n # ps) (0 < bs) n (bytes buffer 0 bs)"
      using False less.prems(4) nn [OF h(9)] pg t(7) by (auto simp: take_bytes drop_bytes min.commute split: if_splits)
    have "V' pid = image r" using h(7) t(6) lt(1) by (simp add: less_trans [OF t(6)])
    moreover have "V' q = V q" if "q \<noteq> pid" "q < n" for q
      using h(7) that less_trans [OF that(2) lt(1)] by simp
    moreover have "\<forall>p \<in> set (n # ps). n \<le> p \<and> p < n'" "distinct (n # ps)" using h(5,6) nn nn [OF h(9)] by (auto simp: less_imp_le)
    moreover have "unat n' \<le> unat n + bs" using h(10) lt(2) False by simp
    ultimately show ?thesis
      using t(3,5) h(1-3) ch False nn [OF h(9)]
      by (intro exI [of _ pid'] exI [of _ bp'] exI [of _ W'] exI [of _ F'] exI [of _ V'] exI [of _ n'] exI [of _ "n # ps"])
        (simp del: chain_at.simps)
  qed
qed

end

section \<open>The first chunk\<close>

text \<open>The header of a tuple that goes on in page \<open>n\<close>.\<close>

definition linked_header :: "nat \<Rightarrow> PageID \<Rightarrow> mem" where
  "linked_header bs n = store_u32 (link_to (\<lambda>_. 0) 0 n) 9 (u32 (int bs))"

lemma place_tuple_link:
  assumes "place_tuple p m buffer bs key None = (st, q)" "overflow_info_store_address st = Some a"
  shows "place_tuple p m buffer bs key (Some (linked_header bs n)) = (st, link_to q a n)"
proof -
  have *: "memcpy r b (linked_header bs n) 0 13 =
      link_to (store_u32 (store_u64 (store_u8 r b 0) (b + 1) 0) (b + 9) (u32 (int bs))) b n" for r b
    by (rule ext) (auto simp: memcpy_def linked_header_def link_to_def store_le_def)
  show ?thesis using assms unfolding place_tuple_def Let_def
    by (auto simp: * TUPLE_HEADER_SIZE_def split: prod.splits)
qed

lemma WriteChunkLeaf_link:
  assumes "LeafPage_WriteChunkLeaf p buffer bs key None = (st, q)" "overflow_info_store_address st = Some a"
  shows "LeafPage_WriteChunkLeaf p buffer bs key (Some (linked_header bs n)) = (st, link_to q a n)"
  using assms place_tuple_link unfolding LeafPage_WriteChunkLeaf_def Let_def by (auto split: if_splits)

lemma load_zero [simp]: "load_le (\<lambda>_. 0) a k = 0"
  by (induction k arbitrary: a) (simp_all add: load_le.simps)

text \<open>What a tuple written by \<open>Insert\<close> says of itself.\<close>

lemma chunk_tuple_fields:
  assumes m: "13 \<le> m" and bs: "bs < 4294967296"
  shows "tuple_size (chunk_tuple m buffer bs None) = bs" "\<not> tuple_overflow (chunk_tuple m buffer bs None)"
    "tuple_size (chunk_tuple m buffer bs (Some (linked_header bs n))) = bs"
    "tuple_overflow (chunk_tuple m buffer bs (Some (linked_header bs n)))"
    "tuple_overflow_page (chunk_tuple m buffer bs (Some (linked_header bs n))) = n"
    "tuple_payload (chunk_tuple m buffer bs th) = bytes buffer 0 (m - 13)"
proof -
  have ld: "load_le (of_bytes (chunk_tuple m buffer bs th)) a k = load_le (case th of None \<Rightarrow> store_u32 (\<lambda>_. 0) 9 (u32 (int bs)) | Some h \<Rightarrow> h) a k"
    if "a + k \<le> 13" for a k th
    by (rule load_le_cong) (use that m in \<open>auto simp: of_bytes_def chunk_tuple_def tuple_header_def nth_append split: option.split\<close>)
  have u: "u32 (int bs) = bs" using bs by simp
  show "tuple_size (chunk_tuple m buffer bs None) = bs" 
    "tuple_size (chunk_tuple m buffer bs (Some (linked_header bs n))) = bs"
    using bs by (simp_all add: tuple_size_def ld u linked_header_def)
  show "\<not> tuple_overflow (chunk_tuple m buffer bs None)"
    by (simp add: tuple_overflow_def ld mem_simps)
  show "tuple_overflow (chunk_tuple m buffer bs (Some (linked_header bs n)))"
    "tuple_overflow_page (chunk_tuple m buffer bs (Some (linked_header bs n))) = n"
    by (simp_all add: tuple_overflow_def tuple_overflow_page_def ld linked_header_def link_to_def mem_simps)
  show "tuple_payload (chunk_tuple m buffer bs th) = bytes buffer 0 (m - 13)"
    by (simp add: tuple_payload_def chunk_tuple_def tuple_header_def split: option.split)
qed

text \<open>
  A payload at its leaf: one tuple more there, which with its chain \<open>ps\<close> on new pages holds all bytes.
\<close>

definition payload_put :: "PageID set \<Rightarrow> (PageID \<Rightarrow> mem) \<Rightarrow> (PageID \<Rightarrow> mem) \<Rightarrow> PageID \<Rightarrow> PageID \<Rightarrow> PageID \<Rightarrow> Key \<Rightarrow> byte list \<Rightarrow>
    byte list \<Rightarrow> PageID list \<Rightarrow> bool" where
  "payload_put D V V' n n' tpid key d u ps \<longleftrightarrow>
     leaf_wf (V' tpid) \<and> page_id (V' tpid) = tpid \<and> tuples (V' tpid) = insert_tuple u (tuples (V tpid)) \<and>
     right_pid (V' tpid) = right_pid (V tpid) \<and> tuple_key u = key \<and> stored D V' n' ps u d \<and> distinct ps \<and>
     (\<forall>p \<in> set ps. n \<le> p \<and> p < n') \<and> (\<forall>q. q \<noteq> tpid \<longrightarrow> q < n \<longrightarrow> V' q = V q) \<and> n \<le> n' \<and> unat n' \<le> unat n + length d"

text \<open>How much of the payload goes into the leaf; the tuple is as if its link had been written at once.\<close>

lemma first_chunk_size:
  assumes "leaf_wf p" "8 \<le> bs" "bs < 4294967278" "leaf_room p bs"
    and "LeafPage_WriteChunkLeaf p buffer bs key None = (st, q)" "load_u64 buffer 0 = key"
  shows "8 \<le> written st" "written st \<le> bs" "chunk_size p bs = written st + 13"
    "\<exists>a. overflow_info_store_address st = Some a"
proof -
  have room: "min MIN_LEAF_PAGE_DATA (18 + bs) \<le> CheckAvailableSpace p + CheckGarbageBytes p"
    using assms(4) by (simp add: leaf_room_def)
  note wl = WriteChunkLeaf_correct [OF assms(1-3) room assms(6,5)]
  have "chunk_size p bs \<le> 13 + bs" by (simp add: chunk_size_def)
  then show "8 \<le> written st" "written st \<le> bs" "chunk_size p bs = written st + 13" using wl(2,3) by simp_all
  show "\<exists>a. overflow_info_store_address st = Some a" using wl(5) by blast
qed

lemma first_chunk:
  assumes lf: "leaf_wf p" "leaf_room p bs" and bs: "8 \<le> bs" "bs < 4294967278" and key: "load_u64 buffer 0 = key"
    and w: "LeafPage_WriteChunkLeaf p buffer bs key None = (st, q)" "overflow_info_store_address st = Some a" "k = written st"
    and ch: "chain_at D V n' ps (0 < bs - k) n (drop k (bytes buffer 0 bs))"
    and sq: "same_page (if bs \<le> k then q else link_to q a n) p'"
  shows "\<exists>u. leaf_wf p' \<and> page_id p' = page_id p \<and> tuples p' = insert_tuple u (tuples p) \<and> right_pid p' = right_pid p \<and>
    tuple_key u = key \<and> stored D V n' ps u (bytes buffer 0 bs)"
proof -
  note sz = first_chunk_size [OF lf(1) bs lf(2) w(1) key, folded w(3)]
  have room: "min MIN_LEAF_PAGE_DATA (18 + bs) \<le> CheckAvailableSpace p + CheckGarbageBytes p"
    using lf(2) by (simp add: leaf_room_def)
  define th where "th = (if bs \<le> k then None else Some (linked_header bs n))"
  define u where "u = chunk_tuple (chunk_size p bs) buffer bs th"
  have "LeafPage_WriteChunkLeaf p buffer bs key th = (st, if bs \<le> k then q else link_to q a n)"
    using w(1) WriteChunkLeaf_link [OF w(1,2)] by (simp add: th_def)
  note wl = WriteChunkLeaf_correct [OF lf(1) bs room key this, folded u_def]
  have m: "13 \<le> chunk_size p bs" "bs < 4294967296" using sz(3) bs(2) by simp_all
  note fld = chunk_tuple_fields [OF m, of buffer] and q = wl(1) [unfolded inserted_def]
  have qw: "leaf_wf (if bs \<le> k then q else link_to q a n)" using q by simp
  note lq = same_page_leaf [OF qw sq] and hd = same_page_headers [OF sq]
  have "chain_at D V n' ps (tuple_overflow u) (tuple_overflow_page u) (drop k (bytes buffer 0 bs))"
  proof (cases "bs \<le> k")
    case True
    then have "ps = []" using ch by (cases ps) auto
    then show ?thesis using True fld(2) by (simp add: u_def th_def)
  next
    case False
    then show ?thesis using ch fld(4,5) [of n] by (simp add: u_def th_def)
  qed
  moreover have "tuple_size u = bs" using fld(1) fld(3) [of n] by (simp add: u_def th_def)
  moreover have "tuple_payload u = take k (bytes buffer 0 bs)"
    using fld(6) [of th] sz(2,3) by (simp add: u_def take_bytes)
  moreover have "length u - 13 = k" using length_chunk_tuple [OF m(1), of buffer bs th] sz(3) by (simp add: u_def)
  ultimately have "stored D V n' ps u (bytes buffer 0 bs)" using sz(2) by (simp add: stored_def)
  moreover have "tuple_key u = key" using tuple_key_chunk [OF wl(3)] key by (simp add: u_def)
  ultimately show ?thesis using lq q hd by (intro exI [of _ u]) simp
qed

context regular_file begin

lemma write_payload_correct:
  assumes c: "cache file_byte file_size D (add_mset tpid P) W F V n bp" and W: "W \<subseteq> {tpid}" and few: "size P < 998"
    and n: "n \<noteq> 0" "unat n + bs < 4503599627370496" and bs: "8 \<le> bs" "bs < 4294967278"
    and lf: "leaf_wf (V tpid)" "page_id (V tpid) = tpid" "leaf_room (V tpid) bs" and key: "load_u64 buffer 0 = key"
    and w: "LeafPage_WriteChunkLeaf (buffer_pool bp (F tpid)) buffer bs key None = (st, q)"
  shows "\<exists>u pid' bp' F' V' n' ps. overflow_loop os stack (write_frame bp (F tpid) q) (F tpid) tpid
        (overflow_info_store_address st) (ptr buffer (written st)) (bs - written st) = Some (pid', bp') \<and>
    cache file_byte file_size D P {} F' V' n' (release_page bp' pid' True) \<and>
    payload_put D V V' n n' tpid key (bytes buffer 0 bs) u ps"
proof -
  let ?p = "buffer_pool bp (F tpid)" and ?bp1 = "write_frame bp (F tpid) q" and ?V1 = "V(tpid := image q)" and ?k = "written st"
  have sp: "same_page (V tpid) ?p" using same_page_sym [OF cache_frame [OF c, of tpid]] by simp
  note lp = same_page_leaf [OF lf(1) sp] and hp = same_page_headers [OF sp]
  have room: "leaf_room ?p bs" using lf(3) by (simp add: leaf_room_def same_page_space [OF sp])
  note sz = first_chunk_size [OF lp(1) bs room w key]
  obtain a where a: "overflow_info_store_address st = Some a" using sz(4) by blast
  have "insert tpid W = {tpid}" using W by auto
  from cache_write [OF c, of tpid q, unfolded this]
  have c1: "cache file_byte file_size D (add_mset tpid P) {tpid} F ?V1 n ?bp1" by simp
  have n2: "unat n + (bs - ?k) < 4503599627370496" using n(2) by simp
  have "0 < bs - ?k \<longrightarrow> overflow_info_store_address st = Some a" using a by simp
  from overflow_loop_correct [OF c1 subset_refl few n(1) n2 this, of stack "ptr buffer ?k"]
  obtain pid' bp' W' F' V' n' ps where
    o: "overflow_loop os stack ?bp1 (F tpid) tpid (overflow_info_store_address st) (ptr buffer ?k) (bs - ?k) = Some (pid', bp')"
      "cache file_byte file_size D (add_mset pid' P) W' F' V' n' bp'" "W' \<subseteq> {pid'}"
      "chain_at D V' n' ps (0 < bs - ?k) n (bytes (ptr buffer ?k) 0 (bs - ?k))" "distinct ps"
      "\<forall>p \<in> set ps. n \<le> p \<and> p < n'" "\<forall>q. q \<noteq> tpid \<longrightarrow> q < n \<longrightarrow> V' q = ?V1 q"
      "if bs - ?k = 0 then V' tpid = ?V1 tpid else same_page (V' tpid) (link_to (?V1 tpid) a n)"
      "n \<le> n'" "unat n' \<le> unat n + (bs - ?k)" by blast
  have "W' - {pid'} = {}" using o(3) by auto
  with cache_release [OF o(2), of pid' True]
  have c2: "cache file_byte file_size D P {} F' V' n' (release_page bp' pid' True)" by simp
  have "same_page (if bs \<le> ?k then q else link_to q a n) (V' tpid)"
    using o(8) by (auto intro: same_page_sym same_page_trans [OF _ same_page_link [OF same_page_image(2)]] split: if_splits)
  moreover have "bytes (ptr buffer ?k) 0 (bs - ?k) = drop ?k (bytes buffer 0 bs)" using sz(2) by (simp add: drop_bytes)
  ultimately obtain u where "leaf_wf (V' tpid)" "page_id (V' tpid) = page_id ?p" "tuples (V' tpid) = insert_tuple u (tuples ?p)"
    "right_pid (V' tpid) = right_pid ?p" "tuple_key u = key" "stored D V' n' ps u (bytes buffer 0 bs)"
    using first_chunk [OF lp(1) room bs key w a refl, of D V' n' ps n] o(4) by metis
  then have "payload_put D V V' n n' tpid key (bytes buffer 0 bs) u ps"
    using o(5-7,9,10) lp(2) hp lf(2) by (simp add: payload_put_def)
  then show ?thesis using o(1) c2 by blast
qed

end

section \<open>Insertion into a tree at rest\<close>

text \<open>Between two operations nothing is pinned and everything written has been released dirty.\<close>

definition tree_rest :: "('d \<Rightarrow> nat \<Rightarrow> byte) \<Rightarrow> ('d \<Rightarrow> nat) \<Rightarrow> PageID set \<Rightarrow> (PageID \<Rightarrow> mem) \<Rightarrow> PageID \<Rightarrow> nat \<Rightarrow> page_tree \<Rightarrow> 'd BTree \<Rightarrow> bool" where
  "tree_rest fb fs D V n h t bt \<longleftrightarrow>
     (\<exists>F. cache fb fs D {#} {} F V n (bt_pool bt)) \<and> root_page_id bt = root_of t \<and> meta_ok V (root_of t) \<and>
     tree_at V t \<and> level h t \<and> tree_in 0 18446744073709551616 t \<and> chained t \<and> h \<le> 52 \<and>
     distinct (tree_pages t) \<and> linked V (leaf_pids t) 0 \<and>
     (\<forall>p \<in> set (tree_pages t). 1 < p \<and> p < n \<and> p \<notin> D) \<and> 1 < n \<and> 1 \<notin> D"

lemma key_in_all [simp]: "key_in 0 18446744073709551616 (x :: Key)"
  using unsigned_less [of x, where 'a = nat] by (simp add: key_in_def)

lemma tree_rest_height: "tree_rest fb fs D V n h t bt \<Longrightarrow> h \<le> 52"
  by (simp add: tree_rest_def)

text \<open>
  A tree grows only when its root is full, and then no page of it lacks a key. There are no page
  numbers for such a tree with more than 52 levels above its leaves.
\<close>

lemma keyed_height:
  assumes t: "level h t" "tree_in 0 18446744073709551616 t" "keyed t" "distinct (tree_pages t)" "\<forall>p \<in> set (tree_pages t). p < n"
    and c: "cache fb fs D P W F V n bp"
  shows "h \<le> 52"
proof -
  have n: "unat n \<le> 2 ^ 52" using cacheD(5) [OF c] by (simp add: store_ok_def)
  have "length (tree_pages t) = card (unat ` set (tree_pages t))"
  proof -
    have "inj_on unat (set (tree_pages t))" by (rule inj_onI) (simp add: word_unat_eq_iff)
    then show ?thesis using distinct_card [OF t(4)] card_image by metis
  qed
  also have "\<dots> \<le> card {..<unat n}"
    by (rule card_mono) (use t(5) in \<open>auto simp: word_less_nat_alt\<close>)
  finally have "(2 :: nat) ^ h \<le> 2 ^ 52" using height_pages [OF t(2,1,3)] n by simp
  then show ?thesis by (rule power_le_imp_le_exp [rotated]) simp
qed

text \<open>More fuel than a descent needs changes nothing.\<close>

lemma FindPageToWrite_fuel:
  "FindPageToWrite os stack f bp pid key bs = Some r \<Longrightarrow> f \<le> f' \<Longrightarrow> FindPageToWrite os stack f' bp pid key bs = Some r"
proof (induction f arbitrary: bp pid f' r)
  case (Suc fuel)
  obtain g where g: "f' = Suc g" "fuel \<le> g" using Suc.prems(2) by (cases f') auto
  obtain i bp1 where q: "request_page os bp pid = Some (i, bp1)"
    using Suc.prems(1) by (cases "request_page os bp pid") auto
  show ?case
  proof (cases "page_type (buffer_pool bp1 i) = PageType_code LeafPage")
    case True
    then show ?thesis using Suc.prems(1) q g(1) by simp
  next
    case False
    let ?child = "GetChildPageID (buffer_pool bp1 i) key"
    obtain res where "FindPageToWrite os stack fuel bp1 ?child key bs = Some res"
      using Suc.prems(1) q False by (cases "FindPageToWrite os stack fuel bp1 ?child key bs") (auto simp: Let_def)
    moreover from Suc.IH [OF this g(2)] have "FindPageToWrite os stack g bp1 ?child key bs = Some res" .
    ultimately show ?thesis using Suc.prems(1) q False g(1) by (simp add: Let_def)
  qed
qed simp

text \<open>
  The state between the descent and the writing of the payload: the tree has its new pages and
  perhaps a new root, its tuples are the old ones, and the leaf of the key has room.
\<close>

definition leaf_ready :: "(PageID \<Rightarrow> mem) \<Rightarrow> (PageID \<Rightarrow> mem) \<Rightarrow> PageID \<Rightarrow> PageID \<Rightarrow> nat \<Rightarrow> page_tree \<Rightarrow> Key \<Rightarrow> nat \<Rightarrow>
    nat \<Rightarrow> page_tree \<Rightarrow> PageID \<Rightarrow> bool" where
  "leaf_ready V V' n n' h t key bs h' t' tpid \<longleftrightarrow>
     tree_at V' t' \<and> level h' t' \<and> tree_in 0 18446744073709551616 t' \<and> chained t' \<and> (h' = h \<or> keyed t') \<and> h' \<le> Suc h \<and>
     (keyed t \<longrightarrow> keyed t') \<and> tree_tuples t' = tree_tuples t \<and> distinct (tree_pages t') \<and> linked V' (leaf_pids t') 0 \<and>
     meta_ok V' (root_of t') \<and> (\<forall>p \<in> set (tree_pages t'). (p \<in> set (tree_pages t) \<or> n \<le> p) \<and> 1 < p \<and> p < n') \<and>
     leaf_of t' key = (tpid, tuples (V' tpid)) \<and> leaf_wf (V' tpid) \<and> page_id (V' tpid) = tpid \<and> leaf_room (V' tpid) bs \<and>
     (tpid \<in> set (tree_pages t) \<or> n \<le> tpid) \<and> 1 < tpid \<and>
     (\<forall>q. q \<notin> set (tree_pages t) \<longrightarrow> q \<noteq> 1 \<longrightarrow> q < n \<longrightarrow> V' q = V q) \<and> n \<le> n' \<and> unat n' \<le> unat n + h + 2"

lemma found_pages_range:
  assumes f: "found_page V V' n n' lo hi h t key bs r tpid" and p: "p \<in> set (result_pages r)"
    and t: "\<forall>p \<in> set (tree_pages t). 1 < p \<and> p < n" "1 < n"
  shows "p \<in> set (tree_pages t) \<or> n \<le> p" "1 < p" "p < n'"
proof -
  note fr = found_pageD(2) [OF f]
  show "p \<in> set (tree_pages t) \<or> n \<le> p" using fr p by (auto simp: fresh_pages_def)
  then show "1 < p" using t by (auto intro: less_le_trans)
  show "p < n'" using fresh_pages_below [OF fr _ found_pageD(3) [OF f] p] t(1) by blast
qed

lemma leaf_ready_grown:
  assumes f: "found_page V V1 n n1 0 18446744073709551616 h t key bs r tpid"
    and g: "grown V1 V' n1 n' 0 18446744073709551616 h r t' h'"
    and t: "\<forall>p \<in> set (tree_pages t). 1 < p \<and> p < n" "1 < n" "chained t" "linked V (leaf_pids t) 0"
  shows "leaf_ready V V' n n' h t key bs h' t' tpid"
proof -
  note fp = f [unfolded found_page_def] and gr = g [unfolded grown_def] and rg = found_pages_range [OF f _ t(1,2)]
  have tp: "tpid \<in> set (result_pages r)" using fp by simp
  have n1: "n \<le> n1" "1 < n1" using fp t(2) by (auto intro: less_le_trans)
  have at: "tree_at V' t'" "tree_in 0 18446744073709551616 t'" using gr by simp_all
  have same: "V' p = V1 p" if "p \<in> set (result_pages r)" for p using gr rg [OF that] by auto
  obtain ts where lo: "leaf_of t' key = (tpid, ts)" using gr fp by (cases "leaf_of t' key") auto
  have la: "leaf_wf (V' tpid)" "page_id (V' tpid) = tpid" "ts = tuples (V' tpid)"
    using leaf_of_at [OF at key_in_all lo] by simp_all
  have "(p \<in> set (tree_pages t) \<or> n \<le> p) \<and> 1 < p \<and> p < n'" if p: "p \<in> set (tree_pages t')" for p
  proof (cases "p \<in> set (result_pages r)")
    case True
    then show ?thesis using rg gr by (auto intro: less_le_trans)
  next
    case False
    then show ?thesis using gr p n1 by (auto intro: less_le_trans)
  qed
  moreover have "linked V' (leaf_pids t') 0"
  proof (rule linked_frame)
    show "linked V1 (leaf_pids t') 0" using fp t(4) gr by (simp add: relinks_def)
    show "right_pid (V' p) = right_pid (V1 p)" if "p \<in> set (leaf_pids t')" for p
    proof -
      have "leaf_pids t' = result_leaves r" using gr by simp
      then have "p \<in> set (result_pages r)" using that result_leaves_pages [of r] by auto
      then show ?thesis by (simp add: same)
    qed
  qed
  moreover have "V' q = V q" if "q \<notin> set (tree_pages t)" "q \<noteq> 1" "q < n" for q
    using that gr fp n1(1) by (auto dest: less_le_trans)
  moreover have "unat n' \<le> unat n + h + 2" "n \<le> n'" using gr fp by auto
  moreover have "leaf_room (V' tpid) bs" using fp same [OF tp] by simp
  ultimately show ?thesis
    using lo la rg(1,2) [OF tp] gr fp t(3) unfolding leaf_ready_def by auto
qed

text \<open>What an insertion is on the tree and its pages.\<close>

definition inserted_tree :: "PageID set \<Rightarrow> (PageID \<Rightarrow> mem) \<Rightarrow> (PageID \<Rightarrow> mem) \<Rightarrow> PageID \<Rightarrow> PageID \<Rightarrow> nat \<Rightarrow> page_tree \<Rightarrow>
    Key \<Rightarrow> byte list \<Rightarrow> page_tree \<Rightarrow> byte list \<Rightarrow> PageID list \<Rightarrow> bool" where
  "inserted_tree D V V' n n' h t key d t' u ps \<longleftrightarrow>
     tree_tuples t' = insert_tuple u (tree_tuples t) \<and> tuple_key u = key \<and> stored D V' n' ps u d \<and> distinct ps \<and>
     (\<forall>p \<in> set ps. p \<notin> set (tree_pages t') \<and> n \<le> p \<and> p < n') \<and> (\<forall>p \<in> set (tree_pages t'). p \<in> set (tree_pages t) \<or> n \<le> p) \<and>
     (\<forall>q. q \<notin> set (tree_pages t) \<longrightarrow> q \<noteq> 1 \<longrightarrow> q < n \<longrightarrow> V' q = V q) \<and> n \<le> n' \<and> unat n' \<le> unat n + h + 2 + length d \<and>
     (keyed t \<longrightarrow> keyed t')"

lemma payload_put_pages:
  assumes l: "leaf_ready V V2 n n2 h t key bs h2 t2 tpid" and p: "payload_put D V2 V' n2 n' tpid key d u ps"
    and new: "key \<notin> tuple_key ` set (tree_tuples t)"
  shows "tree_at V' (put_tuple u t2)" "tree_in 0 18446744073709551616 (put_tuple u t2)"
    "tree_tuples (put_tuple u t2) = insert_tuple u (tree_tuples t)" "level h2 (put_tuple u t2)"
    "linked V' (leaf_pids (put_tuple u t2)) 0" "meta_ok V' (root_of t2)"
proof -
  have at: "tree_at V2 t2" "tree_in 0 18446744073709551616 t2" "distinct (tree_pages t2)" "level h2 t2"
    "linked V2 (leaf_pids t2) 0" "meta_ok V2 (root_of t2)" "tree_tuples t2 = tree_tuples t"
    and pg: "\<forall>p \<in> set (tree_pages t2). 1 < p \<and> p < n2" and tpid: "1 < tpid" and lo: "leaf_of t2 key = (tpid, tuples (V2 tpid))"
    using l by (simp_all add: leaf_ready_def)
  have fr: "V' q = V2 q" if "q \<noteq> tpid" "q < n2" for q
    using p that by (simp add: payload_put_def)
  have "tree_at (V2(tpid := V' tpid)) (put_tuple u t2)"
    using put_tuple_at [OF at(1,2) key_in_all at(3), of u tpid "tuples (V2 tpid)" "V' tpid"] lo p
    by (simp add: payload_put_def)
  then show "tree_at V' (put_tuple u t2)" by (rule tree_at_frame) (use fr pg in simp)
  have "tuple_key u \<notin> tuple_key ` set (tree_tuples t2)" using new p at(7) by (simp add: payload_put_def)
  note pin = put_tuple_in [OF at(2) key_in_all this]
  show "tree_in 0 18446744073709551616 (put_tuple u t2)" "tree_tuples (put_tuple u t2) = insert_tuple u (tree_tuples t)"
    "level h2 (put_tuple u t2)"
    using pin at(4,7) by simp_all
  have "right_pid (V' q) = right_pid (V2 q)" if "q \<in> set (leaf_pids t2)" for q
  proof (cases "q = tpid")
    case False
    moreover have "q < n2" using that leaf_pids_pages [of t2] pg by blast
    ultimately show ?thesis using fr by simp
  qed (use p in \<open>simp add: payload_put_def\<close>)
  then show "linked V' (leaf_pids (put_tuple u t2)) 0" using linked_frame [OF at(5)] pin by simp
  have "1 < root_of t2" "root_of t2 < n2" using pg by simp_all
  then have "1 < n2" by (rule less_trans)
  then have "V' 1 = V2 1" using fr tpid by auto
  then show "meta_ok V' (root_of t2)" using at(6) by (simp add: meta_ok_def DATABASE_META_PAGE_ID_def)
qed

lemma inserted_tree_put:
  assumes l: "leaf_ready V V2 n n2 h t key bs h2 t2 tpid" and p: "payload_put D V2 V' n2 n' tpid key d u ps"
    and new: "key \<notin> tuple_key ` set (tree_tuples t)" and n: "n \<le> n2"
  shows "inserted_tree D V V' n n' h t key d (put_tuple u t2) u ps"
proof -
  note lr = l [unfolded leaf_ready_def] and pp = p [unfolded payload_put_def]
  have "V' q = V q" if q: "q \<notin> set (tree_pages t)" "q \<noteq> 1" "q < n" for q
  proof -
    have "q \<noteq> tpid" "q < n2" using q lr n by (auto intro: less_le_trans)
    then show ?thesis using pp lr q by simp
  qed
  moreover have "\<forall>p \<in> set ps. p \<notin> set (tree_pages (put_tuple u t2)) \<and> n \<le> p \<and> p < n'"
    using pp lr n by (auto dest!: bspec intro: order_trans)
  moreover have "n \<le> n'" "unat n' \<le> unat n + h + 2 + length d" using pp lr n by auto
  ultimately show ?thesis
    using payload_put_pages(3) [OF l p new] pp lr keyed_put_tuple [of t2 u] unfolding inserted_tree_def by auto
qed

lemma tree_rest_put:
  assumes r: "tree_rest fb fs D V n h t bt" and l: "leaf_ready V V2 n n2 h t key bs h2 t2 tpid"
    and p: "payload_put D V2 V' n2 n' tpid key d u ps" and new: "key \<notin> tuple_key ` set (tree_tuples t)"
    and c2: "cache fb fs D P W F2 V2 n2 bp2" and c': "cache fb fs D {#} {} F' V' n' bp'"
  shows "tree_rest fb fs D V' n' h2 (put_tuple u t2) \<lparr>root_page_id = root_of t2, bt_pool = bp'\<rparr>"
proof -
  note lr = l [unfolded leaf_ready_def] and pp = p [unfolded payload_put_def] and rt = r [unfolded tree_rest_def]
  note pg = payload_put_pages [OF l p new]
  have nn: "n \<le> n2" "n2 \<le> n'" using lr pp by simp_all
  obtain F where "cache fb fs D {#} {} F V n (bt_pool bt)" using rt by blast
  note D = cacheD(12) [OF this]
  have "q \<notin> D" if "q \<in> set (tree_pages t2)" for q
  proof
    assume "q \<in> D"
    then have "q < n" "q \<notin> set (tree_pages t)" using D rt by auto
    then show False using lr that by auto
  qed
  moreover have "1 < q \<and> q < n'" if "q \<in> set (tree_pages t2)" for q
    using lr that nn(2) by (auto intro: less_le_trans)
  moreover have "h2 \<le> 52"
  proof -
    have "h2 \<le> 52" if "keyed t2" by (rule keyed_height [OF _ _ that _ _ c2]) (use lr in auto)
    then show ?thesis using lr rt by auto
  qed
  moreover have "1 < n'" using rt nn by (auto intro: less_le_trans)
  ultimately show ?thesis
    using pg c' rt lr chained_put_tuple [of t2 u] unfolding tree_rest_def by auto
qed

context regular_file begin

lemma insert_ready:
  assumes r: "tree_rest file_byte file_size D V n h t bt" and h: "h < fuel"
    and n: "unat n + h + 2 + bs < 4503599627370496" and bs: "bs < 4294967278"
  shows "\<exists>rs tpid bp1 F2 V2 n2 h2 t2 bp2 W.
    FindPageToWrite os stack fuel (bt_pool bt) (root_page_id bt) key bs = Some (report_of rs, (F2 tpid, tpid), bp1) \<and>
    grow_root os stack (report_of rs) (bt\<lparr>bt_pool := bp1\<rparr>) = Some \<lparr>root_page_id = root_of t2, bt_pool = bp2\<rparr> \<and>
    cache file_byte file_size D (add_mset tpid {#}) W F2 V2 n2 bp2 \<and> W \<subseteq> {tpid} \<and>
    leaf_ready V V2 n n2 h t key bs h2 t2 tpid"
proof -
  let ?top = "18446744073709551616 :: nat"
  obtain F where c: "cache file_byte file_size D {#} {} F V n (bt_pool bt)" using r by (auto simp: tree_rest_def)
  have rt: "root_page_id bt = root_of t" "meta_ok V (root_of t)" "tree_at V t" "level h t" "tree_in 0 ?top t"
    "distinct (tree_pages t)" "\<forall>p \<in> set (tree_pages t). 1 < p \<and> p < n \<and> p \<notin> D" "1 < n" "1 \<notin> D"
    "chained t" "linked V (leaf_pids t) 0" using r by (simp_all add: tree_rest_def)
  have n0: "n \<noteq> 0" using rt(8) by auto
  have pos: "\<forall>p \<in> set (tree_pages t). p \<noteq> 0 \<and> p < n \<and> p \<notin> D" "\<forall>p \<in> set (tree_pages t). 1 < p \<and> p < n" using rt(7) by auto
  have lim: "size {#} + h < 997" "unat n + h < 4503599627370496" using tree_rest_height [OF r] n by simp_all
  from FindPageToWrite_correct [OF c lim(1) n0 lim(2) bs rt(3-5) key_in_all rt(6) pos(1), where key = key and stack = stack]
  obtain rs tpid bp1 F1 V1 W1 n1 where
    f: "FindPageToWrite os stack (Suc h) (bt_pool bt) (root_of t) key bs = Some (report_of rs, (F1 tpid, tpid), bp1)"
      "cache file_byte file_size D (add_mset tpid {#}) W1 F1 V1 n1 bp1" "W1 \<subseteq> {tpid}"
      "found_page V V1 n n1 0 ?top h t key bs rs tpid" by blast
  note fp = f(4) [unfolded found_page_def]
  have f1: "FindPageToWrite os stack fuel (bt_pool bt) (root_page_id bt) key bs = Some (report_of rs, (F1 tpid, tpid), bp1)"
    using FindPageToWrite_fuel [OF f(1), of fuel] h rt(1) by simp
  have n1: "1 < n1" "unat n1 < 4503599627370496" using fp rt(8) n by (auto intro: less_le_trans)
  have "V1 1 = V 1" using fp pos(2) rt(8) by auto
  then have m1: "meta_ok V1 (root_of t)" using rt(2) by (simp add: meta_ok_def DATABASE_META_PAGE_ID_def)
  have tp: "tpid \<in> set (result_pages rs)" "result_at V1 0 ?top h (root_of t) rs" "distinct (result_pages rs)"
    using fp by (simp_all add: fresh_pages_def)
  have pg: "\<forall>p \<in> set (result_pages rs). 1 < p \<and> p < n1" using found_pages_range [OF f(4) _ pos(2) rt(8)] by blast
  have few: "size {#} < (900 :: nat)" by simp
  from grow_root_correct [OF f(2,3) tp(1) few rt(9) n1 tp(2) m1 tp(3) pg, where stack = stack]
  obtain t2 bp2 F2 V2 n2 h2 where
    g: "grow_root os stack (report_of rs) \<lparr>root_page_id = root_of t, bt_pool = bp1\<rparr> =
        Some \<lparr>root_page_id = root_of t2, bt_pool = bp2\<rparr>"
      "cache file_byte file_size D (add_mset tpid {#}) W1 F2 V2 n2 bp2" "F2 tpid = F1 tpid"
      "grown V1 V2 n1 n2 0 ?top h rs t2 h2" by blast
  have "grow_root os stack (report_of rs) (bt\<lparr>bt_pool := bp1\<rparr>) = Some \<lparr>root_page_id = root_of t2, bt_pool = bp2\<rparr>"
    using g(1) rt(1) by (cases bt) simp
  then show ?thesis
    using f1 f(3) g(2,3) leaf_ready_grown [OF f(4) g(4) pos(2) rt(8,10,11)] by metis
qed

lemma BTree_Insert_tree:
  assumes r: "tree_rest file_byte file_size D V n h t bt" and h: "h < fuel"
    and n: "unat n + h + 2 + bs < 4503599627370496" and bs: "8 \<le> bs" "bs < 4294967278" and key: "load_u64 buffer 0 = key"
    and new: "key \<notin> tuple_key ` set (tree_tuples t)"
  shows "\<exists>V' n' h' t' bt' u ps. BTree_Insert os stack fuel bt buffer bs key = Some (True, bt') \<and>
    tree_rest file_byte file_size D V' n' h' t' bt' \<and> h' \<le> Suc h \<and> inserted_tree D V V' n n' h t key (bytes buffer 0 bs) t' u ps"
proof -
  from insert_ready [OF r h n bs(2), of stack key] obtain rs tpid bp1 F2 V2 n2 h2 t2 bp2 W where
    f: "FindPageToWrite os stack fuel (bt_pool bt) (root_page_id bt) key bs = Some (report_of rs, (F2 tpid, tpid), bp1)"
      "grow_root os stack (report_of rs) (bt\<lparr>bt_pool := bp1\<rparr>) = Some \<lparr>root_page_id = root_of t2, bt_pool = bp2\<rparr>"
      "cache file_byte file_size D (add_mset tpid {#}) W F2 V2 n2 bp2" "W \<subseteq> {tpid}"
      "leaf_ready V V2 n n2 h t key bs h2 t2 tpid" by blast
  note lr = f(5) [unfolded leaf_ready_def]
  have "1 < n" using r by (simp add: tree_rest_def)
  then have n2: "n2 \<noteq> 0" "unat n2 + bs < 4503599627370496" "n \<le> n2" using lr n by auto
  have lf: "leaf_wf (V2 tpid)" "page_id (V2 tpid) = tpid" "leaf_room (V2 tpid) bs" using lr by simp_all
  obtain st q where w: "LeafPage_WriteChunkLeaf (buffer_pool bp2 (F2 tpid)) buffer bs key None = (st, q)" by fastforce
  have few: "size {#} < (998 :: nat)" by simp
  from write_payload_correct [OF f(3,4) few n2(1,2) bs lf key w, where stack = stack] obtain u pid' bp' F' V' n' ps where
    p: "overflow_loop os stack (write_frame bp2 (F2 tpid) q) (F2 tpid) tpid (overflow_info_store_address st)
        (ptr buffer (written st)) (bs - written st) = Some (pid', bp')"
      "cache file_byte file_size D {#} {} F' V' n' (release_page bp' pid' True)"
      "payload_put D V2 V' n2 n' tpid key (bytes buffer 0 bs) u ps" by blast
  have "BTree_Insert os stack fuel bt buffer bs key =
      Some (True, \<lparr>root_page_id = root_of t2, bt_pool = release_page bp' pid' True\<rparr>)"
    using f(1,2) w p(1) by (simp add: BTree_Insert_def)
  moreover have "h2 \<le> Suc h" using lr by simp
  moreover note tree_rest_put [OF r f(5) p(3) new f(3) p(2)] and inserted_tree_put [OF f(5) p(3) new n2(3)]
  ultimately show ?thesis by blast
qed

lemma BTree_Insert_correct:
  assumes r: "tree_rest file_byte file_size D V n h t bt" and h: "h < fuel"
    and n: "unat n + h + 2 + bs < 4503599627370496" and bs: "8 \<le> bs" "bs < 4294967278" and key: "load_u64 buffer 0 = key"
    and new: "key \<notin> tuple_key ` set (tree_tuples t)"
  shows "\<exists>V' n' h' t' bt' u ps. BTree_Insert os stack fuel bt buffer bs key = Some (True, bt') \<and>
    tree_rest file_byte file_size D V' n' h' t' bt' \<and> h' \<le> Suc h \<and> tree_tuples t' = insert_tuple u (tree_tuples t) \<and>
    tuple_key u = key \<and> stored D V' n' ps u (bytes buffer 0 bs) \<and> distinct ps \<and>
    (\<forall>p \<in> set ps. p \<notin> set (tree_pages t') \<and> n \<le> p \<and> p < n') \<and> (\<forall>p \<in> set (tree_pages t'). p \<in> set (tree_pages t) \<or> n \<le> p) \<and>
    (\<forall>q. q \<notin> set (tree_pages t) \<longrightarrow> q \<noteq> 1 \<longrightarrow> q < n \<longrightarrow> V' q = V q) \<and> n \<le> n' \<and> unat n' \<le> unat n + h + 2 + bs \<and> (keyed t \<longrightarrow> keyed t')"
  using BTree_Insert_tree [OF assms, of stack] unfolding inserted_tree_def length_bytes by blast

end

end
