(* ===== verification/BTree_Delete.thy ===== *)
theory BTree_Delete
  imports BTree
begin

text \<open>
  The deletion of \<open>database/src/impl/b-tree/b-tree.cpp\<close>: the descent, the deletion in the leaf, and
  on the way back the repair of an underfull child, by borrowing from the left or the right
  neighbour or by merging with one of them.
\<close>

section \<open>Reports\<close>

definition done_report :: "DeleteStatus \<Rightarrow> DeleteStatus" where
  "done_report report =
    \<lparr>underflown = False, ds_page_type = InternalPage, current_size = 0, success = success report\<rparr>"

definition root_replaced :: "DeleteStatus \<Rightarrow> DeleteStatus" where
  "root_replaced report =
    \<lparr>underflown = False, ds_page_type = InvalidPage, current_size = 0, success = success report\<rparr>"

text \<open>
  The report after a merge. \<open>usedspace\<close> is an uninitialised local the code passes by reference;
  its value before the call is the parameter \<open>junk\<close>.
\<close>

definition merge_report :: "nat \<Rightarrow> mem \<Rightarrow> DeleteStatus \<Rightarrow> DeleteStatus" where
  "merge_report junk page report =
    (let (underflow_happened, usedspace) = CheckUnderflow page junk
     in \<lparr>underflown = underflow_happened, ds_page_type = InternalPage, current_size = usedspace,
         success = success report\<rparr>)"

section \<open>Repairing a leaf\<close>

text \<open>
  Each repair gets the frame \<open>i\<close> of the parent \<open>pid\<close>, which is pinned. An attempt to borrow returns
  the report if it succeeded; if it returns none, the code goes on with the next attempt.
\<close>

definition leaf_borrow_left :: "'d posix \<Rightarrow> nat \<Rightarrow> PageID \<Rightarrow> PageID \<Rightarrow> PageID \<Rightarrow> DeleteStatus \<Rightarrow> 'd BufferPool \<Rightarrow>
    (DeleteStatus option \<times> 'd BufferPool) option" where
  "leaf_borrow_left os i pid child_pid lpid report bp = do {
     let needed = u16 (int LEAF_UNDERFLOW_THRESHOLD + 1 - int (current_size report));
     (l, bp) \<leftarrow> request_page os bp lpid;
     let borrow_query_report = LeafPage_CanLendFromRight (buffer_pool bp l) needed;
     if can_borrow borrow_query_report then do {
       (c, bp) \<leftarrow> request_page os bp child_pid;
       (new_boundary_key, child_page, lender_page) \<leftarrow>
         LeafPage_HandleLeftBorrow (buffer_pool bp c) (buffer_pool bp l) borrow_query_report;
       let bp = write_frame (write_frame bp c child_page) l lender_page;
       let bp = write_frame bp i (SetNewBoundaryKey (buffer_pool bp i) new_boundary_key lpid child_pid);
       let bp = release_page (release_page (release_page bp child_pid True) lpid True) pid True;
       Some (Some (done_report report), bp)
     }
     else Some (None, release_page bp lpid False)
   }"

definition leaf_borrow_right :: "'d posix \<Rightarrow> nat \<Rightarrow> PageID \<Rightarrow> PageID \<Rightarrow> PageID \<Rightarrow> DeleteStatus \<Rightarrow> 'd BufferPool \<Rightarrow>
    (DeleteStatus option \<times> 'd BufferPool) option" where
  "leaf_borrow_right os i pid child_pid rpid report bp = do {
     let needed = u16 (int LEAF_UNDERFLOW_THRESHOLD + 1 - int (current_size report));
     (l, bp) \<leftarrow> request_page os bp rpid;
     let borrow_query_report = LeafPage_CanLendFromLeft (buffer_pool bp l) needed;
     if can_borrow borrow_query_report then do {
       (c, bp) \<leftarrow> request_page os bp child_pid;
       (new_boundary_key, child_page, lender_page) \<leftarrow>
         LeafPage_HandleRightBorrow (buffer_pool bp c) (buffer_pool bp l) borrow_query_report;
       let bp = write_frame (write_frame bp c child_page) l lender_page;
       let bp = write_frame bp i (SetNewBoundaryKey (buffer_pool bp i) new_boundary_key child_pid rpid);
       let bp = release_page (release_page (release_page bp child_pid True) rpid True) pid True;
       Some (Some (done_report report), bp)
     }
     else Some (None, release_page bp rpid False)
   }"

text \<open>The left link of the right neighbour of a merged page.\<close>

definition relink_neighbour :: "'d posix \<Rightarrow> nat \<Rightarrow> 'd BufferPool \<Rightarrow> 'd BufferPool option" where
  "relink_neighbour os t bp =
    (let to_page = buffer_pool bp t
     in if right_pid to_page \<noteq> 0 then do {
          (n, bp) \<leftarrow> request_page os bp (right_pid to_page);
          let bp = write_frame bp n (set_left_pid (buffer_pool bp n) (page_id to_page));
          Some (release_page bp (right_pid to_page) True)
        }
        else Some bp)"

text \<open>
  The end of both merges of leaves: \<open>to_pid\<close> absorbed \<open>from_pid\<close>; the three pages are pinned and the
  separator is gone. A root without a key is replaced by its only child; \<open>releases\<close> is the order in
  which the two leaves are released then.
\<close>

definition finish_leaf_merge :: "'d posix \<Rightarrow> nat \<Rightarrow> nat \<Rightarrow> PageID \<Rightarrow> PageID \<Rightarrow> PageID \<Rightarrow> (PageID \<times> bool) list \<Rightarrow>
    DeleteStatus \<Rightarrow> 'd BTree \<Rightarrow> (DeleteStatus \<times> 'd BTree) option" where
  "finish_leaf_merge os junk i pid to_pid from_pid releases report bt =
    (let page = buffer_pool (bt_pool bt) i
     in if ip_id page = root_page_id bt \<and> num_keys page = 0 then do {
          bt \<leftarrow> SetNewRoot os bt (GetValueAtIndex page 0);
          let bp = release_page (bt_pool bt) pid False;
          let bp = fold (\<lambda>(p, dirty) bp. release_page bp p dirty) releases bp;
          Some (root_replaced report, bt\<lparr>bt_pool := bp\<rparr>)
        }
        else
          let bp = release_page (release_page (bt_pool bt) to_pid True) from_pid False;
              bp = release_page bp pid True
          in Some (merge_report junk page report, bt\<lparr>bt_pool := bp\<rparr>))"

definition leaf_merge_left :: "'d posix \<Rightarrow> nat \<Rightarrow> nat \<Rightarrow> PageID \<Rightarrow> PageID \<Rightarrow> PageID \<Rightarrow> DeleteStatus \<Rightarrow> 'd BTree \<Rightarrow>
    (DeleteStatus \<times> 'd BTree) option" where
  "leaf_merge_left os junk i pid child_pid lpid report bt = do {
     (t, bp) \<leftarrow> request_page os (bt_pool bt) lpid;
     (f, bp) \<leftarrow> request_page os bp child_pid;
     to_page \<leftarrow> LeafPage_MergePages (buffer_pool bp t) (buffer_pool bp f);
     bp \<leftarrow> relink_neighbour os t (write_frame bp t to_page);
     let bp = write_frame bp i (DeleteKeyAndChildPtr (buffer_pool bp i) lpid child_pid);
     finish_leaf_merge os junk i pid lpid child_pid [(child_pid, False), (lpid, True)] report (bt\<lparr>bt_pool := bp\<rparr>)
   }"

definition leaf_merge_right :: "'d posix \<Rightarrow> nat \<Rightarrow> nat \<Rightarrow> PageID \<Rightarrow> PageID \<Rightarrow> PageID \<Rightarrow> DeleteStatus \<Rightarrow> 'd BTree \<Rightarrow>
    (DeleteStatus \<times> 'd BTree) option" where
  "leaf_merge_right os junk i pid child_pid rpid report bt = do {
     (t, bp) \<leftarrow> request_page os (bt_pool bt) child_pid;
     (f, bp) \<leftarrow> request_page os bp rpid;
     to_page \<leftarrow> LeafPage_MergePages (buffer_pool bp t) (buffer_pool bp f);
     let bp = write_frame bp t to_page;
     let bp = write_frame bp i (DeleteKeyAndChildPtr (buffer_pool bp i) child_pid rpid);
     bp \<leftarrow> relink_neighbour os t bp;
     finish_leaf_merge os junk i pid child_pid rpid [(child_pid, True), (rpid, False)] report (bt\<lparr>bt_pool := bp\<rparr>)
   }"

text \<open>The two places where the function falls through to its last lines.\<close>

definition fall_through :: "PageID \<Rightarrow> 'd BTree \<Rightarrow> (DeleteStatus \<times> 'd BTree) option" where
  "fall_through pid bt =
    Some (\<lparr>underflown = False, ds_page_type = InternalPage, current_size = 0, success = False\<rparr>,
      bt\<lparr>bt_pool := release_page (bt_pool bt) pid False\<rparr>)"

definition fix_leaf_child :: "'d posix \<Rightarrow> nat \<Rightarrow> nat \<Rightarrow> PageID \<Rightarrow> PageID \<Rightarrow> DeleteStatus \<Rightarrow> 'd BTree \<Rightarrow>
    (DeleteStatus \<times> 'd BTree) option" where
  "fix_leaf_child os junk i pid child_pid report bt = do {
     let page = buffer_pool (bt_pool bt) i;
     let left_pid_check = GetLeafLeftSibling page child_pid;
     (borrowed, bp) \<leftarrow>
       (if res_err left_pid_check = ErrNone
        then leaf_borrow_left os i pid child_pid (res_value left_pid_check) report (bt_pool bt)
        else Some (None, bt_pool bt));
     case borrowed of
       Some r \<Rightarrow> Some (r, bt\<lparr>bt_pool := bp\<rparr>)
     | None \<Rightarrow> do {
         let right_pid_check = GetLeafRightSibling (buffer_pool bp i) child_pid;
         (borrowed, bp) \<leftarrow>
           (if res_err right_pid_check = ErrNone
            then leaf_borrow_right os i pid child_pid (res_value right_pid_check) report bp
            else Some (None, bp));
         case borrowed of
           Some r \<Rightarrow> Some (r, bt\<lparr>bt_pool := bp\<rparr>)
         | None \<Rightarrow>
             if res_err left_pid_check = ErrNone
             then leaf_merge_left os junk i pid child_pid (res_value left_pid_check) report (bt\<lparr>bt_pool := bp\<rparr>)
             else if res_err right_pid_check = ErrNone
             then leaf_merge_right os junk i pid child_pid (res_value right_pid_check) report (bt\<lparr>bt_pool := bp\<rparr>)
             else fall_through pid (bt\<lparr>bt_pool := bp\<rparr>)
       }
   }"

section \<open>Repairing an internal page\<close>

definition internal_borrow_left :: "'d posix \<Rightarrow> nat \<Rightarrow> PageID \<Rightarrow> PageID \<Rightarrow> PageID \<Rightarrow> DeleteStatus \<Rightarrow> 'd BufferPool \<Rightarrow>
    (DeleteStatus option \<times> 'd BufferPool) option" where
  "internal_borrow_left os i pid child_pid lpid report bp = do {
     let needed = u16 (int INTERNAL_UNDERFLOW_THRESHOLD + 1 - int (current_size report));
     (l, bp) \<leftarrow> request_page os bp lpid;
     let borrow_query_report = InternalPage_CanLend (buffer_pool bp l) needed;
     if can_borrow borrow_query_report then do {
       (c, bp) \<leftarrow> request_page os bp child_pid;
       (page, child_page, lender_page) \<leftarrow>
         InternalPage_HandleLeftBorrow (buffer_pool bp i) (buffer_pool bp c) (buffer_pool bp l) borrow_query_report;
       let bp = write_frame (write_frame (write_frame bp i page) c child_page) l lender_page;
       let bp = release_page (release_page (release_page bp lpid True) child_pid True) pid True;
       Some (Some (done_report report), bp)
     }
     else Some (None, release_page bp lpid False)
   }"

definition internal_borrow_right :: "'d posix \<Rightarrow> nat \<Rightarrow> PageID \<Rightarrow> PageID \<Rightarrow> PageID \<Rightarrow> DeleteStatus \<Rightarrow> 'd BufferPool \<Rightarrow>
    (DeleteStatus option \<times> 'd BufferPool) option" where
  "internal_borrow_right os i pid child_pid rpid report bp = do {
     let needed = u16 (int INTERNAL_UNDERFLOW_THRESHOLD + 1 - int (current_size report));
     (l, bp) \<leftarrow> request_page os bp rpid;
     let borrow_query_report = InternalPage_CanLend (buffer_pool bp l) needed;
     if can_borrow borrow_query_report then do {
       (c, bp) \<leftarrow> request_page os bp child_pid;
       (page, child_page, lender_page) \<leftarrow>
         InternalPage_HandleRightBorrow (buffer_pool bp i) (buffer_pool bp c) (buffer_pool bp l) borrow_query_report;
       let bp = write_frame (write_frame (write_frame bp i page) c child_page) l lender_page;
       let bp = release_page (release_page (release_page bp rpid True) child_pid True) pid True;
       Some (Some (done_report report), bp)
     }
     else Some (None, release_page bp rpid False)
   }"

definition internal_merge_left :: "'d posix \<Rightarrow> nat \<Rightarrow> nat \<Rightarrow> PageID \<Rightarrow> PageID \<Rightarrow> PageID \<Rightarrow> DeleteStatus \<Rightarrow> 'd BTree \<Rightarrow>
    (DeleteStatus \<times> 'd BTree) option" where
  "internal_merge_left os junk i pid child_pid lpid report bt = do {
     (t, bp) \<leftarrow> request_page os (bt_pool bt) lpid;
     (f, bp) \<leftarrow> request_page os bp child_pid;
     (partition_key, page) \<leftarrow> DeletePartitionKeyAndChildPtr (buffer_pool bp i) lpid child_pid;
     let bp = write_frame bp i page;
     let bp = write_frame bp t (InternalPage_MergePages partition_key (buffer_pool bp t) (buffer_pool bp f));
     let bp = release_page (release_page (release_page bp lpid True) child_pid False) pid True;
     Some (merge_report junk page report, bt\<lparr>bt_pool := bp\<rparr>)
   }"

definition internal_merge_right :: "'d posix \<Rightarrow> nat \<Rightarrow> nat \<Rightarrow> PageID \<Rightarrow> PageID \<Rightarrow> PageID \<Rightarrow> DeleteStatus \<Rightarrow> 'd BTree \<Rightarrow>
    (DeleteStatus \<times> 'd BTree) option" where
  "internal_merge_right os junk i pid child_pid rpid report bt = do {
     (t, bp) \<leftarrow> request_page os (bt_pool bt) child_pid;
     (f, bp) \<leftarrow> request_page os bp rpid;
     (partition_key, page) \<leftarrow> DeletePartitionKeyAndChildPtr (buffer_pool bp i) child_pid rpid;
     let bp = write_frame bp i page;
     let bp = write_frame bp t (InternalPage_MergePages partition_key (buffer_pool bp t) (buffer_pool bp f));
     let bp = release_page (release_page (release_page bp child_pid True) rpid False) pid True;
     Some (merge_report junk page report, bt\<lparr>bt_pool := bp\<rparr>)
   }"

definition fix_internal_child :: "'d posix \<Rightarrow> nat \<Rightarrow> nat \<Rightarrow> PageID \<Rightarrow> PageID \<Rightarrow> DeleteStatus \<Rightarrow> 'd BTree \<Rightarrow>
    (DeleteStatus \<times> 'd BTree) option" where
  "fix_internal_child os junk i pid child_pid report bt = do {
     let page = buffer_pool (bt_pool bt) i;
     let left_pid_check = GetInternalLeftSibling page child_pid;
     (borrowed, bp) \<leftarrow>
       (if res_err left_pid_check = ErrNone
        then internal_borrow_left os i pid child_pid (res_value left_pid_check) report (bt_pool bt)
        else Some (None, bt_pool bt));
     case borrowed of
       Some r \<Rightarrow> Some (r, bt\<lparr>bt_pool := bp\<rparr>)
     | None \<Rightarrow> do {
         let right_pid_check = GetInternalRightSibling (buffer_pool bp i) child_pid;
         (borrowed, bp) \<leftarrow>
           (if res_err right_pid_check = ErrNone
            then internal_borrow_right os i pid child_pid (res_value right_pid_check) report bp
            else Some (None, bp));
         case borrowed of
           Some r \<Rightarrow> Some (r, bt\<lparr>bt_pool := bp\<rparr>)
         | None \<Rightarrow>
             if res_err left_pid_check = ErrNone
             then internal_merge_left os junk i pid child_pid (res_value left_pid_check) report (bt\<lparr>bt_pool := bp\<rparr>)
             else if res_err right_pid_check = ErrNone
             then internal_merge_right os junk i pid child_pid (res_value right_pid_check) report (bt\<lparr>bt_pool := bp\<rparr>)
             else fall_through pid (bt\<lparr>bt_pool := bp\<rparr>)
       }
   }"

section \<open>The descent\<close>

definition delete_in_leaf :: "nat \<Rightarrow> PageID \<Rightarrow> Key \<Rightarrow> 'd BTree \<Rightarrow> DeleteStatus \<times> 'd BTree" where
  "delete_in_leaf i pid key bt =
    (let (dirty, page) = LeafPage_DeleteTuple (buffer_pool (bt_pool bt) i) key;
         bp = write_frame (bt_pool bt) i page;
         freespace = u16 (int (CheckAvailableSpace page) + int (CheckGarbageBytes page));
         usedspace = u16 (int PAGE_SIZE - int LEAF_PAGE_HEADER_SIZE - int freespace)
     in (\<lparr>underflown = (usedspace \<le> LEAF_UNDERFLOW_THRESHOLD), ds_page_type = LeafPage,
          current_size = usedspace, success = dirty\<rparr>,
         bt\<lparr>bt_pool := release_page bp pid dirty\<rparr>))"

fun delete_from :: "'d posix \<Rightarrow> nat \<Rightarrow> nat \<Rightarrow> 'd BTree \<Rightarrow> PageID \<Rightarrow> Key \<Rightarrow> (DeleteStatus \<times> 'd BTree) option" where
  "delete_from os junk 0 bt pid key = None"
| "delete_from os junk (Suc fuel) bt pid key = do {
     (i, bp) \<leftarrow> request_page os (bt_pool bt) pid;
     let bt = bt\<lparr>bt_pool := bp\<rparr>;
     if page_type (buffer_pool bp i) = PageType_code InternalPage then do {
       let child_pid = GetChildPageID (buffer_pool bp i) key;
       (report, bt) \<leftarrow> delete_from os junk fuel bt child_pid key;
       if ds_page_type report = InvalidPage then Some (report, bt)
       else if ds_page_type report = LeafPage then
         (if underflown report then fix_leaf_child os junk i pid child_pid report bt
          else Some (done_report report, bt\<lparr>bt_pool := release_page (bt_pool bt) pid True\<rparr>))
       else
         (if underflown report then fix_internal_child os junk i pid child_pid report bt
          else Some (done_report report, bt\<lparr>bt_pool := release_page (bt_pool bt) pid True\<rparr>))
     }
     else Some (delete_in_leaf i pid key bt)
   }"

definition BTree_Delete :: "'d posix \<Rightarrow> nat \<Rightarrow> nat \<Rightarrow> 'd BTree \<Rightarrow> Key \<Rightarrow> (bool \<times> 'd BTree) option" where
  "BTree_Delete os junk fuel bt key = do {
     (delete_result, bt) \<leftarrow> delete_from os junk fuel bt (root_page_id bt) key;
     Some (success delete_result, bt)
   }"

end
