(* ===== verification/Tree_Repair.thy ===== *)
theory Tree_Repair
  imports Tree_Insert BTree_Delete
begin

text \<open>
  The repair of an underfull child. On the level of the keys and the children of a node it replaces
  two neighbours and the separator between them, by two that share their content in another way or
  by one; the sequence of all tuples stays, the bounds, the levels and the chain of the leaves too.
\<close>

section \<open>Pages that agree but for their left link\<close>

definition same_leaf :: "mem \<Rightarrow> mem \<Rightarrow> bool" where
  "same_leaf p q \<longleftrightarrow> leaf_wf p \<and> leaf_wf q \<and> tuples q = tuples p \<and> page_id q = page_id p \<and> right_pid q = right_pid p"

definition alike :: "mem \<Rightarrow> mem \<Rightarrow> bool" where
  "alike p q \<longleftrightarrow> q = p \<or> same_leaf p q"

lemma alike_refl [simp]: "alike p p"
  by (simp add: alike_def)

lemma alike_trans: "alike p q \<Longrightarrow> alike q r \<Longrightarrow> alike p r"
  by (auto simp: alike_def same_leaf_def)

lemma alike_right: "alike p q \<Longrightarrow> right_pid q = right_pid p"
  by (auto simp: alike_def same_leaf_def)

lemma alike_other: "alike p q \<Longrightarrow> page_type p \<noteq> PageType_code LeafPage \<Longrightarrow> q = p"
  by (auto simp: alike_def same_leaf_def leaf_wf_def)

lemma alike_internal: "alike p q \<Longrightarrow> internal_wf p \<Longrightarrow> q = p"
  by (rule alike_other) (simp_all add: internal_wf_def)

lemma alike_leaf: "alike p q \<Longrightarrow> leaf_wf p \<Longrightarrow> leaf_wf q"
  by (auto simp: alike_def same_leaf_def)

lemma alike_meta: "alike p q \<Longrightarrow> load_u32 p 0 = DATABASE_MAGIC_NUMBER \<Longrightarrow> q = p"
proof (rule alike_other)
  assume "load_u32 p 0 = DATABASE_MAGIC_NUMBER"
  moreover have "load_u32 p 0 = unat (p 0) + 256 * load_le p (Suc 0) 3"
    using load_le.simps(2) [of p 0 3] by (simp add: eval_nat_numeral)
  ultimately have "unat (p 0) + 256 * load_le p (Suc 0) 3 = 0x67AD7CB3" by (simp only: DATABASE_MAGIC_NUMBER_def)
  then have "unat (p 0) \<noteq> 3" by presburger
  then show "page_type p \<noteq> PageType_code LeafPage" by (simp add: load_u8_byte)
qed

lemma tree_at_alike: "tree_at V t \<Longrightarrow> (\<And>p. p \<in> set (tree_pages t) \<Longrightarrow> alike (V p) (V' p)) \<Longrightarrow> tree_at V' t"
proof (induction t)
  case (LeafT pid ts)
  then show ?case using LeafT.prems(2) [of pid] by (auto simp: alike_def same_leaf_def)
next
  case (NodeT pid ks cs)
  have "V' pid = V pid" using NodeT.prems by (intro alike_internal) simp_all
  moreover have "tree_at V' c" if "c \<in> set cs" for c
    using NodeT.IH [OF that] NodeT.prems that by auto
  ultimately show ?case using NodeT.prems(1) by simp
qed

lemma relinks_alike: "ps \<noteq> [] \<Longrightarrow> (\<And>p. p \<in> set ps \<Longrightarrow> alike (V p) (V' p)) \<Longrightarrow> relinks V V' ps ps"
  by (rule relinks_frame) (auto dest: alike_right)

lemma same_page_used: "leaf_wf p \<Longrightarrow> same_page p q \<Longrightarrow> used_space q = used_space p"
  by (simp add: used_space_def same_page_leaf(3) same_page_headers(3))

text \<open>A leaf as its image on a page, with everything the tree knows of it.\<close>

lemma image_leaf_facts:
  assumes "leaf_wf p"
  shows "leaf_wf (image p)" "tuples (image p) = tuples p" "page_id (image p) = page_id p"
    "right_pid (image p) = right_pid p" "used_space (image p) = used_space p"
  using same_page_leaf [OF assms same_page_image(1)] same_page_headers [OF same_page_image(1), of p]
    same_page_used [OF assms same_page_image(1)] by simp_all

lemma relinked_leaf:
  assumes "leaf_wf p" "same_page p q"
  shows "same_leaf p (image (set_left_pid q x))"
proof -
  note q = same_page_leaf [OF assms] same_page_headers [OF assms(2)]
  note s = store_link_keeps [OF q(1), of 15 x, simplified]
  show ?thesis
    unfolding same_leaf_def image_leaf_facts [OF s(1)] using assms(1) s q by (simp add: mem_simps image_leaf_facts)
qed

section \<open>Two neighbours and their separator\<close>

lemma forest_pair:
  assumes "length ks1 = length cs1" "length ks2 = length cs2"
  shows "forest_in lo hi (ks1 @ k # ks2) (cs1 @ l # r # cs2) \<longleftrightarrow> left_part lo ks1 cs1 \<and>
    lower lo ks1 < unat k \<and> tree_in (lower lo ks1) (unat k) l \<and>
    unat k < upper hi ks2 \<and> tree_in (unat k) (upper hi ks2) r \<and> right_part hi ks2 cs2"
  using forest_focus [of ks1 cs1 "k # ks2" "r # cs2" lo hi l] assms by simp

lemma forest_one:
  assumes "length ks1 = length cs1" "length ks2 = length cs2" "forest_in lo hi (ks1 @ k # ks2) (cs1 @ l # r # cs2)"
    and "tree_in (lower lo ks1) (upper hi ks2) m"
  shows "forest_in lo hi (ks1 @ ks2) (cs1 @ m # cs2)"
  using assms(3,4) unfolding forest_pair [OF assms(1,2)] forest_focus [OF assms(1,2)] by auto

text \<open>What a repair leaves of a node, its keys and children before and after being given.\<close>

definition node_at :: "(PageID \<Rightarrow> mem) \<Rightarrow> PageID \<Rightarrow> Key list \<Rightarrow> page_tree list \<Rightarrow> bool" where
  "node_at V pid ks cs \<longleftrightarrow> internal_wf (V pid) \<and> page_id (V pid) = pid \<and> keys (V pid) = ks \<and> children (V pid) = map root_of cs"

lemma tree_at_node: "tree_at V (NodeT pid ks cs) \<longleftrightarrow> node_at V pid ks cs \<and> (\<forall>c \<in> set cs. tree_at V c)"
  by (auto simp: node_at_def)

definition forest_pages :: "page_tree list \<Rightarrow> PageID list" where
  "forest_pages cs = concat (map tree_pages cs)"

definition forest_leaves :: "page_tree list \<Rightarrow> PageID list" where
  "forest_leaves cs = concat (map leaf_pids cs)"

definition forest_tuples :: "page_tree list \<Rightarrow> byte list list" where
  "forest_tuples cs = concat (map tree_tuples cs)"

lemma forest_simps [simp]:
  "forest_pages [] = []" "forest_pages (c # cs) = tree_pages c @ forest_pages cs"
  "forest_pages (as @ bs) = forest_pages as @ forest_pages bs"
  "forest_leaves [] = []" "forest_leaves (c # cs) = leaf_pids c @ forest_leaves cs"
  "forest_leaves (as @ bs) = forest_leaves as @ forest_leaves bs"
  "forest_tuples [] = []" "forest_tuples (c # cs) = tree_tuples c @ forest_tuples cs"
  "forest_tuples (as @ bs) = forest_tuples as @ forest_tuples bs"
  by (simp_all add: forest_pages_def forest_leaves_def forest_tuples_def)

lemma node_simps:
  "tree_pages (NodeT pid ks cs) = pid # forest_pages cs" "leaf_pids (NodeT pid ks cs) = forest_leaves cs"
  "tree_tuples (NodeT pid ks cs) = forest_tuples cs"
  by (simp_all add: forest_pages_def forest_leaves_def forest_tuples_def)

lemma forest_pages_in: "c \<in> set cs \<Longrightarrow> p \<in> set (tree_pages c) \<Longrightarrow> p \<in> set (forest_pages cs)"
  by (auto simp: forest_pages_def)

lemma forest_leaves_pages: "set (forest_leaves cs) \<subseteq> set (forest_pages cs)"
  using leaf_pids_pages by (fastforce simp: forest_leaves_def forest_pages_def)

definition node_fixed :: "(PageID \<Rightarrow> mem) \<Rightarrow> (PageID \<Rightarrow> mem) \<Rightarrow> nat \<Rightarrow> nat \<Rightarrow> PageID \<Rightarrow> page_tree list \<Rightarrow> Key list \<Rightarrow>
    page_tree list \<Rightarrow> bool" where
  "node_fixed V V' lo hi pid cs ks' cs' \<longleftrightarrow>
     tree_at V' (NodeT pid ks' cs') \<and> forest_in lo hi ks' cs' \<and> forest_tuples cs' = forest_tuples cs \<and>
     distinct (pid # forest_pages cs') \<and> set (forest_pages cs') \<subseteq> set (forest_pages cs) \<and>
     relinks V V' (forest_leaves cs) (forest_leaves cs') \<and>
     (\<forall>q. q \<noteq> pid \<longrightarrow> q \<notin> set (forest_pages cs) \<longrightarrow> alike (V q) (V' q))"

text \<open>Replacing two neighbours by the trees \<open>mid\<close>.\<close>

lemma node_fixed_pair:
  assumes old: "\<forall>d \<in> set cs1 \<union> set cs2. tree_at V d" and d: "distinct (pid # forest_pages (cs1 @ l # r # cs2))"
    and new: "node_at V' pid ks' (cs1 @ mid @ cs2)" "\<forall>d \<in> set mid. tree_at V' d" "forest_in lo hi ks' (cs1 @ mid @ cs2)"
    and ts: "forest_tuples mid = tree_tuples l @ tree_tuples r"
    and pg: "set (forest_pages mid) \<subseteq> set (tree_pages l) \<union> set (tree_pages r)" "distinct (forest_pages mid)"
    and lk: "relinks V V' (leaf_pids l @ leaf_pids r) (forest_leaves mid)"
    and fr: "\<forall>q. q \<noteq> pid \<longrightarrow> q \<notin> set (tree_pages l) \<longrightarrow> q \<notin> set (tree_pages r) \<longrightarrow> alike (V q) (V' q)"
  shows "node_fixed V V' lo hi pid (cs1 @ l # r # cs2) ks' (cs1 @ mid @ cs2)"
proof -
  have al: "alike (V q) (V' q)" if "q \<in> set (forest_pages cs1) \<union> set (forest_pages cs2)" for q
    using d that fr by auto
  have "tree_at V' c" if c: "c \<in> set cs1 \<union> set cs2" for c
  proof (rule tree_at_alike)
    show "tree_at V c" using old c by blast
    show "alike (V p) (V' p)" if "p \<in> set (tree_pages c)" for p
      using c that forest_pages_in by (intro al) blast
  qed
  then have "tree_at V' (NodeT pid ks' (cs1 @ mid @ cs2))" using new unfolding tree_at_node by auto
  moreover have "relinks V V' (forest_leaves cs1 @ (leaf_pids l @ leaf_pids r) @ forest_leaves cs2)
      (forest_leaves cs1 @ forest_leaves mid @ forest_leaves cs2)"
  proof (rule relinks_middle [OF lk])
    show "right_pid (V' p) = right_pid (V p)" if "p \<in> set (forest_leaves cs1) \<union> set (forest_leaves cs2)" for p
      using that forest_leaves_pages by (intro alike_right al) blast
  qed
  moreover have "distinct (pid # forest_pages (cs1 @ mid @ cs2))" using d pg by auto
  moreover have "set (forest_pages (cs1 @ mid @ cs2)) \<subseteq> set (forest_pages (cs1 @ l # r # cs2))" using pg by auto
  moreover have "\<forall>q. q \<noteq> pid \<longrightarrow> q \<notin> set (forest_pages (cs1 @ l # r # cs2)) \<longrightarrow> alike (V q) (V' q)" using fr by simp
  ultimately show ?thesis using new(3) ts unfolding node_fixed_def by simp
qed

text \<open>What a repair is given: a node in good order with two neighbours among its children.\<close>

lemma roots_distinct: "distinct (forest_pages cs) \<Longrightarrow> distinct (map root_of cs)"
proof (induction cs)
  case (Cons c cs)
  have "root_of c \<notin> set (map root_of cs)"
  proof
    assume "root_of c \<in> set (map root_of cs)"
    then obtain d where "d \<in> set cs" "root_of c = root_of d" by auto
    then have "root_of c \<in> set (forest_pages cs)" using forest_pages_in [OF _ root_in_pages] by metis
    moreover have "set (tree_pages c) \<inter> set (forest_pages cs) = {}" using Cons.prems by simp
    ultimately show False using root_in_pages [of c] by blast
  qed
  then show ?case using Cons by simp
qed simp

definition pair_at :: "PageID set \<Rightarrow> (PageID \<Rightarrow> mem) \<Rightarrow> PageID \<Rightarrow> nat \<Rightarrow> nat \<Rightarrow> PageID \<Rightarrow> Key list \<Rightarrow> Key \<Rightarrow> Key list \<Rightarrow>
    page_tree list \<Rightarrow> page_tree \<Rightarrow> page_tree \<Rightarrow> page_tree list \<Rightarrow> bool" where
  "pair_at D V n lo hi pid ks1 k ks2 cs1 l r cs2 \<longleftrightarrow>
     length ks1 = length cs1 \<and> length ks2 = length cs2 \<and> tree_at V (NodeT pid (ks1 @ k # ks2) (cs1 @ l # r # cs2)) \<and>
     forest_in lo hi (ks1 @ k # ks2) (cs1 @ l # r # cs2) \<and> distinct (pid # forest_pages (cs1 @ l # r # cs2)) \<and>
     (\<forall>p \<in> set (pid # forest_pages (cs1 @ l # r # cs2)). p \<noteq> 0 \<and> p < n \<and> p \<notin> D)"

lemma pair_atD:
  assumes "pair_at D V n lo hi pid ks1 k ks2 cs1 l r cs2"
  shows "length ks1 = length cs1" "length ks2 = length cs2" "node_at V pid (ks1 @ k # ks2) (cs1 @ l # r # cs2)"
    "\<forall>d \<in> set cs1 \<union> set cs2. tree_at V d" "tree_at V l" "tree_at V r"
    "left_part lo ks1 cs1" "right_part hi ks2 cs2" "lower lo ks1 < unat k" "unat k < upper hi ks2"
    "tree_in (lower lo ks1) (unat k) l" "tree_in (unat k) (upper hi ks2) r"
    "distinct (pid # forest_pages (cs1 @ l # r # cs2))" "forest_in lo hi (ks1 @ k # ks2) (cs1 @ l # r # cs2)"
    "p \<in> set (pid # forest_pages (cs1 @ l # r # cs2)) \<Longrightarrow> p \<noteq> 0 \<and> p < n \<and> p \<notin> D"
proof -
  note a = assms [unfolded pair_at_def tree_at_node]
  show l: "length ks1 = length cs1" "length ks2 = length cs2" using a by simp_all
  show "left_part lo ks1 cs1" "right_part hi ks2 cs2" "lower lo ks1 < unat k" "unat k < upper hi ks2"
    "tree_in (lower lo ks1) (unat k) l" "tree_in (unat k) (upper hi ks2) r"
    using a forest_pair [OF l] by simp_all
  show "node_at V pid (ks1 @ k # ks2) (cs1 @ l # r # cs2)" "\<forall>d \<in> set cs1 \<union> set cs2. tree_at V d"
    "tree_at V l" "tree_at V r" "distinct (pid # forest_pages (cs1 @ l # r # cs2))"
    "forest_in lo hi (ks1 @ k # ks2) (cs1 @ l # r # cs2)"
    using a by auto
  show "p \<in> set (pid # forest_pages (cs1 @ l # r # cs2)) \<Longrightarrow> p \<noteq> 0 \<and> p < n \<and> p \<notin> D"
    using a by blast
qed

lemma pair_separator:
  assumes p: "pair_at D V n lo hi pid ks1 k ks2 cs1 l r cs2" and s: "same_page (V pid) q"
  shows "internal_wf q" "keys q = ks1 @ k # ks2" "children q = map root_of (cs1 @ l # r # cs2)" "page_id q = pid"
    "separator q (length ks1) (root_of l) (root_of r)"
proof -
  note d = pair_atD [OF p]
  have n: "internal_wf (V pid)" "page_id (V pid) = pid" "keys (V pid) = ks1 @ k # ks2"
    "children (V pid) = map root_of (cs1 @ l # r # cs2)" using d(3) by (simp_all add: node_at_def)
  note i = same_page_internal [OF n(1) s]
  show wf: "internal_wf q" by (rule i(1))
  show kc: "keys q = ks1 @ k # ks2" "children q = map root_of (cs1 @ l # r # cs2)" using i(2,3) n(3,4) by simp_all
  show "page_id q = pid" using n(2) same_page_headers(2) [OF s] by simp
  have "distinct (children q)" unfolding kc using d(13) by (intro roots_distinct) simp
  moreover have "length ks1 < num_keys q" using arg_cong [OF kc(1), of length] by simp
  ultimately show "separator q (length ks1) (root_of l) (root_of r)"
    using d(1) by (simp add: separator_def kc nth_append)
qed

lemma set_separator_node:
  assumes p: "pair_at D V n lo hi pid ks1 k ks2 cs1 l r cs2" and s: "same_page (V pid) q"
    and f: "forest_in lo hi (ks1 @ x # ks2) cs" and r: "map root_of cs = map root_of (cs1 @ l # r # cs2)"
  shows "node_at (V'(pid := image (SetNewBoundaryKey q x (root_of l) (root_of r)))) pid (ks1 @ x # ks2) cs"
proof -
  note sep = pair_separator [OF p s]
  note v = SetNewBoundaryKey_views [OF sep(1,5) refl, of x]
  have k: "keys (SetNewBoundaryKey q x (root_of l) (root_of r)) = ks1 @ x # ks2" using v(1) sep(2) by simp
  have "internal_wf (SetNewBoundaryKey q x (root_of l) (root_of r))"
    unfolding internal_wf_def k v(3,4) using forest_sorted [OF f] sep(1) by (simp add: internal_wf_def)
  then show ?thesis using image_internal k v(2,5) sep(3,4) r by (simp add: node_at_def)
qed

lemma remove_separator_node:
  assumes p: "pair_at D V n lo hi pid ks1 k ks2 cs1 l r cs2" and s: "same_page (V pid) q"
    and q': "keys q' = delete_at (length ks1) (keys q)" "children q' = delete_at (Suc (length ks1)) (children q)"
      "num_keys q' = num_keys q - 1" "ip_type q' = ip_type q" "ip_id q' = ip_id q"
    and m: "root_of m = root_of l"
  shows "node_at (V'(pid := image q')) pid (ks1 @ ks2) (cs1 @ m # cs2)" "num_keys q' = length (ks1 @ ks2)" "internal_wf q'"
proof -
  note sep = pair_separator [OF p s]
  have l: "length ks1 = length cs1" by (rule pair_atD(1) [OF p])
  have k: "keys q' = ks1 @ ks2" "children q' = map root_of (cs1 @ m # cs2)"
    using q'(1,2) m l unfolding sep(2,3) by (simp_all add: delete_at_def)
  show wf: "internal_wf q'" by (rule internal_wf_smaller [OF sep(1) q'(4,3,1)])
  then show "node_at (V'(pid := image q')) pid (ks1 @ ks2) (cs1 @ m # cs2)"
    using image_internal [OF wf] k q'(5) sep(4) by (simp add: node_at_def)
  show "num_keys q' = length (ks1 @ ks2)" using arg_cong [OF k(1), of length] by simp
qed

text \<open>The page a link leads to: none, or a living leaf that is not among \<open>ps\<close>.\<close>

definition link_ok :: "PageID set \<Rightarrow> (PageID \<Rightarrow> mem) \<Rightarrow> PageID \<Rightarrow> PageID list \<Rightarrow> PageID \<Rightarrow> bool" where
  "link_ok D V n ps e \<longleftrightarrow> e = 0 \<or> e < n \<and> e \<notin> D \<and> leaf_wf (V e) \<and> e \<notin> set ps"

text \<open>Two leaves: with the tuples cut at another place the separator is the first key of the right one.\<close>

lemma leaf_pair_moved:
  assumes p: "pair_at D V n lo hi pid ks1 k ks2 cs1 (LeafT lp lts) (LeafT rp rts) cs2"
    and ts: "lts' @ rts' = lts @ rts" "lts' \<noteq> []" "rts' \<noteq> []" and k': "k' = tuple_key (hd rts')"
  shows "forest_in lo hi (ks1 @ k' # ks2) (cs1 @ LeafT lp lts' # LeafT rp rts' # cs2)"
proof -
  note d = pair_atD [OF p]
  let ?a = "lower lo ks1" and ?b = "upper hi ks2"
  have "ordered ?a ?b (lts @ rts)"
    using ordered_append [of ?a "unat k" lts ?b rts] d(9-12) by (simp add: ordered_def)
  then have o: "ordered ?a ?b (lts' @ rts')" by (simp only: ts)
  obtain u us v vs where uv: "lts' = u # us" "rts' = v # vs" using ts(2,3) by (metis neq_Nil_conv)
  have "?a < unat k'" "unat k' < ?b" "tree_in ?a (unat k') (LeafT lp lts')" "tree_in (unat k') ?b (LeafT rp rts')"
    using o unfolding k' uv by (auto simp: ordered_def key_in_def sorted_wrt_append word_less_nat_alt intro: less_imp_le)
  then show ?thesis unfolding forest_pair [OF d(1,2)] using d(7,8) by simp
qed

lemma leaf_pair_joined:
  assumes p: "pair_at D V n lo hi pid ks1 k ks2 cs1 (LeafT lp lts) (LeafT rp rts) cs2"
  shows "forest_in lo hi (ks1 @ ks2) (cs1 @ LeafT m (lts @ rts) # cs2)"
proof -
  note d = pair_atD [OF p]
  have "ordered (lower lo ks1) (upper hi ks2) (lts @ rts)"
    using ordered_append [of "lower lo ks1" "unat k" lts "upper hi ks2" rts] d(9-12) by (simp add: ordered_def)
  then show ?thesis
    by (intro forest_one [OF d(1,2,14)]) (simp add: ordered_def)
qed

lemma leaf_pair_sorted:
  assumes p: "pair_at D V n lo hi pid ks1 k ks2 cs1 (LeafT lp lts) (LeafT rp rts) cs2"
  shows "sorted_wrt (<) (map tuple_key (lts @ rts))"
  using leaf_pair_joined [OF p, of 0] pair_atD(1,2) [OF p] by (simp add: forest_focus)

text \<open>
  What an attempt to borrow leaves. Without a report the pool is as before, the node still pinned,
  and \<open>Q\<close> holds; with one, the node is fixed and released, and no child is underfull any more.
\<close>

definition tried :: "('d \<Rightarrow> nat \<Rightarrow> byte) \<Rightarrow> ('d \<Rightarrow> nat) \<Rightarrow> PageID set \<Rightarrow> PageID multiset \<Rightarrow> (PageID \<Rightarrow> nat) \<Rightarrow> (PageID \<Rightarrow> mem) \<Rightarrow>
    PageID \<Rightarrow> nat \<Rightarrow> nat \<Rightarrow> PageID \<Rightarrow> nat \<Rightarrow> Key list \<Rightarrow> page_tree list \<Rightarrow> DeleteStatus \<Rightarrow> bool \<Rightarrow>
    DeleteStatus option \<Rightarrow> 'd BufferPool \<Rightarrow> bool" where
  "tried fb fs D P F V n lo hi pid h ks cs rep Q out bp' \<longleftrightarrow>
     (case out of
        None \<Rightarrow> Q \<and> (\<exists>F'. cache fb fs D (add_mset pid P) {} F' V n bp' \<and> (\<forall>q \<in># add_mset pid P. F' q = F q))
      | Some r \<Rightarrow> r = done_report rep \<and> (\<exists>F' V' ks' cs'. cache fb fs D P {} F' V' n bp' \<and> (\<forall>q \<in># P. F' q = F q) \<and>
          node_fixed V V' lo hi pid cs ks' cs' \<and> length ks' = length ks \<and> (\<forall>d \<in> set cs'. level h d \<and> filled d)))"

lemma tried_done:
  assumes "cache fb fs D P {} F' V' n bp'" "\<forall>q \<in># P. F' q = F q"
    and "\<exists>ks' cs'. node_fixed V V' lo hi pid cs ks' cs' \<and> length ks' = length ks \<and> (\<forall>d \<in> set cs'. level h d \<and> filled d)"
  shows "tried fb fs D P F V n lo hi pid h ks cs rep Q (Some (done_report rep)) bp'"
  using assms unfolding tried_def option.case by blast

section \<open>A node and two of its children in the pool\<close>

context regular_file begin

text \<open>Three pages are written and released.\<close>

lemma write_three:
  assumes c: "cache file_byte file_size D (add_mset b (add_mset a (add_mset pid P))) {} F V n bp"
    and ne: "pid \<noteq> a" "pid \<noteq> b" "a \<noteq> b"
  shows "cache file_byte file_size D P {} F (V(pid := image pg, b := image B, a := image A)) n
    (release_page (release_page (release_page (write_frame (write_frame (write_frame bp (F pid) pg) (F b) B) (F a) A)
      a True) b True) pid True)"
proof -
  let ?P = "add_mset b (add_mset a (add_mset pid P))"
  have "cache file_byte file_size D ?P {a, b, pid} F (V(pid := image pg, b := image B, a := image A)) n
      (write_frame (write_frame (write_frame bp (F pid) pg) (F b) B) (F a) A)"
    using cache_write [OF cache_write [OF cache_write [OF c, of pid pg], of b B], of a A] by simp
  from cache_release [OF cache_release [OF cache_release [OF this, of a True], of b True], of pid True]
  show ?thesis using ne by (simp add: insert_Diff_if add_mset_commute)
qed

text \<open>Two further pages are requested beside the node.\<close>

lemma two_requests:
  assumes c: "cache file_byte file_size D (add_mset pid P) {} F V n bp" and few: "size P < 990"
    and ne: "pid \<noteq> a" "pid \<noteq> b" "a \<noteq> b" and a: "a \<noteq> 0 \<and> a < n \<and> a \<notin> D" and b: "b \<noteq> 0 \<and> b < n \<and> b \<notin> D"
  obtains i bp1 j bp2 F1 F2 where
    "request_page os bp a = Some (i, bp1)" "cache file_byte file_size D (add_mset a (add_mset pid P)) {} F1 V n bp1"
    "F1 a = i" "\<forall>x \<in># add_mset pid P. F1 x = F x"
    "request_page os bp1 b = Some (j, bp2)" "cache file_byte file_size D (add_mset b (add_mset a (add_mset pid P))) {} F2 V n bp2"
    "F2 a = i" "F2 b = j" "F2 pid = F pid" "\<forall>x \<in># P. F2 x = F x"
    "same_page (V a) (buffer_pool bp1 i)" "same_page (V pid) (buffer_pool bp2 (F pid))"
    "same_page (V a) (buffer_pool bp2 i)" "same_page (V b) (buffer_pool bp2 j)"
proof -
  have s1: "size (add_mset pid P) < 1000" "size (add_mset a (add_mset pid P)) < 1000" using few by simp_all
  from cache_request [OF c s1(1)] a obtain i bp1 where
    i: "request_page os bp a = Some (i, bp1)" "cache file_byte file_size D (add_mset a (add_mset pid P)) {} (F(a := i)) V n bp1"
      "a \<in># add_mset pid P \<longrightarrow> i = F a" by blast
  from cache_request [OF i(2) s1(2)] b obtain j bp2 where
    j: "request_page os bp1 b = Some (j, bp2)"
      "cache file_byte file_size D (add_mset b (add_mset a (add_mset pid P))) {} (F(a := i, b := j)) V n bp2"
      "b \<in># add_mset a (add_mset pid P) \<longrightarrow> j = (F(a := i)) b" by blast
  have F: "\<forall>x \<in># add_mset pid P. (F(a := i)) x = F x" "(F(a := i, b := j)) pid = F pid" "\<forall>x \<in># P. (F(a := i, b := j)) x = F x"
    "(F(a := i)) a = i" "(F(a := i, b := j)) a = i" "(F(a := i, b := j)) b = j"
    using i(3) j(3) ne by auto
  have "same_page (V a) (buffer_pool bp1 i)" "same_page (V pid) (buffer_pool bp2 (F pid))"
    "same_page (V a) (buffer_pool bp2 i)" "same_page (V b) (buffer_pool bp2 j)"
    using same_page_sym [OF cache_frame [OF i(2), of a]] same_page_sym [OF cache_frame [OF j(2), of pid]]
      same_page_sym [OF cache_frame [OF j(2), of a]] same_page_sym [OF cache_frame [OF j(2), of b]] F(2,4-6) by simp_all
  then show thesis using that [OF i(1,2) F(4,1) j(1,2) F(5,6,2,3)] by blast
qed

text \<open>The same in the order of the leaves, where the node is computed last.\<close>

lemma write_children_node:
  assumes c: "cache file_byte file_size D (add_mset b (add_mset a (add_mset pid P))) {} F V n bp"
    and ne: "pid \<noteq> a" "pid \<noteq> b" "a \<noteq> b"
  shows "same_page (V pid) (buffer_pool (write_frame (write_frame bp (F b) B) (F a) A) (F pid))"
    "cache file_byte file_size D P {} F (V(b := image B, a := image A, pid := image pg)) n
      (release_page (release_page (release_page (write_frame (write_frame (write_frame bp (F b) B) (F a) A) (F pid) pg)
        b True) a True) pid True)"
proof -
  let ?P = "add_mset b (add_mset a (add_mset pid P))"
  have c2: "cache file_byte file_size D ?P {a, b} F (V(b := image B, a := image A)) n (write_frame (write_frame bp (F b) B) (F a) A)"
    using cache_write [OF cache_write [OF c, of b B], of a A] by simp
  show "same_page (V pid) (buffer_pool (write_frame (write_frame bp (F b) B) (F a) A) (F pid))"
    using same_page_sym [OF cache_frame [OF c2, of pid]] ne by simp
  have "cache file_byte file_size D ?P {pid, a, b} F (V(b := image B, a := image A, pid := image pg)) n
      (write_frame (write_frame (write_frame bp (F b) B) (F a) A) (F pid) pg)"
    using cache_write [OF c2, of pid pg] by simp
  from cache_release [OF cache_release [OF cache_release [OF this, of b True], of a True], of pid True]
  show "cache file_byte file_size D P {} F (V(b := image B, a := image A, pid := image pg)) n
      (release_page (release_page (release_page (write_frame (write_frame (write_frame bp (F b) B) (F a) A) (F pid) pg)
        b True) a True) pid True)"
    using ne by (simp add: insert_Diff_if add_mset_commute)
qed

end

end
