(* ===== verification/Leaf_Repair.thy ===== *)
theory Leaf_Repair
  imports Tree_Repair Tree_Write
begin

text \<open>The repair of an underfull leaf, through the buffer pool: borrowing and merging.\<close>

lemma leaf_node:
  "tree_at V (LeafT pid ts) \<longleftrightarrow> leaf_wf (V pid) \<and> page_id (V pid) = pid \<and> tuples (V pid) = ts"
  by simp

text \<open>The lack of an underfull leaf as the code computes it.\<close>

lemma leaf_needed: "u \<le> 1626 \<Longrightarrow> u16 (1627 - int u) = 1627 - u"
  by (simp add: nat_diff_distrib)

text \<open>The pages after tuples moved between two leaves.\<close>

definition leaf_image :: "mem \<Rightarrow> mem \<Rightarrow> bool" where
  "leaf_image p q \<longleftrightarrow> leaf_wf q \<and> page_id q = page_id p \<and> right_pid q = right_pid p"

lemma leaf_imageI: "same_page p p' \<Longrightarrow> same_links p' q \<Longrightarrow> leaf_wf q \<Longrightarrow> leaf_image p q"
  using same_page_headers [of p p'] by (simp add: leaf_image_def same_links_def)

lemma leaf_pair_borrowed:
  assumes p: "pair_at D V n lo hi pid ks1 k ks2 cs1 (LeafT lp lts) (LeafT rp rts) cs2"
    and l: "leaf_image (V lp) l" and r: "leaf_image (V rp) r"
    and ts: "tuples l @ tuples r = lts @ rts" "tuples l \<noteq> []" "tuples r \<noteq> []"
    and V': "V' lp = image l" "V' rp = image r" "V' pid = image (SetNewBoundaryKey q (tuple_key (hd (tuples r))) lp rp)"
      "\<And>x. x \<notin> {pid, lp, rp} \<Longrightarrow> V' x = V x"
    and sp: "same_page (V pid) q"
  shows "node_fixed V V' lo hi pid (cs1 @ LeafT lp lts # LeafT rp rts # cs2) (ks1 @ tuple_key (hd (tuples r)) # ks2)
    (cs1 @ [LeafT lp (tuples l), LeafT rp (tuples r)] @ cs2)"
proof -
  note d = pair_atD [OF p]
  have ne: "pid \<noteq> lp" "pid \<noteq> rp" "lp \<noteq> rp" using d(13) by auto
  have id: "page_id (V lp) = lp" "page_id (V rp) = rp" using d(5,6) by simp_all
  note li = l [unfolded leaf_image_def] and ri = r [unfolded leaf_image_def]
  have f: "forest_in lo hi (ks1 @ tuple_key (hd (tuples r)) # ks2) (cs1 @ [LeafT lp (tuples l), LeafT rp (tuples r)] @ cs2)"
    using leaf_pair_moved [OF p ts refl] by simp
  show ?thesis
  proof (rule node_fixed_pair [OF d(4,13) _ _ f])
    show "node_at V' pid (ks1 @ tuple_key (hd (tuples r)) # ks2) (cs1 @ [LeafT lp (tuples l), LeafT rp (tuples r)] @ cs2)"
      using set_separator_node [OF p sp f, of V'] V'(3) by (simp add: node_at_def)
    show "\<forall>d \<in> set [LeafT lp (tuples l), LeafT rp (tuples r)]. tree_at V' d"
      using image_leaf_facts [of l] image_leaf_facts [of r] li ri id V'(1,2) by simp
    show "relinks V V' (leaf_pids (LeafT lp lts) @ leaf_pids (LeafT rp rts)) (forest_leaves [LeafT lp (tuples l), LeafT rp (tuples r)])"
      using image_leaf_facts(4) [of l] image_leaf_facts(4) [of r] li ri V'(1,2) by (auto intro!: relinks_frame)
  qed (use ts V'(4) ne in auto)
qed

text \<open>The pages after the right leaf went into the left one.\<close>

lemma leaf_pair_merged:
  assumes p: "pair_at D V n lo hi pid ks1 k ks2 cs1 (LeafT lp lts) (LeafT rp rts) cs2"
    and m: "leaf_wf m" "page_id m = lp" "tuples m = lts @ rts" "right_pid m = right_pid (V rp)"
    and V': "V' lp = image m" "\<And>x. x \<notin> {pid, lp, rp} \<Longrightarrow> alike (V x) (V' x)"
    and nd: "node_at V' pid (ks1 @ ks2) (cs1 @ LeafT lp (lts @ rts) # cs2)"
  shows "node_fixed V V' lo hi pid (cs1 @ LeafT lp lts # LeafT rp rts # cs2) (ks1 @ ks2) (cs1 @ [LeafT lp (lts @ rts)] @ cs2)"
proof -
  note d = pair_atD [OF p]
  have f: "forest_in lo hi (ks1 @ ks2) (cs1 @ [LeafT lp (lts @ rts)] @ cs2)" using leaf_pair_joined [OF p, of lp] by simp
  show ?thesis
  proof (rule node_fixed_pair [OF d(4,13) _ _ f])
    show "node_at V' pid (ks1 @ ks2) (cs1 @ [LeafT lp (lts @ rts)] @ cs2)" using nd by simp
    show "\<forall>d \<in> set [LeafT lp (lts @ rts)]. tree_at V' d" using image_leaf_facts [OF m(1)] m V'(1) by simp
    show "relinks V V' (leaf_pids (LeafT lp lts) @ leaf_pids (LeafT rp rts)) (forest_leaves [LeafT lp (lts @ rts)])"
      using image_leaf_facts(4) [OF m(1)] m(4) V'(1) by (simp add: relinks_def linked_def)
  qed (use V'(2) in auto)
qed

text \<open>What a merge of leaves leaves; the second case is a root that lost its last key.\<close>

definition leaf_merged :: "('d \<Rightarrow> nat \<Rightarrow> byte) \<Rightarrow> ('d \<Rightarrow> nat) \<Rightarrow> PageID set \<Rightarrow> PageID multiset \<Rightarrow> (PageID \<Rightarrow> nat) \<Rightarrow>
    (PageID \<Rightarrow> mem) \<Rightarrow> PageID \<Rightarrow> nat \<Rightarrow> nat \<Rightarrow> PageID \<Rightarrow> Key list \<Rightarrow> page_tree list \<Rightarrow> DeleteStatus \<Rightarrow> PageID \<Rightarrow>
    DeleteStatus \<Rightarrow> 'd BTree \<Rightarrow> bool" where
  "leaf_merged fb fs D P F V n lo hi pid ks cs rep root r bt' \<longleftrightarrow>
     (\<exists>F' V' ks' cs'. node_fixed V V' lo hi pid cs ks' cs' \<and> Suc (length ks') = length ks \<and>
        (\<forall>d \<in> set cs'. level 0 d \<and> filled d) \<and> (\<forall>q \<in># P. F' q = F q) \<and>
        (if pid = root \<and> ks' = []
         then r = root_replaced rep \<and> (\<exists>m c. cs' = [c] \<and> root_page_id bt' = root_of c \<and>
                cache fb fs (insert pid D) P {} F' (V'(1 := m)) n (bt_pool bt') \<and> meta_ok (V'(1 := m)) (root_of c))
         else r = \<lparr>underflown = (length ks' \<le> 126), ds_page_type = InternalPage, current_size = 16 * length ks' + 8,
                success = success rep\<rparr> \<and>
              cache fb fs D P {} F' V' n (bt_pool bt') \<and> root_page_id bt' = root))"

text \<open>The root is requested first and holds the only pin; the meta page is another page.\<close>

definition root_pin :: "PageID set \<Rightarrow> (PageID \<Rightarrow> mem) \<Rightarrow> PageID \<Rightarrow> PageID multiset \<Rightarrow> PageID list \<Rightarrow> bool" where
  "root_pin D V n P ps \<longleftrightarrow> P = {#} \<and> 1 < n \<and> 1 \<notin> D \<and> 1 \<notin> set ps \<and>
     load_u32 (V DATABASE_META_PAGE_ID) 0 = DATABASE_MAGIC_NUMBER"

text \<open>
  The loans between two leaves, on the pages alone: what a refusal says of the used space, and
  what a granted loan makes of the two pages.
\<close>

definition loan_done :: "mem \<Rightarrow> mem \<Rightarrow> byte list list \<Rightarrow> mem \<Rightarrow> mem \<Rightarrow> bool" where
  "loan_done l r ts l' r' \<longleftrightarrow>
     leaf_image l l' \<and> leaf_image r r' \<and> tuples l' @ tuples r' = ts \<and> tuples l' \<noteq> [] \<and> tuples r' \<noteq> []"

lemma left_loan:
  assumes p: "pair_at D V n lo hi pid ks1 k ks2 cs1 (LeafT lp lts) (LeafT rp rts) cs2" and u: "used_space (V rp) \<le> 1626"
    and s0: "same_page (V lp) L0" and q: "q = LeafPage_CanLendFromRight L0 (1627 - used_space (V rp))"
  shows "\<not> can_borrow q \<Longrightarrow> used_space (V lp) + used_space (V rp) \<le> 4065"
    "can_borrow q \<Longrightarrow> same_page (V lp) L \<Longrightarrow> same_page (V rp) B \<Longrightarrow> \<exists>B' L'.
      LeafPage_HandleLeftBorrow B L q = Some (tuple_key (hd (tuples B')), B', L') \<and> loan_done (V lp) (V rp) (lts @ rts) L' B'"
proof -
  note d = pair_atD [OF p]
  have lv: "leaf_wf (V lp)" "tuples (V lp) = lts" "leaf_wf (V rp)" "tuples (V rp) = rts" using d(5,6) by simp_all
  note l0 = same_page_leaf [OF lv(1) s0]
  have pos: "0 < 1627 - used_space (V rp)" using u by simp
  have ask: "lend_report L0 (1627 - used_space (V rp)) (rev (live (slots L0))) q"
    unfolding q by (rule CanLendFromRight_report [OF l0(1) pos])
  show "used_space (V lp) + used_space (V rp) \<le> 4065" if "\<not> can_borrow q"
    using refused_lend_fits [OF ask that u] same_page_used [OF lv(1) s0] by simp
  assume can: "can_borrow q" and sL: "same_page (V lp) L" and sB: "same_page (V rp) B"
  note L = same_page_leaf [OF lv(1) sL] and B = same_page_leaf [OF lv(3) sB]
  have sl: "slots L0 = slots L" using l0(3) L(3) by simp
  have am: "borrow_amount q \<le> length (tuples L)" "0 < borrow_amount q"
    using ask can by (simp_all add: lend_report_def tuples_def sl)
  have room: "used_space B + entries (take (borrow_amount q) (rev (live (slots L)))) \<le> 4065"
    using granted_lend_fits(1) [OF ask can u] same_page_used [OF lv(3) sB] by (simp add: sl)
  have st: "sorted_wrt (<) (map tuple_key (tuples L @ tuples B))"
    using leaf_pair_sorted [OF p] L(2) B(2) lv by simp
  from HandleLeftBorrow_correct [OF B(1) L(1) am(1) st am(2) room] obtain B' L' where
    h: "LeafPage_HandleLeftBorrow B L q = Some (tuple_key (hd (tuples B')), B', L')" "leaf_wf B'" "leaf_wf L'" "same_links B B'"
      "same_links L L'" "tuples L' @ tuples B' = lts @ rts" "length (tuples B') = length rts + borrow_amount q"
    using L(2) B(2) lv by auto
  have "borrow_amount q < length lts" using lend_leaves_one [OF ask can l0(1)] l0(2) lv by simp
  moreover have "length (tuples L') + length (tuples B') = length lts + length rts"
    using arg_cong [OF h(6), of length] by simp
  ultimately have "tuples L' \<noteq> []" "tuples B' \<noteq> []" using h(7) am(2) by auto
  then show "\<exists>B' L'. LeafPage_HandleLeftBorrow B L q = Some (tuple_key (hd (tuples B')), B', L') \<and>
      loan_done (V lp) (V rp) (lts @ rts) L' B'"
    using h leaf_imageI [OF sL h(5,3)] leaf_imageI [OF sB h(4,2)] by (auto simp: loan_done_def)
qed

lemma right_loan:
  assumes p: "pair_at D V n lo hi pid ks1 k ks2 cs1 (LeafT lp lts) (LeafT rp rts) cs2" and u: "used_space (V lp) \<le> 1626"
    and s0: "same_page (V rp) L0" and q: "q = LeafPage_CanLendFromLeft L0 (1627 - used_space (V lp))"
  shows "\<not> can_borrow q \<Longrightarrow> used_space (V lp) + used_space (V rp) \<le> 4065"
    "can_borrow q \<Longrightarrow> same_page (V rp) L \<Longrightarrow> same_page (V lp) B \<Longrightarrow> \<exists>B' L'.
      LeafPage_HandleRightBorrow B L q = Some (tuple_key (hd (tuples L')), B', L') \<and> loan_done (V lp) (V rp) (lts @ rts) B' L'"
proof -
  note d = pair_atD [OF p]
  have lv: "leaf_wf (V lp)" "tuples (V lp) = lts" "leaf_wf (V rp)" "tuples (V rp) = rts" using d(5,6) by simp_all
  note l0 = same_page_leaf [OF lv(3) s0]
  have pos: "0 < 1627 - used_space (V lp)" using u by simp
  have ask: "lend_report L0 (1627 - used_space (V lp)) (live (slots L0)) q"
    unfolding q by (rule CanLendFromLeft_report [OF l0(1) pos])
  show "used_space (V lp) + used_space (V rp) \<le> 4065" if "\<not> can_borrow q"
    using refused_lend_fits [OF ask that u] same_page_used [OF lv(3) s0] by simp
  assume can: "can_borrow q" and sL: "same_page (V rp) L" and sB: "same_page (V lp) B"
  note L = same_page_leaf [OF lv(3) sL] and B = same_page_leaf [OF lv(1) sB]
  have sl: "slots L0 = slots L" using l0(3) L(3) by simp
  have am: "borrow_amount q < length (tuples L)" "0 < borrow_amount q"
    using lend_leaves_one [OF ask can l0(1)] ask can l0(2) L(2) by (simp_all add: lend_report_def)
  have room: "used_space B + entries (take (borrow_amount q) (live (slots L))) \<le> 4065"
    using granted_lend_fits(1) [OF ask can u] same_page_used [OF lv(1) sB] by (simp add: sl)
  have st: "sorted (map tuple_key (tuples B @ tuples L))"
    using strict_sorted_imp_sorted [OF leaf_pair_sorted [OF p]] L(2) B(2) lv by simp
  from HandleRightBorrow_correct [OF B(1) L(1) am(1) st room] obtain B' L' where
    h: "LeafPage_HandleRightBorrow B L q = Some (tuple_key (hd (tuples L')), B', L')" "leaf_wf B'" "leaf_wf L'" "same_links B B'"
      "same_links L L'" "tuples B' @ tuples L' = lts @ rts" "length (tuples B') = length lts + borrow_amount q"
    using L(2) B(2) lv by auto
  have "length (tuples B') + length (tuples L') = length lts + length rts"
    using arg_cong [OF h(6), of length] by simp
  then have "tuples B' \<noteq> []" "tuples L' \<noteq> []" using h(7) am L(2) lv(4) by auto
  then show "\<exists>B' L'. LeafPage_HandleRightBorrow B L q = Some (tuple_key (hd (tuples L')), B', L') \<and>
      loan_done (V lp) (V rp) (lts @ rts) B' L'"
    using h leaf_imageI [OF sL h(5,3)] leaf_imageI [OF sB h(4,2)] by (auto simp: loan_done_def)
qed

text \<open>The node after the loan.\<close>

lemma loan_node:
  assumes p: "pair_at D V n lo hi pid ks1 k ks2 cs1 (LeafT lp lts) (LeafT rp rts) cs2"
    and l: "loan_done (V lp) (V rp) (lts @ rts) l r" and sp: "same_page (V pid) q"
    and sib: "\<forall>d \<in> set cs1 \<union> set cs2. level 0 d \<and> filled d"
    and V': "V' = V(rp := image r, lp := image l, pid := image (SetNewBoundaryKey q (tuple_key (hd (tuples r))) lp rp))"
  shows "\<exists>ks' cs'. node_fixed V V' lo hi pid (cs1 @ LeafT lp lts # LeafT rp rts # cs2) ks' cs' \<and>
    length ks' = length (ks1 @ k # ks2) \<and> (\<forall>d \<in> set cs'. level 0 d \<and> filled d)"
proof -
  have ne: "pid \<noteq> lp" "pid \<noteq> rp" "lp \<noteq> rp" using pair_atD(13) [OF p] by auto
  have ld: "leaf_image (V lp) l" "leaf_image (V rp) r" "tuples l @ tuples r = lts @ rts" "tuples l \<noteq> []" "tuples r \<noteq> []"
    using l by (simp_all add: loan_done_def)
  let ?cs = "cs1 @ [LeafT lp (tuples l), LeafT rp (tuples r)] @ cs2"
  have "node_fixed V V' lo hi pid (cs1 @ LeafT lp lts # LeafT rp rts # cs2) (ks1 @ tuple_key (hd (tuples r)) # ks2) ?cs"
    by (rule leaf_pair_borrowed [OF p ld _ _ _ _ sp]) (use ne in \<open>simp_all add: V'\<close>)
  moreover have "\<forall>d \<in> set ?cs. level 0 d \<and> filled d" using sib by auto
  moreover have "length (ks1 @ tuple_key (hd (tuples r)) # ks2) = length (ks1 @ k # ks2)" by simp
  ultimately show ?thesis by blast
qed

context regular_file begin

lemma leaf_borrow_left_correct:
  assumes c: "cache file_byte file_size D (add_mset pid P) {} F V n bp" and few: "size P < 990"
    and p: "pair_at D V n lo hi pid ks1 k ks2 cs1 (LeafT lp lts) (LeafT rp rts) cs2"
    and sib: "\<forall>d \<in> set cs1 \<union> set cs2. level 0 d \<and> filled d"
    and u: "used_space (V rp) \<le> 1626" "current_size rep = used_space (V rp)"
  shows "\<exists>out bp'. leaf_borrow_left os (F pid) pid rp lp rep bp = Some (out, bp') \<and>
    tried file_byte file_size D P F V n lo hi pid 0 (ks1 @ k # ks2) (cs1 @ LeafT lp lts # LeafT rp rts # cs2) rep
      (used_space (V lp) + used_space (V rp) \<le> 4065) out bp'"
proof -
  note d = pair_atD [OF p]
  have ne: "pid \<noteq> lp" "pid \<noteq> rp" "lp \<noteq> rp" using d(13) by auto
  have lr: "lp \<noteq> 0 \<and> lp < n \<and> lp \<notin> D" "rp \<noteq> 0 \<and> rp < n \<and> rp \<notin> D" using d(15) [of lp] d(15) [of rp] by simp_all
  obtain i bp1 j bp2 F1 F2 where
    i: "request_page os bp lp = Some (i, bp1)" "cache file_byte file_size D (add_mset lp (add_mset pid P)) {} F1 V n bp1"
      "F1 lp = i" "\<forall>x \<in># add_mset pid P. F1 x = F x" and
    j: "request_page os bp1 rp = Some (j, bp2)"
      "cache file_byte file_size D (add_mset rp (add_mset lp (add_mset pid P))) {} F2 V n bp2"
      "F2 lp = i" "F2 rp = j" "F2 pid = F pid" "\<forall>x \<in># P. F2 x = F x" and
    sp: "same_page (V lp) (buffer_pool bp1 i)" "same_page (V pid) (buffer_pool bp2 (F pid))"
      "same_page (V lp) (buffer_pool bp2 i)" "same_page (V rp) (buffer_pool bp2 j)"
    by (rule two_requests [OF c few ne lr])
  define q where "q = LeafPage_CanLendFromRight (buffer_pool bp1 i) (1627 - used_space (V rp))"
  have nd: "u16 (1627 - int (current_size rep)) = 1627 - used_space (V rp)" using leaf_needed [OF u(1)] u(2) by simp
  note loan = left_loan [OF p u(1) sp(1) q_def]
  show ?thesis
  proof (cases "can_borrow q")
    case False
    have "cache file_byte file_size D (add_mset pid P) {} F1 V n (release_page bp1 lp False)"
      using cache_release [OF i(2), of lp False] by simp
    moreover have "leaf_borrow_left os (F pid) pid rp lp rep bp = Some (None, release_page bp1 lp False)"
      using i(1) False by (simp add: leaf_borrow_left_def nd Let_def flip: q_def)
    ultimately show ?thesis using i(4) loan(1) False by (auto simp: tried_def)
  next
    case True
    from loan(2) [OF True sp(3,4)] obtain B L where
      h: "LeafPage_HandleLeftBorrow (buffer_pool bp2 j) (buffer_pool bp2 i) q = Some (tuple_key (hd (tuples B)), B, L)"
        "loan_done (V lp) (V rp) (lts @ rts) L B" by blast
    let ?bp3 = "write_frame (write_frame bp2 j B) i L"
    define page where "page = SetNewBoundaryKey (buffer_pool ?bp3 (F pid)) (tuple_key (hd (tuples B))) lp rp"
    let ?V = "V(rp := image B, lp := image L, pid := image page)"
    let ?bp4 = "release_page (release_page (release_page (write_frame ?bp3 (F pid) page) rp True) lp True) pid True"
    note w = write_children_node [OF j(2) ne, unfolded j(3-5)]
    note fx = loan_node [OF p h(2) w(1) [where B = B and A = L] sib refl, folded page_def]
    have "leaf_borrow_left os (F pid) pid rp lp rep bp = Some (Some (done_report rep), ?bp4)"
      using i(1) True j(1) h(1) unfolding leaf_borrow_left_def by (simp add: nd q_def [symmetric] page_def Let_def)
    then show ?thesis using tried_done [OF w(2) j(6) fx] by blast
  qed
qed

lemma leaf_borrow_right_correct:
  assumes c: "cache file_byte file_size D (add_mset pid P) {} F V n bp" and few: "size P < 990"
    and p: "pair_at D V n lo hi pid ks1 k ks2 cs1 (LeafT lp lts) (LeafT rp rts) cs2"
    and sib: "\<forall>d \<in> set cs1 \<union> set cs2. level 0 d \<and> filled d"
    and u: "used_space (V lp) \<le> 1626" "current_size rep = used_space (V lp)"
  shows "\<exists>out bp'. leaf_borrow_right os (F pid) pid lp rp rep bp = Some (out, bp') \<and>
    tried file_byte file_size D P F V n lo hi pid 0 (ks1 @ k # ks2) (cs1 @ LeafT lp lts # LeafT rp rts # cs2) rep
      (used_space (V lp) + used_space (V rp) \<le> 4065) out bp'"
proof -
  note d = pair_atD [OF p]
  have ne: "pid \<noteq> rp" "pid \<noteq> lp" "rp \<noteq> lp" using d(13) by auto
  have lr: "rp \<noteq> 0 \<and> rp < n \<and> rp \<notin> D" "lp \<noteq> 0 \<and> lp < n \<and> lp \<notin> D" using d(15) [of lp] d(15) [of rp] by simp_all
  obtain i bp1 j bp2 F1 F2 where
    i: "request_page os bp rp = Some (i, bp1)" "cache file_byte file_size D (add_mset rp (add_mset pid P)) {} F1 V n bp1"
      "F1 rp = i" "\<forall>x \<in># add_mset pid P. F1 x = F x" and
    j: "request_page os bp1 lp = Some (j, bp2)"
      "cache file_byte file_size D (add_mset lp (add_mset rp (add_mset pid P))) {} F2 V n bp2"
      "F2 rp = i" "F2 lp = j" "F2 pid = F pid" "\<forall>x \<in># P. F2 x = F x" and
    sp: "same_page (V rp) (buffer_pool bp1 i)" "same_page (V pid) (buffer_pool bp2 (F pid))"
      "same_page (V rp) (buffer_pool bp2 i)" "same_page (V lp) (buffer_pool bp2 j)"
    by (rule two_requests [OF c few ne lr])
  define q where "q = LeafPage_CanLendFromLeft (buffer_pool bp1 i) (1627 - used_space (V lp))"
  have nd: "u16 (1627 - int (current_size rep)) = 1627 - used_space (V lp)" using leaf_needed [OF u(1)] u(2) by simp
  note loan = right_loan [OF p u(1) sp(1) q_def]
  show ?thesis
  proof (cases "can_borrow q")
    case False
    have "cache file_byte file_size D (add_mset pid P) {} F1 V n (release_page bp1 rp False)"
      using cache_release [OF i(2), of rp False] by simp
    moreover have "leaf_borrow_right os (F pid) pid lp rp rep bp = Some (None, release_page bp1 rp False)"
      using i(1) False by (simp add: leaf_borrow_right_def nd Let_def flip: q_def)
    ultimately show ?thesis using i(4) loan(1) False by (auto simp: tried_def)
  next
    case True
    from loan(2) [OF True sp(3,4)] obtain B L where
      h: "LeafPage_HandleRightBorrow (buffer_pool bp2 j) (buffer_pool bp2 i) q = Some (tuple_key (hd (tuples L)), B, L)"
        "loan_done (V lp) (V rp) (lts @ rts) B L" by blast
    let ?bp3 = "write_frame (write_frame bp2 j B) i L"
    define page where "page = SetNewBoundaryKey (buffer_pool ?bp3 (F pid)) (tuple_key (hd (tuples L))) lp rp"
    let ?bp4 = "release_page (release_page (release_page (write_frame ?bp3 (F pid) page) lp True) rp True) pid True"
    note w = write_children_node [OF j(2) ne, unfolded j(3-5)]
    have V': "V(lp := image B, rp := image L, pid := image page) = V(rp := image L, lp := image B, pid := image page)"
      using ne by (simp add: fun_upd_twist)
    note fx = loan_node [OF p h(2) w(1) [where B = B and A = L] sib V' [unfolded page_def], folded page_def]
    have "leaf_borrow_right os (F pid) pid lp rp rep bp = Some (Some (done_report rep), ?bp4)"
      using i(1) True j(1) h(1) unfolding leaf_borrow_right_def by (simp add: nd q_def [symmetric] page_def Let_def)
    then show ?thesis using tried_done [OF w(2) j(6) fx] by blast
  qed
qed

lemma relink_neighbour_correct:
  assumes c: "cache file_byte file_size D P W F V n bp" and few: "size P < 1000" and dst: "dst \<in># P"
    and lf: "right_pid (V dst) = e" and e: "e \<noteq> 0 \<Longrightarrow> e < n \<and> e \<notin> D \<and> e \<notin> W \<and> leaf_wf (V e)"
  shows "\<exists>bp' F' V'. relink_neighbour os (F dst) bp = Some bp' \<and> cache file_byte file_size D P W F' V' n bp' \<and>
    (\<forall>q \<in># P. F' q = F q) \<and> (\<forall>q. alike (V q) (V' q)) \<and> (\<forall>q. q \<noteq> e \<or> e = 0 \<longrightarrow> V' q = V q)"
proof -
  have r: "right_pid (buffer_pool bp (F dst)) = e" using same_page_headers(7) [OF cache_frame [OF c dst]] lf by simp
  show ?thesis
  proof (cases "e = 0")
    case True
    have "relink_neighbour os (F dst) bp = Some bp" using r True by (simp add: relink_neighbour_def)
    then show ?thesis using c by (intro exI [of _ bp] exI [of _ F] exI [of _ V]) simp
  next
    case False
    note e = e [OF False]
    from cache_request [OF c few False] e obtain i bp1 where
      i: "request_page os bp e = Some (i, bp1)" "cache file_byte file_size D (add_mset e P) W (F(e := i)) V n bp1"
        "e \<in># P \<longrightarrow> i = F e" by blast
    define p where "p = set_left_pid (buffer_pool bp1 i) (page_id (buffer_pool bp (F dst)))"
    let ?bp = "release_page (write_frame bp1 i p) e True"
    have "same_page (V e) (buffer_pool bp1 i)" using same_page_sym [OF cache_frame [OF i(2), of e]] by simp
    then have "same_leaf (V e) (image p)" using relinked_leaf e by (simp add: p_def)
    moreover have "cache file_byte file_size D P (insert e W - {e}) (F(e := i)) (V(e := image p)) n ?bp"
      using cache_release [OF cache_write [OF i(2), of e p], of e True] by simp
    then have "cache file_byte file_size D P W (F(e := i)) (V(e := image p)) n ?bp" using e by simp
    moreover have "relink_neighbour os (F dst) bp = Some ?bp"
      using i(1) r False by (simp add: relink_neighbour_def p_def Let_def)
    ultimately show ?thesis using i(3) False
      by (intro exI [of _ ?bp] exI [of _ "F(e := i)"] exI [of _ "V(e := image p)"]) (auto simp: alike_def)
  qed
qed

text \<open>The root has lost its last key: its child becomes the root, and nothing is claimed of its page any more.\<close>

lemma finish_leaf_merge_root:
  assumes c: "cache file_byte file_size D (add_mset src (add_mset dst (add_mset pid P))) {dst, pid} F V' n (bt_pool bt)"
    and ne: "dst \<noteq> pid" "src \<noteq> pid" "dst \<noteq> src"
    and fx: "node_fixed V V' lo hi pid cs [] cs'" "Suc 0 = length ks" "\<forall>d \<in> set cs'. level 0 d \<and> filled d"
    and rel: "releases = [(src, False), (dst, True)] \<or> releases = [(dst, True), (src, False)]"
    and rt: "pid = root_page_id bt" "root_pin D V' n P [src, dst, pid]"
  shows "\<exists>r bt'. finish_leaf_merge os 0 (F pid) pid dst src releases rep bt = Some (r, bt') \<and>
    leaf_merged file_byte file_size D P F0 V n lo hi pid ks cs rep (root_page_id bt) r bt'"
proof -
  let ?page = "buffer_pool (bt_pool bt) (F pid)" and ?P = "add_mset src (add_mset dst (add_mset pid {#}))"
  have root: "P = {#}" "1 < n" "1 \<notin> D" "1 \<noteq> src" "1 \<noteq> dst" "1 \<noteq> pid"
    "load_u32 (V' DATABASE_META_PAGE_ID) 0 = DATABASE_MAGIC_NUMBER" using rt(2) by (auto simp: root_pin_def)
  have sp: "same_page (V' pid) ?page" using same_page_sym [OF cache_frame [OF c, of pid]] by simp
  have nd: "internal_wf (V' pid)" "page_id (V' pid) = pid" "keys (V' pid) = []" "children (V' pid) = map root_of cs'"
    "forest_in lo hi [] cs'"
    using fx(1) by (simp_all add: node_fixed_def tree_at_node node_at_def)
  note it = same_page_internal [OF nd(1) sp]
  obtain m where cs: "cs' = [m]" using forest_length [OF nd(5)] by (cases cs') auto
  have pg: "ip_id ?page = pid" "num_keys ?page = 0" "GetValueAtIndex ?page 0 = root_of m"
    using nd(2) same_page_headers(2) [OF sp] arg_cong [OF it(2), of length] nd(3) it(3) nd(4)
    by (simp_all add: GetValueAtIndex_def children_def arr_def cs)
  have s: "size ?P < 1000" by simp
  have nW: "1 \<notin> {dst, pid}" using root(5,6) by simp
  from SetNewRoot_correct [OF c [unfolded root(1)] s root(2,3) nW root(7), of pid "root_of m"] obtain bp1 F1 p where
    n: "SetNewRoot os bt (root_of m) = Some \<lparr>root_page_id = root_of m, bt_pool = bp1\<rparr>"
      "cache file_byte file_size D ?P {dst, pid} F1 (V'(1 := p)) n bp1" "meta_ok (V'(1 := p)) (root_of m)"
    using rt(1) by (cases bt) auto
  have c0: "cache file_byte file_size (insert pid D) {#src, dst#} {dst} F1 (V'(1 := p)) n (release_page bp1 pid False)"
    using cache_bury [of file_byte file_size D pid "{#src, dst#}" "{dst, pid}" F1 "V'(1 := p)" n bp1] n(2) ne
    by (simp add: add_mset_commute insert_Diff_if)
  define bp2 where "bp2 = fold (\<lambda>(p, dirty) bp. release_page bp p dirty) releases (release_page bp1 pid False)"
  have c2: "cache file_byte file_size (insert pid D) {#} {} F1 (V'(1 := p)) n bp2"
    using cache_release [OF cache_release [OF c0, of src False], of dst True]
      cache_release [OF cache_release [OF c0, of dst True], of src False] ne rel
    by (auto simp: bp2_def add_mset_commute)
  have "leaf_merged file_byte file_size D P F0 V n lo hi pid ks cs rep (root_page_id bt) (root_replaced rep)
      \<lparr>root_page_id = root_of m, bt_pool = bp2\<rparr>"
    unfolding leaf_merged_def root(1)
    by (rule exI [of _ F1], rule exI [of _ V'], rule exI [of _ "[]"], rule exI [of _ cs']) (use fx cs rt(1) c2 n(3) in auto)
  moreover have "finish_leaf_merge os 0 (F pid) pid dst src releases rep bt =
      Some (root_replaced rep, \<lparr>root_page_id = root_of m, bt_pool = bp2\<rparr>)"
    using rt(1) pg n(1) by (simp add: finish_leaf_merge_def bp2_def)
  ultimately show ?thesis by blast
qed

lemma finish_leaf_merge_correct:
  assumes c: "cache file_byte file_size D (add_mset src (add_mset dst (add_mset pid P))) {dst, pid} F V' n (bt_pool bt)"
    and ne: "dst \<noteq> pid" "src \<noteq> pid" "dst \<noteq> src"
    and fx: "node_fixed V V' lo hi pid cs ks' cs'" "Suc (length ks') = length ks" "\<forall>d \<in> set cs'. level 0 d \<and> filled d"
    and F: "\<forall>q \<in># P. F q = F0 q"
    and rel: "releases = [(src, False), (dst, True)] \<or> releases = [(dst, True), (src, False)]"
    and root: "pid = root_page_id bt \<Longrightarrow> root_pin D V' n P [src, dst, pid]"
  shows "\<exists>r bt'. finish_leaf_merge os 0 (F pid) pid dst src releases rep bt = Some (r, bt') \<and>
    leaf_merged file_byte file_size D P F0 V n lo hi pid ks cs rep (root_page_id bt) r bt'"
proof (cases "pid = root_page_id bt \<and> ks' = []")
  case True
  then show ?thesis using finish_leaf_merge_root [OF c ne _ _ fx(3) rel _ root] fx(1,2) by auto
next
  case False
  let ?page = "buffer_pool (bt_pool bt) (F pid)"
  let ?bp = "release_page (release_page (release_page (bt_pool bt) dst True) src False) pid True"
  have sp: "same_page (V' pid) ?page" using same_page_sym [OF cache_frame [OF c, of pid]] by simp
  have nd: "internal_wf (V' pid)" "page_id (V' pid) = pid" "keys (V' pid) = ks'"
    using fx(1) by (simp_all add: node_fixed_def tree_at_node node_at_def)
  note it = same_page_internal [OF nd(1) sp]
  have pg: "ip_id ?page = pid" "num_keys ?page = length ks'"
    using nd(2) same_page_headers(2) [OF sp] arg_cong [OF it(2), of length] nd(3) by simp_all
  have "cache file_byte file_size D P {} F V' n ?bp"
    using cache_release [OF cache_release [OF cache_release [OF c, of dst True], of src False], of pid True] ne
    by (simp add: add_mset_commute insert_Diff_if)
  moreover have "finish_leaf_merge os 0 (F pid) pid dst src releases rep bt =
      Some (\<lparr>underflown = (length ks' \<le> 126), ds_page_type = InternalPage, current_size = 16 * length ks' + 8,
        success = success rep\<rparr>, bt\<lparr>bt_pool := ?bp\<rparr>)"
    using False pg by (auto simp: finish_leaf_merge_def merge_report_def CheckUnderflow_zero [OF it(1)])
  ultimately show ?thesis
    using fx F False by (auto simp: leaf_merged_def intro!: exI [of _ F] exI [of _ V'] exI [of _ ks'] exI [of _ cs'])
qed

text \<open>The first steps of both merges: the two leaves are requested and the left one takes the tuples.\<close>

lemma leaf_merge_start:
  assumes c: "cache file_byte file_size D (add_mset pid P) {} F V n bp" and few: "size P < 990"
    and p: "pair_at D V n lo hi pid ks1 k ks2 cs1 (LeafT lp lts) (LeafT rp rts) cs2"
    and fit: "used_space (V lp) + used_space (V rp) \<le> 4065"
  shows "\<exists>i bp1 j bp2 F' q. request_page os bp lp = Some (i, bp1) \<and> request_page os bp1 rp = Some (j, bp2) \<and>
    LeafPage_MergePages (buffer_pool bp2 i) (buffer_pool bp2 j) = Some q \<and>
    leaf_wf q \<and> page_id q = lp \<and> tuples q = lts @ rts \<and> right_pid q = right_pid (V rp) \<and>
    cache file_byte file_size D (add_mset rp (add_mset lp (add_mset pid P))) {lp} F' (V(lp := image q)) n (write_frame bp2 i q) \<and>
    F' lp = i \<and> F' pid = F pid \<and> (\<forall>x \<in># P. F' x = F x)"
proof -
  note d = pair_atD [OF p]
  have lv: "leaf_wf (V lp)" "page_id (V lp) = lp" "tuples (V lp) = lts" "leaf_wf (V rp)" "page_id (V rp) = rp" "tuples (V rp) = rts"
    using d(5,6) by simp_all
  have ne: "pid \<noteq> lp" "pid \<noteq> rp" "lp \<noteq> rp" using d(13) by auto
  have lr: "lp \<noteq> 0" "lp < n" "lp \<notin> D" "rp \<noteq> 0" "rp < n" "rp \<notin> D" using d(15) [of lp] d(15) [of rp] by simp_all
  have s1: "size (add_mset pid P) < 1000" "size (add_mset lp (add_mset pid P)) < 1000" using few by simp_all
  from cache_request [OF c s1(1) lr(1-3)] obtain i bp1 where
    i: "request_page os bp lp = Some (i, bp1)"
      "cache file_byte file_size D (add_mset lp (add_mset pid P)) {} (F(lp := i)) V n bp1" "lp \<in># add_mset pid P \<longrightarrow> i = F lp" by blast
  from cache_request [OF i(2) s1(2) lr(4-6)] obtain j bp2 where
    j: "request_page os bp1 rp = Some (j, bp2)"
      "cache file_byte file_size D (add_mset rp (add_mset lp (add_mset pid P))) {} (F(lp := i, rp := j)) V n bp2"
      "rp \<in># add_mset lp (add_mset pid P) \<longrightarrow> j = (F(lp := i)) rp" by blast
  let ?F = "F(lp := i, rp := j)" and ?T = "buffer_pool bp2 i" and ?S = "buffer_pool bp2 j"
  have sT: "same_page (V lp) ?T" and sS: "same_page (V rp) ?S"
    using same_page_sym [OF cache_frame [OF j(2), of lp]] same_page_sym [OF cache_frame [OF j(2), of rp]] ne by simp_all
  note T = same_page_leaf [OF lv(1) sT] and S = same_page_leaf [OF lv(4) sS]
  have st: "sorted (map tuple_key (tuples ?T @ tuples ?S))"
    using strict_sorted_imp_sorted [OF leaf_pair_sorted [OF p]] T(2) S(2) lv by simp
  have "used_space ?T + entries (live (slots ?S)) \<le> 4065"
    using fit entries_live_used [of ?S] same_page_used [OF lv(1) sT] same_page_used [OF lv(4) sS] by simp
  then obtain q where q: "LeafPage_MergePages ?T ?S = Some q" using MergePages_correct(2) [OF T(1) S(1) st] by auto
  have "leaf_wf q \<and> page_id q = lp \<and> tuples q = lts @ rts \<and> right_pid q = right_pid (V rp)"
    using MergePages_correct(1) [OF T(1) S(1) st q] T(2) S(2) lv same_page_headers [OF sT] same_page_headers [OF sS] by simp
  moreover have "cache file_byte file_size D (add_mset rp (add_mset lp (add_mset pid P))) {lp} ?F (V(lp := image q)) n (write_frame bp2 i q)"
    using cache_write [OF j(2), of lp q] ne by simp
  moreover have "\<forall>x \<in># P. ?F x = F x" "?F pid = F pid" "?F lp = i" using i(3) j(3) ne by auto
  ultimately show ?thesis using i(1) j(1) q by blast
qed

text \<open>
  The last steps, when the left leaf, the node and perhaps the left link of the next leaf are
  written: \<open>finish_leaf_merge\<close>.
\<close>

lemma leaf_merge_end:
  assumes c: "cache file_byte file_size D (add_mset rp (add_mset lp (add_mset pid P))) {lp, pid} F' V' n bp"
    and p: "pair_at D V n lo hi pid ks1 k ks2 cs1 (LeafT lp lts) (LeafT rp rts) cs2"
    and sib: "\<forall>d \<in> set cs1 \<union> set cs2. level 0 d \<and> filled d"
    and q: "leaf_wf q" "page_id q = lp" "tuples q = lts @ rts" "right_pid q = right_pid (V rp)"
    and V': "V' lp = image q" "\<And>x. x \<notin> {pid, lp} \<Longrightarrow> alike (V x) (V' x)"
      "node_at V' pid (ks1 @ ks2) (cs1 @ LeafT lp (lts @ rts) # cs2)"
    and F: "F' pid = F pid" "\<forall>x \<in># P. F' x = F x"
    and rel: "releases = [(rp, False), (lp, True)] \<or> releases = [(lp, True), (rp, False)]"
    and root: "pid = root_page_id bt \<Longrightarrow> root_pin D V n P [rp, lp, pid]"
  shows "\<exists>r bt'. finish_leaf_merge os 0 (F pid) pid lp rp releases rep (bt\<lparr>bt_pool := bp\<rparr>) = Some (r, bt') \<and>
    leaf_merged file_byte file_size D P F V n lo hi pid (ks1 @ k # ks2) (cs1 @ LeafT lp lts # LeafT rp rts # cs2) rep
      (root_page_id bt) r bt'"
proof -
  have ne: "pid \<noteq> lp" "pid \<noteq> rp" "lp \<noteq> rp" using pair_atD(13) [OF p] by auto
  have fx: "node_fixed V V' lo hi pid (cs1 @ LeafT lp lts # LeafT rp rts # cs2) (ks1 @ ks2) (cs1 @ [LeafT lp (lts @ rts)] @ cs2)"
    by (rule leaf_pair_merged [OF p q V'(1) V'(2) V'(3)]) simp
  let ?bt = "bt\<lparr>bt_pool := bp\<rparr>"
  have c5: "cache file_byte file_size D (add_mset rp (add_mset lp (add_mset pid P))) {lp, pid} F' V' n (bt_pool ?bt)" using c by simp
  have rt: "root_pin D V' n P [rp, lp, pid]" if "pid = root_page_id ?bt"
  proof -
    have a: "root_pin D V n P [rp, lp, pid]" using root that by simp
    then have "V' 1 = V 1" using alike_meta [of "V 1" "V' 1"] V'(2) [of 1] by (auto simp: root_pin_def DATABASE_META_PAGE_ID_def)
    then show ?thesis using a by (simp add: root_pin_def DATABASE_META_PAGE_ID_def)
  qed
  from finish_leaf_merge_correct [OF c5 _ _ _ fx _ _ F(2) rel rt, where rep = rep and ks = "ks1 @ k # ks2"]
  show ?thesis using F(1) ne sib by auto
qed

lemma leaf_merge_left_correct:
  assumes c: "cache file_byte file_size D (add_mset pid P) {} F V n (bt_pool bt)" and few: "size P < 990"
    and p: "pair_at D V n lo hi pid ks1 k ks2 cs1 (LeafT lp lts) (LeafT rp rts) cs2"
    and sib: "\<forall>d \<in> set cs1 \<union> set cs2. level 0 d \<and> filled d" and fit: "used_space (V lp) + used_space (V rp) \<le> 4065"
    and link: "link_ok D V n [pid, lp, rp] (right_pid (V rp))"
    and root: "pid = root_page_id bt \<Longrightarrow> root_pin D V n P [rp, lp, pid]"
  shows "\<exists>r bt'. leaf_merge_left os 0 (F pid) pid rp lp rep bt = Some (r, bt') \<and>
    leaf_merged file_byte file_size D P F V n lo hi pid (ks1 @ k # ks2) (cs1 @ LeafT lp lts # LeafT rp rts # cs2) rep
      (root_page_id bt) r bt'"
proof -
  let ?P = "add_mset rp (add_mset lp (add_mset pid P))" and ?e = "right_pid (V rp)"
  have ne: "pid \<noteq> lp" "pid \<noteq> rp" "lp \<noteq> rp" using pair_atD(13) [OF p] by auto
  from leaf_merge_start [OF c few p fit] obtain i bp1 j bp2 F1 q where
    m: "request_page os (bt_pool bt) lp = Some (i, bp1)" "request_page os bp1 rp = Some (j, bp2)"
      "LeafPage_MergePages (buffer_pool bp2 i) (buffer_pool bp2 j) = Some q"
      "leaf_wf q" "page_id q = lp" "tuples q = lts @ rts" "right_pid q = ?e"
      "cache file_byte file_size D ?P {lp} F1 (V(lp := image q)) n (write_frame bp2 i q)"
      "F1 lp = i" "F1 pid = F pid" "\<forall>x \<in># P. F1 x = F x" by blast
  let ?V1 = "V(lp := image q)"
  have "?e \<noteq> 0 \<Longrightarrow> ?e < n \<and> ?e \<notin> D \<and> ?e \<notin> {lp} \<and> leaf_wf (?V1 ?e)" using link by (auto simp: link_ok_def)
  from relink_neighbour_correct [OF m(8) _ _ _ this, of lp] obtain bp3 F3 V3 where
    r: "relink_neighbour os i (write_frame bp2 i q) = Some bp3" "cache file_byte file_size D ?P {lp} F3 V3 n bp3"
      "\<forall>x \<in># ?P. F3 x = F1 x" "\<forall>x. alike (?V1 x) (V3 x)" "\<forall>x. x \<noteq> ?e \<or> ?e = 0 \<longrightarrow> V3 x = ?V1 x"
    using m(9) few image_leaf_facts(4) [OF m(4)] m(7) by auto
  have V3: "V3 lp = image q" "V3 pid = V pid" using r(5) link ne by (auto simp: link_ok_def)
  have F3: "F3 pid = F pid" "\<forall>x \<in># P. F3 x = F x" using r(3) m(10,11) by simp_all
  have sp: "same_page (V pid) (buffer_pool bp3 (F pid))"
    using same_page_sym [OF cache_frame [OF r(2), of pid]] F3 V3 by simp
  note sep = pair_separator [OF p sp, unfolded root_of.simps]
  define page where "page = DeleteKeyAndChildPtr (buffer_pool bp3 (F pid)) lp rp"
  note dk = DeleteKey_views [OF sep(1,5) page_def]
  have nd: "node_at (V3(pid := image page)) pid (ks1 @ ks2) (cs1 @ LeafT lp (lts @ rts) # cs2)"
    by (rule remove_separator_node(1) [OF p sp dk]) simp
  have al: "alike (V x) ((V3(pid := image page)) x)" if "x \<notin> {pid, lp}" for x
    using r(4) [rule_format, of x] that by simp
  have c4: "cache file_byte file_size D ?P {lp, pid} F3 (V3(pid := image page)) n (write_frame bp3 (F pid) page)"
    using cache_write [OF r(2), of pid page] F3 by (simp add: insert_commute)
  have V4: "(V3(pid := image page)) lp = image q" using V3 ne by simp
  from leaf_merge_end [OF c4 p sib m(4-7) V4 al nd F3 _ root, where releases = "[(rp, False), (lp, True)]" and rep = rep]
  show ?thesis using m(1-3) r(1) by (simp add: leaf_merge_left_def page_def)
qed

lemma leaf_merge_right_correct:
  assumes c: "cache file_byte file_size D (add_mset pid P) {} F V n (bt_pool bt)" and few: "size P < 990"
    and p: "pair_at D V n lo hi pid ks1 k ks2 cs1 (LeafT lp lts) (LeafT rp rts) cs2"
    and sib: "\<forall>d \<in> set cs1 \<union> set cs2. level 0 d \<and> filled d" and fit: "used_space (V lp) + used_space (V rp) \<le> 4065"
    and link: "link_ok D V n [pid, lp, rp] (right_pid (V rp))"
    and root: "pid = root_page_id bt \<Longrightarrow> root_pin D V n P [rp, lp, pid]"
  shows "\<exists>r bt'. leaf_merge_right os 0 (F pid) pid lp rp rep bt = Some (r, bt') \<and>
    leaf_merged file_byte file_size D P F V n lo hi pid (ks1 @ k # ks2) (cs1 @ LeafT lp lts # LeafT rp rts # cs2) rep
      (root_page_id bt) r bt'"
proof -
  let ?P = "add_mset rp (add_mset lp (add_mset pid P))" and ?e = "right_pid (V rp)"
  have ne: "pid \<noteq> lp" "pid \<noteq> rp" "lp \<noteq> rp" using pair_atD(13) [OF p] by auto
  from leaf_merge_start [OF c few p fit] obtain i bp1 j bp2 F1 q where
    m: "request_page os (bt_pool bt) lp = Some (i, bp1)" "request_page os bp1 rp = Some (j, bp2)"
      "LeafPage_MergePages (buffer_pool bp2 i) (buffer_pool bp2 j) = Some q"
      "leaf_wf q" "page_id q = lp" "tuples q = lts @ rts" "right_pid q = ?e"
      "cache file_byte file_size D ?P {lp} F1 (V(lp := image q)) n (write_frame bp2 i q)"
      "F1 lp = i" "F1 pid = F pid" "\<forall>x \<in># P. F1 x = F x" by blast
  let ?bp3 = "write_frame bp2 i q"
  have sp: "same_page (V pid) (buffer_pool ?bp3 (F pid))"
    using same_page_sym [OF cache_frame [OF m(8), of pid]] m(10) ne by simp
  note sep = pair_separator [OF p sp, unfolded root_of.simps]
  define page where "page = DeleteKeyAndChildPtr (buffer_pool ?bp3 (F pid)) lp rp"
  note dk = DeleteKey_views [OF sep(1,5) page_def]
  define V2 where "V2 = V(lp := image q, pid := image page)"
  have V2: "V2 lp = image q" "x \<notin> {pid, lp} \<Longrightarrow> V2 x = V x" for x using ne by (auto simp: V2_def)
  have nd2: "node_at V2 pid (ks1 @ ks2) (cs1 @ LeafT lp (lts @ rts) # cs2)"
    unfolding V2_def by (rule remove_separator_node(1) [OF p sp dk]) simp
  have c4: "cache file_byte file_size D ?P {lp, pid} F1 V2 n (write_frame ?bp3 (F pid) page)"
    using cache_write [OF m(8), of pid page] m(10) by (simp add: insert_commute V2_def)
  have "?e \<noteq> 0 \<Longrightarrow> ?e < n \<and> ?e \<notin> D \<and> ?e \<notin> {lp, pid} \<and> leaf_wf (V2 ?e)" using link V2(2) [of ?e] by (auto simp: link_ok_def)
  from relink_neighbour_correct [OF c4 _ _ _ this, of lp] obtain bp3 F3 V3 where
    r: "relink_neighbour os i (write_frame ?bp3 (F pid) page) = Some bp3" "cache file_byte file_size D ?P {lp, pid} F3 V3 n bp3"
      "\<forall>x \<in># ?P. F3 x = F1 x" "\<forall>x. alike (V2 x) (V3 x)" "\<forall>x. x \<noteq> ?e \<or> ?e = 0 \<longrightarrow> V3 x = V2 x"
    using m(9) few image_leaf_facts(4) [OF m(4)] m(7) V2(1) by auto
  have V3: "V3 lp = image q" "V3 pid = V2 pid" using r(5) link V2(1) by (auto simp: link_ok_def)
  have F3: "F3 pid = F pid" "\<forall>x \<in># P. F3 x = F x" using r(3) m(10,11) by simp_all
  have nd: "node_at V3 pid (ks1 @ ks2) (cs1 @ LeafT lp (lts @ rts) # cs2)"
    using nd2 unfolding node_at_def V3(2) .
  have al: "alike (V x) (V3 x)" if "x \<notin> {pid, lp}" for x
    using r(4) [rule_format, of x] V2(2) [OF that] by simp
  from leaf_merge_end [OF r(2) p sib m(4-7) V3(1) al nd F3 _ root, where releases = "[(lp, True), (rp, False)]" and rep = rep]
  show ?thesis using m(1-3) r(1) by (simp add: leaf_merge_right_def page_def)
qed

end

end
