(* ===== verification/Inner_Repair.thy ===== *)
theory Inner_Repair
  imports Leaf_Repair
begin

text \<open>The repair of an underfull inner page, through the buffer pool: borrowing and merging.\<close>

section \<open>Two inner nodes and their separator\<close>

lemma inner_pair_whole:
  assumes p: "pair_at D V n lo hi pid ks1 k ks2 cs1 (NodeT lp lks lcs) (NodeT rp rks rcs) cs2"
  shows "forest_in (lower lo ks1) (upper hi ks2) (lks @ k # rks) (lcs @ rcs)" "length lcs = Suc (length lks)"
proof -
  note d = pair_atD [OF p]
  show l: "length lcs = Suc (length lks)" using forest_length d(11) by simp
  show "forest_in (lower lo ks1) (upper hi ks2) (lks @ k # rks) (lcs @ rcs)"
    unfolding forest_append [OF l] using d(11,12) by simp
qed

lemma inner_pair_moved:
  assumes p: "pair_at D V n lo hi pid ks1 k ks2 cs1 (NodeT lp lks lcs) (NodeT rp rks rcs) cs2"
    and k: "lks' @ k' # rks' = lks @ k # rks" and c: "lcs' @ rcs' = lcs @ rcs" "length lcs' = Suc (length lks')"
  shows "forest_in lo hi (ks1 @ k' # ks2) (cs1 @ NodeT lp lks' lcs' # NodeT rp rks' rcs' # cs2)"
proof -
  note d = pair_atD [OF p]
  have f: "forest_in (lower lo ks1) (unat k') lks' lcs'" "forest_in (unat k') (upper hi ks2) rks' rcs'"
    using inner_pair_whole(1) [OF p] unfolding k [symmetric] c(1) [symmetric] forest_append [OF c(2)] by simp_all
  show ?thesis
    unfolding forest_pair [OF d(1,2)] using d(7,8) f forest_le [OF f(1)] forest_le [OF f(2)] by simp
qed

lemma inner_pair_joined:
  assumes p: "pair_at D V n lo hi pid ks1 k ks2 cs1 (NodeT lp lks lcs) (NodeT rp rks rcs) cs2"
  shows "forest_in lo hi (ks1 @ ks2) (cs1 @ NodeT m (lks @ k # rks) (lcs @ rcs) # cs2)"
  by (rule forest_one [OF pair_atD(1,2,14) [OF p]]) (simp add: inner_pair_whole(1) [OF p])

text \<open>The children of both nodes stay on their pages.\<close>

lemma inner_pair_children:
  assumes p: "pair_at D V n lo hi pid ks1 k ks2 cs1 (NodeT lp lks lcs) (NodeT rp rks rcs) cs2"
    and V': "\<forall>x. x \<notin> {pid, lp, rp} \<longrightarrow> V' x = V x"
  shows "\<forall>c \<in> set (lcs @ rcs). tree_at V' c" "relinks V V' (forest_leaves (lcs @ rcs)) (forest_leaves (lcs @ rcs))"
    "distinct (lp # rp # forest_pages (lcs @ rcs))"
proof -
  note d = pair_atD [OF p]
  have "distinct (pid # (lp # forest_pages lcs) @ rp # forest_pages rcs)"
    using d(13) unfolding forest_simps node_simps distinct.simps distinct_append set_append Un_iff by blast
  then have dist: "distinct (pid # lp # rp # forest_pages (lcs @ rcs))" by auto
  then show "distinct (lp # rp # forest_pages (lcs @ rcs))" by simp
  have out: "x \<notin> {pid, lp, rp}" if "x \<in> set (forest_pages (lcs @ rcs))" for x
    using dist that by auto
  show "\<forall>c \<in> set (lcs @ rcs). tree_at V' c"
  proof
    fix c assume c: "c \<in> set (lcs @ rcs)"
    show "tree_at V' c"
    proof (rule tree_at_frame)
      show "tree_at V c" using c d(5,6) by auto
      show "V' x = V x" if "x \<in> set (tree_pages c)" for x using V' out forest_pages_in [OF c that] by blast
    qed
  qed
  show "relinks V V' (forest_leaves (lcs @ rcs)) (forest_leaves (lcs @ rcs))"
  proof (rule relinks_frame)
    show "forest_leaves (lcs @ rcs) \<noteq> []"
      using forest_in_leaves [OF inner_pair_whole(1) [OF p]] by (simp add: forest_leaves_def)
    show "right_pid (V' x) = right_pid (V x)" if "x \<in> set (forest_leaves (lcs @ rcs))" for x
      using V' [rule_format, OF out] that forest_leaves_pages by (metis subsetD)
  qed
qed

lemma inner_pair_borrowed:
  assumes p: "pair_at D V n lo hi pid ks1 k ks2 cs1 (NodeT lp lks lcs) (NodeT rp rks rcs) cs2"
    and k: "lks' @ k' # rks' = lks @ k # rks" and c: "lcs' @ rcs' = lcs @ rcs" "length lcs' = Suc (length lks')"
    and nd: "node_at V' lp lks' lcs'" "node_at V' rp rks' rcs'"
      "node_at V' pid (ks1 @ k' # ks2) (cs1 @ [NodeT lp lks' lcs', NodeT rp rks' rcs'] @ cs2)"
    and V': "\<And>x. x \<notin> {pid, lp, rp} \<Longrightarrow> V' x = V x"
  shows "node_fixed V V' lo hi pid (cs1 @ NodeT lp lks lcs # NodeT rp rks rcs # cs2) (ks1 @ k' # ks2)
    (cs1 @ [NodeT lp lks' lcs', NodeT rp rks' rcs'] @ cs2)"
proof -
  note d = pair_atD [OF p]
  have "\<forall>x. x \<notin> {pid, lp, rp} \<longrightarrow> V' x = V x" using V' by blast
  note ch = inner_pair_children [OF p this, folded c(1)]
  have f: "forest_in lo hi (ks1 @ k' # ks2) (cs1 @ [NodeT lp lks' lcs', NodeT rp rks' rcs'] @ cs2)"
    using inner_pair_moved [OF p k c] by simp
  have e: "forest_pages lcs' @ forest_pages rcs' = forest_pages lcs @ forest_pages rcs"
    "forest_leaves lcs' @ forest_leaves rcs' = forest_leaves lcs @ forest_leaves rcs"
    "forest_tuples lcs' @ forest_tuples rcs' = forest_tuples lcs @ forest_tuples rcs"
    using c(1) by (metis forest_simps(3)) (metis c(1) forest_simps(6), metis c(1) forest_simps(9))
  have pg: "set (forest_pages lcs') \<union> set (forest_pages rcs') = set (forest_pages lcs) \<union> set (forest_pages rcs)"
    using arg_cong [OF e(1), of set] by simp
  have dp: "distinct (forest_pages lcs' @ forest_pages rcs')" using ch(3) by simp
  show ?thesis
  proof (rule node_fixed_pair [OF d(4,13) nd(3) _ f])
    show "\<forall>d \<in> set [NodeT lp lks' lcs', NodeT rp rks' rcs']. tree_at V' d"
      unfolding list.set ball_simps tree_at_node using nd(1,2) ch(1) by simp
    show "relinks V V' (leaf_pids (NodeT lp lks lcs) @ leaf_pids (NodeT rp rks rcs)) (forest_leaves [NodeT lp lks' lcs', NodeT rp rks' rcs'])"
      unfolding node_simps forest_simps e(2) [symmetric] append_Nil2 using ch(2) by simp
  qed (use e(3) pg dp ch(3) V' in \<open>auto simp: node_simps simp del: tree_pages.simps leaf_pids.simps tree_tuples.simps\<close>)
qed

lemma inner_pair_merged:
  assumes p: "pair_at D V n lo hi pid ks1 k ks2 cs1 (NodeT lp lks lcs) (NodeT rp rks rcs) cs2"
    and nd: "node_at V' lp (lks @ k # rks) (lcs @ rcs)"
      "node_at V' pid (ks1 @ ks2) (cs1 @ [NodeT lp (lks @ k # rks) (lcs @ rcs)] @ cs2)"
    and V': "\<And>x. x \<notin> {pid, lp, rp} \<Longrightarrow> V' x = V x"
  shows "node_fixed V V' lo hi pid (cs1 @ NodeT lp lks lcs # NodeT rp rks rcs # cs2) (ks1 @ ks2)
    (cs1 @ [NodeT lp (lks @ k # rks) (lcs @ rcs)] @ cs2)"
proof -
  note d = pair_atD [OF p]
  have "\<forall>x. x \<notin> {pid, lp, rp} \<longrightarrow> V' x = V x" using V' by blast
  note ch = inner_pair_children [OF p this]
  have f: "forest_in lo hi (ks1 @ ks2) (cs1 @ [NodeT lp (lks @ k # rks) (lcs @ rcs)] @ cs2)"
    using inner_pair_joined [OF p, of lp] by simp
  show ?thesis
  proof (rule node_fixed_pair [OF d(4,13) nd(2) _ f])
    show "\<forall>d \<in> set [NodeT lp (lks @ k # rks) (lcs @ rcs)]. tree_at V' d"
      unfolding list.set ball_simps tree_at_node using nd(1) ch(1) by simp
    show "relinks V V' (leaf_pids (NodeT lp lks lcs) @ leaf_pids (NodeT rp rks rcs)) (forest_leaves [NodeT lp (lks @ k # rks) (lcs @ rcs)])"
      unfolding node_simps forest_simps append_Nil2 using ch(2) by simp
  qed (use ch(3) V' in \<open>auto simp: node_simps simp del: tree_pages.simps leaf_pids.simps tree_tuples.simps\<close>)
qed

lemma node_same:
  assumes "node_at V pid ks cs" "same_page (V pid) q"
  shows "internal_wf q" "num_keys q = length ks" "keys q = ks" "ip_id q = pid"
  using assms(1) same_page_internal [OF _ assms(2)] same_page_headers(2,8) [OF assms(2)] by (auto simp: node_at_def)

lemma rotated_node:
  assumes p: "pair_at D V n lo hi pid ks1 k ks2 cs1 l r cs2" and s: "same_page (V pid) q"
    and v: "keys q' = (keys q)[length ks1 := x]" "children q' = children q" "ip_id q' = ip_id q" "ip_type q' = ip_type q"
    and f: "forest_in lo hi (ks1 @ x # ks2) cs" and r: "map root_of cs = map root_of (cs1 @ l # r # cs2)"
    and V': "V' pid = image q'"
  shows "node_at V' pid (ks1 @ x # ks2) cs"
proof -
  note sep = pair_separator [OF p s]
  have k: "keys q' = ks1 @ x # ks2" using v(1) sep(2) by simp
  have "num_keys q' = num_keys q" using arg_cong [OF v(1), of length] by simp
  then have "internal_wf q'"
    unfolding internal_wf_def k v(4) using forest_sorted [OF f] sep(1) by (simp add: internal_wf_def)
  then show ?thesis using image_internal k v(2,3) sep(3,4) r V' by (simp add: node_at_def)
qed

lemma inner_pair_rotated:
  assumes p: "pair_at D V n lo hi pid ks1 k ks2 cs1 (NodeT lp lks lcs) (NodeT rp rks rcs) cs2"
    and sp: "same_page (V pid) pg" "same_page (V lp) L" "same_page (V rp) R"
    and rot: "rotated (length ks1) pg L R pg' L' R'"
    and n: "127 \<le> num_keys L'" "num_keys L' \<le> 254" "127 \<le> num_keys R'" "num_keys R' \<le> 254"
    and sib: "\<forall>d \<in> set cs1 \<union> set cs2. level (Suc h) d \<and> filled d" and ch: "\<forall>d \<in> set (lcs @ rcs). level h d \<and> filled d"
    and V': "V' lp = image L'" "V' rp = image R'" "V' pid = image pg'" "\<And>x. x \<notin> {pid, lp, rp} \<Longrightarrow> V' x = V x"
  shows "\<exists>ks' cs'. node_fixed V V' lo hi pid (cs1 @ NodeT lp lks lcs # NodeT rp rks rcs # cs2) ks' cs' \<and>
    length ks' = length (ks1 @ k # ks2) \<and> (\<forall>d \<in> set cs'. level (Suc h) d \<and> filled d)"
proof -
  note d = pair_atD [OF p] and sep = pair_separator [OF p sp(1), unfolded root_of.simps]
  have nd: "node_at V lp lks lcs" "node_at V rp rks rcs" using d(5,6) by (simp_all add: node_at_def)
  note L = same_page_internal [OF _ sp(2)] and R = same_page_internal [OF _ sp(3)]
  have lv: "internal_wf L" "keys L = lks" "children L = map root_of lcs" "ip_id L = lp"
    "internal_wf R" "keys R = rks" "children R = map root_of rcs" "ip_id R = rp"
    using L R nd same_page_headers(2) [OF sp(2)] same_page_headers(2) [OF sp(3)] by (simp_all add: node_at_def)
  have kj: "keys pg ! length ks1 = k" using sep(2) by simp
  define x where "x = keys pg' ! length ks1"
  define lcs' where "lcs' = take (Suc (num_keys L')) (lcs @ rcs)"
  define rcs' where "rcs' = drop (Suc (num_keys L')) (lcs @ rcs)"
  note r = rot [unfolded rotated_def, folded x_def, unfolded kj lv]
  have sum: "num_keys L' + num_keys R' = length lks + length rks"
    using arg_cong [OF conjunct1 [OF r], of length] by simp
  have "length lcs = Suc (length lks)" "length rcs = Suc (length rks)" using forest_length d(11,12) by simp_all
  then have cl: "length lcs' = Suc (num_keys L')" using sum by (simp add: lcs'_def)
  have c: "lcs' @ rcs' = lcs @ rcs" "length lcs' = Suc (length (keys L'))" using cl by (simp_all add: lcs'_def rcs'_def del: take_append drop_append)
  have "children L' @ children R' = map root_of (lcs' @ rcs')" using r c(1) by simp
  then have cc: "children L' = map root_of lcs'" "children R' = map root_of rcs'" using cl by (simp_all add: append_eq_append_conv)
  have k: "keys L' @ x # keys R' = lks @ k # rks" using r by blast
  note f = inner_pair_moved [OF p k c]
  have srt: "sorted (lks @ k # rks)" using forest_sorted inner_pair_whole(1) [OF p] by blast
  have wf: "internal_wf L'" "internal_wf R'"
    using rotated_wf [OF rot sep(1) lv(1,5) _ n(2,4)] srt by (simp_all add: kj lv)
  have nds: "node_at V' lp (keys L') lcs'" "node_at V' rp (keys R') rcs'"
    using image_internal [OF wf(1)] image_internal [OF wf(2)] V'(1,2) cc r by (simp_all add: node_at_def)
  have ndp: "node_at V' pid (ks1 @ x # ks2) (cs1 @ [NodeT lp (keys L') lcs', NodeT rp (keys R') rcs'] @ cs2)"
    using rotated_node [OF p sp(1) _ _ _ _ f, of pg' V'] r V'(3) by simp
  have ch': "\<forall>d \<in> set (lcs' @ rcs'). level h d \<and> filled d" using ch c(1) by simp
  show ?thesis
    using inner_pair_borrowed [OF p k c nds ndp V'(4)] sib ch' n
    by (intro exI [of _ "ks1 @ x # ks2"] exI [of _ "cs1 @ [NodeT lp (keys L') lcs', NodeT rp (keys R') rcs'] @ cs2"]) auto
qed

section \<open>Borrowing\<close>

text \<open>The lack of an underfull inner node, and a sibling's answer to it.\<close>

lemma inner_ask:
  assumes "internal_wf p" "same_page p q" "length (keys p) = m" "127 \<le> m" "k \<le> 126" "sz = 16 * k + 8"
  shows "InternalPage_CanLend q (u16 (2027 - int sz)) =
    \<lparr>can_borrow = (254 \<le> m + k), borrow_amount = (if 254 \<le> m + k then 127 - k else 0)\<rparr>"
proof -
  have "internal_wf q" "num_keys q = m"
    using same_page_internal(1) [OF assms(1,2)] same_page_headers(8) [OF assms(2)] assms(3) by simp_all
  moreover have "u16 (2027 - int sz) = 2027 - (16 * k + 8)"
    using assms(5,6) by (simp add: nat_diff_distrib)
  ultimately show ?thesis using CanLend_pairs [of q k] assms(4,5) by simp
qed

text \<open>The pages the two borrows compute, and the node that has them.\<close>

lemma left_rotation:
  assumes p: "pair_at D V n lo hi pid ks1 k ks2 cs1 (NodeT lp lks lcs) (NodeT rp rks rcs) cs2"
    and sp: "same_page (V pid) pg" "same_page (V lp) L" "same_page (V rp) R"
    and sib: "\<forall>d \<in> set cs1 \<union> set cs2. level (Suc h) d \<and> filled d" and ch: "\<forall>d \<in> set (lcs @ rcs). level h d \<and> filled d"
    and u: "length rks \<le> 126" "127 \<le> length lks" and q: "254 \<le> length lks + length rks" "borrow_amount q = 127 - length rks"
  obtains pg' L' R' where "InternalPage_HandleLeftBorrow pg R L q = Some (pg', R', L')"
    "\<exists>ks' cs'. node_fixed V (V(pid := image pg', rp := image R', lp := image L')) lo hi pid
        (cs1 @ NodeT lp lks lcs # NodeT rp rks rcs # cs2) ks' cs' \<and>
      length ks' = length (ks1 @ k # ks2) \<and> (\<forall>d \<in> set cs'. level (Suc h) d \<and> filled d)"
proof -
  note d = pair_atD [OF p] and sep = pair_separator [OF p sp(1), unfolded root_of.simps]
  have nd: "node_at V lp lks lcs" "node_at V rp rks rcs" and ne: "pid \<noteq> lp" "pid \<noteq> rp" "lp \<noteq> rp"
    using d(5,6,13) by (auto simp: node_at_def)
  note lv = node_same [OF nd(1) sp(2)] node_same [OF nd(2) sp(3)]
  have am: "0 < borrow_amount q" "borrow_amount q \<le> num_keys L" "num_keys R + borrow_amount q \<le> 254"
    and ln: "length lks \<le> 254"
    using lv q u internal_wfD(1) [OF lv(1)] by simp_all
  have "separator pg (length ks1) (ip_id L) (ip_id R)" using sep(5) lv by simp
  from HandleLeftBorrow_views [OF sep(1) lv(5,1) this am] obtain pg' R' L' where
    h: "InternalPage_HandleLeftBorrow pg R L q = Some (pg', R', L')" "rotated (length ks1) pg L R pg' L' R'"
      "num_keys R' = length rks + borrow_amount q" "num_keys L' = length lks - borrow_amount q"
    unfolding lv by blast
  show thesis
    using h(3,4) q u ln ne
    by (intro that [OF h(1)] inner_pair_rotated [OF p sp h(2) _ _ _ _ sib ch]) auto
qed

lemma right_rotation:
  assumes p: "pair_at D V n lo hi pid ks1 k ks2 cs1 (NodeT lp lks lcs) (NodeT rp rks rcs) cs2"
    and sp: "same_page (V pid) pg" "same_page (V lp) L" "same_page (V rp) R"
    and sib: "\<forall>d \<in> set cs1 \<union> set cs2. level (Suc h) d \<and> filled d" and ch: "\<forall>d \<in> set (lcs @ rcs). level h d \<and> filled d"
    and u: "length lks \<le> 126" "127 \<le> length rks" and q: "254 \<le> length lks + length rks" "borrow_amount q = 127 - length lks"
  obtains pg' L' R' where "InternalPage_HandleRightBorrow pg L R q = Some (pg', L', R')"
    "\<exists>ks' cs'. node_fixed V (V(pid := image pg', lp := image L', rp := image R')) lo hi pid
        (cs1 @ NodeT lp lks lcs # NodeT rp rks rcs # cs2) ks' cs' \<and>
      length ks' = length (ks1 @ k # ks2) \<and> (\<forall>d \<in> set cs'. level (Suc h) d \<and> filled d)"
proof -
  note d = pair_atD [OF p] and sep = pair_separator [OF p sp(1), unfolded root_of.simps]
  have nd: "node_at V lp lks lcs" "node_at V rp rks rcs" and ne: "pid \<noteq> lp" "pid \<noteq> rp" "lp \<noteq> rp"
    using d(5,6,13) by (auto simp: node_at_def)
  note lv = node_same [OF nd(1) sp(2)] node_same [OF nd(2) sp(3)]
  have am: "0 < borrow_amount q" "borrow_amount q \<le> num_keys R" "num_keys L + borrow_amount q \<le> 254"
    and ln: "length rks \<le> 254"
    using lv q u internal_wfD(1) [OF lv(5)] by simp_all
  have "separator pg (length ks1) (ip_id L) (ip_id R)" using sep(5) lv by simp
  from HandleRightBorrow_views [OF sep(1) lv(1,5) this am] obtain pg' R' L' where
    h: "InternalPage_HandleRightBorrow pg L R q = Some (pg', L', R')" "rotated (length ks1) pg L R pg' L' R'"
      "num_keys L' = length lks + borrow_amount q" "num_keys R' = length rks - borrow_amount q"
    unfolding lv by blast
  show thesis
    using h(3,4) q u ln ne
    by (intro that [OF h(1)] inner_pair_rotated [OF p sp h(2) _ _ _ _ sib ch]) auto
qed

text \<open>What a merge of inner nodes leaves.\<close>

definition inner_merged :: "('d \<Rightarrow> nat \<Rightarrow> byte) \<Rightarrow> ('d \<Rightarrow> nat) \<Rightarrow> PageID set \<Rightarrow> PageID multiset \<Rightarrow> (PageID \<Rightarrow> nat) \<Rightarrow>
    (PageID \<Rightarrow> mem) \<Rightarrow> PageID \<Rightarrow> nat \<Rightarrow> nat \<Rightarrow> PageID \<Rightarrow> nat \<Rightarrow> Key list \<Rightarrow> page_tree list \<Rightarrow> DeleteStatus \<Rightarrow>
    DeleteStatus \<Rightarrow> 'd BufferPool \<Rightarrow> bool" where
  "inner_merged fb fs D P F V n lo hi pid h ks cs rep r bp' \<longleftrightarrow>
     (\<exists>F' V' ks' cs'. node_fixed V V' lo hi pid cs ks' cs' \<and> Suc (length ks') = length ks \<and>
        (\<forall>d \<in> set cs'. level h d \<and> filled d) \<and> (\<forall>q \<in># P. F' q = F q) \<and>
        r = \<lparr>underflown = (length ks' \<le> 126), ds_page_type = InternalPage, current_size = 16 * length ks' + 8,
          success = success rep\<rparr> \<and>
        cache fb fs D P {} F' V' n bp')"

text \<open>Both merges run the same steps.\<close>

lemma internal_merge_right_left:
  "internal_merge_right os junk i pid child_pid rpid = internal_merge_left os junk i pid rpid child_pid"
  by (intro ext) (simp add: internal_merge_left_def internal_merge_right_def)

text \<open>The pages a merge computes, and the node that has them.\<close>

lemma inner_join:
  assumes p: "pair_at D V n lo hi pid ks1 k ks2 cs1 (NodeT lp lks lcs) (NodeT rp rks rcs) cs2"
    and sp: "same_page (V pid) pg" and u: "length lks + length rks < 254" "126 \<le> length lks + length rks"
  obtains pg' where "DeletePartitionKeyAndChildPtr pg lp rp = Some (k, pg')"
    "num_keys pg' = length (ks1 @ ks2)" "internal_wf pg'"
    "\<forall>L R. same_page (V lp) L \<and> same_page (V rp) R \<longrightarrow>
      node_fixed V (V(pid := image pg', lp := image (InternalPage_MergePages k L R))) lo hi pid
        (cs1 @ NodeT lp lks lcs # NodeT rp rks rcs # cs2) (ks1 @ ks2) (cs1 @ [NodeT lp (lks @ k # rks) (lcs @ rcs)] @ cs2)"
proof -
  note d = pair_atD [OF p] and sep = pair_separator [OF p sp, unfolded root_of.simps]
  have nd: "node_at V lp lks lcs" "node_at V rp rks rcs" and ne: "pid \<noteq> lp" using d(5,6,13) by (auto simp: node_at_def)
  obtain pg' where pg: "DeletePartitionKeyAndChildPtr pg lp rp = Some (keys pg ! length ks1, pg')"
    "keys pg' = delete_at (length ks1) (keys pg)" "children pg' = delete_at (Suc (length ks1)) (children pg)"
    "num_keys pg' = num_keys pg - 1" "ip_type pg' = ip_type pg" "ip_id pg' = ip_id pg"
    using DeletePartition_views [OF sep(1,5)] by blast
  have key: "keys pg ! length ks1 = k" using sep(2) by simp
  note rm = remove_separator_node [OF p sp pg(2-6), of "NodeT lp (lks @ k # rks) (lcs @ rcs)"]
  have n3: "num_keys pg' = length (ks1 @ ks2)" "internal_wf pg'" using rm(2,3) by simp_all
  have "node_fixed V (V(pid := image pg', lp := image (InternalPage_MergePages k L R))) lo hi pid
      (cs1 @ NodeT lp lks lcs # NodeT rp rks rcs # cs2) (ks1 @ ks2) (cs1 @ [NodeT lp (lks @ k # rks) (lcs @ rcs)] @ cs2)"
    if "same_page (V lp) L" "same_page (V rp) R" for L R
  proof -
    define m where "m = InternalPage_MergePages k L R"
    note lv = node_same [OF nd(1) that(1)] same_page_internal(3) [OF _ that(1)]
      and rv = node_same [OF nd(2) that(2)] same_page_internal(3) [OF _ that(2)]
    have "num_keys L + num_keys R + 1 \<le> 254" using lv(2) rv(2) u by simp
    note mv = MergePages_views [OF lv(1) rv(1) this m_def]
    have "sorted (keys m)" unfolding mv(1) lv(3) rv(3) using forest_sorted [OF inner_pair_whole(1) [OF p]] by blast
    then have wf: "internal_wf m" using lv(1,2) rv(2) u mv(3,4) by (simp add: internal_wf_def)
    let ?V = "V(pid := image pg', lp := image m)"
    have n1: "node_at ?V lp (lks @ k # rks) (lcs @ rcs)"
      using image_internal [OF wf] mv lv rv nd by (simp add: node_at_def)
    have n2: "node_at ?V pid (ks1 @ ks2) (cs1 @ [NodeT lp (lks @ k # rks) (lcs @ rcs)] @ cs2)"
      using rm(1) [of V] ne by (simp add: node_at_def)
    show ?thesis unfolding m_def [symmetric] by (rule inner_pair_merged [OF p n1 n2]) simp
  qed
  then show thesis using that [OF pg(1) [unfolded key] n3] by blast
qed

context regular_file begin

lemma internal_borrow_left_correct:
  assumes c: "cache file_byte file_size D (add_mset pid P) {} F V n bp" and few: "size P < 990"
    and p: "pair_at D V n lo hi pid ks1 k ks2 cs1 (NodeT lp lks lcs) (NodeT rp rks rcs) cs2"
    and sib: "\<forall>d \<in> set cs1 \<union> set cs2. level (Suc h) d \<and> filled d" and ch: "\<forall>d \<in> set (lcs @ rcs). level h d \<and> filled d"
    and u: "length rks \<le> 126" "127 \<le> length lks" "current_size rep = 16 * length rks + 8"
  shows "\<exists>out bp'. internal_borrow_left os (F pid) pid rp lp rep bp = Some (out, bp') \<and>
    tried file_byte file_size D P F V n lo hi pid (Suc h) (ks1 @ k # ks2) (cs1 @ NodeT lp lks lcs # NodeT rp rks rcs # cs2) rep
      (length lks + length rks < 254) out bp'"
proof -
  note d = pair_atD [OF p]
  have nd: "node_at V lp lks lcs" "node_at V rp rks rcs" using d(5,6) by (simp_all add: node_at_def)
  have ne: "pid \<noteq> lp" "pid \<noteq> rp" "lp \<noteq> rp" using d(13) by auto
  have lr: "lp \<noteq> 0 \<and> lp < n \<and> lp \<notin> D" "rp \<noteq> 0 \<and> rp < n \<and> rp \<notin> D" using d(15) [of lp] d(15) [of rp] by simp_all
  obtain i bp1 j bp2 F1 F2 where
    i: "request_page os bp lp = Some (i, bp1)" "cache file_byte file_size D (add_mset lp (add_mset pid P)) {} F1 V n bp1"
      "F1 lp = i" "\<forall>x \<in># add_mset pid P. F1 x = F x" and
    j: "request_page os bp1 rp = Some (j, bp2)"
      "cache file_byte file_size D (add_mset rp (add_mset lp (add_mset pid P))) {} F2 V n bp2"
      "F2 lp = i" "F2 rp = j" "F2 pid = F pid" "\<forall>x \<in># P. F2 x = F x" and
    sp: "same_page (V lp) (buffer_pool bp1 i)" "same_page (V pid) (buffer_pool bp2 (F pid))"
      "same_page (V lp) (buffer_pool bp2 i)" "same_page (V rp) (buffer_pool bp2 j)"
    by (rule two_requests [OF c few ne lr])
  define q where "q = InternalPage_CanLend (buffer_pool bp1 i) (u16 (2027 - int (current_size rep)))"
  have q: "can_borrow q \<longleftrightarrow> 254 \<le> length lks + length rks" "can_borrow q \<Longrightarrow> borrow_amount q = 127 - length rks"
    using inner_ask [OF _ sp(1) _ u(2,1,3)] nd by (auto simp: q_def node_at_def)
  show ?thesis
  proof (cases "can_borrow q")
    case False
    have "cache file_byte file_size D (add_mset pid P) {} F1 V n (release_page bp1 lp False)"
      using cache_release [OF i(2), of lp False] by simp
    moreover have "internal_borrow_left os (F pid) pid rp lp rep bp = Some (None, release_page bp1 lp False)"
      using i(1) False by (simp add: internal_borrow_left_def Let_def flip: q_def)
    ultimately show ?thesis using i(4) False q(1) by (auto simp: tried_def)
  next
    case True
    from True q have am: "254 \<le> length lks + length rks" "borrow_amount q = 127 - length rks" by blast+
    obtain pg L R where h: "InternalPage_HandleLeftBorrow (buffer_pool bp2 (F pid)) (buffer_pool bp2 j) (buffer_pool bp2 i) q =
        Some (pg, R, L)"
      and fx: "\<exists>ks' cs'. node_fixed V (V(pid := image pg, rp := image R, lp := image L)) lo hi pid
          (cs1 @ NodeT lp lks lcs # NodeT rp rks rcs # cs2) ks' cs' \<and>
        length ks' = length (ks1 @ k # ks2) \<and> (\<forall>d \<in> set cs'. level (Suc h) d \<and> filled d)"
      by (rule left_rotation [OF p sp(2-4) sib ch u(1,2) am])
    let ?bp' = "release_page (release_page (release_page (write_frame (write_frame (write_frame bp2 (F pid) pg)
      j R) i L) lp True) rp True) pid True"
    note t = tried_done [OF write_three [OF j(2) ne, unfolded j(3-5)] j(6) fx]
    have "internal_borrow_left os (F pid) pid rp lp rep bp = Some (Some (done_report rep), ?bp')"
      using i(1) True j(1) h unfolding internal_borrow_left_def by (simp add: q_def [symmetric] Let_def)
    then show ?thesis using t by blast
  qed
qed

lemma internal_borrow_right_correct:
  assumes c: "cache file_byte file_size D (add_mset pid P) {} F V n bp" and few: "size P < 990"
    and p: "pair_at D V n lo hi pid ks1 k ks2 cs1 (NodeT lp lks lcs) (NodeT rp rks rcs) cs2"
    and sib: "\<forall>d \<in> set cs1 \<union> set cs2. level (Suc h) d \<and> filled d" and ch: "\<forall>d \<in> set (lcs @ rcs). level h d \<and> filled d"
    and u: "length lks \<le> 126" "127 \<le> length rks" "current_size rep = 16 * length lks + 8"
  shows "\<exists>out bp'. internal_borrow_right os (F pid) pid lp rp rep bp = Some (out, bp') \<and>
    tried file_byte file_size D P F V n lo hi pid (Suc h) (ks1 @ k # ks2) (cs1 @ NodeT lp lks lcs # NodeT rp rks rcs # cs2) rep
      (length lks + length rks < 254) out bp'"
proof -
  note d = pair_atD [OF p]
  have nd: "node_at V lp lks lcs" "node_at V rp rks rcs" using d(5,6) by (simp_all add: node_at_def)
  have ne: "pid \<noteq> rp" "pid \<noteq> lp" "rp \<noteq> lp" using d(13) by auto
  have lr: "rp \<noteq> 0 \<and> rp < n \<and> rp \<notin> D" "lp \<noteq> 0 \<and> lp < n \<and> lp \<notin> D" using d(15) [of lp] d(15) [of rp] by simp_all
  obtain i bp1 j bp2 F1 F2 where
    i: "request_page os bp rp = Some (i, bp1)" "cache file_byte file_size D (add_mset rp (add_mset pid P)) {} F1 V n bp1"
      "F1 rp = i" "\<forall>x \<in># add_mset pid P. F1 x = F x" and
    j: "request_page os bp1 lp = Some (j, bp2)"
      "cache file_byte file_size D (add_mset lp (add_mset rp (add_mset pid P))) {} F2 V n bp2"
      "F2 rp = i" "F2 lp = j" "F2 pid = F pid" "\<forall>x \<in># P. F2 x = F x" and
    sp: "same_page (V rp) (buffer_pool bp1 i)" "same_page (V pid) (buffer_pool bp2 (F pid))"
      "same_page (V rp) (buffer_pool bp2 i)" "same_page (V lp) (buffer_pool bp2 j)"
    by (rule two_requests [OF c few ne lr])
  define q where "q = InternalPage_CanLend (buffer_pool bp1 i) (u16 (2027 - int (current_size rep)))"
  have q: "can_borrow q \<longleftrightarrow> 254 \<le> length lks + length rks" "can_borrow q \<Longrightarrow> borrow_amount q = 127 - length lks"
    using inner_ask [OF _ sp(1) _ u(2,1,3)] nd by (auto simp: q_def node_at_def)
  show ?thesis
  proof (cases "can_borrow q")
    case False
    have "cache file_byte file_size D (add_mset pid P) {} F1 V n (release_page bp1 rp False)"
      using cache_release [OF i(2), of rp False] by simp
    moreover have "internal_borrow_right os (F pid) pid lp rp rep bp = Some (None, release_page bp1 rp False)"
      using i(1) False by (simp add: internal_borrow_right_def Let_def flip: q_def)
    ultimately show ?thesis using i(4) False q(1) by (auto simp: tried_def)
  next
    case True
    from True q have am: "254 \<le> length lks + length rks" "borrow_amount q = 127 - length lks" by blast+
    obtain pg L R where h: "InternalPage_HandleRightBorrow (buffer_pool bp2 (F pid)) (buffer_pool bp2 j) (buffer_pool bp2 i) q =
        Some (pg, L, R)"
      and fx: "\<exists>ks' cs'. node_fixed V (V(pid := image pg, lp := image L, rp := image R)) lo hi pid
          (cs1 @ NodeT lp lks lcs # NodeT rp rks rcs # cs2) ks' cs' \<and>
        length ks' = length (ks1 @ k # ks2) \<and> (\<forall>d \<in> set cs'. level (Suc h) d \<and> filled d)"
      by (rule right_rotation [OF p sp(2,4,3) sib ch u(1,2) am])
    let ?bp' = "release_page (release_page (release_page (write_frame (write_frame (write_frame bp2 (F pid) pg)
      j L) i R) rp True) lp True) pid True"
    note t = tried_done [OF write_three [OF j(2) ne, unfolded j(3-5)] j(6) fx]
    have "internal_borrow_right os (F pid) pid lp rp rep bp = Some (Some (done_report rep), ?bp')"
      using i(1) True j(1) h unfolding internal_borrow_right_def by (simp add: q_def [symmetric] Let_def)
    then show ?thesis using t by blast
  qed
qed

section \<open>Merging\<close>

lemma internal_merge_left_correct:
  assumes c: "cache file_byte file_size D (add_mset pid P) {} F V n (bt_pool bt)" and few: "size P < 990"
    and p: "pair_at D V n lo hi pid ks1 k ks2 cs1 (NodeT lp lks lcs) (NodeT rp rks rcs) cs2"
    and sib: "\<forall>d \<in> set cs1 \<union> set cs2. level (Suc h) d \<and> filled d" and ch: "\<forall>d \<in> set (lcs @ rcs). level h d \<and> filled d"
    and u: "length lks + length rks < 254" "126 \<le> length lks + length rks"
  shows "\<exists>r bp'. internal_merge_left os 0 (F pid) pid rp lp rep bt = Some (r, bt\<lparr>bt_pool := bp'\<rparr>) \<and>
    inner_merged file_byte file_size D P F V n lo hi pid (Suc h) (ks1 @ k # ks2) (cs1 @ NodeT lp lks lcs # NodeT rp rks rcs # cs2) rep
      r bp'"
proof -
  note d = pair_atD [OF p]
  have ne: "pid \<noteq> lp" "pid \<noteq> rp" "lp \<noteq> rp" using d(13) by auto
  have lr: "lp \<noteq> 0 \<and> lp < n \<and> lp \<notin> D" "rp \<noteq> 0 \<and> rp < n \<and> rp \<notin> D" using d(15) [of lp] d(15) [of rp] by simp_all
  obtain i bp1 j bp2 F1 F2 where
    i: "request_page os (bt_pool bt) lp = Some (i, bp1)" and
    j: "request_page os bp1 rp = Some (j, bp2)"
      "cache file_byte file_size D (add_mset rp (add_mset lp (add_mset pid P))) {} F2 V n bp2"
      "F2 lp = i" "F2 rp = j" "F2 pid = F pid" "\<forall>x \<in># P. F2 x = F x" and
    sp: "same_page (V pid) (buffer_pool bp2 (F pid))"
    by (rule two_requests [OF c few ne lr])
  obtain pg where pg: "DeletePartitionKeyAndChildPtr (buffer_pool bp2 (F pid)) lp rp = Some (k, pg)"
    and nk: "num_keys pg = length (ks1 @ ks2)" "internal_wf pg"
    and fx: "\<forall>L R. same_page (V lp) L \<and> same_page (V rp) R \<longrightarrow>
      node_fixed V (V(pid := image pg, lp := image (InternalPage_MergePages k L R))) lo hi pid
        (cs1 @ NodeT lp lks lcs # NodeT rp rks rcs # cs2) (ks1 @ ks2) (cs1 @ [NodeT lp (lks @ k # rks) (lcs @ rcs)] @ cs2)"
    by (rule inner_join [OF p sp u])
  let ?bp3 = "write_frame bp2 (F pid) pg" and ?P = "add_mset rp (add_mset lp (add_mset pid P))"
  have c3: "cache file_byte file_size D ?P {pid} F2 (V(pid := image pg)) n ?bp3"
    using cache_write [OF j(2), of pid pg] j(5) by simp
  have s3: "same_page (V lp) (buffer_pool ?bp3 i)" "same_page (V rp) (buffer_pool ?bp3 j)"
    using same_page_sym [OF cache_frame [OF c3, of lp]] same_page_sym [OF cache_frame [OF c3, of rp]] ne j(3,4) by simp_all
  define m where "m = InternalPage_MergePages k (buffer_pool ?bp3 i) (buffer_pool ?bp3 j)"
  let ?V = "V(pid := image pg, lp := image m)"
    and ?bp' = "release_page (release_page (release_page (write_frame ?bp3 i m) lp True) rp False) pid True"
  have "cache file_byte file_size D ?P {lp, pid} F2 ?V n (write_frame ?bp3 i m)" using cache_write [OF c3, of lp m] j(3) by simp
  from cache_release [OF cache_release [OF cache_release [OF this, of lp True], of rp False], of pid True]
  have c4: "cache file_byte file_size D P {} F2 ?V n ?bp'" using ne by (simp add: add_mset_commute insert_Diff_if)
  have rp: "merge_report 0 pg rep = \<lparr>underflown = (length (ks1 @ ks2) \<le> 126), ds_page_type = InternalPage,
      current_size = 16 * length (ks1 @ ks2) + 8, success = success rep\<rparr>"
    using nk by (simp add: merge_report_def CheckUnderflow_zero)
  note fx = fx [rule_format, OF conjI [OF s3], folded m_def]
  have "inner_merged file_byte file_size D P F V n lo hi pid (Suc h) (ks1 @ k # ks2)
      (cs1 @ NodeT lp lks lcs # NodeT rp rks rcs # cs2) rep (merge_report 0 pg rep) ?bp'"
    unfolding inner_merged_def by (intro exI conjI, rule fx) (use c4 j(6) sib ch u rp in auto)
  moreover have "internal_merge_left os 0 (F pid) pid rp lp rep bt = Some (merge_report 0 pg rep, bt\<lparr>bt_pool := ?bp'\<rparr>)"
    using i j(1) pg by (simp add: internal_merge_left_def m_def)
  ultimately show ?thesis by blast
qed

end

end
