(* ===== verification/Child_Repair.thy ===== *)
theory Child_Repair
  imports Inner_Repair
begin

text \<open>
  The choice between the four repairs. Leaves and inner pages are repaired by the same steps with
  other operations: the left sibling is asked, then the right one, then the page is merged with
  the left one or else with the right one. The locale \<open>child_repair\<close> states what the four
  operations have to do, and derives what the repair does; both levels are instances.
\<close>

definition node_in :: "PageID set \<Rightarrow> (PageID \<Rightarrow> mem) \<Rightarrow> PageID \<Rightarrow> nat \<Rightarrow> nat \<Rightarrow> PageID \<Rightarrow> Key list \<Rightarrow> page_tree list \<Rightarrow> bool" where
  "node_in D V n lo hi pid ks cs \<longleftrightarrow>
     tree_at V (NodeT pid ks cs) \<and> forest_in lo hi ks cs \<and> distinct (pid # forest_pages cs) \<and>
     (\<forall>p \<in> set (pid # forest_pages cs). p \<noteq> 0 \<and> p < n \<and> p \<notin> D)"

lemma node_in_pair: "length ks1 = length cs1 \<Longrightarrow> length ks2 = length cs2 \<Longrightarrow>
    node_in D V n lo hi pid (ks1 @ k # ks2) (cs1 @ l # r # cs2) \<longleftrightarrow> pair_at D V n lo hi pid ks1 k ks2 cs1 l r cs2"
  by (simp add: node_in_def pair_at_def)

lemma node_pair:
  assumes "node_in D V n lo hi pid ks (cs1 @ l # r # cs2)"
  shows "\<exists>ks1 k ks2. ks = ks1 @ k # ks2 \<and> pair_at D V n lo hi pid ks1 k ks2 cs1 l r cs2"
proof -
  let ?i = "length cs1"
  have len: "length ks = Suc (length cs1 + length cs2)"
    using forest_length [of lo hi ks "cs1 @ l # r # cs2"] assms by (simp add: node_in_def)
  then have ks: "ks = take ?i ks @ ks ! ?i # drop (Suc ?i) ks" by (simp add: id_take_nth_drop [symmetric])
  have "node_in D V n lo hi pid (take ?i ks @ ks ! ?i # drop (Suc ?i) ks) (cs1 @ l # r # cs2)"
    using assms by (simp flip: ks)
  then have "pair_at D V n lo hi pid (take ?i ks) (ks ! ?i) (drop (Suc ?i) ks) cs1 l r cs2"
    using node_in_pair [of "take ?i ks" cs1 "drop (Suc ?i) ks" cs2] len by simp
  then show ?thesis using ks by blast
qed

lemma siblings_at:
  assumes nd: "node_in D V n lo hi pid ks (cs1 @ c # cs2)" and s: "same_page (V pid) q"
  shows "left_sibling e q (root_of c) = (if cs1 = [] then mk_result 0 e else mk_result (root_of (last cs1)) ErrNone)"
    "right_sibling e q (root_of c) = (if cs2 = [] then mk_result 0 e else mk_result (root_of (hd cs2)) ErrNone)"
proof -
  have wf: "internal_wf (V pid)" "children (V pid) = map root_of (cs1 @ c # cs2)" "keys (V pid) = ks"
    using nd by (simp_all add: node_in_def)
  have ch: "children q = map root_of (cs1 @ c # cs2)" "keys q = ks" using same_page_internal(2,3) [OF wf(1) s] wf by simp_all
  have d: "distinct (children q)" unfolding ch using nd by (intro roots_distinct) (simp add: node_in_def)
  have n: "num_keys q = length cs1 + length cs2"
    using arg_cong [OF ch(2), of length] forest_length [of lo hi ks "cs1 @ c # cs2"] nd by (simp add: node_in_def)
  have i: "length cs1 < length (children q)" "children q ! length cs1 = root_of c" unfolding ch by (simp_all add: nth_append)
  show "left_sibling e q (root_of c) = (if cs1 = [] then mk_result 0 e else mk_result (root_of (last cs1)) ErrNone)"
    using left_sibling_spec [OF d i(1), of e] i(2)
    by (cases cs1 rule: rev_cases) (simp_all add: ch nth_append)
  show "right_sibling e q (root_of c) = (if cs2 = [] then mk_result 0 e else mk_result (root_of (hd cs2)) ErrNone)"
    using right_sibling_spec [OF d i(1), of e] i(2) n by (cases cs2) (simp_all add: ch nth_append)
qed

section \<open>What a repair leaves\<close>

definition node_report :: "Key list \<Rightarrow> Key list \<Rightarrow> DeleteStatus \<Rightarrow> DeleteStatus \<Rightarrow> bool" where
  "node_report ks ks' rep r \<longleftrightarrow>
     ds_page_type r = InternalPage \<and> success r = success rep \<and> length ks \<le> Suc (length ks') \<and>
     (underflown r \<longrightarrow> length ks' \<le> 126 \<and> current_size r = 16 * length ks' + 8) \<and>
     (127 \<le> length ks \<and> \<not> underflown r \<longrightarrow> 127 \<le> length ks')"

text \<open>
  The second case of \<open>settled\<close> is a root that lost its last key: its only child takes its place
  and its page is dead.
\<close>

definition settled :: "('d \<Rightarrow> nat \<Rightarrow> byte) \<Rightarrow> ('d \<Rightarrow> nat) \<Rightarrow> PageID set \<Rightarrow> PageID multiset \<Rightarrow> (PageID \<Rightarrow> nat) \<Rightarrow>
    (PageID \<Rightarrow> mem) \<Rightarrow> PageID \<Rightarrow> nat \<Rightarrow> nat \<Rightarrow> PageID \<Rightarrow> nat \<Rightarrow> Key list \<Rightarrow> page_tree list \<Rightarrow> DeleteStatus \<Rightarrow> PageID \<Rightarrow>
    DeleteStatus \<Rightarrow> 'd BTree \<Rightarrow> bool" where
  "settled fb fs D P F V n lo hi pid h ks cs rep root r bt' \<longleftrightarrow>
     (\<exists>F' V' ks' cs'. node_fixed V V' lo hi pid cs ks' cs' \<and> (\<forall>d \<in> set cs'. level h d \<and> filled d) \<and> (\<forall>q \<in># P. F' q = F q) \<and>
        (if pid = root \<and> ks' = [] \<and> ds_page_type r = InvalidPage
         then h = 0 \<and> success r = success rep \<and> (\<exists>m c. cs' = [c] \<and> root_page_id bt' = root_of c \<and>
                cache fb fs (insert pid D) P {} F' (V'(1 := m)) n (bt_pool bt') \<and> meta_ok (V'(1 := m)) (root_of c))
         else node_report ks ks' rep r \<and> cache fb fs D P {} F' V' n (bt_pool bt') \<and> root_page_id bt' = root))"

lemma settledI:
  assumes "node_fixed V V' lo hi pid cs ks' cs'" "\<forall>d \<in> set cs'. level h d \<and> filled d" "\<forall>q \<in># P. F' q = F q"
    and "node_report ks ks' rep r" "cache fb fs D P {} F' V' n (bt_pool bt')" "root_page_id bt' = root"
  shows "settled fb fs D P F V n lo hi pid h ks cs rep root r bt'"
  unfolding settled_def
  by (intro exI [of _ F'] exI [of _ V'] exI [of _ ks'] exI [of _ cs']) (use assms in \<open>auto simp: node_report_def\<close>)

lemma settled_frames:
  "settled fb fs D P F V n lo hi pid h ks cs rep root r bt' \<Longrightarrow> (\<And>q. q \<in># P \<Longrightarrow> F q = F0 q) \<Longrightarrow>
    settled fb fs D P F0 V n lo hi pid h ks cs rep root r bt'"
  by (simp add: settled_def)

lemma tried_settled:
  assumes "tried fb fs D P F V n lo hi pid h ks cs rep Q (Some r) bp"
  shows "settled fb fs D P F V n lo hi pid h ks cs rep (root_page_id bt) r (bt\<lparr>bt_pool := bp\<rparr>)"
proof -
  obtain F' V' ks' cs' where a: "r = done_report rep" "cache fb fs D P {} F' V' n bp" "\<forall>q \<in># P. F' q = F q"
    "node_fixed V V' lo hi pid cs ks' cs'" "length ks' = length ks" "\<forall>d \<in> set cs'. level h d \<and> filled d"
    using assms unfolding tried_def by auto
  show ?thesis using a by (intro settledI [OF a(4,6,3)]) (simp_all add: node_report_def done_report_def)
qed

lemma inner_merged_settled:
  assumes "inner_merged fb fs D P F V n lo hi pid h ks cs rep r bp"
  shows "settled fb fs D P F V n lo hi pid h ks cs rep (root_page_id bt) r (bt\<lparr>bt_pool := bp\<rparr>)"
proof -
  obtain F' V' ks' cs' where a: "node_fixed V V' lo hi pid cs ks' cs'" "Suc (length ks') = length ks"
    "\<forall>d \<in> set cs'. level h d \<and> filled d" "\<forall>q \<in># P. F' q = F q" "cache fb fs D P {} F' V' n bp"
    "r = \<lparr>underflown = (length ks' \<le> 126), ds_page_type = InternalPage, current_size = 16 * length ks' + 8, success = success rep\<rparr>"
    using assms unfolding inner_merged_def by blast
  show ?thesis using a by (intro settledI [OF a(1,3,4)]) (auto simp: node_report_def)
qed

lemma leaf_merged_settled:
  assumes "leaf_merged fb fs D P F V n lo hi pid ks cs rep root r bt'"
  shows "settled fb fs D P F V n lo hi pid 0 ks cs rep root r bt'"
proof -
  obtain F' V' ks' cs' where a: "node_fixed V V' lo hi pid cs ks' cs'" "Suc (length ks') = length ks"
    "\<forall>d \<in> set cs'. level 0 d \<and> filled d" "\<forall>q \<in># P. F' q = F q" and
    b: "if pid = root \<and> ks' = []
         then r = root_replaced rep \<and> (\<exists>m c. cs' = [c] \<and> root_page_id bt' = root_of c \<and>
                cache fb fs (insert pid D) P {} F' (V'(1 := m)) n (bt_pool bt') \<and> meta_ok (V'(1 := m)) (root_of c))
         else r = \<lparr>underflown = (length ks' \<le> 126), ds_page_type = InternalPage, current_size = 16 * length ks' + 8,
                success = success rep\<rparr> \<and>
              cache fb fs D P {} F' V' n (bt_pool bt') \<and> root_page_id bt' = root"
    using assms unfolding leaf_merged_def by blast
  show ?thesis
  proof (cases "pid = root \<and> ks' = []")
    case True
    then have "r = root_replaced rep" "\<exists>m c. cs' = [c] \<and> root_page_id bt' = root_of c \<and>
        cache fb fs (insert pid D) P {} F' (V'(1 := m)) n (bt_pool bt') \<and> meta_ok (V'(1 := m)) (root_of c)"
      using b by simp_all
    then show ?thesis unfolding settled_def
      by (intro exI [of _ F'] exI [of _ V'] exI [of _ ks'] exI [of _ cs'] conjI a)
        (simp add: True root_replaced_def)
  next
    case False
    then show ?thesis using a(2) b by (intro settledI [OF a(1,3,4)]) (auto simp: node_report_def)
  qed
qed

section \<open>The contract\<close>

text \<open>
  \<open>weak h V c rep\<close>: the child \<open>c\<close> is underfull and \<open>rep\<close> tells its size; \<open>fits V l r\<close>: two
  neighbours go into one page; \<open>free\<close>: what a merge needs to know of the surroundings.
\<close>

locale child_repair = regular_file os file_byte file_size
  for os :: "'d posix" and file_byte and file_size +
  fixes left_none right_none :: ErrType
    and borrow_left borrow_right :: "nat \<Rightarrow> PageID \<Rightarrow> PageID \<Rightarrow> PageID \<Rightarrow> DeleteStatus \<Rightarrow> 'd BufferPool \<Rightarrow>
      (DeleteStatus option \<times> 'd BufferPool) option"
    and merge_left merge_right :: "nat \<Rightarrow> PageID \<Rightarrow> PageID \<Rightarrow> PageID \<Rightarrow> DeleteStatus \<Rightarrow> 'd BTree \<Rightarrow>
      (DeleteStatus \<times> 'd BTree) option"
    and fix_child :: "nat \<Rightarrow> PageID \<Rightarrow> PageID \<Rightarrow> DeleteStatus \<Rightarrow> 'd BTree \<Rightarrow> (DeleteStatus \<times> 'd BTree) option"
    and weak :: "nat \<Rightarrow> (PageID \<Rightarrow> mem) \<Rightarrow> page_tree \<Rightarrow> DeleteStatus \<Rightarrow> bool"
    and fits :: "(PageID \<Rightarrow> mem) \<Rightarrow> page_tree \<Rightarrow> page_tree \<Rightarrow> bool"
    and free :: "PageID set \<Rightarrow> (PageID \<Rightarrow> mem) \<Rightarrow> PageID \<Rightarrow> PageID multiset \<Rightarrow> PageID \<Rightarrow> PageID \<Rightarrow> page_tree \<Rightarrow> page_tree \<Rightarrow> bool"
  assumes none: "left_none \<noteq> ErrNone" "right_none \<noteq> ErrNone"
    and fix_child: "fix_child i pid cp rep bt = do {
        let lc = left_sibling left_none (buffer_pool (bt_pool bt) i) cp;
        (out, bp) \<leftarrow> (if res_err lc = ErrNone then borrow_left i pid cp (res_value lc) rep (bt_pool bt) else Some (None, bt_pool bt));
        case out of
          Some r \<Rightarrow> Some (r, bt\<lparr>bt_pool := bp\<rparr>)
        | None \<Rightarrow> do {
            let rc = right_sibling right_none (buffer_pool bp i) cp;
            (out, bp) \<leftarrow> (if res_err rc = ErrNone then borrow_right i pid cp (res_value rc) rep bp else Some (None, bp));
            case out of
              Some r \<Rightarrow> Some (r, bt\<lparr>bt_pool := bp\<rparr>)
            | None \<Rightarrow>
                if res_err lc = ErrNone then merge_left i pid cp (res_value lc) rep (bt\<lparr>bt_pool := bp\<rparr>)
                else if res_err rc = ErrNone then merge_right i pid cp (res_value rc) rep (bt\<lparr>bt_pool := bp\<rparr>)
                else fall_through pid (bt\<lparr>bt_pool := bp\<rparr>)
          }
      }"
    and borrow_left: "cache file_byte file_size D (add_mset pid P) {} F V n bp \<Longrightarrow> size P < 990 \<Longrightarrow>
        pair_at D V n lo hi pid ks1 k ks2 cs1 l c cs2 \<Longrightarrow> \<forall>d \<in> set cs1 \<union> set cs2. level h d \<and> filled d \<Longrightarrow>
        level h l \<and> filled l \<Longrightarrow> weak h V c rep \<Longrightarrow>
        \<exists>out bp'. borrow_left (F pid) pid (root_of c) (root_of l) rep bp = Some (out, bp') \<and>
          tried file_byte file_size D P F V n lo hi pid h (ks1 @ k # ks2) (cs1 @ l # c # cs2) rep (fits V l c) out bp'"
    and borrow_right: "cache file_byte file_size D (add_mset pid P) {} F V n bp \<Longrightarrow> size P < 990 \<Longrightarrow>
        pair_at D V n lo hi pid ks1 k ks2 cs1 c r cs2 \<Longrightarrow> \<forall>d \<in> set cs1 \<union> set cs2. level h d \<and> filled d \<Longrightarrow>
        level h r \<and> filled r \<Longrightarrow> weak h V c rep \<Longrightarrow>
        \<exists>out bp'. borrow_right (F pid) pid (root_of c) (root_of r) rep bp = Some (out, bp') \<and>
          tried file_byte file_size D P F V n lo hi pid h (ks1 @ k # ks2) (cs1 @ c # r # cs2) rep (fits V c r) out bp'"
    and merge_left: "cache file_byte file_size D (add_mset pid P) {} F V n (bt_pool bt) \<Longrightarrow> size P < 990 \<Longrightarrow>
        pair_at D V n lo hi pid ks1 k ks2 cs1 l c cs2 \<Longrightarrow> \<forall>d \<in> set cs1 \<union> set cs2. level h d \<and> filled d \<Longrightarrow>
        level h l \<and> filled l \<Longrightarrow> weak h V c rep \<Longrightarrow> fits V l c \<Longrightarrow> free D V n P (root_page_id bt) pid l c \<Longrightarrow>
        \<exists>s bt'. merge_left (F pid) pid (root_of c) (root_of l) rep bt = Some (s, bt') \<and>
          settled file_byte file_size D P F V n lo hi pid h (ks1 @ k # ks2) (cs1 @ l # c # cs2) rep (root_page_id bt) s bt'"
    and merge_right: "cache file_byte file_size D (add_mset pid P) {} F V n (bt_pool bt) \<Longrightarrow> size P < 990 \<Longrightarrow>
        pair_at D V n lo hi pid ks1 k ks2 cs1 c r cs2 \<Longrightarrow> \<forall>d \<in> set cs1 \<union> set cs2. level h d \<and> filled d \<Longrightarrow>
        level h r \<and> filled r \<Longrightarrow> weak h V c rep \<Longrightarrow> fits V c r \<Longrightarrow> free D V n P (root_page_id bt) pid c r \<Longrightarrow>
        \<exists>s bt'. merge_right (F pid) pid (root_of c) (root_of r) rep bt = Some (s, bt') \<and>
          settled file_byte file_size D P F V n lo hi pid h (ks1 @ k # ks2) (cs1 @ c # r # cs2) rep (root_page_id bt) s bt'"
begin

text \<open>One attempt to borrow, made or skipped.\<close>

lemma left_attempt:
  assumes c: "cache file_byte file_size D (add_mset pid P) {} F V n bp" and few: "size P < 990"
    and nd: "node_in D V n lo hi pid ks (cs1 @ c # cs2)"
    and sib: "\<forall>d \<in> set cs1 \<union> set cs2. level h d \<and> filled d" and w: "weak h V c rep"
  shows "\<exists>out bp'. (if cs1 \<noteq> [] then borrow_left (F pid) pid (root_of c) (root_of (last cs1)) rep bp else Some (None, bp)) =
      Some (out, bp') \<and>
    tried file_byte file_size D P F V n lo hi pid h ks (cs1 @ c # cs2) rep (cs1 \<noteq> [] \<longrightarrow> fits V (last cs1) c) out bp'"
proof (cases cs1 rule: rev_cases)
  case Nil
  have "tried file_byte file_size D P F V n lo hi pid h ks (cs1 @ c # cs2) rep True None bp"
    unfolding tried_def using c by auto
  then show ?thesis by (simp add: Nil)
next
  case (snoc cs l)
  obtain ks1 k ks2 where p: "ks = ks1 @ k # ks2" "pair_at D V n lo hi pid ks1 k ks2 cs l c cs2"
    using node_pair [of D V n lo hi pid ks cs l c cs2] nd snoc by auto
  from borrow_left [OF c few p(2), of h rep] sib w snoc show ?thesis by (auto simp: p(1))
qed

lemma right_attempt:
  assumes c: "cache file_byte file_size D (add_mset pid P) {} F V n bp" and few: "size P < 990"
    and nd: "node_in D V n lo hi pid ks (cs1 @ c # cs2)"
    and sib: "\<forall>d \<in> set cs1 \<union> set cs2. level h d \<and> filled d" and w: "weak h V c rep"
  shows "\<exists>out bp'. (if cs2 \<noteq> [] then borrow_right (F pid) pid (root_of c) (root_of (hd cs2)) rep bp else Some (None, bp)) =
      Some (out, bp') \<and>
    tried file_byte file_size D P F V n lo hi pid h ks (cs1 @ c # cs2) rep (cs2 \<noteq> [] \<longrightarrow> fits V c (hd cs2)) out bp'"
proof (cases cs2)
  case Nil
  have "tried file_byte file_size D P F V n lo hi pid h ks (cs1 @ c # cs2) rep True None bp"
    unfolding tried_def using c by auto
  then show ?thesis by (simp add: Nil)
next
  case (Cons r cs)
  obtain ks1 k ks2 where p: "ks = ks1 @ k # ks2" "pair_at D V n lo hi pid ks1 k ks2 cs1 c r cs"
    using node_pair [of D V n lo hi pid ks cs1 c r cs] nd Cons by auto
  from borrow_right [OF c few p(2), of h rep] sib w Cons show ?thesis by (auto simp: p(1))
qed

lemma merge_attempt:
  assumes c: "cache file_byte file_size D (add_mset pid P) {} F V n (bt_pool bt)" and few: "size P < 990"
    and nd: "node_in D V n lo hi pid ks (cs1 @ c # cs2)" and ne: "cs1 \<noteq> [] \<or> cs2 \<noteq> []"
    and sib: "\<forall>d \<in> set cs1 \<union> set cs2. level h d \<and> filled d" and w: "weak h V c rep"
    and fl: "cs1 \<noteq> [] \<Longrightarrow> fits V (last cs1) c \<and> free D V n P (root_page_id bt) pid (last cs1) c"
    and fr: "cs2 \<noteq> [] \<Longrightarrow> fits V c (hd cs2) \<and> free D V n P (root_page_id bt) pid c (hd cs2)"
  shows "\<exists>r bt'. (if cs1 \<noteq> [] then merge_left (F pid) pid (root_of c) (root_of (last cs1)) rep bt
      else merge_right (F pid) pid (root_of c) (root_of (hd cs2)) rep bt) = Some (r, bt') \<and>
    settled file_byte file_size D P F V n lo hi pid h ks (cs1 @ c # cs2) rep (root_page_id bt) r bt'"
proof (cases cs1 rule: rev_cases)
  case Nil
  then obtain r cs where cs2: "cs2 = r # cs" using ne by (cases cs2) auto
  obtain ks1 k ks2 where p: "ks = ks1 @ k # ks2" "pair_at D V n lo hi pid ks1 k ks2 cs1 c r cs"
    using node_pair [of D V n lo hi pid ks cs1 c r cs] nd cs2 by auto
  from merge_right [OF c few p(2), of h rep] sib w fr Nil show ?thesis by (auto simp: p(1) cs2)
next
  case (snoc cs l)
  obtain ks1 k ks2 where p: "ks = ks1 @ k # ks2" "pair_at D V n lo hi pid ks1 k ks2 cs l c cs2"
    using node_pair [of D V n lo hi pid ks cs l c cs2] nd snoc by auto
  from merge_left [OF c few p(2), of h rep] sib w fl snoc show ?thesis by (auto simp: p(1))
qed

text \<open>Without a sibling nothing is repaired.\<close>

lemma fix_child_alone:
  assumes c: "cache file_byte file_size D (add_mset pid P) {} F V n (bt_pool bt)" and nd: "node_in D V n lo hi pid ks [c]"
  shows "fix_child (F pid) pid (root_of c) rep bt = fall_through pid bt"
proof -
  have s: "same_page (V pid) (buffer_pool (bt_pool bt) (F pid))" using same_page_sym [OF cache_frame [OF c, of pid]] by simp
  have "node_in D V n lo hi pid ks ([] @ c # [])" using nd by simp
  from siblings_at [OF this s] show ?thesis unfolding fix_child Let_def using none by simp
qed

theorem fix_child_correct:
  assumes c: "cache file_byte file_size D (add_mset pid P) {} F V n (bt_pool bt)" and few: "size P < 990"
    and nd: "node_in D V n lo hi pid ks (cs1 @ c # cs2)" and ne: "ks \<noteq> []"
    and sib: "\<forall>d \<in> set cs1 \<union> set cs2. level h d \<and> filled d" and w: "weak h V c rep"
    and fl: "cs1 \<noteq> [] \<Longrightarrow> free D V n P (root_page_id bt) pid (last cs1) c"
    and fr: "cs2 \<noteq> [] \<Longrightarrow> free D V n P (root_page_id bt) pid c (hd cs2)"
  shows "\<exists>r bt'. fix_child (F pid) pid (root_of c) rep bt = Some (r, bt') \<and>
    settled file_byte file_size D P F V n lo hi pid h ks (cs1 @ c # cs2) rep (root_page_id bt) r bt'"
proof -
  have ne2: "cs1 \<noteq> [] \<or> cs2 \<noteq> []" using forest_two [of lo hi ks "cs1 @ c # cs2"] nd ne by (auto simp: node_in_def)
  have "same_page (V pid) (buffer_pool (bt_pool bt) (F pid))" using same_page_sym [OF cache_frame [OF c, of pid]] by simp
  note lc = siblings_at [OF nd this]
  obtain out1 bp1 where a: "(if cs1 \<noteq> [] then borrow_left (F pid) pid (root_of c) (root_of (last cs1)) rep (bt_pool bt)
      else Some (None, bt_pool bt)) = Some (out1, bp1)"
    "tried file_byte file_size D P F V n lo hi pid h ks (cs1 @ c # cs2) rep (cs1 \<noteq> [] \<longrightarrow> fits V (last cs1) c) out1 bp1"
    using left_attempt [OF c few nd sib w] by blast
  show ?thesis
  proof (cases out1)
    case (Some r)
    have "fix_child (F pid) pid (root_of c) rep bt = Some (r, bt\<lparr>bt_pool := bp1\<rparr>)"
      unfolding fix_child Let_def using lc(1) none a(1) Some by (auto split: if_splits)
    then show ?thesis using tried_settled a(2) Some by metis
  next
    case None
    then obtain F1 where F1: "cache file_byte file_size D (add_mset pid P) {} F1 V n bp1" "\<forall>q \<in># add_mset pid P. F1 q = F q"
      and f1: "cs1 \<noteq> [] \<longrightarrow> fits V (last cs1) c" using a(2) by (auto simp: tried_def)
    have fp: "F1 pid = F pid" using F1(2) by simp
    have "same_page (V pid) (buffer_pool bp1 (F pid))" using same_page_sym [OF cache_frame [OF F1(1), of pid]] fp by simp
    note rc = siblings_at [OF nd this]
    obtain out2 bp2 where b: "(if cs2 \<noteq> [] then borrow_right (F pid) pid (root_of c) (root_of (hd cs2)) rep bp1
        else Some (None, bp1)) = Some (out2, bp2)"
      "tried file_byte file_size D P F1 V n lo hi pid h ks (cs1 @ c # cs2) rep (cs2 \<noteq> [] \<longrightarrow> fits V c (hd cs2)) out2 bp2"
      using right_attempt [OF F1(1) few nd sib w] unfolding fp by blast
    show ?thesis
    proof (cases out2)
      case (Some r)
      have "fix_child (F pid) pid (root_of c) rep bt = Some (r, bt\<lparr>bt_pool := bp2\<rparr>)"
        unfolding fix_child Let_def using lc(1) rc(2) none a(1) b(1) None Some by (auto simp: fp split: if_splits)
      moreover have "settled file_byte file_size D P F1 V n lo hi pid h ks (cs1 @ c # cs2) rep (root_page_id bt) r (bt\<lparr>bt_pool := bp2\<rparr>)"
        using tried_settled b(2) Some by metis
      ultimately show ?thesis using F1(2) settled_frames by fastforce
    next
      case none2: None
      then obtain F2 where F2: "cache file_byte file_size D (add_mset pid P) {} F2 V n bp2" "\<forall>q \<in># add_mset pid P. F2 q = F1 q"
        and f2: "cs2 \<noteq> [] \<longrightarrow> fits V c (hd cs2)" using b(2) by (auto simp: tried_def)
      let ?bt = "bt\<lparr>bt_pool := bp2\<rparr>"
      have "cache file_byte file_size D (add_mset pid P) {} F2 V n (bt_pool ?bt)" using F2(1) by simp
      from merge_attempt [OF this few nd ne2 sib w] f1 f2 fl fr obtain r bt' where
        m: "(if cs1 \<noteq> [] then merge_left (F2 pid) pid (root_of c) (root_of (last cs1)) rep ?bt
          else merge_right (F2 pid) pid (root_of c) (root_of (hd cs2)) rep ?bt) = Some (r, bt')"
        "settled file_byte file_size D P F2 V n lo hi pid h ks (cs1 @ c # cs2) rep (root_page_id ?bt) r bt'" by auto
      have "fix_child (F pid) pid (root_of c) rep bt = Some (r, bt')"
        unfolding fix_child Let_def using lc(1) rc(2) none a(1) b(1) None none2 m(1) ne2 F2(2)
        by (auto simp: fp split: if_splits)
      then show ?thesis using m(2) F1(2) F2(2) settled_frames by fastforce
    qed
  qed
qed

end

section \<open>Both levels\<close>

definition leaf_weak :: "nat \<Rightarrow> (PageID \<Rightarrow> mem) \<Rightarrow> page_tree \<Rightarrow> DeleteStatus \<Rightarrow> bool" where
  "leaf_weak h V c rep \<longleftrightarrow> h = 0 \<and> level 0 c \<and> used_space (V (root_of c)) \<le> 1626 \<and> current_size rep = used_space (V (root_of c))"

definition leaves_fit :: "(PageID \<Rightarrow> mem) \<Rightarrow> page_tree \<Rightarrow> page_tree \<Rightarrow> bool" where
  "leaves_fit V l r \<longleftrightarrow> used_space (V (root_of l)) + used_space (V (root_of r)) \<le> 4065"

definition leaf_free :: "PageID set \<Rightarrow> (PageID \<Rightarrow> mem) \<Rightarrow> PageID \<Rightarrow> PageID multiset \<Rightarrow> PageID \<Rightarrow> PageID \<Rightarrow> page_tree \<Rightarrow>
    page_tree \<Rightarrow> bool" where
  "leaf_free D V n P root pid l r \<longleftrightarrow> link_ok D V n [pid, root_of l, root_of r] (right_pid (V (root_of r))) \<and>
     (pid = root \<longrightarrow> root_pin D V n P [root_of r, root_of l, pid])"

definition inner_weak :: "nat \<Rightarrow> (PageID \<Rightarrow> mem) \<Rightarrow> page_tree \<Rightarrow> DeleteStatus \<Rightarrow> bool" where
  "inner_weak h V c rep \<longleftrightarrow> (\<exists>h' pid ks cs. h = Suc h' \<and> c = NodeT pid ks cs \<and> length ks \<le> 126 \<and>
     current_size rep = 16 * length ks + 8 \<and> (\<forall>d \<in> set cs. level h' d \<and> filled d))"

fun inner_fit :: "(PageID \<Rightarrow> mem) \<Rightarrow> page_tree \<Rightarrow> page_tree \<Rightarrow> bool" where
  "inner_fit V (NodeT lp lks lcs) (NodeT rp rks rcs) \<longleftrightarrow> length lks + length rks < 254"
| "inner_fit V l r \<longleftrightarrow> False"

lemma level_zero: "level 0 t \<longleftrightarrow> (\<exists>pid ts. t = LeafT pid ts)"
  by (cases t) auto

sublocale regular_file \<subseteq> leaf_fix: child_repair os file_byte file_size LeftLeafSiblingDoesNotExist RightLeafSiblingDoesNotExist
  "leaf_borrow_left os" "leaf_borrow_right os" "leaf_merge_left os 0" "leaf_merge_right os 0" "fix_leaf_child os 0"
  leaf_weak leaves_fit leaf_free
proof (unfold_locales, goal_cases)
  case 3
  show ?case unfolding fix_leaf_child_def GetLeafLeftSibling_def GetLeafRightSibling_def Let_def by (rule refl)
next
  case (4 D pid P F V n bp lo hi ks1 k ks2 cs1 l c cs2 h rep)
  then show ?case using leaf_borrow_left_correct [of D pid P F V n bp lo hi ks1 k ks2 cs1]
    by (auto simp: leaf_weak_def level_zero leaves_fit_def)
next
  case (5 D pid P F V n bp lo hi ks1 k ks2 cs1 c r cs2 h rep)
  then show ?case using leaf_borrow_right_correct [of D pid P F V n bp lo hi ks1 k ks2 cs1]
    by (auto simp: leaf_weak_def level_zero leaves_fit_def)
next
  case (6 D pid P F V n bt lo hi ks1 k ks2 cs1 l c cs2 h rep)
  then show ?case using leaf_merge_left_correct [of D pid P F V n bt lo hi ks1 k ks2 cs1] leaf_merged_settled
    by (fastforce simp: leaf_weak_def level_zero leaves_fit_def leaf_free_def)
next
  case (7 D pid P F V n bt lo hi ks1 k ks2 cs1 c r cs2 h rep)
  then show ?case using leaf_merge_right_correct [of D pid P F V n bt lo hi ks1 k ks2 cs1] leaf_merged_settled
    by (fastforce simp: leaf_weak_def level_zero leaves_fit_def leaf_free_def)
qed simp_all

lemma level_Suc: "level (Suc h) t \<longleftrightarrow> (\<exists>pid ks cs. t = NodeT pid ks cs \<and> (\<forall>c \<in> set cs. level h c))"
  by (cases t) auto

sublocale regular_file \<subseteq> inner_fix: child_repair os file_byte file_size LeftInternalSiblingDoesNotExist
  RightInternalSiblingDoesNotExist "internal_borrow_left os" "internal_borrow_right os" "internal_merge_left os 0"
  "internal_merge_right os 0" "fix_internal_child os 0" inner_weak inner_fit "\<lambda>_ _ _ _ _ _ _ _. True"
proof (unfold_locales, goal_cases)
  case 3
  show ?case unfolding fix_internal_child_def GetInternalLeftSibling_def GetInternalRightSibling_def Let_def by (rule refl)
next
  case (4 D pid P F V n bp lo hi ks1 k ks2 cs1 l c cs2 h rep)
  obtain h' rp rks rcs where c: "h = Suc h'" "c = NodeT rp rks rcs" "length rks \<le> 126"
    "current_size rep = 16 * length rks + 8" "\<forall>d \<in> set rcs. level h' d \<and> filled d"
    using 4(6) by (auto simp: inner_weak_def)
  obtain lp lks lcs where l: "l = NodeT lp lks lcs" "\<forall>d \<in> set lcs. level h' d \<and> filled d" "127 \<le> length lks"
    using 4(5) by (auto simp: c(1) level_Suc)
  show ?case
    using internal_borrow_left_correct [OF 4(1,2) 4(3) [unfolded c(2) l(1)], of h' rep] 4(4) c l by (auto simp: ball_Un)
next
  case (5 D pid P F V n bp lo hi ks1 k ks2 cs1 c r cs2 h rep)
  obtain h' lp lks lcs where c: "h = Suc h'" "c = NodeT lp lks lcs" "length lks \<le> 126"
    "current_size rep = 16 * length lks + 8" "\<forall>d \<in> set lcs. level h' d \<and> filled d"
    using 5(6) by (auto simp: inner_weak_def)
  obtain rp rks rcs where r: "r = NodeT rp rks rcs" "\<forall>d \<in> set rcs. level h' d \<and> filled d" "127 \<le> length rks"
    using 5(5) by (auto simp: c(1) level_Suc)
  show ?case
    using internal_borrow_right_correct [OF 5(1,2) 5(3) [unfolded c(2) r(1)], of h' rep] 5(4) c r by (auto simp: ball_Un)
next
  case (6 D pid P F V n bt lo hi ks1 k ks2 cs1 l c cs2 h rep)
  obtain h' rp rks rcs where c: "h = Suc h'" "c = NodeT rp rks rcs" "length rks \<le> 126"
    "current_size rep = 16 * length rks + 8" "\<forall>d \<in> set rcs. level h' d \<and> filled d"
    using 6(6) by (auto simp: inner_weak_def)
  obtain lp lks lcs where l: "l = NodeT lp lks lcs" "\<forall>d \<in> set lcs. level h' d \<and> filled d" "127 \<le> length lks"
    using 6(5) by (auto simp: c(1) level_Suc)
  show ?case
    using internal_merge_left_correct [OF 6(1,2) 6(3) [unfolded c(2) l(1)], of h' rep] 6(4,7) c l inner_merged_settled
    by (fastforce simp: ball_Un)
next
  case (7 D pid P F V n bt lo hi ks1 k ks2 cs1 c r cs2 h rep)
  obtain h' lp lks lcs where c: "h = Suc h'" "c = NodeT lp lks lcs" "length lks \<le> 126"
    "current_size rep = 16 * length lks + 8" "\<forall>d \<in> set lcs. level h' d \<and> filled d"
    using 7(6) by (auto simp: inner_weak_def)
  obtain rp rks rcs where r: "r = NodeT rp rks rcs" "\<forall>d \<in> set rcs. level h' d \<and> filled d" "127 \<le> length rks"
    using 7(5) by (auto simp: c(1) level_Suc)
  show ?case
    using internal_merge_left_correct [OF 7(1,2) 7(3) [unfolded c(2) r(1)], of h' rep] 7(4,7) c r inner_merged_settled
    unfolding internal_merge_right_left by (fastforce simp: ball_Un)
qed simp_all

end
