(* ===== verification/Tree_Delete.thy ===== *)
theory Tree_Delete
  imports Child_Repair
begin

text \<open>
  Deletion in a tree: the tuple of the key disappears, the tree stays in order, its leaves stay
  linked, and a report says how full the node is that was left behind.
\<close>

section \<open>Removing a key from the sequence of all tuples\<close>

definition drop_key :: "Key \<Rightarrow> byte list list \<Rightarrow> byte list list" where
  "drop_key x = filter (\<lambda>u. tuple_key u \<noteq> x)"

definition hit :: "Key \<Rightarrow> page_tree \<Rightarrow> bool" where
  "hit x t \<longleftrightarrow> x \<in> tuple_key ` set (tree_tuples t)"

lemma drop_key_append: "drop_key x (xs @ ys) = drop_key x xs @ drop_key x ys"
  by (simp add: drop_key_def)

lemma delete_first_strict: "sorted_wrt (<) (map tuple_key ts) \<Longrightarrow> delete_first (has_key x) ts = drop_key x ts"
proof (induction ts)
  case (Cons u ts)
  have "filter (\<lambda>v. tuple_key v \<noteq> x) ts = ts" if "tuple_key u = x"
    using Cons.prems that by (auto simp: filter_id_conv)
  then show ?case using Cons by (auto simp: drop_key_def has_key_def)
qed (simp add: drop_key_def)

lemma drop_key_ordered: "ordered lo hi ts \<Longrightarrow> ordered lo hi (drop_key x ts)"
  by (auto simp: ordered_def drop_key_def sorted_wrt_map sorted_wrt_filter)

lemma key_elsewhere:
  assumes "ordered lo m xs" "ordered m' hi zs" "key_in m m' x" "u \<in> set xs \<union> set zs"
  shows "tuple_key u \<noteq> x"
  using assms by (fastforce simp: ordered_def key_in_def)

lemma drop_key_middle:
  assumes "ordered lo m xs" "ordered m' hi zs" "key_in m m' x"
  shows "drop_key x (xs @ ys @ zs) = xs @ drop_key x ys @ zs"
proof -
  have "drop_key x xs = xs" "drop_key x zs = zs"
    unfolding drop_key_def filter_id_conv using key_elsewhere [OF assms] by auto
  then show ?thesis by (simp add: drop_key_append)
qed

lemma hit_middle:
  assumes "left_part lo ks1 cs1" "right_part hi ks2 cs2" "key_in (lower lo ks1) (upper hi ks2) x"
  shows "hit x (NodeT pid ks (cs1 @ c # cs2)) \<longleftrightarrow> hit x c"
  using key_elsewhere [OF left_part_ordered [OF assms(1), THEN conjunct1] right_part_ordered [OF assms(2), THEN conjunct1] assms(3)]
  by (fastforce simp: hit_def)

section \<open>What a deletion leaves of a tree\<close>

definition pruned :: "(PageID \<Rightarrow> mem) \<Rightarrow> (PageID \<Rightarrow> mem) \<Rightarrow> nat \<Rightarrow> nat \<Rightarrow> nat \<Rightarrow> Key \<Rightarrow> page_tree \<Rightarrow> page_tree \<Rightarrow> bool" where
  "pruned V V' lo hi h key t t' \<longleftrightarrow>
     root_of t' = root_of t \<and> tree_at V' t' \<and> tree_in lo hi t' \<and> level h t' \<and>
     tree_tuples t' = drop_key key (tree_tuples t) \<and> distinct (tree_pages t') \<and> set (tree_pages t') \<subseteq> set (tree_pages t) \<and>
     relinks V V' (leaf_pids t) (leaf_pids t') \<and> (\<forall>q. q \<notin> set (tree_pages t) \<longrightarrow> alike (V q) (V' q))"

text \<open>A child in the middle of a node was pruned, so the node was.\<close>

lemma pruned_node:
  assumes nd: "node_in D V n lo hi pid (ks1 @ ks2) (cs1 @ c # cs2)" and l: "length ks1 = length cs1" "length ks2 = length cs2"
    and k: "key_in (lower lo ks1) (upper hi ks2) key" and lv: "\<forall>d \<in> set cs1 \<union> set cs2. level h d"
    and p: "pruned V V1 (lower lo ks1) (upper hi ks2) h key c c1"
  shows "pruned V V1 lo hi (Suc h) key (NodeT pid (ks1 @ ks2) (cs1 @ c # cs2)) (NodeT pid (ks1 @ ks2) (cs1 @ c1 # cs2))"
    "node_in D V1 n lo hi pid (ks1 @ ks2) (cs1 @ c1 # cs2)"
proof -
  note q = p [unfolded pruned_def]
  have d: "distinct (pid # forest_pages (cs1 @ c # cs2))" "forest_in lo hi (ks1 @ ks2) (cs1 @ c # cs2)"
    "node_at V pid (ks1 @ ks2) (cs1 @ c # cs2)" "\<forall>x \<in> set cs1 \<union> set cs2. tree_at V x"
    using nd unfolding node_in_def tree_at_node by auto
  have out: "alike (V x) (V1 x)" if "x \<notin> set (tree_pages c)" for x using q that by blast
  have f: "forest_in lo hi (ks1 @ ks2) (cs1 @ c1 # cs2)" "left_part lo ks1 cs1" "right_part hi ks2 cs2"
    using d(2) q unfolding forest_focus [OF l] by simp_all
  have "V1 pid = V pid" using d(1,3) by (intro alike_internal out) (auto simp: node_at_def)
  then have nd1: "node_at V1 pid (ks1 @ ks2) (cs1 @ c1 # cs2)" using d(3) q by (simp add: node_at_def)
  have sib: "tree_at V1 x" if x: "x \<in> set cs1 \<union> set cs2" for x
  proof (rule tree_at_alike)
    show "tree_at V x" using x d(4) by blast
    show "alike (V y) (V1 y)" if "y \<in> set (tree_pages x)" for y
      using d(1) x that by (intro out) (auto dest: forest_pages_in)
  qed
  have at: "tree_at V1 (NodeT pid (ks1 @ ks2) (cs1 @ c1 # cs2))" unfolding tree_at_node using nd1 sib q by auto
  have sub: "set (tree_pages c1) \<subseteq> set (tree_pages c)" "distinct (tree_pages c1)" using q by simp_all
  have dist: "distinct (pid # forest_pages (cs1 @ c1 # cs2))" using d(1) sub by auto
  have lk: "relinks V V1 (forest_leaves cs1 @ leaf_pids c @ forest_leaves cs2) (forest_leaves cs1 @ leaf_pids c1 @ forest_leaves cs2)"
  proof (rule relinks_middle)
    show "relinks V V1 (leaf_pids c) (leaf_pids c1)" using q by blast
    show "right_pid (V1 x) = right_pid (V x)" if "x \<in> set (forest_leaves cs1) \<union> set (forest_leaves cs2)" for x
      using that d(1) forest_leaves_pages by (intro alike_right out) auto
  qed
  have ts: "forest_tuples (cs1 @ c1 # cs2) = drop_key key (forest_tuples (cs1 @ c # cs2))"
    using drop_key_middle [OF left_part_ordered [OF f(2), THEN conjunct1] right_part_ordered [OF f(3), THEN conjunct1] k] q
    by (simp flip: forest_tuples_def)
  show "pruned V V1 lo hi (Suc h) key (NodeT pid (ks1 @ ks2) (cs1 @ c # cs2)) (NodeT pid (ks1 @ ks2) (cs1 @ c1 # cs2))"
    unfolding pruned_def node_simps tree_in.simps root_of.simps
    using at f(1) lv q ts dist sub lk out by auto
  show "node_in D V1 n lo hi pid (ks1 @ ks2) (cs1 @ c1 # cs2)"
    using at f(1) dist sub nd unfolding node_in_def by auto
qed

text \<open>A repair after that does not change the picture.\<close>

lemma pruned_fixed:
  assumes p: "pruned V V1 lo hi (Suc h) key t (NodeT pid ks cs)" and f: "node_fixed V1 V2 lo hi pid cs ks' cs'"
    and lv: "\<forall>d \<in> set cs'. level h d"
  shows "pruned V V2 lo hi (Suc h) key t (NodeT pid ks' cs')"
proof -
  note q = p [unfolded pruned_def node_simps tree_in.simps root_of.simps] and g = f [unfolded node_fixed_def]
  have "alike (V x) (V2 x)" if "x \<notin> set (tree_pages t)" for x
  proof (rule alike_trans)
    show "alike (V x) (V1 x)" using q that by blast
    have "x \<noteq> pid" "x \<notin> set (forest_pages cs)" using q that by auto
    then show "alike (V1 x) (V2 x)" using g by blast
  qed
  moreover have "relinks V V2 (leaf_pids t) (forest_leaves cs')" using q g relinks_trans by blast
  ultimately show ?thesis
    unfolding pruned_def node_simps tree_in.simps root_of.simps using q g lv by auto
qed

section \<open>The reports\<close>

text \<open>What a report says of the tree it comes from; the sizes are exact where they are used.\<close>

fun report_of_tree :: "(PageID \<Rightarrow> mem) \<Rightarrow> page_tree \<Rightarrow> page_tree \<Rightarrow> DeleteStatus \<Rightarrow> bool" where
  "report_of_tree V t (LeafT pid ts) r \<longleftrightarrow> ds_page_type r = LeafPage \<and>
     (underflown r \<longrightarrow> used_space (V pid) \<le> 1626 \<and> current_size r = used_space (V pid))"
| "report_of_tree V t (NodeT pid ks cs) r \<longleftrightarrow> ds_page_type r = InternalPage \<and>
     (underflown r \<longrightarrow> length ks \<le> 126 \<and> current_size r = 16 * length ks + 8) \<and>
     (filled t \<longrightarrow> (\<forall>d \<in> set cs. filled d) \<and> (\<not> underflown r \<longrightarrow> 127 \<le> length ks))"

text \<open>
  Success is reported only when the key was there. The converse needs every node to have a
  separator: a node without one has no sibling for its child, and then the report is lost.
\<close>

definition success_ok :: "Key \<Rightarrow> page_tree \<Rightarrow> DeleteStatus \<Rightarrow> bool" where
  "success_ok key t r \<longleftrightarrow> (success r \<longrightarrow> hit key t) \<and> (keyed t \<longrightarrow> success r = hit key t)"

definition deleted :: "('d \<Rightarrow> nat \<Rightarrow> byte) \<Rightarrow> ('d \<Rightarrow> nat) \<Rightarrow> PageID set \<Rightarrow> PageID multiset \<Rightarrow> (PageID \<Rightarrow> nat) \<Rightarrow>
    (PageID \<Rightarrow> mem) \<Rightarrow> PageID \<Rightarrow> nat \<Rightarrow> nat \<Rightarrow> nat \<Rightarrow> Key \<Rightarrow> page_tree \<Rightarrow> PageID \<Rightarrow> DeleteStatus \<Rightarrow> 'd BTree \<Rightarrow> bool" where
  "deleted fb fs D P F V n lo hi h key t root r bt' \<longleftrightarrow>
     (\<exists>F' V' t'. cache fb fs D P {} F' V' n (bt_pool bt') \<and> (\<forall>q \<in># P. F' q = F q) \<and> root_page_id bt' = root \<and>
        pruned V V' lo hi h key t t' \<and> chained t' \<and> report_of_tree V' t t' r \<and> success_ok key t r)"

text \<open>The root lost its last key and its only child took its place.\<close>

definition collapsed :: "('d \<Rightarrow> nat \<Rightarrow> byte) \<Rightarrow> ('d \<Rightarrow> nat) \<Rightarrow> PageID set \<Rightarrow> PageID multiset \<Rightarrow> (PageID \<Rightarrow> nat) \<Rightarrow>
    (PageID \<Rightarrow> mem) \<Rightarrow> PageID \<Rightarrow> nat \<Rightarrow> nat \<Rightarrow> nat \<Rightarrow> Key \<Rightarrow> page_tree \<Rightarrow> DeleteStatus \<Rightarrow> 'd BTree \<Rightarrow> bool" where
  "collapsed fb fs D P F V n lo hi h key t r bt' \<longleftrightarrow>
     (\<exists>F' V' m c. h = 1 \<and> cache fb fs (insert (root_of t) D) P {} F' (V'(1 := m)) n (bt_pool bt') \<and>
        meta_ok (V'(1 := m)) (root_of c) \<and> root_page_id bt' = root_of c \<and>
        pruned V V' lo hi h key t (NodeT (root_of t) [] [c]) \<and> success_ok key t r)"

section \<open>Deletion in a leaf\<close>

lemma DeleteTuple_links:
  assumes "LeafPage_DeleteTuple p x = (b, q)"
  shows "same_links p q" "\<not> b \<Longrightarrow> q = p"
  using assms by (auto simp: LeafPage_DeleteTuple_def Let_def same_links_def mem_simps split: if_splits)

lemma lens_live_mark: "lens (live (ss[k := s\<lparr>is_deleted := True\<rparr>])) \<le> lens (live ss)"
proof (induction ss arbitrary: k)
  case (Cons a ss)
  show ?case
  proof (cases k)
    case (Suc j)
    then show ?thesis using Cons.IH [of j] by simp
  qed simp
qed simp

lemma DeleteTuple_used:
  assumes wf: "leaf_wf p" and r: "LeafPage_DeleteTuple p x = (b, q)"
  shows "used_space q \<le> used_space p"
proof -
  define k where "k = LeafPage_lower_bound p (slot_array_size p) x"
  have k: "k \<le> slot_array_size p" using lower_bound_cut(1) [OF wf wf, of x] by (simp add: k_def)
  consider "q = p" | "k < slot_array_size p" "q = mark_deleted p k"
    using r k unfolding LeafPage_DeleteTuple_def Let_def mark_deleted_def k_def [symmetric]
    by (cases "k = slot_array_size p"; cases "GetKeyFromSlotElement p k = x"; cases "is_deleted (slot_at p k)") simp_all
  then show ?thesis
  proof cases
    case 2
    have "slot_array_size q = slot_array_size p" by (simp add: 2(2) mark_deleted_def mem_simps)
    then show ?thesis using lens_live_mark by (simp add: used_space_def 2(2) slots_mark [OF 2(1)])
  qed simp
qed

lemma delete_in_leaf_exact:
  assumes c: "cache file_byte file_size D (add_mset pid P) {} F V n (bt_pool bt)"
    and t: "tree_at V (LeafT pid ts)" "tree_in lo hi (LeafT pid ts)"
  shows "\<exists>r bp V'. delete_in_leaf (F pid) pid key bt = (r, bt\<lparr>bt_pool := bp\<rparr>) \<and>
    cache file_byte file_size D P {} F V' n bp \<and> pruned V V' lo hi 0 key (LeafT pid ts) (LeafT pid (drop_key key ts)) \<and>
    ds_page_type r = LeafPage \<and> underflown r = (used_space (V' pid) \<le> 1626) \<and> current_size r = used_space (V' pid) \<and>
    success r = hit key (LeafT pid ts) \<and> used_space (V' pid) \<le> used_space (V pid)"
proof -
  let ?p = "buffer_pool (bt_pool bt) (F pid)"
  have sp: "same_page (V pid) ?p" using same_page_sym [OF cache_frame [OF c, of pid]] by simp
  have v: "leaf_wf (V pid)" "page_id (V pid) = pid" "tuples (V pid) = ts" using t(1) by simp_all
  note p = same_page_leaf [OF v(1) sp] same_page_headers [OF sp]
  obtain b q where d: "LeafPage_DeleteTuple ?p key = (b, q)" by fastforce
  note dc = DeleteTuple_correct [OF p(1) d] and dl = DeleteTuple_links [OF d]
  have srt: "sorted_wrt (<) (map tuple_key ts)" using t(2) by simp
  have ts: "tuples q = drop_key key ts" using dc(2) delete_first_strict [OF srt] p(2) v(3) by simp
  have b: "b \<longleftrightarrow> hit key (LeafT pid ts)" using dc(3) p(2) v(3) by (auto simp: hit_def has_key_def)
  have us: "u16 (int PAGE_SIZE - int LEAF_PAGE_HEADER_SIZE - int (u16 (int (CheckAvailableSpace q) + int (CheckGarbageBytes q)))) = used_space q"
  proof -
    have "CheckAvailableSpace q + CheckGarbageBytes q + used_space q = 4065" by (rule space_accounting [OF dc(1)])
    then have "int (CheckAvailableSpace q) + int (CheckGarbageBytes q) = 4065 - int (used_space q)" "used_space q \<le> 4065" by linarith+
    then show ?thesis by (simp add: nat_diff_distrib)
  qed
  define r where "r = \<lparr>underflown = (used_space q \<le> 1626), ds_page_type = LeafPage, current_size = used_space q, success = b\<rparr>"
  let ?V = "if b then V(pid := image q) else V" and ?bp = "release_page (write_frame (bt_pool bt) (F pid) q) pid b"
  have e: "delete_in_leaf (F pid) pid key bt = (r, bt\<lparr>bt_pool := ?bp\<rparr>)"
    using us d by (simp add: delete_in_leaf_def r_def Let_def)
  have ca: "cache file_byte file_size D P {} F ?V n ?bp"
  proof (cases b)
    case True
    then show ?thesis using cache_release [OF cache_write [OF c, of pid q], of pid True] by simp
  next
    case False
    then have "write_frame (bt_pool bt) (F pid) q = bt_pool bt" using dl(2) by (simp add: write_frame_def)
    then show ?thesis using False cache_release [OF c, of pid False] by simp
  qed
  have q: "leaf_wf (?V pid) \<and> page_id (?V pid) = pid \<and> tuples (?V pid) = drop_key key ts \<and> right_pid (?V pid) = right_pid (V pid) \<and>
      used_space (?V pid) = used_space q"
  proof (cases b)
    case True
    then show ?thesis using image_leaf_facts [OF dc(1)] dc(1) ts dl(1) p v by (simp add: same_links_def)
  next
    case False
    then have "q = ?p" using dl(2) by simp
    then show ?thesis using False ts v p same_page_used [OF v(1) sp] by simp
  qed
  have o: "ordered lo hi (drop_key key ts)" using t(2) by (intro drop_key_ordered) (simp add: ordered_def)
  have "pruned V ?V lo hi 0 key (LeafT pid ts) (LeafT pid (drop_key key ts))"
    unfolding pruned_def using q o by (auto simp: ordered_def intro!: relinks_frame)
  moreover have "used_space (?V pid) \<le> used_space (V pid)"
    using q DeleteTuple_used [OF p(1) d] same_page_used [OF v(1) sp] by simp
  ultimately show ?thesis
    using e ca b q
    by (intro exI [of _ r] exI [of _ ?bp] exI [of _ ?V] conjI) (simp_all add: r_def)
qed

lemma delete_in_leaf_correct:
  assumes c: "cache file_byte file_size D (add_mset pid P) {} F V n (bt_pool bt)" and root: "root_page_id bt = root"
    and t: "tree_at V (LeafT pid ts)" "tree_in lo hi (LeafT pid ts)"
  shows "\<exists>r bt'. delete_in_leaf (F pid) pid key bt = (r, bt') \<and> deleted file_byte file_size D P F V n lo hi 0 key (LeafT pid ts) root r bt'"
proof -
  from delete_in_leaf_exact [OF c t, of key] obtain r bp V' where
    d: "delete_in_leaf (F pid) pid key bt = (r, bt\<lparr>bt_pool := bp\<rparr>)" "cache file_byte file_size D P {} F V' n bp"
      "pruned V V' lo hi 0 key (LeafT pid ts) (LeafT pid (drop_key key ts))"
    and r: "report_of_tree V' (LeafT pid ts) (LeafT pid (drop_key key ts)) r" "success_ok key (LeafT pid ts) r"
    by (auto simp: success_ok_def)
  have "deleted file_byte file_size D P F V n lo hi 0 key (LeafT pid ts) root r (bt\<lparr>bt_pool := bp\<rparr>)"
    unfolding deleted_def
    by (intro exI [of _ F] exI [of _ V'] exI [of _ "LeafT pid (drop_key key ts)"]) (use d(2,3) r root in simp)
  with d(1) show ?thesis by blast
qed

section \<open>The link that leaves a subtree\<close>

lemma link_ok_mono: "link_ok D V n ps e \<Longrightarrow> set qs \<subseteq> set ps \<Longrightarrow> link_ok D V n qs e"
  by (auto simp: link_ok_def)

lemma link_ok_alike: "link_ok D V n ps e \<Longrightarrow> (e \<noteq> 0 \<Longrightarrow> alike (V e) (V' e)) \<Longrightarrow> link_ok D V' n ps e"
  using alike_leaf by (auto simp: link_ok_def)

lemma tree_leaf_page: "tree_at V t \<Longrightarrow> p \<in> set (leaf_pids t) \<Longrightarrow> leaf_wf (V p)"
  by (induction t) auto

lemma child_link:
  assumes nd: "node_in D V n lo hi pid ks (cs1 @ c # cs2)" and lk: "linked V (forest_leaves (cs1 @ c # cs2)) e"
    and e: "link_ok D V n (pid # forest_pages (cs1 @ c # cs2)) e"
  obtains e' where "linked V (leaf_pids c) e'" "link_ok D V n (pid # forest_pages cs1 @ tree_pages c) e'"
proof -
  have f: "forest_in lo hi ks (cs1 @ c # cs2)" and at: "\<forall>d \<in> set (cs1 @ c # cs2). tree_at V d"
    and d: "distinct (pid # forest_pages (cs1 @ c # cs2))"
    and pg: "\<forall>p \<in> set (pid # forest_pages (cs1 @ c # cs2)). p \<noteq> 0 \<and> p < n \<and> p \<notin> D"
    using nd unfolding node_in_def tree_at_node by auto
  have ne: "leaf_pids x \<noteq> []" if "x \<in> set (cs1 @ c # cs2)" for x
    using forest_member [OF f that] tree_in_leaves by blast
  define e' where "e' = hd (forest_leaves cs2 @ [e])"
  have lc: "linked V (leaf_pids c @ forest_leaves cs2) e"
    using lk linked_append [of "forest_leaves cs1" "leaf_pids c @ forest_leaves cs2"] ne [of c]
    by (cases "forest_leaves cs1 = []") auto
  then have l: "linked V (leaf_pids c) e'"
    using linked_append [of "leaf_pids c" "forest_leaves cs2"] ne [of c] by (cases "forest_leaves cs2 = []") (auto simp: e'_def)
  have "link_ok D V n (pid # forest_pages cs1 @ tree_pages c) e'"
  proof (cases "forest_leaves cs2 = []")
    case True
    then show ?thesis using link_ok_mono [OF e, of "pid # forest_pages cs1 @ tree_pages c"] by (auto simp: e'_def)
  next
    case False
    then have m: "e' \<in> set (forest_leaves cs2)" by (simp add: e'_def hd_append)
    then obtain x where x: "x \<in> set cs2" "e' \<in> set (leaf_pids x)" by (auto simp: forest_leaves_def)
    have wf: "leaf_wf (V e')" using tree_leaf_page [OF _ x(2)] at x(1) by auto
    have "e' \<in> set (forest_pages cs2)" using m forest_leaves_pages by blast
    then show ?thesis using wf d pg by (auto simp: link_ok_def)
  qed
  with l show thesis by (rule that)
qed

text \<open>Two neighbouring leaves are ready to be merged.\<close>

lemma leaves_free:
  assumes nd: "node_in D V n lo hi pid ks (cs1 @ l # r # cs2)" and lv: "level 0 l" "level 0 r"
    and lk: "linked V (forest_leaves (cs1 @ l # r # cs2)) e" and e: "link_ok D V n (pid # forest_pages (cs1 @ l # r # cs2)) e"
    and root: "pid = root \<Longrightarrow> root_pin D V n P (pid # forest_pages (cs1 @ l # r # cs2))"
  shows "leaf_free D V n P root pid l r"
proof -
  obtain lp lts rp rts where t: "l = LeafT lp lts" "r = LeafT rp rts" using lv by (auto simp: level_zero)
  obtain e' where e': "linked V (leaf_pids r) e'" "link_ok D V n (pid # forest_pages (cs1 @ [l]) @ tree_pages r) e'"
    using child_link [of D V n lo hi pid ks "cs1 @ [l]" r cs2 e] nd lk e by auto
  have "right_pid (V rp) = e'" using e'(1) by (simp add: t linked_def)
  moreover have "link_ok D V n [pid, lp, rp] e'" by (rule link_ok_mono [OF e'(2)]) (auto simp: t)
  ultimately show ?thesis using root by (auto simp: leaf_free_def t root_pin_def)
qed

section \<open>On the way back\<close>

definition settle_child :: "'d posix \<Rightarrow> nat \<Rightarrow> PageID \<Rightarrow> PageID \<Rightarrow> DeleteStatus \<Rightarrow> 'd BTree \<Rightarrow> (DeleteStatus \<times> 'd BTree) option" where
  "settle_child os i pid child_pid report bt =
    (if ds_page_type report = InvalidPage then Some (report, bt)
     else if ds_page_type report = LeafPage then
       (if underflown report then fix_leaf_child os 0 i pid child_pid report bt
        else Some (done_report report, bt\<lparr>bt_pool := release_page (bt_pool bt) pid True\<rparr>))
     else
       (if underflown report then fix_internal_child os 0 i pid child_pid report bt
        else Some (done_report report, bt\<lparr>bt_pool := release_page (bt_pool bt) pid True\<rparr>)))"

text \<open>The pages were pruned below the node, and the node was repaired.\<close>

lemma settled_deleted:
  assumes s: "settled fb fs D P F1 V1 n lo hi pid h ks (cs1 @ c1 # cs2) rep root r bt'"
    and p: "pruned V V1 lo hi (Suc h) key t (NodeT pid ks (cs1 @ c1 # cs2))" and t: "t = NodeT pid ks (cs1 @ c # cs2)"
    and F: "\<forall>q \<in># P. F1 q = F q" and ok: "success_ok key t rep"
  shows "deleted fb fs D P F V n lo hi (Suc h) key t root r bt' \<or> pid = root \<and> collapsed fb fs D P F V n lo hi (Suc h) key t r bt'"
proof -
  obtain F2 V2 ks' cs' where a: "node_fixed V1 V2 lo hi pid (cs1 @ c1 # cs2) ks' cs'" "\<forall>d \<in> set cs'. level h d \<and> filled d"
      "\<forall>q \<in># P. F2 q = F1 q" and
    b: "if pid = root \<and> ks' = [] \<and> ds_page_type r = InvalidPage
         then h = 0 \<and> success r = success rep \<and> (\<exists>m c. cs' = [c] \<and> root_page_id bt' = root_of c \<and>
                cache fb fs (insert pid D) P {} F2 (V2(1 := m)) n (bt_pool bt') \<and> meta_ok (V2(1 := m)) (root_of c))
         else node_report ks ks' rep r \<and> cache fb fs D P {} F2 V2 n (bt_pool bt') \<and> root_page_id bt' = root"
    using s unfolding settled_def by blast
  have p2: "pruned V V2 lo hi (Suc h) key t (NodeT pid ks' cs')" by (rule pruned_fixed [OF p a(1)]) (use a(2) in simp)
  show ?thesis
  proof (cases "pid = root \<and> ks' = [] \<and> ds_page_type r = InvalidPage")
    case True
    then obtain m x where m: "h = 0" "success r = success rep" "cs' = [x]" "root_page_id bt' = root_of x"
      "cache fb fs (insert pid D) P {} F2 (V2(1 := m)) n (bt_pool bt')" "meta_ok (V2(1 := m)) (root_of x)" using b by auto
    then have "collapsed fb fs D P F V n lo hi (Suc h) key t r bt'"
      using p2 ok True unfolding collapsed_def t by (auto simp: success_ok_def)
    then show ?thesis using True by blast
  next
    case False
    then have b: "node_report ks ks' rep r" "cache fb fs D P {} F2 V2 n (bt_pool bt')" "root_page_id bt' = root" using b by auto
    have "report_of_tree V2 t (NodeT pid ks' cs') r" "chained (NodeT pid ks' cs')" "success_ok key t r"
      using b(1) a(2) ok by (auto simp: node_report_def t success_ok_def filled_chained)
    then have "deleted fb fs D P F V n lo hi (Suc h) key t root r bt'"
      using b(2,3) a(3) F p2 unfolding deleted_def by (intro exI [of _ F2] exI [of _ V2] exI [of _ "NodeT pid ks' cs'"]) simp
    then show ?thesis by blast
  qed
qed

text \<open>A report of no underflow, or an underfull child without a sibling.\<close>

lemma kept_deleted:
  assumes c: "cache fb fs D P {} F1 V1 n (bt_pool bt')" "root_page_id bt' = root"
    and p: "pruned V V1 lo hi (Suc h) key t (NodeT pid ks (cs1 @ c1 # cs2))" and t: "t = NodeT pid ks (cs1 @ c # cs2)"
    and F: "\<forall>q \<in># P. F1 q = F q" and ok: "success_ok key t r"
    and ch: "if ks = [] then chained c1 else filled c1 \<and> (\<forall>d \<in> set cs1 \<union> set cs2. filled d)"
    and r: "ds_page_type r = InternalPage" "\<not> underflown r"
  shows "deleted fb fs D P F V n lo hi (Suc h) key t root r bt'"
proof -
  let ?t = "NodeT pid ks (cs1 @ c1 # cs2)"
  have "tree_in lo hi ?t" using p by (simp add: pruned_def)
  then have one: "cs1 = [] \<and> cs2 = []" if "ks = []" using that forest_length [of lo hi ks "cs1 @ c1 # cs2"] by auto
  have "chained ?t" using ch one by (cases "ks = []") auto
  moreover have "report_of_tree V1 t ?t r" using ch r by (cases "ks = []") (auto simp: t)
  ultimately show ?thesis using assms unfolding deleted_def by blast
qed

context regular_file begin

lemma repair_correct:
  assumes c: "cache file_byte file_size D (add_mset pid P) {} F V n (bt_pool bt)" and few: "size P < 990"
    and nd: "node_in D V n lo hi pid ks (cs1 @ c # cs2)" and ne: "ks \<noteq> []"
    and sib: "\<forall>d \<in> set cs1 \<union> set cs2. level h d \<and> filled d" and lv: "level h c"
    and rep: "report_of_tree V t c r" "underflown r" "filled t"
    and lk: "linked V (forest_leaves (cs1 @ c # cs2)) e" and e: "link_ok D V n (pid # forest_pages (cs1 @ c # cs2)) e"
    and root: "pid = root_page_id bt \<Longrightarrow> root_pin D V n P (pid # forest_pages (cs1 @ c # cs2))"
  shows "\<exists>r' bt'. settle_child os (F pid) pid (root_of c) r bt = Some (r', bt') \<and>
    settled file_byte file_size D P F V n lo hi pid h ks (cs1 @ c # cs2) r (root_page_id bt) r' bt'"
proof (cases c)
  case (LeafT lp lts)
  have w: "leaf_weak h V c r" using rep lv by (simp add: LeafT leaf_weak_def)
  have h: "h = 0" using lv LeafT by simp
  have fl: "leaf_free D V n P (root_page_id bt) pid (last cs1) c" if "cs1 \<noteq> []"
  proof (rule leaves_free)
    have x: "cs1 @ c # cs2 = butlast cs1 @ last cs1 # c # cs2" using that by simp
    show "node_in D V n lo hi pid ks (butlast cs1 @ last cs1 # c # cs2)" using nd unfolding x .
    show "linked V (forest_leaves (butlast cs1 @ last cs1 # c # cs2)) e" using lk unfolding x .
    show "link_ok D V n (pid # forest_pages (butlast cs1 @ last cs1 # c # cs2)) e" using e unfolding x .
    show "pid = root_page_id bt \<Longrightarrow> root_pin D V n P (pid # forest_pages (butlast cs1 @ last cs1 # c # cs2))" using root unfolding x .
  qed (use sib lv h that in auto)
  have fr: "leaf_free D V n P (root_page_id bt) pid c (hd cs2)" if "cs2 \<noteq> []"
  proof (rule leaves_free)
    have x: "cs1 @ c # cs2 = cs1 @ c # hd cs2 # tl cs2" using that by simp
    show "node_in D V n lo hi pid ks (cs1 @ c # hd cs2 # tl cs2)" using nd unfolding x .
    show "linked V (forest_leaves (cs1 @ c # hd cs2 # tl cs2)) e" using lk unfolding x .
    show "link_ok D V n (pid # forest_pages (cs1 @ c # hd cs2 # tl cs2)) e" using e unfolding x .
    show "pid = root_page_id bt \<Longrightarrow> root_pin D V n P (pid # forest_pages (cs1 @ c # hd cs2 # tl cs2))" using root unfolding x .
  qed (use sib lv h that in auto)
  show ?thesis
    using leaf_fix.fix_child_correct [OF c few nd ne sib w fl fr] rep by (simp add: settle_child_def LeafT)
next
  case (NodeT cp cks ccs)
  have w: "inner_weak h V c r" using rep lv by (auto simp: NodeT inner_weak_def level_NodeT)
  show ?thesis
    using inner_fix.fix_child_correct [OF c few nd ne sib w] rep by (simp add: settle_child_def NodeT)
qed

text \<open>A child that is full enough, or the only one, is left as it is.\<close>

lemma settle_quiet:
  assumes c: "cache file_byte file_size D (add_mset pid P) {} F1 V1 n (bt_pool bt)" and rt: "root_page_id bt = root"
    and p: "pruned V V1 lo hi (Suc h) key t (NodeT pid ks (cs1 @ c1 # cs2))" and t: "t = NodeT pid ks (cs1 @ c # cs2)"
    and nd: "node_in D V1 n lo hi pid ks (cs1 @ c1 # cs2)" and F: "\<forall>q \<in># P. F1 q = F q" "F1 pid = F pid"
    and ok: "success_ok key t r" and ch: "chained c1" "ks \<noteq> [] \<Longrightarrow> filled c \<and> (\<forall>d \<in> set cs1 \<union> set cs2. filled d)"
    and rep: "root_of c1 = root_of c" "report_of_tree V1 c c1 r" and quiet: "\<not> underflown r \<or> ks = []"
  shows "\<exists>r' bt'. settle_child os (F pid) pid (root_of c) r bt = Some (r', bt') \<and>
    deleted file_byte file_size D P F V n lo hi (Suc h) key t root r' bt'"
proof -
  have ty: "ds_page_type r \<noteq> InvalidPage" using rep(2) by (cases c1) auto
  have rel: "cache file_byte file_size D P {} F1 V1 n (release_page (bt_pool bt) pid b)" for b
    using cache_release [OF c, of pid b] by simp
  show ?thesis
  proof (cases "underflown r")
    case False
    let ?bt = "bt\<lparr>bt_pool := release_page (bt_pool bt) pid True\<rparr>"
    have "filled c1" if "ks \<noteq> []" using ch(2) [OF that] rep(2) False by (cases c1) auto
    then have "deleted file_byte file_size D P F V n lo hi (Suc h) key t root (done_report r) ?bt"
      using rt ok ch rel by (intro kept_deleted [OF _ _ p t F(1)]) (auto simp: done_report_def success_ok_def)
    moreover have "settle_child os (F pid) pid (root_of c) r bt = Some (done_report r, ?bt)"
      using False ty by (simp add: settle_child_def)
    ultimately show ?thesis by blast
  next
    case True
    then have alone: "ks = []" using quiet by simp
    let ?bt = "bt\<lparr>bt_pool := release_page (bt_pool bt) pid False\<rparr>"
      and ?r = "\<lparr>underflown = False, ds_page_type = InternalPage, current_size = 0, success = False\<rparr>"
    have "cs1 = []" "cs2 = []" using nd forest_length [of lo hi ks "cs1 @ c1 # cs2"] alone by (auto simp: node_in_def)
    then have nd1: "node_in D V1 n lo hi pid ks [c1]" using nd by simp
    have "settle_child os (F pid) pid (root_of c) r bt = fall_through pid bt"
      using leaf_fix.fix_child_alone [OF c nd1] inner_fix.fix_child_alone [OF c nd1] True alone ty rep(1) F(2)
      by (simp add: settle_child_def)
    moreover have "deleted file_byte file_size D P F V n lo hi (Suc h) key t root ?r ?bt"
      using rt ch(1) alone rel by (intro kept_deleted [OF _ _ p t F(1)]) (auto simp: success_ok_def t)
    ultimately show ?thesis by (auto simp: fall_through_def)
  qed
qed

lemma node_step_correct:
  assumes nd: "node_in D V n lo hi pid (ks1 @ ks2) (cs1 @ c # cs2)" and l: "length ks1 = length cs1" "length ks2 = length cs2"
    and t: "t = NodeT pid (ks1 @ ks2) (cs1 @ c # cs2)" and k: "key_in (lower lo ks1) (upper hi ks2) key"
    and lv: "level (Suc h) t" and ch: "chained t" and lk: "linked V (leaf_pids t) e" and e: "link_ok D V n (tree_pages t) e"
    and root: "pid = root \<Longrightarrow> root_pin D V n P (tree_pages t)" and few: "size P < 990"
    and ih: "deleted file_byte file_size D (add_mset pid P) F V n (lower lo ks1) (upper hi ks2) h key c root r bt"
  shows "\<exists>r' bt'. settle_child os (F pid) pid (root_of c) r bt = Some (r', bt') \<and>
    (deleted file_byte file_size D P F V n lo hi (Suc h) key t root r' bt' \<or>
      pid = root \<and> collapsed file_byte file_size D P F V n lo hi (Suc h) key t r' bt')"
proof -
  let ?ks = "ks1 @ ks2"
  obtain F1 V1 c1 where i: "cache file_byte file_size D (add_mset pid P) {} F1 V1 n (bt_pool bt)" "\<forall>q \<in># add_mset pid P. F1 q = F q"
    "root_page_id bt = root" "pruned V V1 (lower lo ks1) (upper hi ks2) h key c c1" "chained c1" "report_of_tree V1 c c1 r"
    "success_ok key c r" using ih unfolding deleted_def by blast
  have sl: "\<forall>d \<in> set cs1 \<union> set cs2. level h d" and cl: "level h c1" "root_of c1 = root_of c"
    using lv i(4) by (auto simp: t pruned_def)
  note pn = pruned_node [OF nd l k sl i(4), folded t]
  have F1: "F1 pid = F pid" "\<forall>q \<in># P. F1 q = F q" using i(2) by simp_all
  have "forest_in lo hi ?ks (cs1 @ c # cs2)" using nd by (simp add: node_in_def)
  then have parts: "left_part lo ks1 cs1" "right_part hi ks2 cs2" unfolding forest_focus [OF l] by simp_all
  have hc: "hit key t \<longleftrightarrow> hit key c" unfolding t by (rule hit_middle [OF parts k])
  then have ok: "success_ok key t r" using i(7) by (auto simp: success_ok_def t)
  have fc: "filled c \<and> (\<forall>d \<in> set cs1 \<union> set cs2. filled d)" if "?ks \<noteq> []" using ch that by (auto simp: t)
  show ?thesis
  proof (cases "underflown r \<and> ?ks \<noteq> []")
    case False
    then show ?thesis using settle_quiet [OF i(1,3) pn(1) t pn(2) F1(2,1) ok i(5) fc cl(2) i(6)] by blast
  next
    case repair: True
    have sib: "\<forall>d \<in> set cs1 \<union> set cs2. level h d \<and> filled d" using sl fc repair by blast
    have lk1: "linked V1 (forest_leaves (cs1 @ c1 # cs2)) e"
      using pn(1) lk unfolding pruned_def relinks_def node_simps by blast
    have sub: "set (pid # forest_pages (cs1 @ c1 # cs2)) \<subseteq> set (tree_pages t)"
      using pn(1) unfolding pruned_def node_simps by blast
    have al: "alike (V q) (V1 q)" if "q \<notin> set (tree_pages t)" for q using pn(1) that unfolding pruned_def by blast
    have e1: "link_ok D V1 n (pid # forest_pages (cs1 @ c1 # cs2)) e"
    proof (rule link_ok_mono [OF link_ok_alike [OF e] sub])
      show "alike (V e) (V1 e)" if "e \<noteq> 0" using al e that by (simp add: link_ok_def)
    qed
    have root1: "root_pin D V1 n P (pid # forest_pages (cs1 @ c1 # cs2))" if "pid = root_page_id bt"
    proof -
      have r: "root_pin D V n P (tree_pages t)" using root that i(3) by simp
      then have "V1 1 = V 1" by (intro alike_meta al) (simp_all add: root_pin_def DATABASE_META_PAGE_ID_def)
      then show ?thesis using r sub by (auto simp: root_pin_def DATABASE_META_PAGE_ID_def)
    qed
    from repair_correct [OF i(1) few pn(2) conjunct2 [OF repair] sib cl(1) i(6) conjunct1 [OF repair] _ lk1 e1 root1] fc [OF conjunct2 [OF repair]]
    obtain r' bt' where s: "settle_child os (F pid) pid (root_of c) r bt = Some (r', bt')"
      "settled file_byte file_size D P F1 V1 n lo hi pid h ?ks (cs1 @ c1 # cs2) r root r' bt'"
      using cl(2) F1(1) i(3) by auto
    show ?thesis using s(1) settled_deleted [OF s(2) pn(1) t F1(2) ok] by blast
  qed
qed

section \<open>The descent\<close>

lemma delete_from_inner:
  assumes "request_page os (bt_pool bt) pid = Some (i, bp)" "page_type (buffer_pool bp i) = PageType_code InternalPage"
  shows "delete_from os 0 (Suc fuel) bt pid key =
    (let c = GetChildPageID (buffer_pool bp i) key
     in do { (report, bt) \<leftarrow> delete_from os 0 fuel (bt\<lparr>bt_pool := bp\<rparr>) c key; settle_child os i pid c report bt })"
  unfolding delete_from.simps(2) [of os 0 fuel] settle_child_def using assms by (simp add: Let_def del: delete_from.simps)

lemma delete_from_leaf:
  assumes c: "cache file_byte file_size D P {} F V n (bt_pool bt)" and few: "size P < 990"
    and t: "tree_at V (LeafT pid ts)" "tree_in lo hi (LeafT pid ts)"
    and p: "\<forall>p \<in> set (tree_pages (LeafT pid ts)). p \<noteq> 0 \<and> p < n \<and> p \<notin> D"
  shows "\<exists>r bt'. delete_from os 0 (Suc h) bt pid key = Some (r, bt') \<and>
    deleted file_byte file_size D P F V n lo hi 0 key (LeafT pid ts) (root_page_id bt) r bt'"
proof -
  have "size P < 1000" using few by simp
  then obtain i bp where i: "request_page os (bt_pool bt) pid = Some (i, bp)"
    "cache file_byte file_size D (add_mset pid P) {} (F(pid := i)) V n bp" "\<forall>q \<in># P. (F(pid := i)) q = F q"
    "page_type (buffer_pool bp i) = PageType_code LeafPage"
    by (rule enter_leaf [OF c _ t(1) p])
  have c: "cache file_byte file_size D (add_mset pid P) {} (F(pid := i)) V n (bt_pool (bt\<lparr>bt_pool := bp\<rparr>))" using i(2) by simp
  have rt: "root_page_id (bt\<lparr>bt_pool := bp\<rparr>) = root_page_id bt" by simp
  from delete_in_leaf_correct [OF c rt t, of key] obtain r bt' where
    d: "delete_in_leaf i pid key (bt\<lparr>bt_pool := bp\<rparr>) = (r, bt')"
      "deleted file_byte file_size D P (F(pid := i)) V n lo hi 0 key (LeafT pid ts) (root_page_id bt) r bt'" by auto
  have "delete_from os 0 (Suc h) bt pid key = Some (r, bt')" using i(1,4) d(1) by (simp add: Let_def)
  moreover have "deleted file_byte file_size D P F V n lo hi 0 key (LeafT pid ts) (root_page_id bt) r bt'"
    using d(2) i(3) unfolding deleted_def by fastforce
  ultimately show ?thesis by blast
qed

lemma delete_from_correct:
  assumes "cache file_byte file_size D P {} F V n (bt_pool bt)" and "size P + h < 990"
    and "tree_at V t" "level h t" "tree_in lo hi t" "key_in lo hi key"
    and "distinct (tree_pages t)" "\<forall>p \<in> set (tree_pages t). p \<noteq> 0 \<and> p < n \<and> p \<notin> D"
    and "chained t" "linked V (leaf_pids t) e" "link_ok D V n (tree_pages t) e"
    and "root_of t = root_page_id bt \<Longrightarrow> root_pin D V n P (tree_pages t)"
    and "root_page_id bt \<in> set (tree_pages t) \<Longrightarrow> root_of t = root_page_id bt"
  shows "\<exists>r bt'. delete_from os 0 (Suc h) bt (root_of t) key = Some (r, bt') \<and>
    (deleted file_byte file_size D P F V n lo hi h key t (root_page_id bt) r bt' \<or>
      root_of t = root_page_id bt \<and> collapsed file_byte file_size D P F V n lo hi h key t r bt')"
  using assms
proof (induction t arbitrary: h bt F P lo hi e)
  case (LeafT pid ts)
  have few: "size P < 990" and h: "h = 0" using LeafT.prems(2,4) by simp_all
  show ?case
    using delete_from_leaf [OF LeafT.prems(1) few LeafT.prems(3,5,8), where h = h and key = key] unfolding h root_of.simps by blast
next
  case (NodeT pid ks cs)
  let ?t = "NodeT pid ks cs" and ?root = "root_page_id bt"
  have few: "size P < 1000" "size P < 990" using NodeT.prems(2) by simp_all
  obtain i bp h' ks1 ks2 cs1 c cs2 where i: "request_page os (bt_pool bt) pid = Some (i, bp)"
    "cache file_byte file_size D (add_mset pid P) {} (F(pid := i)) V n bp" "\<forall>q \<in># P. (F(pid := i)) q = F q"
    "page_type (buffer_pool bp i) = PageType_code InternalPage" "GetChildPageID (buffer_pool bp i) key = root_of c"
    and h: "h = Suc h'" and s: "ks = ks1 @ ks2" "cs = cs1 @ c # cs2" "length ks1 = length cs1" "length ks2 = length cs2"
      "key_in (lower lo ks1) (upper hi ks2) key" "left_part lo ks1 cs1" "tree_in (lower lo ks1) (upper hi ks2) c" "right_part hi ks2 cs2"
    and ok: "\<forall>d \<in> set (cs1 @ c # cs2). tree_at V d \<and> level h' d" "\<forall>p \<in> set (tree_pages c). p \<noteq> 0 \<and> p < n \<and> p \<notin> D"
    by (rule enter_node [OF NodeT.prems(1) few(1) NodeT.prems(3-6,8)])
  let ?bt = "bt\<lparr>bt_pool := bp\<rparr>"
  have nd: "node_in D V n lo hi pid (ks1 @ ks2) (cs1 @ c # cs2)"
    using NodeT.prems(3,5,7,8) unfolding node_in_def s(1,2) node_simps by simp
  have d: "distinct (pid # forest_pages (cs1 @ c # cs2))" using nd by (simp add: node_in_def)
  have lk: "linked V (forest_leaves (cs1 @ c # cs2)) e" and e: "link_ok D V n (pid # forest_pages (cs1 @ c # cs2)) e"
    using NodeT.prems(10,11) unfolding s(1,2) node_simps by simp_all
  obtain e' where e': "linked V (leaf_pids c) e'" "link_ok D V n (pid # forest_pages cs1 @ tree_pages c) e'"
    by (rule child_link [OF nd lk e])
  have cc: "c \<in> set cs" "tree_at V c" "level h' c" "distinct (tree_pages c)" using NodeT.prems(7) ok(1) by (auto simp: s(2))
  have cch: "chained c" using NodeT.prems(9) cc(1) filled_chained by (auto split: if_splits)
  have out: "?root \<notin> set (tree_pages c)"
  proof
    assume r: "?root \<in> set (tree_pages c)"
    then have "pid = ?root" using NodeT.prems(13) cc(1) by auto
    then show False using r d by auto
  qed
  then have "root_of c \<noteq> ?root" using root_in_pages by metis
  then have ne: "root_of c \<noteq> root_page_id ?bt" by simp
  have c1: "cache file_byte file_size D (add_mset pid P) {} (F(pid := i)) V n (bt_pool ?bt)" using i(2) by simp
  have few1: "size (add_mset pid P) + h' < 990" using NodeT.prems(2) h by simp
  have lc: "link_ok D V n (tree_pages c) e'" by (rule link_ok_mono [OF e'(2)]) auto
  from NodeT.IH [OF cc(1) c1 few1 cc(2,3) s(7,5) cc(4) ok(2) cch e'(1) lc] ne out obtain r bt1 where
    ih: "delete_from os 0 (Suc h') ?bt (root_of c) key = Some (r, bt1)"
      "deleted file_byte file_size D (add_mset pid P) (F(pid := i)) V n (lower lo ks1) (upper hi ks2) h' key c ?root r bt1"
    by (auto simp del: delete_from.simps fun_upd_apply)
  have lv: "level (Suc h') ?t" using NodeT.prems(4) h by simp
  from node_step_correct [OF nd s(3,4) _ s(5) lv NodeT.prems(9-11) _ few(2) ih(2)] s(1,2) NodeT.prems(12) obtain r' bt' where
    st: "settle_child os i pid (root_of c) r bt1 = Some (r', bt')"
      "deleted file_byte file_size D P (F(pid := i)) V n lo hi h key ?t ?root r' bt' \<or>
        pid = ?root \<and> collapsed file_byte file_size D P (F(pid := i)) V n lo hi h key ?t r' bt'"
    unfolding h by auto
  have "delete_from os 0 (Suc h) bt pid key = Some (r', bt')"
    unfolding h delete_from_inner [OF i(1,4)] i(5) Let_def ih(1) using st(1) by simp
  moreover have "deleted file_byte file_size D P F V n lo hi h key ?t ?root r' bt' \<or>
      pid = ?root \<and> collapsed file_byte file_size D P F V n lo hi h key ?t r' bt'"
    using st(2) i(3) unfolding deleted_def collapsed_def by fastforce
  ultimately show ?case by simp
qed

end

section \<open>Deletion from a tree at rest\<close>

text \<open>More fuel than a descent needs changes nothing.\<close>

lemma delete_from_fuel:
  "delete_from os junk f bt pid key = Some r \<Longrightarrow> f \<le> f' \<Longrightarrow> delete_from os junk f' bt pid key = Some r"
proof (induction f arbitrary: bt pid f' r)
  case (Suc fuel)
  obtain g where g: "f' = Suc g" "fuel \<le> g" using Suc.prems(2) by (cases f') auto
  obtain i bp1 where q: "request_page os (bt_pool bt) pid = Some (i, bp1)"
    using Suc.prems(1) by (cases "request_page os (bt_pool bt) pid") auto
  show ?case
  proof (cases "page_type (buffer_pool bp1 i) = PageType_code InternalPage")
    case False
    then show ?thesis using Suc.prems(1) q g(1) by (simp add: Let_def)
  next
    case True
    let ?child = "GetChildPageID (buffer_pool bp1 i) key" and ?bt = "bt\<lparr>bt_pool := bp1\<rparr>"
    obtain res where res: "delete_from os junk fuel ?bt ?child key = Some res"
      using Suc.prems(1) q True by (cases "delete_from os junk fuel ?bt ?child key") (auto simp: Let_def)
    from Suc.IH [OF this g(2)] have "delete_from os junk g ?bt ?child key = Some res" .
    then show ?thesis using Suc.prems(1) q True res g(1) by (simp add: Let_def)
  qed
qed simp

text \<open>What is left of a tree at rest, apart from the pages that play no part any more.\<close>

definition delete_done :: "('d \<Rightarrow> nat \<Rightarrow> byte) \<Rightarrow> ('d \<Rightarrow> nat) \<Rightarrow> PageID set \<Rightarrow> (PageID \<Rightarrow> mem) \<Rightarrow> PageID \<Rightarrow> nat \<Rightarrow> page_tree \<Rightarrow> Key \<Rightarrow>
    bool \<Rightarrow> 'd BTree \<Rightarrow> bool" where
  "delete_done fb fs D V n h t key ok bt' \<longleftrightarrow>
     (\<exists>D' V' h' t'. tree_rest fb fs D' V' n h' t' bt' \<and> tree_tuples t' = drop_key key (tree_tuples t) \<and>
        set (tree_pages t') \<subseteq> set (tree_pages t) \<and> D' \<subseteq> insert (root_of t) D \<and> h' \<le> h \<and>
        (\<forall>q. q \<notin> set (tree_pages t) \<longrightarrow> q \<noteq> 1 \<longrightarrow> alike (V q) (V' q)) \<and>
        (ok \<longrightarrow> hit key t) \<and> (keyed t \<longrightarrow> ok = hit key t))"

lemma pruned_rest:
  assumes r: "tree_rest fb fs D V n h t bt" and c: "cache fb fs D {#} {} F' V' n (bt_pool bt')" "root_page_id bt' = root_of t"
    and p: "pruned V V' 0 18446744073709551616 h key t t'" "chained t'"
  shows "tree_rest fb fs D V' n h t' bt'"
proof -
  note q = p(1) [unfolded pruned_def] and rt = r [unfolded tree_rest_def]
  have "1 \<notin> set (tree_pages t)" using rt by auto
  then have "V' 1 = V 1" using q rt by (intro alike_meta) (simp_all add: meta_ok_def DATABASE_META_PAGE_ID_def)
  then have "meta_ok V' (root_of t')" using rt q by (simp add: meta_ok_def DATABASE_META_PAGE_ID_def)
  moreover have "linked V' (leaf_pids t') 0" using q rt by (auto simp: relinks_def)
  ultimately show ?thesis using c p(2) q rt unfolding tree_rest_def by auto
qed

lemma deleted_done:
  assumes r: "tree_rest fb fs D V n h t bt"
    and d: "deleted fb fs D {#} F V n 0 18446744073709551616 h key t (root_of t) rep bt'"
  shows "delete_done fb fs D V n h t key (success rep) bt'"
proof -
  obtain F' V' t' where a: "cache fb fs D {#} {} F' V' n (bt_pool bt')" "root_page_id bt' = root_of t"
    "pruned V V' 0 18446744073709551616 h key t t'" "chained t'" "success_ok key t rep"
    using d unfolding deleted_def by blast
  then show ?thesis
    using pruned_rest [OF r a(1-4)] order_refl [of h] unfolding delete_done_def success_ok_def pruned_def by blast
qed

lemma collapsed_done:
  assumes r: "tree_rest fb fs D V n h t bt" and d: "collapsed fb fs D {#} F V n 0 18446744073709551616 h key t rep bt'"
  shows "delete_done fb fs D V n h t key (success rep) bt'"
proof -
  obtain F' V' m c where a: "h = 1" "cache fb fs (insert (root_of t) D) {#} {} F' (V'(1 := m)) n (bt_pool bt')"
    "meta_ok (V'(1 := m)) (root_of c)" "root_page_id bt' = root_of c"
    "pruned V V' 0 18446744073709551616 h key t (NodeT (root_of t) [] [c])" "success_ok key t rep"
    using d unfolding collapsed_def by blast
  note p = a(5) [unfolded pruned_def] and rt = r [unfolded tree_rest_def]
  let ?V = "V'(1 := m)"
  have one: "1 \<notin> set (tree_pages t)" using rt by auto
  have sub: "set (tree_pages c) \<subseteq> set (tree_pages t)" "root_of t \<notin> set (tree_pages c)" "distinct (tree_pages c)" using p by auto
  have "root_of t \<noteq> 1" using rt one root_in_pages by metis
  moreover have "level 0 c" using p a(1) by (auto simp: level_NodeT)
  moreover have "tree_at ?V c" by (rule tree_at_frame [of V']) (use p one sub in auto)
  moreover have "linked V' (leaf_pids c) 0" using p rt by (auto simp: relinks_def)
  then have "linked ?V (leaf_pids c) 0" by (rule linked_frame) (use one sub leaf_pids_pages in auto)
  ultimately have "tree_rest fb fs (insert (root_of t) D) ?V n 0 c bt'"
    using a(2,3,4) p rt sub unfolding tree_rest_def by (auto simp: level_zero)
  moreover have "\<forall>q. q \<notin> set (tree_pages t) \<longrightarrow> q \<noteq> 1 \<longrightarrow> alike (V q) (?V q)" using p by simp
  moreover have "tree_tuples c = drop_key key (tree_tuples t)" using p by simp
  ultimately show ?thesis using sub(1) a(6) le0 [of h] unfolding delete_done_def success_ok_def by blast
qed

context regular_file begin

lemma BTree_Delete_correct:
  assumes r: "tree_rest file_byte file_size D V n h t bt" and h: "h < fuel"
  shows "\<exists>ok bt'. BTree_Delete os 0 fuel bt key = Some (ok, bt') \<and> delete_done file_byte file_size D V n h t key ok bt'"
proof -
  let ?top = "18446744073709551616 :: nat"
  obtain F where c: "cache file_byte file_size D {#} {} F V n (bt_pool bt)" using r by (auto simp: tree_rest_def)
  note rt = r [unfolded tree_rest_def]
  have root: "root_page_id bt = root_of t" using rt by blast
  have s: "size {#} + h < 990" using tree_rest_height [OF r] by simp
  have pg: "\<forall>p \<in> set (tree_pages t). p \<noteq> 0 \<and> p < n \<and> p \<notin> D" "1 \<notin> set (tree_pages t)" using rt by auto
  have pin: "root_pin D V n {#} (tree_pages t)" using rt pg(2) by (simp add: root_pin_def meta_ok_def)
  have e: "link_ok D V n (tree_pages t) 0" by (simp add: link_ok_def)
  have t: "tree_at V t" "level h t" "tree_in 0 ?top t" "distinct (tree_pages t)" "chained t" "linked V (leaf_pids t) 0"
    using rt by simp_all
  obtain rep bt' where d: "delete_from os 0 (Suc h) bt (root_of t) key = Some (rep, bt')"
    "deleted file_byte file_size D {#} F V n 0 ?top h key t (root_of t) rep bt' \<or>
      collapsed file_byte file_size D {#} F V n 0 ?top h key t rep bt'"
    using delete_from_correct [OF c s t(1-3) key_in_all t(4) pg(1) t(5,6) e pin, of key] root
    by (auto simp del: delete_from.simps)
  have "delete_from os 0 fuel bt (root_page_id bt) key = Some (rep, bt')"
    using delete_from_fuel [OF d(1), of fuel] h root by simp
  then have "BTree_Delete os 0 fuel bt key = Some (success rep, bt')" by (simp add: BTree_Delete_def)
  then show ?thesis using d(2) deleted_done [OF r] collapsed_done [OF r] by blast
qed

end

end
