(* ===== verification/Tree_Map.thy ===== *)
theory Tree_Map
  imports Tree_Write Tree_Delete
begin

text \<open>
  The contract of the tree: a map from keys to payloads. \<open>tree_map\<close> relates a tree at rest to its
  map; insertion of a new key updates it, a search opens a stream on the payload, a stream reads
  it in portions of any sizes, opening the database starts from the empty map or takes up the map
  that is on the pages.
\<close>

section \<open>The map of a tree\<close>

text \<open>Every tuple of the tree holds the payload of its key; overflow pages are not tree pages.\<close>

definition map_at :: "PageID set \<Rightarrow> (PageID \<Rightarrow> mem) \<Rightarrow> PageID \<Rightarrow> page_tree \<Rightarrow> (Key \<Rightarrow> PageID list) \<Rightarrow> (Key \<rightharpoonup> byte list) \<Rightarrow> bool" where
  "map_at D V n t chain m \<longleftrightarrow> dom m = tuple_key ` set (tree_tuples t) \<and>
     (\<forall>u \<in> set (tree_tuples t). stored D V n (chain (tuple_key u)) u (the (m (tuple_key u)))) \<and>
     (\<forall>u \<in> set (tree_tuples t). \<forall>p \<in> set (chain (tuple_key u)). p \<notin> set (tree_pages t) \<and> 1 < p \<and> p < n)"

text \<open>\<open>grown_map\<close>: in addition every inner page has a key, as in a tree that only grew.\<close>

definition tree_map_if :: "bool \<Rightarrow> ('d \<Rightarrow> nat \<Rightarrow> byte) \<Rightarrow> ('d \<Rightarrow> nat) \<Rightarrow> PageID \<Rightarrow> (Key \<rightharpoonup> byte list) \<Rightarrow> 'd BTree \<Rightarrow> bool" where
  "tree_map_if g fb fs n m bt \<longleftrightarrow>
     (\<exists>D V h t chain. tree_rest fb fs D V n h t bt \<and> map_at D V n t chain m \<and> (g \<longrightarrow> keyed t))"

abbreviation tree_map :: "('d \<Rightarrow> nat \<Rightarrow> byte) \<Rightarrow> ('d \<Rightarrow> nat) \<Rightarrow> PageID \<Rightarrow> (Key \<rightharpoonup> byte list) \<Rightarrow> 'd BTree \<Rightarrow> bool" where
  "tree_map \<equiv> tree_map_if False"

abbreviation grown_map :: "('d \<Rightarrow> nat \<Rightarrow> byte) \<Rightarrow> ('d \<Rightarrow> nat) \<Rightarrow> PageID \<Rightarrow> (Key \<rightharpoonup> byte list) \<Rightarrow> 'd BTree \<Rightarrow> bool" where
  "grown_map \<equiv> tree_map_if True"

lemma grown_map_tree: "tree_map_if g fb fs n m bt \<Longrightarrow> tree_map fb fs n m bt"
  unfolding tree_map_if_def by blast

lemma map_at_key: "map_at D V n t chain m \<Longrightarrow> m k = None \<longleftrightarrow> k \<notin> tuple_key ` set (tree_tuples t)"
  unfolding map_at_def by (metis domIff)

lemma map_at_stored: "map_at D V n t chain m \<Longrightarrow> u \<in> set (tree_tuples t) \<Longrightarrow>
    m (tuple_key u) = Some data \<Longrightarrow> stored D V n (chain (tuple_key u)) u data"
  unfolding map_at_def by force

lemma stored_frame:
  "stored D V n ps u data \<Longrightarrow> (\<And>q. q \<in> set ps \<Longrightarrow> V' q = V q) \<Longrightarrow> n \<le> n' \<Longrightarrow> stored D V' n' ps u data"
  unfolding stored_def using chain_frame by blast

text \<open>An overflow page is no leaf, so relinking neighbours leaves it alone.\<close>

lemma chain_alike:
  "chain_at D V n ps flag pid data \<Longrightarrow> (\<And>q. q \<in> set ps \<Longrightarrow> q \<notin> D \<Longrightarrow> alike (V q) (V' q) \<and> q \<notin> D') \<Longrightarrow>
    chain_at D' V' n ps flag pid data"
proof (induction D V n ps flag pid data rule: chain_at.induct)
  case (2 D V n q qs flag pid data)
  have c: "chain_at D V n (q # qs) flag pid data" by (rule 2(2))
  have "V' q = V q" using c 2(3) [of q] by (intro alike_other) auto
  then show ?case using 2 c by simp
qed simp

lemma stored_alike:
  "stored D V n ps u data \<Longrightarrow> (\<And>q. q \<in> set ps \<Longrightarrow> q \<notin> D \<Longrightarrow> alike (V q) (V' q) \<and> q \<notin> D') \<Longrightarrow> stored D' V' n ps u data"
  unfolding stored_def using chain_alike by blast

text \<open>Dead pages play no part.\<close>

lemma chain_alive: "chain_at D V n ps flag pid data \<Longrightarrow> (\<And>q. q \<notin> D \<Longrightarrow> V' q = V q) \<Longrightarrow> chain_at {} V' n ps flag pid data"
  by (induction D V n ps flag pid data rule: chain_at.induct) auto

lemma map_at_alive: "map_at D V n t chain m \<Longrightarrow> (\<And>q. q \<notin> D \<Longrightarrow> V' q = V q) \<Longrightarrow> map_at {} V' n t chain m"
  unfolding map_at_def stored_def using chain_alive by blast

lemma set_insert_tuple [simp]: "set (insert_tuple u ts) = insert u (set ts)"
  by (auto simp: insert_tuple_def)

text \<open>Portions: what reading with the sizes \<open>ks\<close> should give, and what the code gives.\<close>

fun portions :: "nat list \<Rightarrow> 'a list \<Rightarrow> 'a list list" where
  "portions [] data = []"
| "portions (k # ks) data = take k data # portions ks (drop k data)"

fun read_portions :: "'d posix \<Rightarrow> 'd BTree \<Rightarrow> PayloadStream \<Rightarrow> nat list \<Rightarrow> (byte list list \<times> PayloadStream \<times> 'd BTree) option" where
  "read_portions os bt s [] = Some ([], s, bt)"
| "read_portions os bt s (k # ks) = do {
     (out, s, bp) \<leftarrow> NextBytes os (bt_pool bt) s k;
     (outs, s, bt) \<leftarrow> read_portions os (bt\<lparr>bt_pool := bp\<rparr>) s ks;
     Some (out # outs, s, bt)
   }"

lemma concat_portions: "length data \<le> sum_list ks \<Longrightarrow> concat (portions ks data) = data"
  by (induction ks data rule: portions.induct) auto

text \<open>Insertions in a row; the key of a payload is its first eight bytes, as the client sends it.\<close>

definition payload_key :: "byte list \<Rightarrow> Key" where
  "payload_key d = load_u64 (of_bytes d) 0"

fun insert_all :: "'d posix \<Rightarrow> mem \<Rightarrow> nat \<Rightarrow> 'd BTree \<Rightarrow> byte list list \<Rightarrow> 'd BTree option" where
  "insert_all os stack fuel bt [] = Some bt"
| "insert_all os stack fuel bt (d # ds) = do {
     (ok, bt) \<leftarrow> BTree_Insert os stack fuel bt (of_bytes d) (length d) (payload_key d);
     if ok then insert_all os stack fuel bt ds else None
   }"

fun delete_all :: "'d posix \<Rightarrow> nat \<Rightarrow> 'd BTree \<Rightarrow> Key list \<Rightarrow> (bool list \<times> 'd BTree) option" where
  "delete_all os fuel bt [] = Some ([], bt)"
| "delete_all os fuel bt (k # ks) = do {
     (ok, bt) \<leftarrow> BTree_Delete os 0 fuel bt k;
     (oks, bt) \<leftarrow> delete_all os fuel bt ks;
     Some (ok # oks, bt)
   }"

definition payload_map :: "byte list list \<Rightarrow> Key \<rightharpoonup> byte list" where
  "payload_map ds = map_of (map (\<lambda>d. (payload_key d, d)) ds)"

definition insertable :: "byte list list \<Rightarrow> bool" where
  "insertable ds \<longleftrightarrow> distinct (map payload_key ds) \<and> (\<forall>d \<in> set ds. 8 \<le> length d \<and> length d < 4294967278)"

text \<open>A bound on the pages the insertions use.\<close>

definition pages_for :: "byte list list \<Rightarrow> nat" where
  "pages_for ds = sum_list (map (\<lambda>d. 54 + length d) ds)"

lemma pages_for_simps [simp]: "pages_for [] = 0" "pages_for (d # ds) = 54 + length d + pages_for ds"
  by (simp_all add: pages_for_def)

text \<open>A stream on a tree that has still \<open>data\<close> to deliver.\<close>

definition stream_map :: "('d \<Rightarrow> nat \<Rightarrow> byte) \<Rightarrow> ('d \<Rightarrow> nat) \<Rightarrow> PageID \<Rightarrow> (Key \<rightharpoonup> byte list) \<Rightarrow> 'd BTree \<Rightarrow>
    PayloadStream \<Rightarrow> byte list \<Rightarrow> bool" where
  "stream_map fb fs n m bt s data \<longleftrightarrow>
     (\<exists>D V h t chain. tree_rest fb fs D V n h t bt \<and> map_at D V n t chain m \<and> stream_ok D V n s data)"

lemma stream_map_tree: "stream_map fb fs n m bt s data \<Longrightarrow> tree_map fb fs n m bt"
  unfolding stream_map_def tree_map_if_def by blast

lemma stream_map_remaining:
  "stream_map fb fs n m bt s data \<Longrightarrow> PayloadRemaining s = length data \<and> (IsEOF s \<longleftrightarrow> data = [])"
  unfolding stream_map_def using stream_remaining(2,3) by blast

lemma tree_rest_pool:
  assumes "tree_rest fb fs D V n h t bt" "cache fb fs D {#} {} F V n bp"
  shows "tree_rest fb fs D V n h t (bt\<lparr>bt_pool := bp\<rparr>)"
  using assms(1) unfolding tree_rest_def using assms(2) by auto

text \<open>More fuel than a descent needs changes nothing.\<close>

lemma search_from_fuel:
  "search_from os f bp pid key = Some r \<Longrightarrow> f \<le> f' \<Longrightarrow> search_from os f' bp pid key = Some r"
proof (induction f arbitrary: bp pid f' r)
  case (Suc fuel)
  obtain g where g: "f' = Suc g" "fuel \<le> g" using Suc.prems(2) by (cases f') auto
  obtain i bp1 where q: "request_page os bp pid = Some (i, bp1)"
    using Suc.prems(1) by (cases "request_page os bp pid") auto
  show ?case
  proof (cases "page_type (buffer_pool bp1 i) = PageType_code InternalPage")
    case True
    let ?child = "GetChildPageID (buffer_pool bp1 i) key"
    have "search_from os fuel (release_page bp1 pid False) ?child key = Some r"
      using Suc.prems(1) q True by (simp add: Let_def)
    from Suc.IH [OF this g(2)] show ?thesis using q True g(1) by (simp add: Let_def)
  next
    case False
    then show ?thesis using Suc.prems(1) q g(1) by (simp add: Let_def)
  qed
qed simp

lemma BTree_Insert_fuel:
  "BTree_Insert os stack f bt buffer bs key = Some r \<Longrightarrow> f \<le> f' \<Longrightarrow> BTree_Insert os stack f' bt buffer bs key = Some r"
  using FindPageToWrite_fuel [of os stack f "bt_pool bt" "root_page_id bt" key bs _ f']
  by (cases "FindPageToWrite os stack f (bt_pool bt) (root_page_id bt) key bs") (auto simp: BTree_Insert_def)

lemma BTree_Search_fuel: "BTree_Search os f bt key = Some r \<Longrightarrow> f \<le> f' \<Longrightarrow> BTree_Search os f' bt key = Some r"
  using search_from_fuel [of os f "bt_pool bt" "root_page_id bt" key _ f']
  by (cases "search_from os f (bt_pool bt) (root_page_id bt) key") (auto simp: BTree_Search_def)

lemma BTree_Delete_fuel: "BTree_Delete os junk f bt key = Some r \<Longrightarrow> f \<le> f' \<Longrightarrow> BTree_Delete os junk f' bt key = Some r"
  using delete_from_fuel [of os junk f bt "root_page_id bt" key _ f']
  by (cases "delete_from os junk f bt (root_page_id bt) key") (auto simp: BTree_Delete_def)

lemma find_key_Some:
  assumes "find (has_key x) ts = Some u"
  shows "u \<in> set ts" "tuple_key u = x"
  using assms by (auto simp: find_Some_iff has_key_def)

lemma find_key_None: "find (has_key x) ts = None \<longleftrightarrow> x \<notin> tuple_key ` set ts"
  by (auto simp: find_None_iff has_key_def)

context regular_file begin

lemma insert_map:
  assumes tm: "tree_map_if g file_byte file_size n m bt" and fuel: "52 < fuel"
    and n: "unat n + 54 + bs < 4503599627370496" and bs: "8 \<le> bs" "bs < 4294967278" and new: "m (load_u64 buffer 0) = None"
  shows "\<exists>n' bt'. BTree_Insert os stack fuel bt buffer bs (load_u64 buffer 0) = Some (True, bt') \<and>
    tree_map_if g file_byte file_size n' (m(load_u64 buffer 0 \<mapsto> bytes buffer 0 bs)) bt' \<and>
    n \<le> n' \<and> unat n' \<le> unat n + 54 + bs"
proof -
  let ?key = "load_u64 buffer 0" and ?data = "bytes buffer 0 bs"
  obtain D V h t chain where t: "tree_rest file_byte file_size D V n h t bt" and ma: "map_at D V n t chain m"
    and kd: "g \<longrightarrow> keyed t"
    using tm unfolding tree_map_if_def by auto
  note map = ma [unfolded map_at_def]
  have "?key \<notin> tuple_key ` set (tree_tuples t)" using new map_at_key [OF ma] by blast
  have h: "h < fuel" "unat n + h + 2 + bs < 4503599627370496" "unat n + h + 2 + bs \<le> unat n + 54 + bs"
    using tree_rest_height [OF t] fuel n by simp_all
  from BTree_Insert_correct [OF t h(1,2) bs refl \<open>?key \<notin> _\<close>, where stack = stack]
  obtain V' n' h' t' bt' u ps where
    i: "BTree_Insert os stack fuel bt buffer bs ?key = Some (True, bt')" "tree_rest file_byte file_size D V' n' h' t' bt'"
      "h' \<le> Suc h" "tree_tuples t' = insert_tuple u (tree_tuples t)" "tuple_key u = ?key" "stored D V' n' ps u ?data"
      "\<forall>p \<in> set ps. p \<notin> set (tree_pages t') \<and> n \<le> p \<and> p < n'"
      "\<forall>p \<in> set (tree_pages t'). p \<in> set (tree_pages t) \<or> n \<le> p"
      "\<forall>q. q \<notin> set (tree_pages t) \<longrightarrow> q \<noteq> 1 \<longrightarrow> q < n \<longrightarrow> V' q = V q" "n \<le> n'" "unat n' \<le> unat n + h + 2 + bs" "keyed t \<longrightarrow> keyed t'"
    by blast
  let ?chain = "chain(?key := ps)" and ?m = "m(?key \<mapsto> ?data)"
  have "1 < n" using t by (simp add: tree_rest_def)
  have one: "stored D V' n' (?chain (tuple_key v)) v (the (?m (tuple_key v))) \<and>
      (\<forall>p \<in> set (?chain (tuple_key v)). p \<notin> set (tree_pages t') \<and> 1 < p \<and> p < n')" if v: "v \<in> set (tree_tuples t')" for v
  proof (cases "v = u")
    case True
    then show ?thesis using i(5-7) \<open>1 < n\<close> by (auto intro: less_le_trans)
  next
    case False
    then have v: "v \<in> set (tree_tuples t)" using that i(4) by simp
    then have k: "tuple_key v \<noteq> ?key" using map_at_key [OF ma, of ?key] new imageI [OF v, of tuple_key] by metis
    have ch: "p \<notin> set (tree_pages t) \<and> 1 < p \<and> p < n" if "p \<in> set (chain (tuple_key v))" for p
      using map v that by blast
    have "stored D V n (chain (tuple_key v)) v (the (m (tuple_key v)))" using map v by blast
    then have "stored D V' n' (chain (tuple_key v)) v (the (m (tuple_key v)))"
      by (rule stored_frame) (use ch i(9,10) in auto)
    moreover have "\<forall>p \<in> set (chain (tuple_key v)). p \<notin> set (tree_pages t') \<and> 1 < p \<and> p < n'"
      using ch i(8,10) by (fastforce intro: less_le_trans)
    ultimately show ?thesis using k by simp
  qed
  have "dom ?m = tuple_key ` set (tree_tuples t')" using map i(4,5) by simp
  then have "map_at D V' n' t' ?chain ?m" unfolding map_at_def using one by blast
  then have "tree_map_if g file_byte file_size n' ?m bt'" unfolding tree_map_if_def using i(2,12) kd by blast
  moreover have "unat n' \<le> unat n + 54 + bs" using i(11) h(3) by simp
  ultimately show ?thesis using i(1,10) by blast
qed

lemma search_map:
  assumes tm: "tree_map file_byte file_size n m bt" and fuel: "52 < fuel"
  shows "\<exists>s bt'. BTree_Search os fuel bt key = Some (s, bt') \<and>
    stream_map file_byte file_size n m bt' s (case m key of None \<Rightarrow> [] | Some data \<Rightarrow> data) \<and>
    root_page_id bt' = root_page_id bt"
proof -
  obtain D V h t chain where t: "tree_rest file_byte file_size D V n h t bt" and ma: "map_at D V n t chain m"
    using tm unfolding tree_map_if_def by auto
  obtain F where c: "cache file_byte file_size D {#} {} F V n (bt_pool bt)" using t by (auto simp: tree_rest_def)
  have rt: "root_page_id bt = root_of t" "tree_at V t" "level h t" "tree_in 0 18446744073709551616 t"
    "\<forall>p \<in> set (tree_pages t). p \<noteq> 0 \<and> p < n \<and> p \<notin> D" using t by (auto simp: tree_rest_def)
  have few: "size {#} < (1000 :: nat)" by simp
  from search_from_correct [OF c few rt(2-4) key_in_all rt(5), of key] obtain s bp' F' where
    s: "search_from os (Suc h) (bt_pool bt) (root_of t) key = Some (s, bp')" "cache file_byte file_size D {#} {} F' V n bp'"
      "case find (has_key key) (tree_tuples t) of None \<Rightarrow> s = PayloadStream_empty
       | Some u \<Rightarrow> u \<in> set (tree_tuples t) \<and> starts D V n u s" by blast
  have e: "BTree_Search os fuel bt key = Some (s, bt\<lparr>bt_pool := bp'\<rparr>)"
    using search_from_fuel [OF s(1), of fuel] tree_rest_height [OF t] fuel rt(1) by (simp add: BTree_Search_def)
  have "stream_ok D V n s (case m key of None \<Rightarrow> [] | Some data \<Rightarrow> data)"
  proof (cases "find (has_key key) (tree_tuples t)")
    case None
    then have "m key = None" using map_at_key [OF ma] find_key_None by blast
    then show ?thesis using s(3) None by (simp add: stream_ok_def PayloadStream_empty_def)
  next
    case (Some u)
    note k = find_key_Some [OF Some]
    obtain data where d: "m key = Some data" using map_at_key [OF ma, of key] k by (cases "m key") auto
    then have "stored D V n (chain key) u data" using map_at_stored [OF ma] k by auto
    then show ?thesis using s(3) Some d starts_stream by auto
  qed
  then have "stream_map file_byte file_size n m (bt\<lparr>bt_pool := bp'\<rparr>) s (case m key of None \<Rightarrow> [] | Some data \<Rightarrow> data)"
    unfolding stream_map_def using tree_rest_pool [OF t s(2)] ma by blast
  then show ?thesis using e by simp
qed

lemma next_bytes_map:
  assumes "stream_map file_byte file_size n m bt s data"
  shows "\<exists>s' bp'. NextBytes os (bt_pool bt) s k = Some (take k data, s', bp') \<and>
    stream_map file_byte file_size n m (bt\<lparr>bt_pool := bp'\<rparr>) s' (drop k data)"
proof -
  obtain D V h t chain where t: "tree_rest file_byte file_size D V n h t bt" and ma: "map_at D V n t chain m" and s: "stream_ok D V n s data"
    using assms unfolding stream_map_def by auto
  obtain F where c: "cache file_byte file_size D {#} {} F V n (bt_pool bt)" using t by (auto simp: tree_rest_def)
  have few: "size {#} < (1000 :: nat)" by simp
  from NextBytes_correct [OF c few s, of k] obtain s' bp' F' where
    r: "NextBytes os (bt_pool bt) s k = Some (take k data, s', bp')" "cache file_byte file_size D {#} {} F' V n bp'"
      "stream_ok D V n s' (drop k data)" by blast
  then show ?thesis unfolding stream_map_def using tree_rest_pool [OF t r(2)] ma by blast
qed

lemma read_portions_map:
  "stream_map file_byte file_size n m bt s data \<Longrightarrow>
    \<exists>s' bt'. read_portions os bt s ks = Some (portions ks data, s', bt') \<and>
      stream_map file_byte file_size n m bt' s' (drop (sum_list ks) data)"
proof (induction ks arbitrary: bt s data)
  case (Cons k ks)
  from next_bytes_map [OF Cons.prems, of k] obtain s1 bp1 where
    r: "NextBytes os (bt_pool bt) s k = Some (take k data, s1, bp1)"
      "stream_map file_byte file_size n m (bt\<lparr>bt_pool := bp1\<rparr>) s1 (drop k data)" by blast
  from Cons.IH [OF r(2)] r(1) show ?case by (auto simp: add.commute)
qed auto

lemma insert_all_map:
  "tree_map_if g file_byte file_size n m bt \<Longrightarrow> 52 < fuel \<Longrightarrow> insertable ds \<Longrightarrow> \<forall>d \<in> set ds. m (payload_key d) = None \<Longrightarrow>
    unat n + pages_for ds < 4503599627370496 \<Longrightarrow>
    \<exists>n' bt'. insert_all os stack fuel bt ds = Some bt' \<and> tree_map_if g file_byte file_size n' (m ++ payload_map ds) bt' \<and>
      n \<le> n' \<and> unat n' \<le> unat n + pages_for ds"
proof (induction ds arbitrary: n m bt)
  case Nil
  then show ?case by (auto simp: payload_map_def)
next
  case (Cons d ds)
  have d: "8 \<le> length d" "length d < 4294967278" "m (load_u64 (of_bytes d) 0) = None"
    and lim: "unat n + 54 + length d < 4503599627370496"
    using Cons.prems by (simp_all add: insertable_def payload_key_def)
  from insert_map [OF Cons.prems(1,2) lim d(1,2,3), where stack = stack] obtain n1 bt1 where
    i: "BTree_Insert os stack fuel bt (of_bytes d) (length d) (payload_key d) = Some (True, bt1)"
      "tree_map_if g file_byte file_size n1 (m(payload_key d \<mapsto> d)) bt1" "n \<le> n1" "unat n1 \<le> unat n + 54 + length d"
    by (auto simp: payload_key_def)
  have ins: "insertable ds" and new: "\<forall>e \<in> set ds. (m(payload_key d \<mapsto> d)) (payload_key e) = None"
    using Cons.prems(3,4) by (auto simp: insertable_def image_iff)
  have "unat n1 + pages_for ds < 4503599627370496" using Cons.prems(5) i(4) by simp
  from Cons.IH [OF i(2) Cons.prems(2) ins new this] obtain n' bt' where
    r: "insert_all os stack fuel bt1 ds = Some bt'" "tree_map_if g file_byte file_size n' (m(payload_key d \<mapsto> d) ++ payload_map ds) bt'"
      "n1 \<le> n'" "unat n' \<le> unat n1 + pages_for ds" by blast
  have "payload_key d \<notin> dom (payload_map ds)"
    using Cons.prems(3) by (auto simp: insertable_def payload_map_def dom_map_of_conv_image_fst image_image)
  then have "m(payload_key d \<mapsto> d) ++ payload_map ds = m ++ payload_map (d # ds)"
    by (auto simp: payload_map_def map_add_def fun_eq_iff split: option.splits)
  then show ?case using i r by (intro exI [of _ n'] exI [of _ bt']) auto
qed

text \<open>Deletion takes the key out of the map; the overflow pages of its payload stay behind, unused.\<close>

lemma delete_map:
  assumes tm: "tree_map_if g file_byte file_size n m bt" and fuel: "52 < fuel"
  shows "\<exists>ok bt'. BTree_Delete os 0 fuel bt key = Some (ok, bt') \<and> tree_map file_byte file_size n (m(key := None)) bt' \<and>
    (ok \<longrightarrow> m key \<noteq> None) \<and> (g \<longrightarrow> ok = (m key \<noteq> None))"
proof -
  obtain D V h t chain where t: "tree_rest file_byte file_size D V n h t bt" and ma: "map_at D V n t chain m"
    and kd: "g \<longrightarrow> keyed t" using tm unfolding tree_map_if_def by auto
  note map = ma [unfolded map_at_def]
  have "h < fuel" using tree_rest_height [OF t] fuel by simp
  from BTree_Delete_correct [OF t this, of key] obtain ok bt' D' V' h' t' where
    d: "BTree_Delete os 0 fuel bt key = Some (ok, bt')" "tree_rest file_byte file_size D' V' n h' t' bt'"
      "tree_tuples t' = drop_key key (tree_tuples t)" "set (tree_pages t') \<subseteq> set (tree_pages t)" "D' \<subseteq> insert (root_of t) D"
      "\<forall>q. q \<notin> set (tree_pages t) \<longrightarrow> q \<noteq> 1 \<longrightarrow> alike (V q) (V' q)" "ok \<longrightarrow> hit key t" "keyed t \<longrightarrow> ok = hit key t"
    unfolding delete_done_def by blast
  let ?m = "m(key := None)"
  have tup: "u \<in> set (tree_tuples t') \<longleftrightarrow> u \<in> set (tree_tuples t) \<and> tuple_key u \<noteq> key" for u
    by (auto simp: d(3) drop_key_def)
  have "tuple_key ` set (tree_tuples t') = tuple_key ` set (tree_tuples t) - {key}" by (auto simp: d(3) drop_key_def)
  then have "dom ?m = tuple_key ` set (tree_tuples t')" using map by simp
  moreover have "stored D' V' n (chain (tuple_key u)) u (the (?m (tuple_key u))) \<and>
      (\<forall>p \<in> set (chain (tuple_key u)). p \<notin> set (tree_pages t') \<and> 1 < p \<and> p < n)" if "u \<in> set (tree_tuples t')" for u
  proof -
    have u: "u \<in> set (tree_tuples t)" "tuple_key u \<noteq> key" using that tup by simp_all
    have ch: "\<forall>p \<in> set (chain (tuple_key u)). p \<notin> set (tree_pages t) \<and> 1 < p \<and> p < n" using map u(1) by blast
    have "stored D V n (chain (tuple_key u)) u (the (m (tuple_key u)))" using map u(1) by blast
    then have "stored D' V' n (chain (tuple_key u)) u (the (m (tuple_key u)))"
    proof (rule stored_alike)
      fix p assume "p \<in> set (chain (tuple_key u))" "p \<notin> D"
      then have p: "p \<notin> set (tree_pages t)" "p \<noteq> 1" "p \<notin> D" using ch by auto
      then have "p \<noteq> root_of t" using root_in_pages by metis
      then show "alike (V p) (V' p) \<and> p \<notin> D'" using p d(5,6) by blast
    qed
    then show ?thesis using u(2) ch d(4) by auto
  qed
  ultimately have "map_at D' V' n t' chain ?m" unfolding map_at_def by blast
  then have "tree_map file_byte file_size n ?m bt'" unfolding tree_map_if_def using d(2) by blast
  moreover have "hit key t \<longleftrightarrow> m key \<noteq> None" using map_at_key [OF ma, of key] by (simp add: hit_def)
  ultimately show ?thesis using d(1,7,8) kd by blast
qed

lemma delete_all_map:
  "tree_map file_byte file_size n m bt \<Longrightarrow> 52 < fuel \<Longrightarrow>
    \<exists>oks bt'. delete_all os fuel bt ks = Some (oks, bt') \<and> length oks = length ks \<and>
      tree_map file_byte file_size n (m |` (- set ks)) bt' \<and> (\<forall>(ok, k) \<in> set (zip oks ks). ok \<longrightarrow> k \<in> dom m)"
proof (induction ks arbitrary: m bt)
  case Nil
  then show ?case by simp
next
  case (Cons k ks)
  from delete_map [OF Cons.prems(1,2), of k] obtain ok bt1 where
    d: "BTree_Delete os 0 fuel bt k = Some (ok, bt1)" "tree_map file_byte file_size n (m(k := None)) bt1" "ok \<longrightarrow> m k \<noteq> None" by blast
  from Cons.IH [OF d(2) Cons.prems(2)] obtain oks bt' where
    r: "delete_all os fuel bt1 ks = Some (oks, bt')" "length oks = length ks"
      "tree_map file_byte file_size n (m(k := None) |` (- set ks)) bt'"
      "\<forall>(ok, j) \<in> set (zip oks ks). ok \<longrightarrow> j \<in> dom (m(k := None))" by blast
  have "m(k := None) |` (- set ks) = m |` (- set (k # ks))" by (auto simp: restrict_map_def)
  then show ?case using d r by (intro exI [of _ "ok # oks"] exI [of _ bt']) (auto simp: split: if_splits)
qed

end

end
