(* ===== verification/Database.thy ===== *)
theory Database
  imports Tree_Map
begin

text \<open>
  The life of a database: the start-up of the server (\<open>Bootstrap\<close> in
  \<open>database/src/impl/server/server.cpp\<close>), which opens the file, creates the pool and the tree, and
  the shutdown, which destroys them and leaves the file. A new file starts as the empty map; a
  file left by a shutdown is opened with the map it had.
\<close>

section \<open>Start-up and shutdown\<close>

text \<open>
  \<open>Bootstrap\<close> once the file is opened (\<open>open_database\<close>). \<open>BootFailed\<close> is the return code 1;
  \<open>memory\<close> is what the allocation of the frames returned.
\<close>

definition Server_Bootstrap :: "'d posix \<Rightarrow> mem \<Rightarrow> (nat \<Rightarrow> mem) \<Rightarrow> 'd option \<Rightarrow> boot_failure + 'd BTree" where
  "Server_Bootstrap os stack memory opened =
    (case StorageManager_Bootstrap os stack opened of
       None \<Rightarrow> Inl BootFailed
     | Some sm \<Rightarrow>
         let bufferpool = BufferPool_new memory sm
         in BTree_new os stack bufferpool)"

text \<open>The members are destroyed in reverse order; what counts is the file the pool leaves.\<close>

definition Server_shutdown :: "'d posix \<Rightarrow> 'd BTree \<Rightarrow> 'd" where
  "Server_shutdown os bt = fd_database (storage_manager (BufferPool_delete os (bt_pool bt)))"

section \<open>The pool at start-up\<close>

lemma cache_new:
  assumes "store_ok fb fs n sm"
  shows "cache fb fs {} {#} {} F (\<lambda>q. of_bytes (disk_page fb sm q)) n (BufferPool_new memory sm)"
  using assms BufferPool_new_ok(1) [of fb "{}" memory sm] BufferPool_new_ok(2) [of fb memory sm]
  by (simp add: cache_def pins_ok_def frames_kept_def) (simp add: BufferPool_new_def)

text \<open>The content of pages that no client reaches does not matter.\<close>

lemma cache_views:
  assumes "cache fb fs D P W F V n bp" and "\<And>q. client_page q \<Longrightarrow> q \<notin> D \<Longrightarrow> V' q = V q"
  shows "cache fb fs D P W F V' n bp"
  using assms by (simp add: cache_def)

context regular_file begin

lemma flush_store_ok:
  assumes "pool_inv bp" "store_ok file_byte file_size n (storage_manager bp)"
  shows "store_ok file_byte file_size n (storage_manager (flush_frame os i bp))"
proof (cases "is_dirty (buffer_pool_meta bp i)")
  case True
  then have "i \<in> ran (page_table bp)" using pool_invD(10) [OF assms(1)] by blast
  then obtain pid where t: "page_table bp pid = Some i" by (auto simp: ran_def)
  note p = pool_invD(2-4) [OF assms(1) t]
  obtain r sm where w: "PrivateWritePage os (storage_manager bp) pid (buffer_pool bp i) = (r, sm)" by fastforce
  show ?thesis
    using write_store_ok(1) [OF assms(2) p(1,3) w] True w by (simp add: flush_frame_def p(2) WritePage_private [OF p(1)])
qed (use assms(2) in \<open>simp add: flush_frame_def\<close>)

lemma flush_frames_store_ok:
  "pool_but file_byte D D bp \<Longrightarrow> store_ok file_byte file_size n (storage_manager bp) \<Longrightarrow>
    store_ok file_byte file_size n (storage_manager (fold (flush_frame os) is bp))"
proof (induction "is" arbitrary: bp)
  case (Cons i "is")
  have inv: "pool_inv bp" using Cons.prems(1) by (simp add: pool_but_def)
  show ?case
    using Cons.IH [OF flush_frame_ok(1) [OF Cons.prems(1)] flush_store_ok [OF inv Cons.prems(2)], of i] by simp
qed simp

text \<open>After a shutdown the content of the dead pages is known again: it is what the disk holds.\<close>

lemma shutdown_store:
  assumes c: "cache file_byte file_size D {#} {} F V n bp"
  defines "sm \<equiv> storage_manager (BufferPool_delete os bp)"
  shows "store_ok file_byte file_size n sm"
    "cache file_byte file_size {} {#} {} F (\<lambda>q. if q \<in> D then of_bytes (disk_page file_byte sm q) else V q) n (BufferPool_new memory sm)"
proof -
  have ok: "pool_but file_byte D D bp" using cacheD(1) [OF c] by simp
  show st: "store_ok file_byte file_size n sm"
    using flush_frames_store_ok [OF ok cacheD(5) [OF c]] by (simp add: sm_def BufferPool_delete_def)
  have "V q = of_bytes (disk_page file_byte sm q)" if "client_page q" "q \<notin> D" for q
    using that cacheD(9) [OF c that] BufferPool_delete_persists [OF ok subset_refl, of q]
    by (simp add: sm_def client_page_def)
  then show "cache file_byte file_size {} {#} {} F (\<lambda>q. if q \<in> D then of_bytes (disk_page file_byte sm q) else V q) n (BufferPool_new memory sm)"
    by (intro cache_views [OF cache_new [OF st]]) simp
qed

section \<open>The tree at start-up\<close>

lemma BTree_new_reopen:
  assumes c: "cache file_byte file_size D {#} {} F V n bp" and n: "1 < n" "1 \<notin> D" and m: "meta_ok V root"
  shows "\<exists>bp' F'. BTree_new os stack bp = Inr \<lparr>root_page_id = root, bt_pool = bp'\<rparr> \<and> cache file_byte file_size D {#} {} F' V n bp'"
proof -
  have few: "size {#} < (1000 :: nat)" and one: "(1 :: PageID) \<noteq> 0" by simp_all
  from cache_request [OF c few one n] obtain i bp1 where
    i: "request_page os bp 1 = Some (i, bp1)" "cache file_byte file_size D (add_mset 1 {#}) {} (F(1 := i)) V n bp1" by blast
  have sp: "same_page (buffer_pool bp1 i) (V 1)" using cache_frame [OF i(2), of 1] by simp
  have "load_u32 (buffer_pool bp1 i) 0 = DATABASE_MAGIC_NUMBER" "load_u64 (buffer_pool bp1 i) 4 = root"
    using m same_page_load [OF sp, of 0 4] same_page_load [OF sp, of 4 8] by (simp_all add: meta_ok_def DATABASE_META_PAGE_ID_def)
  then have "BTree_new os stack bp = Inr \<lparr>root_page_id = root, bt_pool = release_page bp1 1 False\<rparr>"
    using i(1) by (simp add: BTree_new_def DATABASE_META_PAGE_ID_def MAGIC_NUMBER_SIZE_def)
  moreover have "cache file_byte file_size D {#} {} (F(1 := i)) V n (release_page bp1 1 False)"
    using cache_release [OF i(2), of 1 False] by simp
  ultimately show ?thesis by blast
qed

lemma BTree_new_fresh:
  assumes c: "cache file_byte file_size D {#} {} F V n bp" and n: "1 < n" "unat n < 4503599627370496" and D: "1 \<notin> D"
    and m: "load_u32 (V 1) 0 \<noteq> DATABASE_MAGIC_NUMBER"
  shows "\<exists>V' bt. BTree_new os stack bp = Inr bt \<and> tree_rest file_byte file_size D V' (n + 1) 0 (LeafT n []) bt"
proof -
  have few: "size {#} < (1000 :: nat)" "size {#1#} < (1000 :: nat)" and one: "(1 :: PageID) \<noteq> 0" by simp_all
  from cache_request [OF c few(1) one n(1) D] obtain i bp1 where
    i: "request_page os bp 1 = Some (i, bp1)" "cache file_byte file_size D {#1#} {} (F(1 := i)) V n bp1" by blast
  let ?F = "F(1 := i)"
  have sp: "same_page (buffer_pool bp1 i) (V 1)" using cache_frame [OF i(2), of 1] by simp
  then have no: "load_u32 (buffer_pool bp1 i) 0 \<noteq> DATABASE_MAGIC_NUMBER" using m same_page_load [OF sp, of 0 4] by simp
  have n0: "n \<noteq> 0" using n(1) by auto
  from cache_alloc [OF i(2) few(2) n0 n(2), of stack] obtain j bp2 where
    j: "alloc_page os stack bp1 = Some (j, n, bp2)" "cache file_byte file_size D {#n, 1#} {} (?F(n := j)) V (n + 1) bp2" "n \<notin> D" by auto
  note nD = j(3)
  have n1: "n \<noteq> 1" "1 \<noteq> n" using n(1) by auto
  define q where "q = LeafPage_MakePage (buffer_pool bp2 j) 0 0 (\<lambda>_. 0) n 0 0"
  have "fresh_page q (\<lambda>_. 0) [] n 0 0"
    by (rule MakePage_fresh [OF q_def [symmetric]]) simp_all
  then have lq: "leaf_wf q" "tuples q = []" "page_id q = n" "right_pid q = 0" by (simp_all add: fresh_page_def)
  let ?bp3 = "release_page (write_frame bp2 j q) n True" and ?V1 = "V(n := image q)"
  have c3: "cache file_byte file_size D {#1#} {} (?F(n := j)) ?V1 (n + 1) ?bp3"
    using cache_release [OF cache_write [OF j(2), of n q], of n True] by simp
  define p where "p = store_u64 (store_u32 (buffer_pool ?bp3 i) 0 DATABASE_MAGIC_NUMBER) 4 n"
  let ?bp4 = "release_page (write_frame ?bp3 i p) 1 True" and ?V2 = "?V1(1 := image p)"
  have c4: "cache file_byte file_size D {#} {} (?F(n := j)) ?V2 (n + 1) ?bp4"
    using cache_release [OF cache_write [OF c3, of 1 p], of 1 True] n1 by simp
  have lk: "linked ?V2 [n] 0"
    using n1 lq(4) same_page_headers(7) [OF same_page_image(2), of q] by (simp add: linked_def)
  have mg: "DATABASE_MAGIC_NUMBER < 256 ^ 4" by (simp add: magic_defs)
  have "meta_ok ?V2 n"
    using mg by (simp add: meta_ok_def DATABASE_META_PAGE_ID_def image_load p_def mem_simps)
  moreover have "tree_at ?V2 (LeafT n [])" using image_leaf [OF lq(1)] lq n1 by simp
  moreover have "n < n + 1" using n(2) by (simp add: unat_word_ariths word_less_nat_alt)
  moreover have "1 < n + 1" using n(1) \<open>n < n + 1\<close> by (rule less_trans)
  moreover have "BTree_new os stack bp = Inr \<lparr>root_page_id = n, bt_pool = ?bp4\<rparr>"
    using i(1) no j(1) by (simp add: BTree_new_def DATABASE_META_PAGE_ID_def MAGIC_NUMBER_SIZE_def p_def Let_def flip: q_def)
  ultimately show ?thesis
    using c4 n(1) D nD lk by (intro exI [of _ ?V2] exI [of _ "\<lparr>root_page_id = n, bt_pool = ?bp4\<rparr>"]) (auto simp: tree_rest_def)
qed

section \<open>The contract\<close>

lemma bootstrap_store:
  assumes "\<not> IsDatabaseFile os stack fd"
  obtains sm where "StorageManager_Bootstrap os stack (Some fd) = Some sm" "store_ok file_byte file_size 2 sm"
    "on_disk sm DATABASE_META_PAGE_ID = replicate 4096 0"
proof -
  obtain sm where "StorageManager_Bootstrap os stack (Some fd) = Some sm"
    "storage_inv file_byte file_size sm" "new_page_offset_index sm = 2" "on_disk sm DATABASE_META_PAGE_ID = replicate 4096 0"
    "8192 \<le> file_size (fd_database sm)"
    by (rule Bootstrap_fresh [OF assms])
  then show ?thesis by (intro that [of sm]) (simp_all add: store_ok_def)
qed

lemma bootstrap_fresh_tree:
  assumes "\<not> IsDatabaseFile os stack fd"
  shows "\<exists>V bt. Server_Bootstrap os stack memory (Some fd) = Inr bt \<and> tree_rest file_byte file_size {} V 3 0 (LeafT 2 []) bt"
proof -
  obtain sm where sm: "StorageManager_Bootstrap os stack (Some fd) = Some sm" "store_ok file_byte file_size 2 sm"
    "on_disk sm DATABASE_META_PAGE_ID = replicate 4096 0"
    by (rule bootstrap_store [OF assms])
  have z: "load_u32 (of_bytes (on_disk sm 1)) 0 \<noteq> DATABASE_MAGIC_NUMBER"
  proof -
    have "of_bytes (on_disk sm 1) = (\<lambda>_. 0)"
      using sm(3) by (intro ext) (simp add: DATABASE_META_PAGE_ID_def of_bytes_def)
    then show ?thesis by (simp add: magic_defs)
  qed
  from BTree_new_fresh [OF cache_new [OF sm(2)] _ _ _ z, of stack memory] obtain V bt where
    "BTree_new os stack (BufferPool_new memory sm) = Inr bt" "tree_rest file_byte file_size {} V 3 0 (LeafT 2 []) bt" by auto
  then show ?thesis using sm(1) by (auto simp: Server_Bootstrap_def)
qed

lemma bootstrap_map_fresh:
  assumes "\<not> IsDatabaseFile os stack fd"
  shows "\<exists>bt. Server_Bootstrap os stack memory (Some fd) = Inr bt \<and> tree_map_if g file_byte file_size 3 Map.empty bt"
  using bootstrap_fresh_tree [OF assms, of memory] by (fastforce simp: tree_map_if_def map_at_def)

lemma restart_map:
  assumes "tree_map_if g file_byte file_size n m bt"
  shows "\<exists>bt'. Server_Bootstrap os stack memory (Some (Server_shutdown os bt)) = Inr bt' \<and>
    tree_map_if g file_byte file_size n m bt' \<and> root_page_id bt' = root_page_id bt"
proof -
  obtain D V h t chain where t: "tree_rest file_byte file_size D V n h t bt" and ma: "map_at D V n t chain m"
    and kd: "g \<longrightarrow> keyed t" using assms unfolding tree_map_if_def by auto
  then obtain F where c: "cache file_byte file_size D {#} {} F V n (bt_pool bt)" and mt: "meta_ok V (root_of t)" "1 < n" "1 \<notin> D"
    and root: "root_page_id bt = root_of t" and pg: "\<forall>p \<in> set (tree_pages t). p \<notin> D"
    by (auto simp: tree_rest_def)
  let ?sm = "storage_manager (BufferPool_delete os (bt_pool bt))"
  let ?V = "\<lambda>q. if q \<in> D then of_bytes (disk_page file_byte ?sm q) else V q"
  note sd = shutdown_store [OF c]
  have "storage_inv file_byte file_size ?sm" using sd(1) by (simp add: store_ok_def)
  note b = Bootstrap_restart [OF this, of stack]
  have mt': "meta_ok ?V (root_of t)" using mt(1,3) by (simp add: meta_ok_def DATABASE_META_PAGE_ID_def)
  from BTree_new_reopen [OF sd(2) mt(2) _ mt', of stack memory] obtain bp' F' where
    n: "BTree_new os stack (BufferPool_new memory ?sm) = Inr \<lparr>root_page_id = root_of t, bt_pool = bp'\<rparr>"
    and c': "cache file_byte file_size {} {#} {} F' ?V n bp'" by blast
  have "tree_at ?V t" by (rule tree_at_frame [of V]) (use t pg in \<open>auto simp: tree_rest_def\<close>)
  moreover have "linked ?V (leaf_pids t) 0"
    by (rule linked_frame [of V]) (use t pg leaf_pids_pages [of t] in \<open>auto simp: tree_rest_def\<close>)
  ultimately have "tree_rest file_byte file_size {} ?V n h t \<lparr>root_page_id = root_of t, bt_pool = bp'\<rparr>"
    using t c' mt' unfolding tree_rest_def by auto
  moreover have "map_at {} ?V n t chain m" using map_at_alive [OF ma, of ?V] by simp
  ultimately have "tree_map_if g file_byte file_size n m \<lparr>root_page_id = root_of t, bt_pool = bp'\<rparr>"
    unfolding tree_map_if_def using kd by blast
  then show ?thesis
    using n b root by (intro exI [of _ "\<lparr>root_page_id = root_of t, bt_pool = bp'\<rparr>"])
      (auto simp: Server_Bootstrap_def Server_shutdown_def)
qed

end

section \<open>Histories\<close>

text \<open>
  Everything a client can do with a database, in any order, and what a map answers. A report of a
  failed deletion may be wrong (the last clause of \<open>agrees\<close>), every other answer is exact.
\<close>

datatype db_op = Put "byte list" | Del Key | Get Key "nat list" | Restart "nat \<Rightarrow> mem"

datatype db_answer = Inserted bool | Removed bool | Found "byte list list" bool | Restarted

text \<open>\<open>junk\<close> is the value of the uninitialised local of a deletion (\<open>merge_report\<close>).\<close>

fun db_step :: "'d posix \<Rightarrow> mem \<Rightarrow> nat \<Rightarrow> 'd BTree \<Rightarrow> db_op \<Rightarrow> (db_answer \<times> 'd BTree) option" where
  "db_step os stack junk bt (Put d) = do {
     (ok, bt) \<leftarrow> BTree_Insert os stack 53 bt (of_bytes d) (length d) (payload_key d);
     Some (Inserted ok, bt)
   }"
| "db_step os stack junk bt (Del k) = do {
     (ok, bt) \<leftarrow> BTree_Delete os junk 53 bt k;
     Some (Removed ok, bt)
   }"
| "db_step os stack junk bt (Get k sizes) = do {
     (s, bt) \<leftarrow> BTree_Search os 53 bt k;
     (outs, s, bt) \<leftarrow> read_portions os bt s sizes;
     Some (Found outs (IsEOF s), bt)
   }"
| "db_step os stack junk bt (Restart memory) =
    (case Server_Bootstrap os stack memory (Some (Server_shutdown os bt)) of
       Inl _ \<Rightarrow> None
     | Inr bt \<Rightarrow> Some (Restarted, bt))"

fun db_run :: "'d posix \<Rightarrow> mem \<Rightarrow> nat \<Rightarrow> 'd BTree \<Rightarrow> db_op list \<Rightarrow> (db_answer list \<times> 'd BTree) option" where
  "db_run os stack junk bt [] = Some ([], bt)"
| "db_run os stack junk bt (x # xs) = do {
     (a, bt) \<leftarrow> db_step os stack junk bt x;
     (as, bt) \<leftarrow> db_run os stack junk bt xs;
     Some (a # as, bt)
   }"

definition payload_of :: "(Key \<rightharpoonup> byte list) \<Rightarrow> Key \<Rightarrow> byte list" where
  "payload_of m k = (case m k of None \<Rightarrow> [] | Some d \<Rightarrow> d)"

fun map_step :: "(Key \<rightharpoonup> byte list) \<Rightarrow> db_op \<Rightarrow> db_answer \<times> (Key \<rightharpoonup> byte list)" where
  "map_step m (Put d) = (Inserted True, m(payload_key d \<mapsto> d))"
| "map_step m (Del k) = (Removed (m k \<noteq> None), m(k := None))"
| "map_step m (Get k sizes) = (Found (portions sizes (payload_of m k)) (length (payload_of m k) \<le> sum_list sizes), m)"
| "map_step m (Restart memory) = (Restarted, m)"

fun map_run :: "(Key \<rightharpoonup> byte list) \<Rightarrow> db_op list \<Rightarrow> db_answer list \<times> (Key \<rightharpoonup> byte list)" where
  "map_run m [] = ([], m)"
| "map_run m (x # xs) = (let (a, m) = map_step m x; (as, m) = map_run m xs in (a # as, m))"

text \<open>
  Payloads of at least eight bytes, below the limit of the protocol, under a new key; deletions
  only when the uninitialised local is 0.
\<close>

fun permitted :: "nat \<Rightarrow> (Key \<rightharpoonup> byte list) \<Rightarrow> db_op list \<Rightarrow> bool" where
  "permitted junk m [] \<longleftrightarrow> True"
| "permitted junk m (x # xs) \<longleftrightarrow>
     (case x of Put d \<Rightarrow> 8 \<le> length d \<and> length d < 4294967278 \<and> m (payload_key d) = None | Del k \<Rightarrow> junk = 0 | _ \<Rightarrow> True) \<and>
     permitted junk (snd (map_step m x)) xs"

fun pages_used :: "db_op \<Rightarrow> nat" where
  "pages_used (Put d) = 54 + length d"
| "pages_used _ = 0"

fun agrees :: "db_answer \<Rightarrow> db_answer \<Rightarrow> bool" where
  "agrees (Removed b) (Removed c) \<longleftrightarrow> (b \<longrightarrow> c)"
| "agrees a b \<longleftrightarrow> a = b"

context regular_file begin

lemma db_step_map:
  assumes tm: "tree_map file_byte file_size n m bt" and ok: "permitted junk m [x]" and n: "unat n + pages_used x < 4503599627370496"
  shows "\<exists>a n' bt'. db_step os stack junk bt x = Some (a, bt') \<and> agrees a (fst (map_step m x)) \<and>
    tree_map file_byte file_size n' (snd (map_step m x)) bt' \<and> unat n' \<le> unat n + pages_used x"
proof (cases x)
  case (Put d)
  have d: "8 \<le> length d" "length d < 4294967278" "m (load_u64 (of_bytes d) 0) = None" "unat n + 54 + length d < 4503599627370496"
    using ok n by (simp_all add: Put payload_key_def)
  from insert_map [OF tm _ d(4,1,2,3), of 53 stack] show ?thesis by (fastforce simp: Put payload_key_def)
next
  case (Del k)
  from delete_map [OF tm, of 53 k] ok show ?thesis by (fastforce simp: Del)
next
  case (Get k sizes)
  from search_map [OF tm, of 53 k] obtain s bt1 where
    s: "BTree_Search os 53 bt k = Some (s, bt1)" "stream_map file_byte file_size n m bt1 s (payload_of m k)"
    unfolding payload_of_def by auto
  from read_portions_map [OF s(2), of sizes] obtain s' bt2 where
    r: "read_portions os bt1 s sizes = Some (portions sizes (payload_of m k), s', bt2)"
      "stream_map file_byte file_size n m bt2 s' (drop (sum_list sizes) (payload_of m k))" by blast
  show ?thesis using s(1) r(1) stream_map_remaining [OF r(2)] stream_map_tree [OF r(2)] by (auto simp: Get)
next
  case (Restart memory)
  from restart_map [OF tm, of stack memory] show ?thesis by (auto simp: Restart)
qed

lemma db_run_map:
  "tree_map file_byte file_size n m bt \<Longrightarrow> permitted junk m xs \<Longrightarrow> unat n + sum_list (map pages_used xs) < 4503599627370496 \<Longrightarrow>
    \<exists>as n' bt'. db_run os stack junk bt xs = Some (as, bt') \<and> list_all2 agrees as (fst (map_run m xs)) \<and>
      tree_map file_byte file_size n' (snd (map_run m xs)) bt'"
proof (induction xs arbitrary: n m bt)
  case (Cons x xs)
  have x: "permitted junk m [x]" "unat n + pages_used x < 4503599627370496" using Cons.prems(2,3) by simp_all
  from db_step_map [OF Cons.prems(1) x, of stack] obtain a n1 bt1 where
    s: "db_step os stack junk bt x = Some (a, bt1)" "agrees a (fst (map_step m x))"
      "tree_map file_byte file_size n1 (snd (map_step m x)) bt1" "unat n1 \<le> unat n + pages_used x" by blast
  have "permitted junk (snd (map_step m x)) xs" "unat n1 + sum_list (map pages_used xs) < 4503599627370496"
    using Cons.prems(2,3) s(4) by simp_all
  from Cons.IH [OF s(3) this] obtain as n' bt' where
    r: "db_run os stack junk bt1 xs = Some (as, bt')" "list_all2 agrees as (fst (map_run (snd (map_step m x)) xs))"
      "tree_map file_byte file_size n' (snd (map_run (snd (map_step m x)) xs)) bt'" by blast
  then show ?case using s(1,2) by (auto simp: Let_def split: prod.splits)
qed auto

end

end
