(* ===== verification/Delete_Reports.thy ===== *)
theory Delete_Reports
  imports Tree_Delete
begin

text \<open>
  The limits of a deletion. The value of the uninitialised local that \<open>CheckUnderflow\<close> adds to does
  not matter to a tree of at most one level of inner pages, whatever is merged: it only enters the
  report of the root, which nobody reads. And below an inner page without a key nothing is
  repaired: the key is deleted, the pages stay as they are, and the deletion reports a failure.
\<close>

section \<open>The uninitialised size\<close>

text \<open>What \<open>Delete\<close> hands on of a report.\<close>

definition outcome :: "(DeleteStatus \<times> 'd BTree) option \<Rightarrow> (bool \<times> 'd BTree) option" where
  "outcome = map_option (apfst success)"

lemma outcome_simps:
  "outcome None = None" "outcome (Some (r, bt)) = Some (success r, bt)" "outcome (m \<bind> f) = m \<bind> (\<lambda>x. outcome (f x))"
  "outcome (if b then u else v) = (if b then outcome u else outcome v)"
  "outcome (case z of (x, y) \<Rightarrow> g x y) = (case z of (x, y) \<Rightarrow> outcome (g x y))"
  "outcome (case w of None \<Rightarrow> u | Some x \<Rightarrow> k x) = (case w of None \<Rightarrow> outcome u | Some x \<Rightarrow> outcome (k x))"
  by (simp_all add: outcome_def split: prod.split option.split Option.bind_split)

lemma BTree_Delete_outcome: "BTree_Delete os junk fuel bt key = outcome (delete_from os junk fuel bt (root_page_id bt) key)"
  unfolding BTree_Delete_def by (cases "delete_from os junk fuel bt (root_page_id bt) key") (auto simp: outcome_simps)

lemma outcome_finish:
  "NO_MATCH (0 :: nat) junk \<Longrightarrow>
    outcome (finish_leaf_merge os junk i pid to from releases rep bt) = outcome (finish_leaf_merge os 0 i pid to from releases rep bt)"
  by (simp add: finish_leaf_merge_def outcome_simps merge_report_def Let_def split_beta)

lemma outcome_merge_leaves:
  "NO_MATCH (0 :: nat) junk \<Longrightarrow> outcome (leaf_merge_left os junk i pid c l rep bt) = outcome (leaf_merge_left os 0 i pid c l rep bt)"
  "NO_MATCH (0 :: nat) junk \<Longrightarrow> outcome (leaf_merge_right os junk i pid c l rep bt) = outcome (leaf_merge_right os 0 i pid c l rep bt)"
  unfolding leaf_merge_left_def leaf_merge_right_def Let_def by (simp_all only: outcome_simps outcome_finish [of junk])

lemma outcome_fix_leaf:
  "outcome (fix_leaf_child os junk i pid c rep bt) = outcome (fix_leaf_child os 0 i pid c rep bt)"
  unfolding fix_leaf_child_def Let_def outcome_simps
  by (intro Option.bind_cong refl) (auto simp: outcome_simps outcome_merge_leaves [of junk] split: option.split intro!: Option.bind_cong)

context regular_file begin

theorem BTree_Delete_low:
  assumes r: "tree_rest file_byte file_size D V n h t bt" and h: "h \<le> 1" "h < fuel"
  shows "BTree_Delete os junk fuel bt key = BTree_Delete os 0 fuel bt key"
proof -
  obtain F where c: "cache file_byte file_size D {#} {} F V n (bt_pool bt)" using r by (auto simp: tree_rest_def)
  have few: "size {#} < (1000 :: nat)" "size {#x#} < (1000 :: nat)" for x :: PageID by simp_all
  have t: "tree_at V t" "level h t" "tree_in 0 18446744073709551616 t" "root_page_id bt = root_of t"
    and pg: "\<forall>p \<in> set (tree_pages t). p \<noteq> 0 \<and> p < n \<and> p \<notin> D"
    using r by (auto simp: tree_rest_def)
  obtain f where f: "fuel = Suc f" using h(2) by (cases fuel) auto
  show ?thesis
  proof (cases t)
    case (LeafT pid ts)
    from enter_leaf [OF c few(1) t(1) [unfolded LeafT] pg [unfolded LeafT]] obtain i bp where
      "request_page os (bt_pool bt) pid = Some (i, bp)" "page_type (buffer_pool bp i) = PageType_code LeafPage" by blast
    then show ?thesis by (simp add: BTree_Delete_def f t(4) LeafT)
  next
    case (NodeT pid ks cs)
    obtain i bp h' ks1 ks2 cs1 c cs2 where i: "request_page os (bt_pool bt) pid = Some (i, bp)"
      "cache file_byte file_size D {#pid#} {} (F(pid := i)) V n bp" "\<forall>q \<in># {#}. (F(pid := i)) q = F q"
      "page_type (buffer_pool bp i) = PageType_code InternalPage" "GetChildPageID (buffer_pool bp i) key = root_of c"
      "h = Suc h'" "ks = ks1 @ ks2" "cs = cs1 @ c # cs2" "length ks1 = length cs1" "length ks2 = length cs2"
      "key_in (lower 0 ks1) (upper 18446744073709551616 ks2) key" "left_part 0 ks1 cs1"
      "tree_in (lower 0 ks1) (upper 18446744073709551616 ks2) c" "right_part 18446744073709551616 ks2 cs2"
      "\<forall>d \<in> set (cs1 @ c # cs2). tree_at V d \<and> level h' d" "\<forall>p \<in> set (tree_pages c). p \<noteq> 0 \<and> p < n \<and> p \<notin> D"
      by (rule enter_node [OF c few(1) t(1) [unfolded NodeT] t(2) [unfolded NodeT] t(3) [unfolded NodeT] key_in_all pg [unfolded NodeT]])
    have "tree_at V c" "level h' c" using i(15) by simp_all
    then obtain cp ts where c: "c = LeafT cp ts" using h(1) i(6) by (cases c) auto
    obtain g where g: "f = Suc g" using h(2) i(6) f by (cases f) auto
    from enter_leaf [OF i(2) few(2) \<open>tree_at V c\<close> [unfolded c] i(16) [unfolded c]] obtain j bp2 where
      j: "request_page os bp cp = Some (j, bp2)" "page_type (buffer_pool bp2 j) = PageType_code LeafPage" by blast
    have d: "delete_from os junk' f (bt\<lparr>bt_pool := bp\<rparr>) cp key = Some (delete_in_leaf j cp key (bt\<lparr>bt_pool := bp2\<rparr>))" for junk'
      using j by (simp add: g)
    have ty: "ds_page_type (fst (delete_in_leaf j cp key bt')) = LeafPage" for bt' :: "'d BTree"
      by (simp add: delete_in_leaf_def Let_def split_beta)
    show ?thesis
      unfolding BTree_Delete_outcome f t(4) NodeT root_of.simps delete_from.simps(2) [of os _ f] i(1)
      using i(4) ty by (simp add: Let_def i(5) c d split_beta outcome_simps outcome_fix_leaf [of os junk] del: delete_from.simps)
  qed
qed

text \<open>A deletion is right when the value is 0, or when no inner page but the root can be short of keys.\<close>

corollary BTree_Delete_done:
  assumes "tree_rest file_byte file_size D V n h t bt" "h < fuel" "junk = 0 \<or> h \<le> 1"
  shows "\<exists>ok bt'. BTree_Delete os junk fuel bt key = Some (ok, bt') \<and> delete_done file_byte file_size D V n h t key ok bt'"
  using BTree_Delete_correct [OF assms(1,2)] BTree_Delete_low [OF assms(1) _ assms(2)] assms(3) by metis

section \<open>Other values\<close>

text \<open>
  A value that does not make the sum wrap never reports an underflow that is none, but may hide one.
  One that does can report any page as empty, a full one too: its neighbour then lends too much
  or the two are merged, whatever they hold.
\<close>

lemma CheckUnderflow_junk:
  assumes "internal_wf p"
  shows "junk + 16 * num_keys p + 8 < 65536 \<Longrightarrow>
      fst (CheckUnderflow p junk) = (junk + 16 * num_keys p + 8 \<le> INTERNAL_UNDERFLOW_THRESHOLD)"
    "\<exists>junk < 65536. CheckUnderflow p junk = (True, 0)"
proof -
  have n: "num_keys p \<le> 254" using assms by (simp add: internal_wf_def)
  show "fst (CheckUnderflow p junk) = (junk + 16 * num_keys p + 8 \<le> INTERNAL_UNDERFLOW_THRESHOLD)"
    if "junk + 16 * num_keys p + 8 < 65536"
    using that by (simp add: CheckUnderflow_def Let_def u16_def) linarith
  have "CheckUnderflow p (65528 - 16 * num_keys p) = (True, 0)"
    using n by (simp add: CheckUnderflow_def Let_def u16_def)
  then show "\<exists>junk < 65536. CheckUnderflow p junk = (True, 0)" by (intro exI [of _ "65528 - 16 * num_keys p"]) simp
qed

section \<open>Below a page without a key\<close>

lemma settle_alone:
  assumes "children (buffer_pool (bt_pool bt) i) = [child_pid]"
  shows "fix_leaf_child os junk i pid child_pid report bt = fall_through pid bt"
    "fix_internal_child os junk i pid child_pid report bt = fall_through pid bt"
proof -
  let ?p = "buffer_pool (bt_pool bt) i"
  have d: "distinct (children ?p)" "0 < length (children ?p)" "children ?p ! 0 = child_pid" using assms by simp_all
  have n: "num_keys ?p = 0" using arg_cong [OF assms, of length] by simp
  have "left_sibling e ?p child_pid = mk_result 0 e" "right_sibling e ?p child_pid = mk_result 0 e" for e
    using left_sibling_spec [OF d(1,2), of e] right_sibling_spec [OF d(1,2), of e] d(3) n by simp_all
  then show "fix_leaf_child os junk i pid child_pid report bt = fall_through pid bt"
    "fix_internal_child os junk i pid child_pid report bt = fall_through pid bt"
    by (simp_all add: fix_leaf_child_def fix_internal_child_def GetLeafLeftSibling_def GetLeafRightSibling_def
        GetInternalLeftSibling_def GetInternalRightSibling_def Let_def)
qed

lemma enter_only:
  assumes c: "cache file_byte file_size D P {} F V n bp" and few: "size P < 1000" and t: "tree_at V (NodeT pid [] [c])"
    and lv: "level h (NodeT pid [] [c])" and tin: "tree_in lo hi (NodeT pid [] [c])" and k: "key_in lo hi key"
    and p: "\<forall>p \<in> set (tree_pages (NodeT pid [] [c])). p \<noteq> 0 \<and> p < n \<and> p \<notin> D"
  obtains i bp1 where "request_page os bp pid = Some (i, bp1)" "cache file_byte file_size D (add_mset pid P) {} (F(pid := i)) V n bp1"
    "page_type (buffer_pool bp1 i) = PageType_code InternalPage" "GetChildPageID (buffer_pool bp1 i) key = root_of c"
proof (rule enter_node [OF c few t lv tin k p])
  fix i bp1 and cs1 cs2 :: "page_tree list" and d
  assume "request_page os bp pid = Some (i, bp1)" "cache file_byte file_size D (add_mset pid P) {} (F(pid := i)) V n bp1"
    "page_type (buffer_pool bp1 i) = PageType_code InternalPage" "GetChildPageID (buffer_pool bp1 i) key = root_of d" "[c] = cs1 @ d # cs2"
  then show thesis by (cases cs1) (auto intro: that)
qed

theorem delete_below_keyless:
  assumes r: "tree_rest file_byte file_size D V n h (NodeT r [] [NodeT c [] [LeafT l ts]]) bt" and f: "2 < fuel"
    and low: "used_space (V l) \<le> 1626" and key: "key \<in> tuple_key ` set ts"
  shows "\<exists>bt' V'. BTree_Delete os junk fuel bt key = Some (False, bt') \<and>
    tree_rest file_byte file_size D V' n h (NodeT r [] [NodeT c [] [LeafT l (drop_key key ts)]]) bt'"
proof -
  let ?l = "LeafT l ts" and ?l' = "LeafT l (drop_key key ts)" and ?top = "18446744073709551616 :: nat"
  let ?c = "NodeT c [] [?l]" and ?c' = "NodeT c [] [?l']"
  let ?t = "NodeT r [] [?c]"
  obtain F where c0: "cache file_byte file_size D {#} {} F V n (bt_pool bt)" using r by (auto simp: tree_rest_def)
  have t: "tree_at V ?t" "level h ?t" "tree_in 0 ?top ?t" and root: "root_page_id bt = r" and h: "h = 2" and d: "distinct (tree_pages ?t)"
    and pg: "\<forall>p \<in> set (tree_pages ?t). p \<noteq> 0 \<and> p < n \<and> p \<notin> D"
    using r by (auto simp: tree_rest_def level_NodeT)
  then have tc: "tree_at V ?c" "level 1 ?c" "tree_in 0 ?top ?c" "\<forall>p \<in> set (tree_pages ?c). p \<noteq> 0 \<and> p < n \<and> p \<notin> D"
    and tl: "tree_at V ?l" "tree_in 0 ?top ?l" "\<forall>p \<in> set (tree_pages ?l). p \<noteq> 0 \<and> p < n \<and> p \<notin> D"
    by (simp_all add: level_NodeT)
  have few: "size {#} < (1000 :: nat)" "size {#x#} < (1000 :: nat)" "size {#x, y#} < (1000 :: nat)" for x y :: PageID by simp_all
  obtain i bp1 where i: "request_page os (bt_pool bt) r = Some (i, bp1)" "cache file_byte file_size D {#r#} {} (F(r := i)) V n bp1"
    "page_type (buffer_pool bp1 i) = PageType_code InternalPage" "GetChildPageID (buffer_pool bp1 i) key = c"
    using enter_only [OF c0 few(1) t key_in_all pg] by auto
  obtain j bp2 where j: "request_page os bp1 c = Some (j, bp2)" "cache file_byte file_size D {#c, r#} {} (F(r := i, c := j)) V n bp2"
    "page_type (buffer_pool bp2 j) = PageType_code InternalPage" "GetChildPageID (buffer_pool bp2 j) key = l"
    using enter_only [OF i(2) few(2) tc(1-3) key_in_all tc(4)] by auto
  let ?F = "F(r := i, c := j)"
  obtain k bp3 where k: "request_page os bp2 l = Some (k, bp3)" "cache file_byte file_size D {#l, c, r#} {} (?F(l := k)) V n bp3"
    "\<forall>q \<in># {#c, r#}. (?F(l := k)) q = ?F q" "page_type (buffer_pool bp3 k) = PageType_code LeafPage"
    by (rule enter_leaf [OF j(2) few(3) tl(1,3)])
  have ck: "cache file_byte file_size D (add_mset l {#c, r#}) {} (?F(l := k)) V n (bt_pool (bt\<lparr>bt_pool := bp3\<rparr>))" using k(2) by simp
  define W where "W = ?F(l := k)"
  have W: "W l = k" "W c = j" "W r = i" using d by (auto simp: W_def)
  from delete_in_leaf_exact [OF ck tl(1,2), of key, folded W_def] obtain rep bp4 V1 where
    e: "delete_in_leaf (W l) l key (bt\<lparr>bt_pool := bp3\<rparr>) = (rep, bt\<lparr>bt_pool := bp3, bt_pool := bp4\<rparr>)"
      "cache file_byte file_size D {#c, r#} {} W V1 n bp4" "pruned V V1 0 ?top 0 key ?l ?l'"
      "ds_page_type rep = LeafPage" "underflown rep = (used_space (V1 l) \<le> 1626)" "used_space (V1 l) \<le> used_space (V l)" by blast
  have u: "underflown rep" using e(5,6) low by simp
  have ndc: "node_in D V n 0 ?top c [] [?l]" and ndr: "node_in D V n 0 ?top r [] [?c]"
    using tc t d pg by (auto simp: node_in_def)
  note pc = pruned_node [of D V n 0 ?top c "[]" "[]" "[]" ?l "[]" key 0 V1 ?l', simplified, OF ndc e(3)]
  note pr = pruned_node [of D V n 0 ?top r "[]" "[]" "[]" ?c "[]" key 1 V1 ?c', simplified, OF ndr pc(1) [simplified]]
  have sp: "same_page (V1 c) (buffer_pool bp4 j)" using same_page_sym [OF cache_frame [OF e(2), of c]] W by simp
  have "internal_wf (V1 c)" "children (V1 c) = [l]" using pc(2) by (simp_all add: node_in_def)
  then have ch: "children (buffer_pool bp4 j) = [l]" using same_page_internal(3) [OF _ sp] by simp
  let ?bp5 = "release_page (release_page bp4 c False) r True"
  let ?bt' = "bt\<lparr>bt_pool := ?bp5\<rparr>"
  have "cache file_byte file_size D {#} {} W V1 n ?bp5"
    using cache_release [OF cache_release [OF e(2), of c False, simplified], of r True] by simp
  then have rest: "tree_rest file_byte file_size D V1 n h (NodeT r [] [?c']) ?bt'"
    using pr(1) root by (intro pruned_rest [OF r, where key = key]) (simp_all add: h numeral_2_eq_2)
  obtain f where f: "fuel = Suc (Suc (Suc f))" using f by (auto dest!: less_imp_Suc_add)
  have "delete_from os junk (Suc f) (bt\<lparr>bt_pool := bp2\<rparr>) l key = Some (rep, bt\<lparr>bt_pool := bp4\<rparr>)"
    using k(1,4) e(1) W by simp
  then have "delete_from os junk (Suc (Suc f)) (bt\<lparr>bt_pool := bp1\<rparr>) c key = fall_through c (bt\<lparr>bt_pool := bp4\<rparr>)"
    unfolding delete_from.simps(2) [of os junk "Suc f"] using j(1,3,4) e(4) u settle_alone(1) [of "bt\<lparr>bt_pool := bp4\<rparr>" j l] ch
    by (simp del: delete_from.simps)
  then have "BTree_Delete os junk fuel bt key = Some (False, ?bt')"
    unfolding BTree_Delete_def f root delete_from.simps(2) [of os junk "Suc (Suc f)"] using i(1,3,4)
    by (simp add: fall_through_def done_report_def del: delete_from.simps)
  with rest show ?thesis by blast
qed

end

end
