(* ===== verification/Tree_Properties.thy ===== *)
theory Tree_Properties
  imports Database Delete_Reports Samples
begin

text \<open>
  The properties of the tree over the buffer pool and of the life of a database, each with an
  instance on the file in memory. \<open>tree_map\<close> is the contract: the map a tree at rest stores.
\<close>

section \<open>A small database\<close>

text \<open>Two payloads: one of 20 bytes, one that needs an overflow page.\<close>

definition payload_a :: "byte list" where
  "payload_a = 7 # replicate 19 0"

definition payload_b :: "byte list" where
  "payload_b = 9 # replicate 7 0 @ replicate 5000 1"

lemma payloads_insertable: "insertable [payload_a, payload_b]" "payload_key payload_a = 7" "payload_key payload_b = 9"
proof -
  have ld: "load_le (of_bytes (x # replicate 7 0 @ ys)) 0 8 = unat x" for x ys
  proof -
    have "load_le (of_bytes (x # replicate 7 0 @ ys)) 0 8 = unat x mod 256 ^ 8"
    proof (rule load_le_digits)
      fix i :: nat assume i: "i < 8"
      show "of_bytes (x # replicate 7 0 @ ys) (0 + i) = word_of_nat (unat x div 256 ^ i)"
      proof (cases i)
        case (Suc k)
        have "unat x < 256 ^ Suc k" by (rule less_le_trans [of _ 256]) simp_all
        then show ?thesis using i Suc by (simp add: of_bytes_def nth_append)
      qed (simp add: of_bytes_def)
    qed
    also have "\<dots> = unat x" by (rule mod_less) (rule less_trans [of _ 256], simp_all)
    finally show ?thesis .
  qed
  have a: "payload_a = 7 # replicate 7 0 @ replicate 12 0" by (simp add: payload_a_def flip: replicate_add)
  show k: "payload_key payload_a = 7" "payload_key payload_b = 9"
    by (simp_all add: payload_key_def payload_b_def a ld)
  have "length payload_b = 5008" by (simp add: payload_b_def)
  then show "insertable [payload_a, payload_b]" by (simp add: insertable_def k) (simp add: payload_a_def)
qed

lemma new_file: "\<not> IsDatabaseFile file_os (\<lambda>_. 0) (\<lambda>_. 0, 0)"
  by (simp add: IsDatabaseFile_def file_os_def PAGE_SIZE_def)

section \<open>The contract of the tree\<close>

text \<open>
  C2. A database is a map. A file that is no database is opened and then payloads are inserted
  under new keys, keys are deleted, searched and read in portions of any sizes, and the server is
  stopped and started again, in any order and number: every call returns, and the answers are
  those of a map from keys to payloads, but for a deletion that may report a failure although it
  removed the key. The file works without faults, there is room for the pages, and
  deletions are among the calls only when the uninitialised size they add to (\<open>junk\<close>) is 0.
\<close>

theorem database_run:
  assumes "regular_file os file_byte file_size" and "\<not> IsDatabaseFile os stack fd" and "permitted junk Map.empty xs"
    and "3 + sum_list (map pages_used xs) < 4503599627370496"
  shows "\<exists>bt as bt' n. Server_Bootstrap os stack memory (Some fd) = Inr bt \<and> db_run os stack junk bt xs = Some (as, bt') \<and>
    list_all2 agrees as (fst (map_run Map.empty xs)) \<and> tree_map file_byte file_size n (snd (map_run Map.empty xs)) bt'"
proof -
  obtain bt where b: "Server_Bootstrap os stack memory (Some fd) = Inr bt" "tree_map file_byte file_size 3 Map.empty bt"
    using regular_file.bootstrap_map_fresh [OF assms(1,2)] by blast
  show ?thesis using regular_file.db_run_map [OF assms(1) b(2) assms(3)] assms(4) b(1) by fastforce
qed

theorem database_run_witness:
  "\<exists>bt as bt'. Server_Bootstrap file_os (\<lambda>_. 0) (\<lambda>_ _. 0) (Some (\<lambda>_. 0, 0)) = Inr bt \<and>
    db_run file_os (\<lambda>_. 0) 0 bt [Put payload_a, Put payload_b, Del 7, Restart (\<lambda>_ _. 3), Put payload_a, Del 9, Get 7 [1, 100], Get 9 [4]] =
      Some (as, bt') \<and>
    as ! 6 = Found [[7], replicate 19 0] True \<and> as ! 7 = Found [[]] True"
proof -
  let ?xs = "[Put payload_a, Put payload_b, Del 7, Restart (\<lambda>_ _. 3), Put payload_a, Del 9, Get 7 [1, 100], Get 9 [4]]"
  note k = payloads_insertable
  have l: "length payload_a = 20" "length payload_b = 5008" by (simp_all add: payload_a_def payload_b_def)
  have p: "permitted 0 Map.empty ?xs" by (simp add: k l)
  have m: "fst (map_run Map.empty ?xs) ! 6 = Found [[7], replicate 19 0] True" "fst (map_run Map.empty ?xs) ! 7 = Found [[]] True"
    by (simp_all add: k payload_of_def l) (simp_all add: payload_a_def)
  have len: "length (fst (map_run Map.empty ?xs)) = 8" by simp
  have n: "3 + sum_list (map pages_used ?xs) < 4503599627370496" by (simp add: l)
  from database_run [OF mem_file.regular_file_axioms new_file p n, of "\<lambda>_ _. 0"] obtain bt as bt' where
    r: "Server_Bootstrap file_os (\<lambda>_. 0) (\<lambda>_ _. 0) (Some (\<lambda>_. 0, 0)) = Inr bt"
      "db_run file_os (\<lambda>_. 0) 0 bt ?xs = Some (as, bt')" "list_all2 agrees as (fst (map_run Map.empty ?xs))" by blast
  have a: "agrees (as ! 6) (fst (map_run Map.empty ?xs) ! 6)" "agrees (as ! 7) (fst (map_run Map.empty ?xs) ! 7)"
    using r(3) len by (auto simp: list_all2_conv_all_nth simp del: map_run.simps)
  have "as ! 6 = Found [[7], replicate 19 0] True" using a(1) unfolding m by (cases "as ! 6") simp_all
  moreover have "as ! 7 = Found [[]] True" using a(2) unfolding m by (cases "as ! 7") simp_all
  ultimately show ?thesis using r(1,2) by blast
qed

text \<open>
  C6. Insertion refines the update of a map. On a file without faults, inserting a payload under
  a key the tree does not have succeeds, with any fuel from 53 levels on, and turns the map of
  the tree into its update: whatever pages had to be split, allocated, evicted and read again,
  all other keys keep their payloads and the new key has all bytes of its payload.
\<close>

theorem database_insert:
  assumes "regular_file os file_byte file_size" and "tree_map file_byte file_size n m bt" and "52 < fuel"
    and "unat n + 54 + bs < 4503599627370496" and "8 \<le> bs" and "bs < 4294967278" and "m (load_u64 buffer 0) = None"
  shows "\<exists>n' bt'. BTree_Insert os stack fuel bt buffer bs (load_u64 buffer 0) = Some (True, bt') \<and>
    tree_map file_byte file_size n' (m(load_u64 buffer 0 \<mapsto> bytes buffer 0 bs)) bt'"
  using regular_file.insert_map [OF assms, of stack] by blast

lemma sample_database:
  obtains bt where "Server_Bootstrap file_os (\<lambda>_. 0) (\<lambda>_ _. 0) (Some (\<lambda>_. 0, 0)) = Inr bt"
    "tree_map_if g fst snd 3 Map.empty bt"
  using mem_file.bootstrap_map_fresh [OF new_file, of "\<lambda>_ _. 0" g] by blast

theorem database_insert_witness:
  "\<exists>bt bt' n'. Server_Bootstrap file_os (\<lambda>_. 0) (\<lambda>_ _. 0) (Some (\<lambda>_. 0, 0)) = Inr bt \<and>
    BTree_Insert file_os (\<lambda>_. 0) 53 bt (of_bytes payload_b) 5008 (load_u64 (of_bytes payload_b) 0) = Some (True, bt') \<and>
    tree_map fst snd n' [load_u64 (of_bytes payload_b) 0 \<mapsto> bytes (of_bytes payload_b) 0 5008] bt'"
proof -
  obtain bt where b: "Server_Bootstrap file_os (\<lambda>_. 0) (\<lambda>_ _. 0) (Some (\<lambda>_. 0, 0)) = Inr bt"
    "tree_map fst snd 3 Map.empty bt" by (rule sample_database)
  then show ?thesis
    using database_insert [OF mem_file.regular_file_axioms b(2), where fuel = 53 and bs = 5008 and buffer = "of_bytes payload_b" and stack = "\<lambda>_. 0"] by auto
qed

text \<open>
  C7. A search reads the map. Searching a key opens a stream that announces the length of the
  key's payload (0, at its end at once, for a key without one); reading it in portions of any
  sizes, pages being evicted and fetched in between, gives exactly these portions of the
  payload; neither the search nor the reading changes the map.
\<close>

theorem database_search:
  assumes "regular_file os file_byte file_size" and "tree_map file_byte file_size n m bt" and "52 < fuel"
    and "data = (case m key of None \<Rightarrow> [] | Some d \<Rightarrow> d)"
  shows "\<exists>s bt1 s' bt2. BTree_Search os fuel bt key = Some (s, bt1) \<and>
    PayloadRemaining s = length data \<and> (IsEOF s \<longleftrightarrow> data = []) \<and>
    read_portions os bt1 s ks = Some (portions ks data, s', bt2) \<and>
    PayloadRemaining s' = length data - sum_list ks \<and> tree_map file_byte file_size n m bt2"
proof -
  obtain s bt1 where s: "BTree_Search os fuel bt key = Some (s, bt1)"
    "stream_map file_byte file_size n m bt1 s data"
    using regular_file.search_map [OF assms(1-3), of key] assms(4) by auto
  obtain s' bt2 where r: "read_portions os bt1 s ks = Some (portions ks data, s', bt2)"
    "stream_map file_byte file_size n m bt2 s' (drop (sum_list ks) data)"
    using regular_file.read_portions_map [OF assms(1) s(2), of ks] by auto
  show ?thesis
    using s(1) r(1) stream_map_remaining [OF s(2)] stream_map_remaining [OF r(2)] stream_map_tree [OF r(2)]
    by (intro exI [of _ s] exI [of _ bt1] exI [of _ s'] exI [of _ bt2]) simp
qed

theorem database_search_witness:
  "\<exists>bt s bt1. Server_Bootstrap file_os (\<lambda>_. 0) (\<lambda>_ _. 0) (Some (\<lambda>_. 0, 0)) = Inr bt \<and>
    BTree_Search file_os 53 bt 7 = Some (s, bt1) \<and> PayloadRemaining s = 0"
proof -
  obtain bt where b: "Server_Bootstrap file_os (\<lambda>_. 0) (\<lambda>_ _. 0) (Some (\<lambda>_. 0, 0)) = Inr bt"
    "tree_map fst snd 3 Map.empty bt" by (rule sample_database)
  then show ?thesis
    using database_search [OF mem_file.regular_file_axioms b(2) _ refl, of 53 7 "[]"] by auto
qed

text \<open>
  C5. Deletion refines the removal from a map. Deleting any key returns, and the map of the tree
  loses exactly this key, whatever pages borrowed, merged or gave up their root; success is
  reported only when the key was there. In a tree whose inner pages all have keys, as insertions
  leave it, success is reported exactly when the key was there. This is for the value 0 of the
  uninitialised size (\<open>junk\<close>) that \<open>CheckUnderflow\<close> adds to after a merge, which is what the code
  means; with other values inner pages are merged too late or too early.
\<close>

theorem database_delete:
  assumes "regular_file os file_byte file_size" and "tree_map_if g file_byte file_size n m bt" and "52 < fuel" and "junk = 0"
  shows "\<exists>ok bt'. BTree_Delete os junk fuel bt key = Some (ok, bt') \<and> tree_map file_byte file_size n (m(key := None)) bt' \<and>
    (ok \<longrightarrow> m key \<noteq> None) \<and> (g \<longrightarrow> ok = (m key \<noteq> None))"
  unfolding assms(4) by (rule regular_file.delete_map [OF assms(1-3)])

theorem database_delete_witness:
  "\<exists>bt bt1 n bt2 bt3 ok. Server_Bootstrap file_os (\<lambda>_. 0) (\<lambda>_ _. 0) (Some (\<lambda>_. 0, 0)) = Inr bt \<and>
    insert_all file_os (\<lambda>_. 0) 53 bt [payload_a, payload_b] = Some bt1 \<and>
    BTree_Delete file_os 0 53 bt1 7 = Some (True, bt2) \<and> tree_map fst snd n [9 \<mapsto> payload_b] bt2 \<and>
    BTree_Delete file_os 0 53 bt1 8 = Some (False, bt3) \<and> tree_map fst snd n [7 \<mapsto> payload_a, 9 \<mapsto> payload_b] bt3"
proof -
  note k = payloads_insertable
  have l: "length payload_a = 20" "length payload_b = 5008" by (simp_all add: payload_a_def payload_b_def)
  have pm: "payload_map [payload_a, payload_b] = [7 \<mapsto> payload_a, 9 \<mapsto> payload_b]"
    by (auto simp: payload_map_def k fun_eq_iff)
  obtain bt where b: "Server_Bootstrap file_os (\<lambda>_. 0) (\<lambda>_ _. 0) (Some (\<lambda>_. 0, 0)) = Inr bt"
    "grown_map fst snd 3 Map.empty bt" by (rule sample_database)
  obtain n bt1 where i: "insert_all file_os (\<lambda>_. 0) 53 bt [payload_a, payload_b] = Some bt1"
    "grown_map fst snd n [7 \<mapsto> payload_a, 9 \<mapsto> payload_b] bt1"
    using mem_file.insert_all_map [OF b(2) _ k(1), of 53 "\<lambda>_. 0"] by (auto simp: l pm)
  note d = database_delete [OF mem_file.regular_file_axioms i(2) _ refl, of 53]
  have "[7 \<mapsto> payload_a, 9 \<mapsto> payload_b](7 := None) = ([9 \<mapsto> payload_b] :: Key \<rightharpoonup> byte list)"
    "[7 \<mapsto> payload_a, 9 \<mapsto> payload_b](8 := None) = ([7 \<mapsto> payload_a, 9 \<mapsto> payload_b] :: Key \<rightharpoonup> byte list)"
    by (auto simp: fun_eq_iff)
  then show ?thesis using b(1) i(1) d [of 7] d [of 8] by auto
qed

text \<open>
  C11. A restart loses nothing. Destroying the pool and the tree of a database at rest and starting
  the server again on the file that is left gives a tree with the same map and the same root.
\<close>

theorem database_restart:
  assumes "regular_file os file_byte file_size" and "tree_map file_byte file_size n m bt"
  shows "\<exists>bt'. Server_Bootstrap os stack memory (Some (Server_shutdown os bt)) = Inr bt' \<and>
    tree_map file_byte file_size n m bt' \<and> GetRootPageID bt' = GetRootPageID bt"
  using regular_file.restart_map [OF assms, of stack memory] by (simp add: GetRootPageID_def)

theorem database_restart_witness:
  "\<exists>bt bt'. Server_Bootstrap file_os (\<lambda>_. 0) (\<lambda>_ _. 0) (Some (\<lambda>_. 0, 0)) = Inr bt \<and>
    Server_Bootstrap file_os (\<lambda>_. 0) (\<lambda>_ _. 1) (Some (Server_shutdown file_os bt)) = Inr bt' \<and>
    GetRootPageID bt' = GetRootPageID bt"
proof -
  obtain bt where b: "Server_Bootstrap file_os (\<lambda>_. 0) (\<lambda>_ _. 0) (Some (\<lambda>_. 0, 0)) = Inr bt"
    "tree_map fst snd 3 Map.empty bt" by (rule sample_database)
  then show ?thesis
    using database_restart [OF mem_file.regular_file_axioms b(2), of "\<lambda>_. 0" "\<lambda>_ _. 1"] by blast
qed

text \<open>
  From an empty file and back. A file that is no database is opened, any payloads with
  different keys are inserted, the server is stopped and started again, and a key is searched:
  the stream delivers, in portions of any sizes that cover it, the payload inserted under the
  key, and nothing if there was none.
\<close>

theorem database_history:
  assumes "regular_file os file_byte file_size" and "\<not> IsDatabaseFile os stack fd" and "insertable ds"
    and "3 + pages_for ds < 4503599627370496" and "length (case payload_map ds key of None \<Rightarrow> [] | Some d \<Rightarrow> d) \<le> sum_list ks"
  shows "\<exists>bt bt1 bt2 s bt3 outs s' bt4. Server_Bootstrap os stack memory (Some fd) = Inr bt \<and>
    insert_all os stack 53 bt ds = Some bt1 \<and>
    Server_Bootstrap os stack memory' (Some (Server_shutdown os bt1)) = Inr bt2 \<and>
    BTree_Search os 53 bt2 key = Some (s, bt3) \<and> read_portions os bt3 s ks = Some (outs, s', bt4) \<and> IsEOF s' \<and>
    concat outs = (case payload_map ds key of None \<Rightarrow> [] | Some d \<Rightarrow> d)"
proof -
  let ?data = "case payload_map ds key of None \<Rightarrow> [] | Some d \<Rightarrow> d"
  note rf = assms(1)
  obtain bt where b: "Server_Bootstrap os stack memory (Some fd) = Inr bt" "tree_map file_byte file_size 3 Map.empty bt"
    using regular_file.bootstrap_map_fresh [OF rf assms(2)] by blast
  obtain n1 bt1 where i: "insert_all os stack 53 bt ds = Some bt1" "tree_map file_byte file_size n1 (payload_map ds) bt1"
    using regular_file.insert_all_map [OF rf b(2) _ assms(3), of 53 stack] assms(4) by auto
  obtain bt2 where r: "Server_Bootstrap os stack memory' (Some (Server_shutdown os bt1)) = Inr bt2"
    "tree_map file_byte file_size n1 (payload_map ds) bt2"
    using regular_file.restart_map [OF rf i(2)] by blast
  obtain s bt3 where s: "BTree_Search os 53 bt2 key = Some (s, bt3)"
    "stream_map file_byte file_size n1 (payload_map ds) bt3 s ?data"
    using regular_file.search_map [OF rf r(2), of 53 key] by auto
  obtain s' bt4 where p: "read_portions os bt3 s ks = Some (portions ks ?data, s', bt4)"
    "stream_map file_byte file_size n1 (payload_map ds) bt4 s' (drop (sum_list ks) ?data)"
    using regular_file.read_portions_map [OF rf s(2), of ks] by auto
  have "IsEOF s'" using stream_map_remaining [OF p(2)] assms(5) by simp
  then show ?thesis using b(1) i(1) r(1) s(1) p(1) concat_portions [OF assms(5)] by blast
qed

theorem database_history_witness:
  "\<exists>bt bt1 bt2 s bt3 outs s' bt4. Server_Bootstrap file_os (\<lambda>_. 0) (\<lambda>_ _. 0) (Some (\<lambda>_. 0, 0)) = Inr bt \<and>
    insert_all file_os (\<lambda>_. 0) 53 bt [payload_a, payload_b] = Some bt1 \<and>
    Server_Bootstrap file_os (\<lambda>_. 0) (\<lambda>_ _. 3) (Some (Server_shutdown file_os bt1)) = Inr bt2 \<and>
    BTree_Search file_os 53 bt2 9 = Some (s, bt3) \<and>
    read_portions file_os bt3 s [1024, 5000] = Some (outs, s', bt4) \<and> concat outs = payload_b"
proof -
  note k = payloads_insertable
  have m: "payload_map [payload_a, payload_b] 9 = Some payload_b" by (simp add: payload_map_def k)
  have l: "length payload_a = 20" "length payload_b = 5008" by (simp_all add: payload_a_def payload_b_def)
  have "length (case payload_map [payload_a, payload_b] 9 of None \<Rightarrow> [] | Some d \<Rightarrow> d) \<le> sum_list [1024, 5000]"
    by (simp add: m l)
  from database_history [OF mem_file.regular_file_axioms new_file k(1) _ this] show ?thesis
    by (fastforce simp: l m)
qed



text \<open>
  C9. The shape of the tree under deletion. A deletion from a tree at rest leaves a search tree at
  rest of at most the old height, on pages of the old one, with the leaves still linked in order;
  the tuples are the old ones without those of the key. In a tree of at most one level of inner
  pages this is so whatever the uninitialised size (\<open>junk\<close>) is that a merge adds to, in higher
  trees for its value 0.
\<close>

theorem tree_delete:
  assumes "regular_file os file_byte file_size" and "tree_rest file_byte file_size D V n h t bt" and "h < fuel" and "junk = 0 \<or> h \<le> 1"
  shows "\<exists>ok bt' D' V' h' t'. BTree_Delete os junk fuel bt key = Some (ok, bt') \<and>
    tree_rest file_byte file_size D' V' n h' t' bt' \<and> h' \<le> h \<and>
    tree_tuples t' = filter (\<lambda>u. tuple_key u \<noteq> key) (tree_tuples t) \<and> set (tree_pages t') \<subseteq> set (tree_pages t) \<and>
    (ok \<longrightarrow> key \<in> tuple_key ` set (tree_tuples t)) \<and> (keyed t \<longrightarrow> ok = (key \<in> tuple_key ` set (tree_tuples t)))"
  using regular_file.BTree_Delete_done [OF assms, of key] unfolding delete_done_def drop_key_def hit_def by blast

theorem tree_delete_witness:
  "\<exists>D V n h t bt u ok bt' D' V' h' t'. tree_rest fst snd D V n h t bt \<and> tree_tuples t = [u] \<and> tuple_key u = 7 \<and>
    BTree_Delete file_os 12345 53 bt 7 = Some (ok, bt') \<and> tree_rest fst snd D' V' n h' t' bt' \<and> tree_tuples t' = []"
proof -
  obtain V bt where t: "tree_rest fst snd {} V 3 0 (LeafT 2 []) bt" using mem_file.bootstrap_fresh_tree [OF new_file] by blast
  have k: "load_u64 (of_bytes payload_a) 0 = 7" using payloads_insertable(2) by (simp add: payload_key_def)
  from mem_file.BTree_Insert_correct [OF t _ _ _ _ k, where fuel = 1 and bs = 20 and stack = "\<lambda>_. 0"]
  obtain V1 n1 h1 t1 bt1 u where i: "tree_rest fst snd {} V1 n1 h1 t1 bt1" "h1 \<le> 1" "tree_tuples t1 = insert_tuple u []" "tuple_key u = 7"
    by auto
  have "h1 < 53" using i(2) by simp
  from tree_delete [OF mem_file.regular_file_axioms i(1) this disjI2 [OF i(2)], of 12345 7] obtain ok bt' D' V' h' t' where
    d: "BTree_Delete file_os 12345 53 bt1 7 = Some (ok, bt')" "tree_rest fst snd D' V' n1 h' t' bt'" "tree_tuples t' = []"
    using i(3,4) by (auto simp: insert_tuple_def)
  have "tree_tuples t1 = [u]" using i(3) by (simp add: insert_tuple_def)
  then show ?thesis using i(1,4) d by blast
qed

text \<open>
  C10. Every descent ends. For a database at rest and any key there is one result each of a search,
  a deletion and an insertion of a new key, and every bound on the depth of the recursion from 53
  levels on gives it: no such call runs into the bound, so none of the unbounded recursions of
  the code runs on. As before this is for the value 0 of the uninitialised size of a deletion.
\<close>

theorem descent_terminates:
  assumes "regular_file os file_byte file_size" and "tree_map file_byte file_size n m bt"
    and "unat n + 54 + bs < 4503599627370496" and "8 \<le> bs" and "bs < 4294967278" and "m (load_u64 buffer 0) = None"
    and "junk = 0"
  shows "\<exists>s d i. \<forall>fuel \<ge> 53. BTree_Search os fuel bt key = Some s \<and> BTree_Delete os junk fuel bt key = Some d \<and>
    BTree_Insert os stack fuel bt buffer bs (load_u64 buffer 0) = Some i"
proof -
  have f: "52 < (53 :: nat)" by simp
  obtain s where "BTree_Search os 53 bt key = Some s" using regular_file.search_map [OF assms(1,2) f] by blast
  moreover obtain d where "BTree_Delete os junk 53 bt key = Some d" using regular_file.delete_map [OF assms(1,2) f] assms(7) by blast
  moreover obtain i where "BTree_Insert os stack 53 bt buffer bs (load_u64 buffer 0) = Some i"
    using regular_file.insert_map [OF assms(1,2) f assms(3-6)] by blast
  ultimately show ?thesis
    by (intro exI [of _ s] exI [of _ d] exI [of _ i]) (blast intro: BTree_Search_fuel BTree_Delete_fuel BTree_Insert_fuel)
qed

theorem descent_terminates_witness:
  "\<exists>bt s d i. Server_Bootstrap file_os (\<lambda>_. 0) (\<lambda>_ _. 0) (Some (\<lambda>_. 0, 0)) = Inr bt \<and>
    (\<forall>fuel \<ge> 53. BTree_Search file_os fuel bt 7 = Some s \<and> BTree_Delete file_os 0 fuel bt 7 = Some d \<and>
      BTree_Insert file_os (\<lambda>_. 0) fuel bt (of_bytes payload_b) 5008 (load_u64 (of_bytes payload_b) 0) = Some i)"
proof -
  obtain bt where b: "Server_Bootstrap file_os (\<lambda>_. 0) (\<lambda>_ _. 0) (Some (\<lambda>_. 0, 0)) = Inr bt"
    "tree_map fst snd 3 Map.empty bt" by (rule sample_database)
  have l: "unat (3 :: PageID) + 54 + 5008 < 4503599627370496" "(8 :: nat) \<le> 5008" "5008 < (4294967278 :: nat)" by simp_all
  from descent_terminates [OF mem_file.regular_file_axioms b(2) l _ refl, where buffer = "of_bytes payload_b" and key = 7 and stack = "\<lambda>_. 0"] b(1) show ?thesis by blast
qed

text \<open>
  C35. A lost report. Take a database at rest whose root is an inner page without a key above an
  inner page without a key above a leaf, the leaf at most 1626 bytes full. Deleting a key of the
  leaf removes it from the leaf, and nothing else changes: neither page without a key is
  repaired or given up, the tree has the shape it had. But the deletion reports a failure, so
  the client is told the key was not there. It is so for every value of the uninitialised size.
  The root of such a tree is what a merge of its last two inner children leaves, since the lines
  that would replace it are commented out.
\<close>

theorem delete_report_lost:
  assumes "regular_file os file_byte file_size"
    and "tree_rest file_byte file_size D V n h (NodeT r [] [NodeT c [] [LeafT l ts]]) bt" and "2 < fuel"
    and "used_space (V l) \<le> LEAF_UNDERFLOW_THRESHOLD" and "key \<in> tuple_key ` set ts"
  shows "\<exists>bt' V'. BTree_Delete os junk fuel bt key = Some (False, bt') \<and>
    tree_rest file_byte file_size D V' n h
      (NodeT r [] [NodeT c [] [LeafT l (filter (\<lambda>u. tuple_key u \<noteq> key) ts)]]) bt'"
  using regular_file.delete_below_keyless [OF assms(1-3)] assms(4,5) by (simp add: drop_key_def)

text \<open>Such a tree: a leaf with one tuple in page 2, and the pages 3 and 4 above it.\<close>

context regular_file begin

lemma cache_new_page:
  assumes c: "cache file_byte file_size D {#} {} F V n bp" and n: "n \<noteq> 0" "unat n < 4503599627370496"
  shows "\<exists>bp' F'. cache file_byte file_size D {#} {} F' (V(n := image p)) (n + 1) bp'"
proof -
  have few: "size {#} < (1000 :: nat)" by simp
  obtain i bp1 where "cache file_byte file_size D {#n#} {} (F(n := i)) V (n + 1) bp1"
    using cache_alloc [OF c few n, of "\<lambda>_. 0"] by auto
  from cache_release [OF cache_write [OF this, of n p], of n True] show ?thesis by auto
qed

lemma cache_store_page:
  assumes c: "cache file_byte file_size D {#} {} F V n bp" and p: "pid \<noteq> 0" "pid < n" "pid \<notin> D"
  shows "\<exists>bp' F'. cache file_byte file_size D {#} {} F' (V(pid := image p)) n bp'"
proof -
  have few: "size {#} < (1000 :: nat)" by simp
  obtain i bp1 where "cache file_byte file_size D {#pid#} {} (F(pid := i)) V n bp1"
    using cache_request [OF c few p] by auto
  from cache_release [OF cache_write [OF this, of pid p], of pid True] show ?thesis by auto
qed

end

lemma keyless_tree:
  "\<exists>V bt ts. tree_rest fst snd {} V 5 2 (NodeT 4 [] [NodeT 3 [] [LeafT 2 ts]]) bt \<and> used_space (V 2) = 105 \<and>
    map tuple_key ts = [7]"
proof -
  let ?l = "sample_page 2 7 1 100" and ?c = "sample_node 3 0 2 0" and ?r = "sample_node 4 0 3 0"
  note l = sample_facts [of 1 100 7 2, simplified]
  note cf = sample_node_facts [of 0 0 2 3, simplified] and rf = sample_node_facts [of 0 0 3 4, simplified]
  obtain V bt where t: "tree_rest fst snd {} V 3 0 (LeafT 2 []) bt" using mem_file.bootstrap_fresh_tree [OF new_file] by blast
  then obtain F where c: "cache fst snd {} {#} {} F V 3 (bt_pool bt)" and m: "load_u32 (V 1) 0 = DATABASE_MAGIC_NUMBER"
    by (auto simp: tree_rest_def meta_ok_def DATABASE_META_PAGE_ID_def)
  obtain bp1 F1 where c1: "cache fst snd {} {#} {} F1 (V(2 := image ?l)) 3 bp1"
    using mem_file.cache_store_page [OF c, of 2 ?l] by auto
  obtain bp2 F2 where c2: "cache fst snd {} {#} {} F2 (V(2 := image ?l, 3 := image ?c)) 4 bp2"
    using mem_file.cache_new_page [OF c1, of ?c] by auto
  obtain bp3 F3 where c3: "cache fst snd {} {#} {} F3 (V(2 := image ?l, 3 := image ?c, 4 := image ?r)) 5 bp3"
    using mem_file.cache_new_page [OF c2, of ?r] by auto
  let ?V = "V(2 := image ?l, 3 := image ?c, 4 := image ?r)"
  have few: "size {#} < (1000 :: nat)" by simp
  obtain bp4 F4 p where c4: "cache fst snd {} {#} {} F4 (?V(1 := p)) 5 bp4" "meta_ok (?V(1 := p)) 4"
    using mem_file.SetNewRoot_correct [OF c3 few, of 2 4] m by (auto simp: DATABASE_META_PAGE_ID_def)
  let ?W = "?V(1 := p)" and ?t = "NodeT 4 [] [NodeT 3 [] [LeafT 2 (tuples ?l)]]"
  have k: "map tuple_key (tuples ?l) = [7]" using l(3) by simp
  note il = image_leaf_facts [OF l(1)] and ic = image_internal [OF cf(1)] and ir = image_internal [OF rf(1)]
  have "tree_at ?W ?t" using il ic ir l cf rf by simp
  moreover obtain u where u: "tuples ?l = [u]" "tuple_key u = 7" using k by auto
  moreover have "tree_in 0 18446744073709551616 ?t" by (simp add: u key_in_def del: One_nat_def)
  moreover have "linked ?W [2] 0" using il l by (simp add: linked_def)
  ultimately have "tree_rest fst snd {} ?W 5 2 ?t \<lparr>root_page_id = 4, bt_pool = bp4\<rparr>"
    using c4 by (auto simp: tree_rest_def level_NodeT)
  moreover have "used_space (?W 2) = 105" using il l by simp
  ultimately show ?thesis
    using k by (intro exI [of _ ?W] exI [of _ "\<lparr>root_page_id = 4, bt_pool = bp4\<rparr>"] exI [of _ "tuples ?l"] conjI)
qed

theorem delete_report_lost_witness:
  "\<exists>V bt u bt' V'. tree_rest fst snd {} V 5 2 (NodeT 4 [] [NodeT 3 [] [LeafT 2 [u]]]) bt \<and> tuple_key u = 7 \<and>
    BTree_Delete file_os 12345 53 bt 7 = Some (False, bt') \<and>
    tree_rest fst snd {} V' 5 2 (NodeT 4 [] [NodeT 3 [] [LeafT 2 []]]) bt'"
proof -
  obtain V bt ts where t: "tree_rest fst snd {} V 5 2 (NodeT 4 [] [NodeT 3 [] [LeafT 2 ts]]) bt" "used_space (V 2) = 105"
    "map tuple_key ts = [7]" using keyless_tree by (elim exE conjE) (rule that)
  obtain u where u: "ts = [u]" "tuple_key u = 7" using t(3) by auto
  from delete_report_lost [OF mem_file.regular_file_axioms t(1), of 53 7 12345] t(2) u obtain bt' V' where
    "BTree_Delete file_os 12345 53 bt 7 = Some (False, bt')" "tree_rest fst snd {} V' 5 2 (NodeT 4 [] [NodeT 3 [] [LeafT 2 []]]) bt'" by auto
  then show ?thesis
    using t(1) u by (intro exI [of _ V] exI [of _ bt] exI [of _ u] exI [of _ bt'] exI [of _ V'] conjI) simp_all
qed

section \<open>The pool below\<close>

text \<open>
  C12. The pool does not run dry. While its clients hold fewer than 1000 pins, a request for any
  page below the next page number succeeds: if the page is not resident a frame is free or an
  unpinned one is found, and the transfers succeed. The page is pinned once more, every other
  pin is as it was, no pinned page is moved, no frame is lost and no content changes, so the
  next request succeeds under the same conditions.
\<close>

theorem request_total:
  assumes "regular_file os file_byte file_size" and "pool_ok file_byte W bp" and "pins_ok P bp" and "frames_kept {} bp"
    and "size P < 1000" and "store_ok file_byte file_size n (storage_manager bp)" and "pid \<noteq> 0" and "pid < n"
    and "RequestPage os bp pid = (r, bp')"
  shows "\<exists>i. r = mk_result (Some i) ErrNone \<and> page_table bp' pid = Some i \<and> pool_ok file_byte W bp' \<and>
    same_views file_byte bp bp' \<and> pins_ok (add_mset pid P) bp' \<and> frames_kept {} bp' \<and>
    store_ok file_byte file_size n (storage_manager bp') \<and> (\<forall>q \<in># P. page_table bp' q = page_table bp q)"
  using regular_file.RequestPage_total [OF assms] by blast

theorem request_total_witness:
  "\<exists>sm r bp' i. StorageManager_Bootstrap file_os (\<lambda>_. 0) (Some (\<lambda>_. 0, 0)) = Some sm \<and>
    RequestPage file_os (BufferPool_new (\<lambda>_ _. 0) sm) 1 = (r, bp') \<and> r = mk_result (Some i) ErrNone \<and> pins_ok {#1#} bp'"
proof -
  obtain sm where sm: "StorageManager_Bootstrap file_os (\<lambda>_. 0) (Some (\<lambda>_. 0, 0)) = Some sm"
    "store_ok fst snd 2 sm"
    by (rule mem_file.bootstrap_store [OF new_file])
  have c: "cache fst snd {} {#} {} (\<lambda>_. 0) (\<lambda>q. of_bytes (disk_page fst sm q)) 2 (BufferPool_new (\<lambda>_ _. 0) sm)"
    by (rule cache_new [OF sm(2)])
  obtain r bp' where r: "RequestPage file_os (BufferPool_new (\<lambda>_ _. 0) sm) 1 = (r, bp')" by fastforce
  show ?thesis
    using request_total [OF mem_file.regular_file_axioms cacheD(1,3,4) [OF c] _ cacheD(5) [OF c] _ _ r] sm(1) r by auto
qed

end
