(* ===== verification/Socket_IO.thy ===== *)
theory Socket_IO
  imports Commons "HOL-Library.Monad_Syntax" "HOL-Library.Sublist"
begin

text \<open>
  Blocking input and output on a stream socket, as the server
  (\<open>database/src/impl/server/server.cpp\<close>) and the client (\<open>client/src/impl/client.cpp\<close>) do it:
  \<open>WriteExactlyNBytes\<close> and \<open>ReadExactlyNBytes\<close> with short transfers, interrupted calls, the
  shutdown by a signal and every error. The system calls are a parameter. Proved: whatever the
  network does, what was sent is a part of the buffer from its start, all of it on success; a
  read returns exactly the bytes that arrived; on a connection that makes progress both return.
\<close>

section \<open>System calls\<close>

text \<open>
  One connection in the state \<open>'s\<close> of the world. \<open>net_read\<close> asks for at most so many bytes, the
  empty list is the end of the stream; \<open>net_write\<close> returns the number of bytes taken;
  \<open>net_running\<close> is the flag the signal handler clears.
\<close>

record 's net =
  net_read :: "'s \<Rightarrow> nat \<Rightarrow> (errno + byte list) \<times> 's"
  net_write :: "'s \<Rightarrow> byte list \<Rightarrow> (errno + nat) \<times> 's"
  net_running :: "'s \<Rightarrow> bool"

text \<open>The exceptions the two loops throw.\<close>

datatype net_error = Shutdown | NoProgress | BrokenPipe | ResetByPeer | ClosedEarly | SystemError errno

section \<open>The loops\<close>

text \<open>
  The loop of \<open>WriteExactlyNBytes\<close>: \<open>buffer\<close> is what is left to write and \<open>count\<close> the number of
  writes in a row that took nothing. \<open>None\<close> is a loop that does not end.
\<close>

partial_function (option) write_loop ::
    "'s net \<Rightarrow> byte list \<Rightarrow> nat \<Rightarrow> 's \<Rightarrow> ((net_error + unit) \<times> 's) option" where
  "write_loop net buffer count s =
    (if buffer = [] then Some (Inr (), s)
     else
       let (bytes_written, s) = net_write net s buffer;
           count = (if bytes_written = Inr 0 then count + 1 else 0)
       in if 100 \<le> count then Some (Inl NoProgress, s)
          else
            (case bytes_written of
               Inl errno \<Rightarrow>
                 if errno = EINTR then
                   (if \<not> net_running net s then Some (Inl Shutdown, s) else write_loop net buffer count s)
                 else if errno = EPIPE then Some (Inl BrokenPipe, s)
                 else Some (Inl (SystemError errno), s)
             | Inr n \<Rightarrow> write_loop net (drop n buffer) count s))"

definition Server_WriteExactlyNBytes :: "'s net \<Rightarrow> byte list \<Rightarrow> 's \<Rightarrow> ((net_error + unit) \<times> 's) option" where
  "Server_WriteExactlyNBytes net buffer s = write_loop net buffer 0 s"

text \<open>\<open>ReadExactlyNBytes\<close> asks for the missing bytes, at most 1024 at a time.\<close>

partial_function (option) read_loop ::
    "'s net \<Rightarrow> nat \<Rightarrow> byte list \<Rightarrow> 's \<Rightarrow> ((net_error + byte list) \<times> 's) option" where
  "read_loop net n buffer s =
    (if n = 0 then Some (Inr buffer, s)
     else
       let (bytes_read, s) = net_read net s (min n 1024)
       in case bytes_read of
            Inl errno \<Rightarrow>
              if errno = EINTR then
                (if \<not> net_running net s then Some (Inl Shutdown, s) else read_loop net n buffer s)
              else if errno = ECONNRESET then Some (Inl ResetByPeer, s)
              else Some (Inl (SystemError errno), s)
          | Inr piece \<Rightarrow>
              if piece = [] then Some (Inl ClosedEarly, s)
              else read_loop net (n - length piece) (buffer @ piece) s)"

definition Server_ReadExactlyNBytes :: "'s net \<Rightarrow> nat \<Rightarrow> 's \<Rightarrow> ((net_error + byte list) \<times> 's) option" where
  "Server_ReadExactlyNBytes net n s = read_loop net n [] s"

text \<open>The client has its own copies of the two loops.\<close>

definition Client_WriteExactlyNBytes :: "'s net \<Rightarrow> byte list \<Rightarrow> 's \<Rightarrow> ((net_error + unit) \<times> 's) option" where
  "Client_WriteExactlyNBytes net buffer s = write_loop net buffer 0 s"

definition Client_ReadExactlyNBytes :: "'s net \<Rightarrow> nat \<Rightarrow> 's \<Rightarrow> ((net_error + byte list) \<times> 's) option" where
  "Client_ReadExactlyNBytes net n s = read_loop net n [] s"

lemmas exact_io_defs = Server_WriteExactlyNBytes_def Server_ReadExactlyNBytes_def
  Client_WriteExactlyNBytes_def Client_ReadExactlyNBytes_def

lemma write_loop_nil [simp]: "write_loop net [] count s = Some (Inr (), s)"
  by (subst write_loop.simps) simp

lemma read_loop_0 [simp]: "read_loop net 0 buffer s = Some (Inr buffer, s)"
  by (subst read_loop.simps) simp

section \<open>A stream socket\<close>

text \<open>
  \<open>sent\<close> is what the kernel has taken for the peer, \<open>arrived\<close> what it has handed over. A call
  moves at most what it was asked to and a failed one nothing; nothing is lost or reordered.
\<close>

locale stream_socket =
  fixes net :: "'s net" and sent arrived :: "'s \<Rightarrow> byte list"
  assumes write_law: "net_write net s buffer = (r, s') \<Longrightarrow> arrived s' = arrived s \<and>
      (case r of Inl e \<Rightarrow> sent s' = sent s | Inr k \<Rightarrow> k \<le> length buffer \<and> sent s' = sent s @ take k buffer)"
    and read_law: "net_read net s n = (q, s') \<Longrightarrow> sent s' = sent s \<and>
      (case q of Inl e \<Rightarrow> arrived s' = arrived s | Inr piece \<Rightarrow> length piece \<le> n \<and> arrived s' = arrived s @ piece)"
begin

text \<open>What a call has sent: a beginning of the message, all of it unless it failed.\<close>

definition wrote :: "'s \<Rightarrow> byte list \<Rightarrow> bool \<Rightarrow> 's \<Rightarrow> bool" where
  "wrote s message all s' \<longleftrightarrow> (\<exists>out. sent s' = sent s @ out \<and> prefix out message \<and> (all \<longrightarrow> out = message))"

definition sends :: "'s \<Rightarrow> byte list \<Rightarrow> bool \<Rightarrow> 's \<Rightarrow> bool" where
  "sends s message all s' \<longleftrightarrow> arrived s' = arrived s \<and> wrote s message all s'"

lemma wrote_append: "wrote s m1 True s1 \<Longrightarrow> wrote s1 m2 all s2 \<Longrightarrow> wrote s (m1 @ m2) all s2"
  unfolding wrote_def by auto

lemma wrote_nil [simp]: "wrote s [] all s"
  by (simp add: wrote_def)

lemma wrote_same: "sent s1 = sent s \<Longrightarrow> wrote s1 m all s2 = wrote s m all s2"
  by (simp add: wrote_def)

lemma sends_wrote: "sends s message all s' \<longleftrightarrow> arrived s' = arrived s \<and>
    (\<exists>out. sent s' = sent s @ out \<and> prefix out message \<and> (all \<longrightarrow> out = message))"
  by (simp add: sends_def wrote_def)

lemma wrote_sent: "wrote s message all s' \<longleftrightarrow> (\<exists>out. sent s' = sent s @ out \<and> prefix out message \<and> (all \<longrightarrow> out = message))"
  by (simp add: wrote_def)

lemma sends_refl [simp]: "sends s [] all s"
  by (simp add: sends_def wrote_def)

lemma sends_all: "sends s message True s' \<longleftrightarrow> arrived s' = arrived s \<and> sent s' = sent s @ message"
  by (auto simp: sends_def wrote_def)

lemma sends_append: "sends s m1 True s1 \<Longrightarrow> sends s1 m2 all s2 \<Longrightarrow> sends s (m1 @ m2) all s2"
  unfolding sends_def wrote_def by auto

lemma sends_part: "sends s m1 all s1 \<Longrightarrow> sends s (m1 @ m2) False s1"
  unfolding sends_def wrote_def by (auto intro: prefix_order.trans)

lemma write_loop_sends:
  assumes "write_loop net buffer count s = Some (r, s')"
  shows "sends s buffer (r = Inr ()) s'"
proof -
  have "net' = net \<longrightarrow> sends s buffer (fst y = Inr ()) (snd y)" if "write_loop net' buffer count s = Some y" for net' y
    using that
  proof (rule write_loop.raw_induct [rotated], goal_cases)
    case (1 f net' buffer count s y)
    obtain q s1 where w: "net_write net s buffer = (q, s1)" by fastforce
    show ?case
    proof (intro impI)
      assume n: "net' = net"
      consider "buffer = []" "y = (Inr (), s)" | e where "y = (Inl e, s1)" "q = Inr 0 \<or> (\<exists>e. q = Inl e)"
        | k c where "f net (drop k buffer) c s1 = Some y" "q = Inr k \<or> (\<exists>e. q = Inl e) \<and> k = 0"
        using 1(2) w by (fastforce simp: n Let_def split: if_splits sum.splits)
      then show "sends s buffer (fst y = Inr ()) (snd y)"
      proof cases
        case 2
        then show ?thesis using write_law [OF w] by (auto simp: sends_def wrote_def)
      next
        case 3
        have l: "sends s (take k buffer) True s1" using write_law [OF w] 3(2) by (auto simp: sends_all)
        have "sends s1 (drop k buffer) (fst y = Inr ()) (snd y)" using 1(1) [OF 3(1)] by simp
        from sends_append [OF l this] show ?thesis by simp
      qed simp
    qed
  qed
  from this [of net "(r, s')"] assms show ?thesis by simp
qed

text \<open>A read returns the bytes that arrived in between, exactly as many as asked for.\<close>

lemma read_loop_reads:
  assumes "read_loop net n buffer s = Some (r, s')"
  shows "sent s' = sent s \<and> (\<exists>got. arrived s' = arrived s @ got \<and> length got \<le> n \<and>
    (\<forall>out. r = Inr out \<longrightarrow> out = buffer @ got \<and> length got = n))"
proof -
  let ?P = "\<lambda>n buffer s y. sent (snd y) = sent s \<and> (\<exists>got. arrived (snd y) = arrived s @ got \<and> length got \<le> n \<and>
    (\<forall>out. fst y = Inr out \<longrightarrow> out = buffer @ got \<and> length got = n))"
  have "net' = net \<longrightarrow> ?P n buffer s y" if "read_loop net' n buffer s = Some y" for net' y
    using that
  proof (rule read_loop.raw_induct [rotated], goal_cases)
    case (1 f net' n buffer s y)
    obtain q s1 where w: "net_read net s (min n 1024) = (q, s1)" by fastforce
    note l = read_law [OF w]
    show ?case
    proof (intro impI)
      assume net: "net' = net"
      consider "n = 0" "y = (Inr buffer, s)" | e where "y = (Inl e, s1)" "(\<exists>e. q = Inl e) \<or> q = Inr []"
        | e where "f net n buffer s1 = Some y" "q = Inl e"
        | piece where "f net (n - length piece) (buffer @ piece) s1 = Some y" "q = Inr piece"
        using 1(2) w by (fastforce simp: net Let_def split: if_splits sum.splits)
      then show "?P n buffer s y"
      proof cases
        case 3
        then have "?P n buffer s1 y" using 1(1) by blast
        then show ?thesis using l 3(2) by simp
      next
        case 4
        then have "?P (n - length piece) (buffer @ piece) s1 y" using 1(1) by blast
        then obtain got where g: "sent (snd y) = sent s1" "arrived (snd y) = arrived s1 @ got" "length got \<le> n - length piece"
          "\<forall>out. fst y = Inr out \<longrightarrow> out = (buffer @ piece) @ got \<and> length got = n - length piece" by blast
        moreover have "length piece \<le> n" using l 4(2) by simp
        ultimately show ?thesis using l 4(2) by (intro conjI exI [of _ "piece @ got"]) auto
      qed (use l in auto)
    qed
  qed
  from this [of net "(r, s')"] assms show ?thesis by auto
qed

end

section \<open>A connection that makes progress\<close>

text \<open>
  No call fails for good and no signal ends the program: a call may be interrupted, but not for
  ever (\<open>patience\<close> counts), or moves a byte at least. \<open>pending\<close> is what the peer will still send
  before it closes its side; \<open>up\<close> holds as long as all this is so.
\<close>

locale reliable_socket = stream_socket net sent arrived for net :: "'s net" and sent arrived +
  fixes up :: "'s \<Rightarrow> bool" and pending :: "'s \<Rightarrow> byte list" and patience :: "'s \<Rightarrow> nat"
  assumes running_law: "up s \<Longrightarrow> net_running net s"
    and write_progress: "up s \<Longrightarrow> buffer \<noteq> [] \<Longrightarrow> net_write net s buffer = (r, s') \<Longrightarrow>
      up s' \<and> pending s' = pending s \<and> patience s' \<le> patience s \<and>
      (case r of Inl e \<Rightarrow> e = EINTR \<and> patience s' < patience s | Inr k \<Rightarrow> 0 < k)"
    and read_progress: "up s \<Longrightarrow> 0 < n \<Longrightarrow> net_read net s n = (q, s') \<Longrightarrow>
      up s' \<and> patience s' \<le> patience s \<and>
      (case q of Inl e \<Rightarrow> e = EINTR \<and> patience s' < patience s \<and> pending s' = pending s
       | Inr piece \<Rightarrow> pending s = piece @ pending s' \<and> (piece = [] \<longrightarrow> pending s = []))"
begin

lemma write_loop_total:
  "up s \<Longrightarrow> \<exists>s'. write_loop net buffer count s = Some (Inr (), s') \<and> up s' \<and> pending s' = pending s \<and> patience s' \<le> patience s"
proof (induction "patience s + length buffer" arbitrary: s buffer count rule: less_induct)
  case less
  show ?case
  proof (cases "buffer = []")
    case False
    obtain q s1 where w: "net_write net s buffer = (q, s1)" by fastforce
    note p = write_progress [OF less.prems False w] and run = running_law [of s1]
    show ?thesis
    proof (cases q)
      case (Inl e)
      then have "patience s1 + length buffer < patience s + length buffer" "up s1" using p by auto
      from less.hyps [OF this] obtain s' where "write_loop net buffer 0 s1 = Some (Inr (), s')" "up s'"
        "pending s' = pending s1" "patience s' \<le> patience s1" by blast
      then show ?thesis using p run w Inl False by (subst write_loop.simps) auto
    next
      case (Inr k)
      then have "patience s1 + length (drop k buffer) < patience s + length buffer" "up s1" using p False by (auto simp: le_diff_conv add_le_less_mono)
      from less.hyps [OF this] obtain s' where "write_loop net (drop k buffer) 0 s1 = Some (Inr (), s')" "up s'"
        "pending s' = pending s1" "patience s' \<le> patience s1" by blast
      then show ?thesis using p w Inr False by (subst write_loop.simps) auto
    qed
  qed (use less in auto)
qed

lemma read_loop_total:
  "up s \<Longrightarrow> n \<le> length (pending s) \<Longrightarrow> \<exists>s'. read_loop net n buffer s = Some (Inr (buffer @ take n (pending s)), s') \<and>
    up s' \<and> pending s' = drop n (pending s) \<and> patience s' \<le> patience s"
proof (induction "patience s + n" arbitrary: s n buffer rule: less_induct)
  case less
  show ?case
  proof (cases "n = 0")
    case False
    obtain q s1 where w: "net_read net s (min n 1024) = (q, s1)" by fastforce
    have "0 < min n 1024" using False by simp
    note p = read_progress [OF less.prems(1) this w] and l = read_law [OF w] and run = running_law [of s1]
    show ?thesis
    proof (cases q)
      case (Inl e)
      then have "patience s1 + n < patience s + n" "up s1" "n \<le> length (pending s1)" using p less.prems(2) by auto
      from less.hyps [OF this] obtain s' where "read_loop net n buffer s1 = Some (Inr (buffer @ take n (pending s1)), s')" "up s'"
        "pending s' = drop n (pending s1)" "patience s' \<le> patience s1" by blast
      then show ?thesis using p run w Inl False by (subst read_loop.simps) auto
    next
      case (Inr piece)
      then have b: "pending s = piece @ pending s1" "piece \<noteq> []" "length piece \<le> n" using p l less.prems(2) False by auto
      moreover have "0 < length piece" using b(2) by simp
      ultimately have "n - length piece < n" "up s1" "n - length piece \<le> length (pending s1)" "patience s1 \<le> patience s"
        using p less.prems(2) False by (simp_all add: Inr)
      then have "patience s1 + (n - length piece) < patience s + n" "up s1" "n - length piece \<le> length (pending s1)" by simp_all
      from less.hyps [OF this, of "buffer @ piece"] obtain s' where
        "read_loop net (n - length piece) (buffer @ piece) s1 = Some (Inr ((buffer @ piece) @ take (n - length piece) (pending s1)), s')"
        "up s'" "pending s' = drop (n - length piece) (pending s1)" "patience s' \<le> patience s1" by blast
      then show ?thesis using p b w Inr False by (subst read_loop.simps) auto
    qed
  qed (use less in auto)
qed

end

section \<open>A connection in memory\<close>

text \<open>
  The laws can be met: a peer whose bytes are there from the start and a plan for the calls to
  come, 0 for an interrupted call and any other number for the most it moves. Behind it wait the
  streams of the connections to come.
\<close>

record wire =
  wire_pending :: "byte list"
  wire_sent :: "byte list"
  wire_arrived :: "byte list"
  wire_plan :: "nat list"
  wire_running :: bool
  wire_waiting :: "byte list list"

definition wire_read :: "wire \<Rightarrow> nat \<Rightarrow> (errno + byte list) \<times> wire" where
  "wire_read w n =
    (let plan = wire_plan w; w = w\<lparr>wire_plan := tl plan\<rparr>;
         k = (case plan of [] \<Rightarrow> n | k # _ \<Rightarrow> min k n)
     in if plan \<noteq> [] \<and> hd plan = 0 then (Inl EINTR, w)
        else (Inr (take k (wire_pending w)),
          w\<lparr>wire_pending := drop k (wire_pending w), wire_arrived := wire_arrived w @ take k (wire_pending w)\<rparr>))"

definition wire_write :: "wire \<Rightarrow> byte list \<Rightarrow> (errno + nat) \<times> wire" where
  "wire_write w buffer =
    (let plan = wire_plan w; w = w\<lparr>wire_plan := tl plan\<rparr>;
         k = (case plan of [] \<Rightarrow> length buffer | k # _ \<Rightarrow> min k (length buffer))
     in if plan \<noteq> [] \<and> hd plan = 0 then (Inl EINTR, w)
        else (Inr k, w\<lparr>wire_sent := wire_sent w @ take k buffer\<rparr>))"

definition wire_net :: "wire net" where
  "wire_net = \<lparr>net_read = wire_read, net_write = wire_write, net_running = wire_running\<rparr>"

definition wire_of :: "byte list \<Rightarrow> nat list \<Rightarrow> wire" where
  "wire_of bs plan = \<lparr>wire_pending = bs, wire_sent = [], wire_arrived = [], wire_plan = plan, wire_running = True, wire_waiting = []\<rparr>"

interpretation wire: reliable_socket wire_net wire_sent wire_arrived wire_running wire_pending "\<lambda>w. length (wire_plan w)"
  by unfold_locales
    (auto simp: wire_net_def wire_read_def wire_write_def Let_def split: if_splits list.splits)

section \<open>A peer that takes nothing\<close>

text \<open>After a hundred writes in a row that took nothing the loop gives up.\<close>

lemma write_loop_gives_up:
  assumes "\<And>s. idle s \<Longrightarrow> \<exists>s'. net_write net s buffer = (Inr 0, s') \<and> idle s'" and "idle s" "buffer \<noteq> []" "count < 100"
  shows "\<exists>s'. write_loop net buffer count s = Some (Inl NoProgress, s') \<and> idle s'"
  using assms(2,4)
proof (induction "100 - count" arbitrary: count s)
  case (Suc k)
  obtain s1 where w: "net_write net s buffer = (Inr 0, s1)" "idle s1" using assms(1) [OF Suc.prems(1)] by blast
  show ?case
  proof (cases "count = 99")
    case True
    then show ?thesis using w assms(3) by (subst write_loop.simps) auto
  next
    case False
    then have "k = 100 - Suc count" "Suc count < 100" using Suc by simp_all
    from Suc.hyps(1) [OF this(1) w(2) this(2)] show ?thesis using w assms(3) False by (subst write_loop.simps) auto
  qed
qed simp

end
