(* ===== verification/Client_Socket.thy ===== *)
theory Client_Socket
  imports Protocol Socket_IO
begin

text \<open>
  The client on its socket (\<open>client/src/impl/client.cpp\<close>): connecting, and \<open>SendCommandAndFetchReply\<close>
  with every write and read of the code. Proved: a reply the client returns is the one it makes of
  exactly the bytes it read, after the whole request was sent; on a connection that makes progress
  a reply of the server is read to its last byte and not further.
\<close>

section \<open>Connecting\<close>

text \<open>\<open>dial_address\<close> is \<open>inet_pton\<close>: the address of a host name that is one.\<close>

record ('s, 'a) dialer =
  dial_socket :: "'s \<Rightarrow> (errno + unit) \<times> 's"
  dial_address :: "string \<Rightarrow> 'a option"
  dial_connect :: "'s \<Rightarrow> 'a \<Rightarrow> nat \<Rightarrow> (errno + unit) \<times> 's"

datatype client_error = SocketCreationError | InvalidAddress | ConnectionFailed

definition Client_new :: "('s, 'a) dialer \<Rightarrow> string \<Rightarrow> int \<Rightarrow> 's \<Rightarrow> (client_error + unit) \<times> 's" where
  "Client_new dial hostname portno s =
    (let (sockfd, s) = dial_socket dial s
     in case sockfd of
          Inl _ \<Rightarrow> (Inl SocketCreationError, s)
        | Inr _ \<Rightarrow>
            (case dial_address dial hostname of
               None \<Rightarrow> (Inl InvalidAddress, s)
             | Some sin_addr \<Rightarrow>
                 (let (connected, s) = dial_connect dial s sin_addr (u16 portno)
                  in case connected of Inl _ \<Rightarrow> (Inl ConnectionFailed, s) | Inr _ \<Rightarrow> (Inr (), s))))"

section \<open>A command and its reply\<close>

text \<open>The loop over the payload strings; each is written by itself.\<close>

fun send_strings :: "'s net \<Rightarrow> string list \<Rightarrow> 's \<Rightarrow> ((net_error + unit) \<times> 's) option" where
  "send_strings net [] s = Some (Inr (), s)"
| "send_strings net (p # ps) s = do {
     (w, s) \<leftarrow> Client_WriteExactlyNBytes net (map char_byte p) s;
     (case w of Inl e \<Rightarrow> Some (Inl e, s) | Inr _ \<Rightarrow> send_strings net ps s)
   }"

definition send_query :: "'s net \<Rightarrow> mem \<Rightarrow> Query \<Rightarrow> 's \<Rightarrow> ((net_error + unit) \<times> 's) option" where
  "send_query net stack q s = do {
     let request_header = make_request_header stack (command q) (request_length q);
     (w, s) \<leftarrow> Client_WriteExactlyNBytes net (bytes request_header 0 request_size) s;
     case w of
       Inl e \<Rightarrow> Some (Inl e, s)
     | Inr _ \<Rightarrow> do {
         (w, s) \<leftarrow> Client_WriteExactlyNBytes net (key_bytes (key q)) s;
         (case w of Inl e \<Rightarrow> Some (Inl e, s) | Inr _ \<Rightarrow> send_strings net (payload q) s)
       }
   }"

definition fetch_reply :: "'s net \<Rightarrow> Command \<Rightarrow> 's \<Rightarrow> ((net_error + Response) \<times> 's) option" where
  "fetch_reply net cmd s = do {
     (r, s) \<leftarrow> Client_ReadExactlyNBytes net response_size s;
     case r of
       Inl e \<Rightarrow> Some (Inl e, s)
     | Inr response_header_vector \<Rightarrow>
         let response_header = of_bytes response_header_vector
         in if load_u32 response_header 0 \<noteq> NETWORK_MAGIC_NUMBER \<or> load_u8 response_header 9 \<noteq> Command_code cmd
            then Some (Inr empty_response, s)
            else if \<not> VerifyChecksum response_header response_size then Some (Inr empty_response, s)
            else do {
              let bytes_to_read = nat ((int (load_u32 response_header 4) - int response_size) mod 18446744073709551616);
              (r, s) \<leftarrow> Client_ReadExactlyNBytes net bytes_to_read s;
              (case r of
                 Inl e \<Rightarrow> Some (Inl e, s)
               | Inr payload_buffer \<Rightarrow>
                   Some (Inr \<lparr>status_code = load_u8 response_header 8, response_payload = payload_buffer\<rparr>, s))
            }
   }"

definition SendCommandAndFetchReply :: "'s net \<Rightarrow> mem \<Rightarrow> Query \<Rightarrow> 's \<Rightarrow> ((net_error + Response) \<times> 's) option" where
  "SendCommandAndFetchReply net stack q s = do {
     (w, s) \<leftarrow> send_query net stack q s;
     (case w of Inl e \<Rightarrow> Some (Inl e, s) | Inr _ \<Rightarrow> fetch_reply net (command q) s)
   }"

section \<open>Whatever the network does\<close>

context stream_socket begin

lemma write_sends: "Client_WriteExactlyNBytes net b s = Some (w, s') \<Longrightarrow> sends s b (w = Inr ()) s'"
  using write_loop_sends by (simp add: exact_io_defs)

text \<open>Two messages one after the other, where the second is only tried if the first was sent.\<close>

lemma sends_then:
  assumes "sends s m1 (w = Inr ()) s1" and "(case w of Inl e \<Rightarrow> Some (Inl e, s1) | Inr _ \<Rightarrow> c) = Some (w', s')"
    and "c = Some (w', s') \<Longrightarrow> sends s1 m2 (w' = Inr ()) s'"
  shows "sends s (m1 @ m2) (w' = Inr ()) s'"
proof (cases w)
  case (Inl e)
  then show ?thesis using assms(1,2) sends_part [of s m1 _ s1 m2] by auto
next
  case (Inr u)
  then show ?thesis using assms sends_append by auto
qed

lemma send_strings_sends: "send_strings net ps s = Some (w, s') \<Longrightarrow> sends s (payload_bytes ps) (w = Inr ()) s'"
proof (induction ps arbitrary: s)
  case (Cons p ps)
  obtain w1 s1 where w: "Client_WriteExactlyNBytes net (map char_byte p) s = Some (w1, s1)"
    "(case w1 of Inl e \<Rightarrow> Some (Inl e, s1) | Inr _ \<Rightarrow> send_strings net ps s1) = Some (w, s')"
    using Cons.prems by (auto simp: bind_eq_Some_conv)
  show ?case using sends_then [OF write_sends [OF w(1)] w(2) Cons.IH] by (simp add: payload_bytes_def)
qed (simp add: payload_bytes_def)

lemma send_query_sends:
  assumes "send_query net stack q s = Some (w, s')"
  shows "sends s (client_send stack q) (w = Inr ()) s'"
proof -
  let ?h = "bytes (make_request_header stack (command q) (request_length q)) 0 13"
  let ?rest = "\<lambda>s. Client_WriteExactlyNBytes net (key_bytes (key q)) s \<bind>
    (\<lambda>(w, s). case w of Inl e \<Rightarrow> Some (Inl e, s) | Inr _ \<Rightarrow> send_strings net (payload q) s)"
  obtain w1 s1 where w: "Client_WriteExactlyNBytes net ?h s = Some (w1, s1)"
    "(case w1 of Inl e \<Rightarrow> Some (Inl e, s1) | Inr _ \<Rightarrow> ?rest s1) = Some (w, s')"
    using assms by (auto simp: send_query_def Let_def bind_eq_Some_conv)
  have "sends s1 (key_bytes (key q) @ payload_bytes (payload q)) (w' = Inr ()) s'" if rest: "?rest s1 = Some (w', s')" for w' s'
  proof -
    obtain w2 s2 where r: "Client_WriteExactlyNBytes net (key_bytes (key q)) s1 = Some (w2, s2)"
      "(case w2 of Inl e \<Rightarrow> Some (Inl e, s2) | Inr _ \<Rightarrow> send_strings net (payload q) s2) = Some (w', s')"
      using rest by (auto simp: bind_eq_Some_conv)
    show ?thesis using sends_then [OF write_sends [OF r(1)] r(2) send_strings_sends] .
  qed
  from sends_then [OF write_sends [OF w(1)] w(2) this] show ?thesis by (simp add: client_send_def)
qed

lemma read_reads:
  assumes "Client_ReadExactlyNBytes net n s = Some (r, s')"
  shows "sent s' = sent s" "r = Inr out \<Longrightarrow> arrived s' = arrived s @ out \<and> length out = n"
  using read_loop_reads [of n "[]" s r s'] assms by (auto simp: exact_io_defs)

lemma fetch_reply_reads:
  assumes "fetch_reply net cmd s = Some (r, s')"
  shows "sent s' = sent s" "r = Inr resp \<Longrightarrow> \<exists>got. arrived s' = arrived s @ got \<and> client_receive cmd got = Some resp"
proof -
  obtain r1 s1 where h: "Client_ReadExactlyNBytes net 14 s = Some (r1, s1)"
    using assms by (auto simp: fetch_reply_def bind_eq_Some_conv)
  have both: "sent s' = sent s \<and> (r = Inr resp \<longrightarrow> (\<exists>got. arrived s' = arrived s @ got \<and> client_receive cmd got = Some resp))"
  proof (cases r1)
    case (Inl e)
    then show ?thesis using assms h read_reads(1) [OF h] by (auto simp: fetch_reply_def)
  next
    case (Inr hv)
    note l = read_reads(1) [OF h] read_reads(2) [OF h Inr]
    let ?h = "of_bytes hv" and ?n = "nat ((int (load_u32 (of_bytes hv) 4) - 14) mod 18446744073709551616)"
    show ?thesis
    proof (cases "load_u32 ?h 0 \<noteq> NETWORK_MAGIC_NUMBER \<or> load_u8 ?h 9 \<noteq> Command_code cmd \<or> \<not> VerifyChecksum ?h 14")
      case True
      then have "r = Inr empty_response" "s' = s1" using assms h Inr by (auto simp: fetch_reply_def Let_def split: if_splits)
      moreover have "client_receive cmd hv = Some empty_response" using l True by (auto simp: client_receive_def Let_def)
      ultimately show ?thesis using l by auto
    next
      case False
      obtain r2 s2 where b: "Client_ReadExactlyNBytes net ?n s1 = Some (r2, s2)"
        "(case r2 of Inl e \<Rightarrow> Some (Inl e, s2)
          | Inr body \<Rightarrow> Some (Inr \<lparr>status_code = load_u8 ?h 8, response_payload = body\<rparr>, s2)) = Some (r, s')"
        using assms h Inr False by (auto simp: fetch_reply_def Let_def bind_eq_Some_conv)
      show ?thesis
      proof (cases r2)
        case (Inl e)
        then show ?thesis using b read_reads(1) [OF b(1)] l by auto
      next
        case (Inr body)
        note m = read_reads(1) [OF b(1)] read_reads(2) [OF b(1) Inr]
        have "client_receive cmd (hv @ body) = Some \<lparr>status_code = load_u8 ?h 8, response_payload = body\<rparr>"
          using l m False by (simp add: client_receive_def Let_def)
        then show ?thesis using b(2) Inr l m by auto
      qed
    qed
  qed
  then show "sent s' = sent s" "r = Inr resp \<Longrightarrow> \<exists>got. arrived s' = arrived s @ got \<and> client_receive cmd got = Some resp" by blast+
qed

text \<open>The reply belongs to what was read after the request was sent; a failure sends a part of it at most.\<close>

lemma SendCommand_safe:
  assumes "SendCommandAndFetchReply net stack q s = Some (r, s')"
  shows "wrote s (client_send stack q) (\<exists>resp. r = Inr resp) s'"
    "r = Inr resp \<Longrightarrow> \<exists>got. arrived s' = arrived s @ got \<and> client_receive (command q) got = Some resp"
proof -
  obtain w s1 where w: "send_query net stack q s = Some (w, s1)"
    "(case w of Inl e \<Rightarrow> Some (Inl e, s1) | Inr _ \<Rightarrow> fetch_reply net (command q) s1) = Some (r, s')"
    using assms by (auto simp: SendCommandAndFetchReply_def bind_eq_Some_conv)
  note snd = send_query_sends [OF w(1)]
  have "wrote s (client_send stack q) (\<exists>resp. r = Inr resp) s' \<and>
    (r = Inr resp \<longrightarrow> (\<exists>got. arrived s' = arrived s @ got \<and> client_receive (command q) got = Some resp))"
  proof (cases w)
    case (Inl e)
    then show ?thesis using w(2) snd by (auto simp: sends_def wrote_def)
  next
    case (Inr u)
    then have f: "fetch_reply net (command q) s1 = Some (r, s')" using w(2) by simp
    have "wrote s (client_send stack q) True s'" "arrived s1 = arrived s"
      using snd Inr fetch_reply_reads(1) [OF f] by (simp_all add: sends_def wrote_def)
    then show ?thesis using fetch_reply_reads(2) [OF f] by (auto simp: wrote_def)
  qed
  then show "wrote s (client_send stack q) (\<exists>resp. r = Inr resp) s'"
    "r = Inr resp \<Longrightarrow> \<exists>got. arrived s' = arrived s @ got \<and> client_receive (command q) got = Some resp" by blast+
qed

end

section \<open>A connection that makes progress\<close>

context reliable_socket begin

lemma client_write_total:
  "up s \<Longrightarrow> \<exists>s'. Client_WriteExactlyNBytes net b s = Some (Inr (), s') \<and> up s' \<and> pending s' = pending s"
  using write_loop_total [of s b 0] by (auto simp: exact_io_defs)

lemma send_strings_total: "up s \<Longrightarrow> \<exists>s'. send_strings net ps s = Some (Inr (), s') \<and> up s' \<and> pending s' = pending s"
proof (induction ps arbitrary: s)
  case (Cons p ps)
  obtain s1 where s1: "Client_WriteExactlyNBytes net (map char_byte p) s = Some (Inr (), s1)" "up s1" "pending s1 = pending s"
    using client_write_total [OF Cons.prems] by blast
  then show ?case using Cons.IH [OF s1(2)] by auto
qed simp

lemma send_query_total: "up s \<Longrightarrow> \<exists>s'. send_query net stack q s = Some (Inr (), s') \<and> up s' \<and> pending s' = pending s"
proof -
  assume "up s"
  from client_write_total [OF this] obtain s1 where
    s1: "Client_WriteExactlyNBytes net (bytes (make_request_header stack (command q) (request_length q)) 0 13) s = Some (Inr (), s1)"
      "up s1" "pending s1 = pending s" by blast
  from client_write_total [OF s1(2)] obtain s2 where
    s2: "Client_WriteExactlyNBytes net (key_bytes (key q)) s1 = Some (Inr (), s2)" "up s2" "pending s2 = pending s1" by blast
  from send_strings_total [OF s2(2)] show ?thesis using s1 s2 by (auto simp: send_query_def Let_def)
qed

text \<open>A reply of the server is read to its last byte.\<close>

lemma fetch_reply_total:
  assumes "up s" and "14 + length body < 4294967296" "status < 256"
    and "pending s = bytes (make_response_header st cmd status (14 + length body)) 0 14 @ body @ rest"
  shows "\<exists>s'. fetch_reply net cmd s = Some (Inr \<lparr>status_code = status, response_payload = body\<rparr>, s') \<and> up s' \<and> pending s' = rest"
proof -
  let ?h = "bytes (make_response_header st cmd status (14 + length body)) 0 14"
  note f = response_header_fields [OF assms(2,3), of st cmd]
  have ld: "load_le (of_bytes ?h) a k = load_le (make_response_header st cmd status (14 + length body)) a k" if "a + k \<le> 14" for a k
    using load_of_bytes_prefix [OF that, of _ "[]"] by simp
  have v: "VerifyChecksum (of_bytes ?h) 14"
    using f(5) Verify_of_bytes [of 14 "of_bytes ?h" "make_response_header st cmd status (14 + length body)"] by (simp add: of_bytes_def)
  have "14 \<le> length (pending s)" by (simp add: assms(4))
  from read_loop_total [OF assms(1) this, of "[]"] obtain s1 where
    s1: "Client_ReadExactlyNBytes net 14 s = Some (Inr ?h, s1)" "up s1" "pending s1 = body @ rest"
    by (auto simp: exact_io_defs assms(4))
  have n: "nat ((int (14 + length body) - 14) mod 18446744073709551616) = length body" using assms(2) by simp
  have "length body \<le> length (pending s1)" by (simp add: s1(3))
  from read_loop_total [OF s1(2) this, of "[]"] obtain s2 where
    s2: "Client_ReadExactlyNBytes net (length body) s1 = Some (Inr body, s2)" "up s2" "pending s2 = rest"
    by (auto simp: exact_io_defs s1(3))
  show ?thesis
    using s1(1) s2 f v n by (auto simp: fetch_reply_def Let_def ld)
qed

lemma SendCommand_total:
  assumes "up s" and "14 + length body < 4294967296" "status < 256"
    and "pending s = bytes (make_response_header st (command q) status (14 + length body)) 0 14 @ body @ rest"
  shows "\<exists>s'. SendCommandAndFetchReply net stack q s = Some (Inr \<lparr>status_code = status, response_payload = body\<rparr>, s') \<and>
    up s' \<and> pending s' = rest \<and> sent s' = sent s @ client_send stack q"
proof -
  from send_query_total [OF assms(1), of stack q] obtain s1 where
    s1: "send_query net stack q s = Some (Inr (), s1)" "up s1" "pending s1 = pending s" by blast
  from fetch_reply_total [OF s1(2) assms(2,3)] assms(4) s1(3) obtain s2 where
    s2: "fetch_reply net (command q) s1 = Some (Inr \<lparr>status_code = status, response_payload = body\<rparr>, s2)" "up s2" "pending s2 = rest" by metis
  have "SendCommandAndFetchReply net stack q s = Some (Inr \<lparr>status_code = status, response_payload = body\<rparr>, s2)"
    using s1(1) s2(1) by (simp add: SendCommandAndFetchReply_def)
  moreover have "sent s2 = sent s @ client_send stack q" using SendCommand_safe(1) [OF calculation] by (simp add: wrote_def)
  ultimately show ?thesis using s2 by blast
qed

end

end
