(* ===== verification/Request_Stream.thy ===== *)
theory Request_Stream
  imports Protocol
begin

text \<open>
  The requests as the server (\<open>database/src/impl/server/server.cpp\<close>) finds them in its buffer: what it
  reads in their headers, why it may refuse one, and how a stream of requests that the network
  cuts anywhere falls into whole requests and a proper part of the next.
\<close>

section \<open>Headers in the buffer\<close>

text \<open>Why the event loop closes a connection by itself.\<close>

datatype close_reason = BadMagic | BadChecksum | ClientQuit

text \<open>The fields the handlers read; the key stands behind the header.\<close>

definition header_total :: "byte list \<Rightarrow> nat" where
  "header_total stream_buffer = load_u32 (of_bytes stream_buffer) 4"

definition header_key :: "byte list \<Rightarrow> Key" where
  "header_key stream_buffer = load_u64 (of_bytes stream_buffer) request_size"

section \<open>One request\<close>

text \<open>The requests a client may send.\<close>

definition servable :: "Query \<Rightarrow> bool" where
  "servable q \<longleftrightarrow> command q \<in> {Command_Search, Command_Insert, Command_Delete} \<and>
     21 + length (concat (payload q)) \<le> 20000"

definition send_all :: "mem \<Rightarrow> Query list \<Rightarrow> byte list" where
  "send_all cstack qs = concat (map (client_send cstack) qs)"

lemma servable_length: "servable q \<Longrightarrow> request_length q = 21 + length (payload_bytes (payload q))"
  by (rule request_length_small) (simp add: servable_def)

lemma request_fields:
  assumes q: "servable q"
  shows "load_u32 (of_bytes (client_send cs q @ rest)) 0 = NETWORK_MAGIC_NUMBER"
    "header_total (client_send cs q @ rest) = length (client_send cs q)"
    "load_u8 (of_bytes (client_send cs q @ rest)) 8 = Command_code (command q)"
    "VerifyChecksum (of_bytes (client_send cs q @ rest)) 13"
    "header_key (client_send cs q @ rest) = key q"
proof -
  let ?h = "make_request_header cs (command q) (request_length q)"
  have l: "request_length q < 4294967296" using servable_length [OF q] q
    by (simp add: servable_def length_payload_bytes)
  note f = request_header_fields [OF l, of cs "command q"]
  let ?s = "client_send cs q @ rest"
  have s: "?s = bytes ?h 0 13 @ key_bytes (key q) @ payload_bytes (payload q) @ rest"
    by (simp add: client_send_def)
  have ld: "load_le (of_bytes ?s) a k = load_le ?h a k" if "a + k \<le> 13" for a k
    unfolding s using that by (rule load_of_bytes_prefix)
  show "load_u32 (of_bytes ?s) 0 = NETWORK_MAGIC_NUMBER" "load_u8 (of_bytes ?s) 8 = Command_code (command q)"
    using f by (simp_all add: ld)
  show "header_total ?s = length (client_send cs q)"
    using f(2) by (simp add: header_total_def ld servable_length [OF q] length_client_send)
  show "VerifyChecksum (of_bytes ?s) 13"
    using f(4) Verify_of_bytes [of 13 "of_bytes ?s" ?h] by (simp add: s of_bytes_def nth_append)
  have "load_le (of_bytes ?s) 13 8 = load_le (of_bytes (key_bytes (key q) @ payload_bytes (payload q) @ rest)) 0 8"
    by (rule load_le_cong) (simp add: s of_bytes_def nth_append)
  then show "header_key ?s = key q" by (simp add: header_key_def load_key_bytes)
qed

lemma request_incomplete:
  assumes q: "servable q" and b: "client_send cs q = buf @ missing" "missing \<noteq> []" and l: "\<not> length buf < 13"
  shows "load_u32 (of_bytes buf) 0 = NETWORK_MAGIC_NUMBER" "VerifyChecksum (of_bytes buf) 13"
    "length buf < header_total buf"
proof -
  note f = request_fields [OF q, of cs "[]", simplified]
  have same: "of_bytes buf i = of_bytes (client_send cs q) i" if "i < 13" for i
    using l that by (simp add: b(1) of_bytes_def nth_append)
  have ld: "load_le (of_bytes buf) a k = load_le (of_bytes (client_send cs q)) a k" if "a + k \<le> 13" for a k
    by (rule load_le_cong) (use same that in simp)
  show "VerifyChecksum (of_bytes buf) 13"
    using f(4) Verify_of_bytes [of 13 "of_bytes buf" "of_bytes (client_send cs q)"] same by simp
  show "length buf < header_total buf" using f(2) b by (simp add: header_total_def ld)
  show "load_u32 (of_bytes buf) 0 = NETWORK_MAGIC_NUMBER" using f(1) by (simp add: ld)
qed

section \<open>The stream\<close>

text \<open>What is left in the buffer between two rounds: a proper part of the next request.\<close>

definition unfinished :: "mem \<Rightarrow> byte list \<Rightarrow> Query list \<Rightarrow> bool" where
  "unfinished cs buf qs \<longleftrightarrow>
     (case qs of [] \<Rightarrow> buf = [] | q # _ \<Rightarrow> \<exists>missing. missing \<noteq> [] \<and> client_send cs q = buf @ missing)"

lemma send_all_simps [simp]:
  "send_all cs [] = []" "send_all cs (q # qs) = client_send cs q @ send_all cs qs"
  by (simp_all add: send_all_def)

lemma stream_cut:
  "buf @ later = send_all cs qs \<Longrightarrow>
    \<exists>qs1 qs2 part. qs = qs1 @ qs2 \<and> buf = send_all cs qs1 @ part \<and> part @ later = send_all cs qs2 \<and>
      unfinished cs part qs2"
proof (induction qs arbitrary: buf)
  case Nil
  then show ?case by (intro exI [of _ "[]"]) (simp add: unfinished_def)
next
  case (Cons q qs)
  show ?case
  proof (cases "length buf < length (client_send cs q)")
    case True
    obtain missing where m: "client_send cs q = buf @ missing"
      using True Cons.prems by (auto simp: append_eq_append_conv2 intro: that [OF sym])
    then have "missing \<noteq> []" using True by auto
    with m show ?thesis
      using Cons.prems
      by (intro exI [of _ "[]"] exI [of _ "q # qs"] exI [of _ buf]) (auto simp: unfinished_def)
  next
    case False
    define b where "b = drop (length (client_send cs q)) buf"
    have "take (length (client_send cs q)) (buf @ later) = client_send cs q"
      and "drop (length (client_send cs q)) (buf @ later) = send_all cs qs"
      by (simp_all add: Cons.prems)
    then have b: "buf = client_send cs q @ b" "b @ later = send_all cs qs"
      using False append_take_drop_id [of "length (client_send cs q)" buf] by (simp_all add: b_def)
    from Cons.IH [OF b(2)] obtain qs1 qs2 part where "qs = qs1 @ qs2" "b = send_all cs qs1 @ part"
      "part @ later = send_all cs qs2" "unfinished cs part qs2" by blast
    then show ?thesis
      using b(1) by (intro exI [of _ "q # qs1"] exI [of _ qs2] exI [of _ part]) simp
  qed
qed

lemma length_send_all: "length qs \<le> length (send_all cs qs)"
  by (induction qs) (simp_all add: length_client_send)

section \<open>A request without progress\<close>

text \<open>
  \<open>HandleSearch\<close> and \<open>HandleDelete\<close> do not check \<open>total_length\<close>. With a length of 0 nothing is
  taken out of the buffer and the inner loop serves the same request for ever.
\<close>

definition stuck_request :: "mem \<Rightarrow> Key \<Rightarrow> byte list" where
  "stuck_request stack k = bytes (make_request_header stack Command_Search 0) 0 13 @ key_bytes k"

lemma stuck_fields:
  "length (stuck_request cs k) = 21" "load_u32 (of_bytes (stuck_request cs k)) 0 = NETWORK_MAGIC_NUMBER"
  "header_total (stuck_request cs k) = 0" "load_u8 (of_bytes (stuck_request cs k)) 8 = Command_code Command_Search"
  "VerifyChecksum (of_bytes (stuck_request cs k)) 13" "header_key (stuck_request cs k) = k"
proof -
  let ?h = "make_request_header cs Command_Search 0" and ?s = "stuck_request cs k"
  note f = request_header_fields [of 0 cs Command_Search, simplified]
  have ld: "load_le (of_bytes ?s) a n = load_le ?h a n" if "a + n \<le> 13" for a n
    unfolding stuck_request_def using that by (rule load_of_bytes_prefix)
  show "VerifyChecksum (of_bytes ?s) 13"
    using f(4) Verify_of_bytes [of 13 "of_bytes ?s" ?h] by (simp add: stuck_request_def of_bytes_def nth_append)
  show "length ?s = 21" "load_u32 (of_bytes ?s) 0 = NETWORK_MAGIC_NUMBER" "header_total ?s = 0"
    "load_u8 (of_bytes ?s) 8 = Command_code Command_Search"
    using f by (simp_all add: ld header_total_def) (simp add: stuck_request_def)
  have "load_le (of_bytes ?s) 13 8 = load_le (of_bytes (key_bytes k)) 0 8"
    by (rule load_le_cong) (simp add: stuck_request_def of_bytes_def nth_append)
  then show "header_key ?s = k" using load_key_bytes [of k "[]"] by (simp add: header_key_def)
qed

end
