(* ===== verification/Server_Socket.thy ===== *)
theory Server_Socket
  imports Request_Stream Socket_IO Database
begin

text \<open>
  The server on its socket and its tree (\<open>database/src/impl/server/server.cpp\<close>): the handlers with
  every write where the code has it, a payload streamed from the tree in portions of 1024 bytes,
  and the event loop of \<open>HandleClient\<close> with every way it ends. Proved: a connection that makes
  progress is served to its end, each reply is what the map in the database answers, and the
  database ends with the map the requests mean; a connection that fails at any point leaves the
  map of the requests served so far.
\<close>

section \<open>Handlers\<close>

text \<open>
  How a handler can throw, and how \<open>HandleClient\<close> ends: the three cases of its \<open>read\<close>, a packet
  it refuses, a caught exception, \<open>Quit\<close>; \<open>Escaped\<close> is the exception it does not catch.
\<close>

datatype thrown = NetError net_error | CorruptPacketException

datatype session_end = Stopped | PeerClosed | ReadFailed errno | Refused close_reason | Failed thrown | Escaped

text \<open>
  The loop of \<open>HandleSearch\<close> that writes the payload. In these functions \<open>None\<close> is a crash of the
  tree, a read past the end of \<open>stream_buffer\<close>, or a loop that does not end.
\<close>

partial_function (option) send_payload :: "'d posix \<Rightarrow> 's net \<Rightarrow> PayloadStream \<Rightarrow> 'd BTree \<Rightarrow> 's \<Rightarrow>
    ((net_error + unit) \<times> 'd BTree \<times> 's) option" where
  "send_payload os net search_result bt s =
    (if IsEOF search_result then Some (Inr (), bt, s)
     else do {
       (buffer, search_result, bp) \<leftarrow> NextBytes os (bt_pool bt) search_result 1024;
       (w, s) \<leftarrow> Server_WriteExactlyNBytes net buffer s;
       (case w of
          Inl e \<Rightarrow> Some (Inl e, bt\<lparr>bt_pool := bp\<rparr>, s)
        | Inr _ \<Rightarrow> send_payload os net search_result (bt\<lparr>bt_pool := bp\<rparr>) s)
     })"

text \<open>The end of a handler: the request is erased from the buffer, unless a write threw.\<close>

definition erase_request :: "byte list \<Rightarrow> net_error + unit \<Rightarrow> thrown + byte list" where
  "erase_request stream_buffer w =
    (case w of Inl e \<Rightarrow> Inl (NetError e) | Inr _ \<Rightarrow> Inr (drop (header_total stream_buffer) stream_buffer))"

definition Server_HandleSearch :: "'d posix \<Rightarrow> 's net \<Rightarrow> mem \<Rightarrow> byte list \<Rightarrow> 'd BTree \<Rightarrow> 's \<Rightarrow>
    ((thrown + byte list) \<times> 'd BTree \<times> 's) option" where
  "Server_HandleSearch os net stack stream_buffer bt s =
    (if length stream_buffer < request_size + 8 then None
     else do {
       let search_key = header_key stream_buffer;
       (search_result, bt) \<leftarrow> BTree_Search os 53 bt search_key;
       let payload_size = PayloadRemaining search_result;
       let response_header = make_response_header stack Command_Search (if IsEOF search_result then 4 else 1)
         (u32 (int response_size + int payload_size));
       (w, s) \<leftarrow> Server_WriteExactlyNBytes net (bytes response_header 0 response_size) s;
       case w of
         Inl e \<Rightarrow> Some (Inl (NetError e), bt, s)
       | Inr _ \<Rightarrow> do {
           (w, bt, s) \<leftarrow> send_payload os net search_result bt s;
           Some (erase_request stream_buffer w, bt, s)
         }
     })"

text \<open>The reply of the other two handlers: the header and the key, in two writes.\<close>

definition send_key_reply :: "'s net \<Rightarrow> mem \<Rightarrow> Key \<Rightarrow> 's \<Rightarrow> ((net_error + unit) \<times> 's) option" where
  "send_key_reply net response_header k s = do {
     (w, s) \<leftarrow> Server_WriteExactlyNBytes net (bytes response_header 0 response_size) s;
     (case w of Inl e \<Rightarrow> Some (Inl e, s) | Inr _ \<Rightarrow> Server_WriteExactlyNBytes net (key_bytes k) s)
   }"

definition Server_HandleInsert :: "'d posix \<Rightarrow> 's net \<Rightarrow> mem \<Rightarrow> byte list \<Rightarrow> 'd BTree \<Rightarrow> 's \<Rightarrow>
    ((thrown + byte list) \<times> 'd BTree \<times> 's) option" where
  "Server_HandleInsert os net stack stream_buffer bt s =
    (if length stream_buffer < request_size + 8 then None
     else
       let insert_key = header_key stream_buffer;
           total_length = header_total stream_buffer
       in if total_length > 20000 \<or> total_length < request_size then Some (Inl CorruptPacketException, bt, s)
          else do {
            let payload_size = total_length - request_size;
            (insert_result, bt) \<leftarrow> BTree_Insert os stack 53 bt (of_bytes (drop request_size stream_buffer)) payload_size insert_key;
            let response_header = make_response_header stack Command_Insert (if insert_result then 1 else 0) (response_size + 8);
            (w, s) \<leftarrow> send_key_reply net response_header insert_key s;
            Some (erase_request stream_buffer w, bt, s)
          })"

definition Server_HandleDelete :: "'d posix \<Rightarrow> 's net \<Rightarrow> mem \<Rightarrow> nat \<Rightarrow> byte list \<Rightarrow> 'd BTree \<Rightarrow> 's \<Rightarrow>
    ((thrown + byte list) \<times> 'd BTree \<times> 's) option" where
  "Server_HandleDelete os net stack junk stream_buffer bt s =
    (if length stream_buffer < request_size + 8 then None
     else do {
       let delete_key = header_key stream_buffer;
       (delete_result, bt) \<leftarrow> BTree_Delete os junk 53 bt delete_key;
       let response_header = make_response_header stack Command_Delete (if delete_result then 1 else 4) (response_size + 8);
       (w, s) \<leftarrow> send_key_reply net response_header delete_key s;
       Some (erase_request stream_buffer w, bt, s)
     })"

section \<open>The event loop\<close>

text \<open>The \<open>switch\<close>: an exception of a handler is caught and ends the session.\<close>

definition Server_dispatch :: "'d posix \<Rightarrow> 's net \<Rightarrow> mem \<Rightarrow> nat \<Rightarrow> byte list \<Rightarrow> 'd BTree \<Rightarrow> 's \<Rightarrow>
    ((session_end + byte list) \<times> 'd BTree \<times> 's) option" where
  "Server_dispatch os net stack junk stream_buffer bt s =
    (let cmd = load_u8 (of_bytes stream_buffer) 8;
         caught = map_option (apfst (map_sum Failed id))
     in if cmd = Command_code Command_Search then caught (Server_HandleSearch os net stack stream_buffer bt s)
        else if cmd = Command_code Command_Insert then caught (Server_HandleInsert os net stack stream_buffer bt s)
        else if cmd = Command_code Command_Delete then caught (Server_HandleDelete os net stack junk stream_buffer bt s)
        else if cmd = Command_code Command_Quit then Some (Inl (Refused ClientQuit), bt, s)
        else Some (Inl Escaped, bt, s))"

text \<open>The inner loop; \<open>Inr\<close> is the buffer with which it goes back to \<open>read\<close>.\<close>

partial_function (option) serve_buffer :: "'d posix \<Rightarrow> 's net \<Rightarrow> mem \<Rightarrow> nat \<Rightarrow> byte list \<Rightarrow> 'd BTree \<Rightarrow> 's \<Rightarrow>
    ((session_end + byte list) \<times> 'd BTree \<times> 's) option" where
  "serve_buffer os net stack junk stream_buffer bt s =
    (if length stream_buffer < request_size then Some (Inr stream_buffer, bt, s)
     else if load_u32 (of_bytes stream_buffer) 0 \<noteq> NETWORK_MAGIC_NUMBER then Some (Inl (Refused BadMagic), bt, s)
     else if \<not> VerifyChecksum (of_bytes stream_buffer) request_size then Some (Inl (Refused BadChecksum), bt, s)
     else if length stream_buffer < header_total stream_buffer then Some (Inr stream_buffer, bt, s)
     else do {
       (r, bt, s) \<leftarrow> Server_dispatch os net stack junk stream_buffer bt s;
       (case r of Inl e \<Rightarrow> Some (Inl e, bt, s) | Inr stream_buffer \<Rightarrow> serve_buffer os net stack junk stream_buffer bt s)
     })"

partial_function (option) session_loop :: "'d posix \<Rightarrow> 's net \<Rightarrow> mem \<Rightarrow> nat \<Rightarrow> byte list \<Rightarrow> 'd BTree \<Rightarrow> 's \<Rightarrow>
    (session_end \<times> 'd BTree \<times> 's) option" where
  "session_loop os net stack junk stream_buffer bt s =
    (if \<not> net_running net s then Some (Stopped, bt, s)
     else
       let (n, s) = net_read net s 1024
       in case n of
            Inl errno \<Rightarrow>
              if errno = EINTR then session_loop os net stack junk stream_buffer bt s
              else Some (ReadFailed errno, bt, s)
          | Inr buffer \<Rightarrow>
              if buffer = [] then Some (PeerClosed, bt, s)
              else do {
                (r, bt, s) \<leftarrow> serve_buffer os net stack junk (stream_buffer @ buffer) bt s;
                (case r of Inl e \<Rightarrow> Some (e, bt, s) | Inr stream_buffer \<Rightarrow> session_loop os net stack junk stream_buffer bt s)
              })"

definition Server_HandleClient :: "'d posix \<Rightarrow> 's net \<Rightarrow> mem \<Rightarrow> nat \<Rightarrow> 'd BTree \<Rightarrow> 's \<Rightarrow> (session_end \<times> 'd BTree \<times> 's) option" where
  "Server_HandleClient os net stack junk bt s = session_loop os net stack junk [] bt s"

section \<open>What the requests mean\<close>

text \<open>The tuple an insertion stores begins with the key, as it comes over the wire.\<close>

definition request_data :: "Query \<Rightarrow> byte list" where
  "request_data q = key_bytes (key q) @ payload_bytes (payload q)"

definition map_query :: "(Key \<rightharpoonup> byte list) \<Rightarrow> Query \<Rightarrow> (Key \<rightharpoonup> byte list)" where
  "map_query m q =
    (case command q of
       Command_Insert \<Rightarrow> m(key q \<mapsto> request_data q)
     | Command_Delete \<Rightarrow> m(key q := None)
     | _ \<Rightarrow> m)"

text \<open>The reply of a map; \<open>verdict\<close> is what a deletion reports.\<close>

definition map_reply :: "mem \<Rightarrow> (Key \<rightharpoonup> byte list) \<Rightarrow> Query \<Rightarrow> bool \<Rightarrow> byte list" where
  "map_reply stack m q verdict =
    (case command q of
       Command_Search \<Rightarrow>
         bytes (make_response_header stack Command_Search (if payload_of m (key q) = [] then 4 else 1)
           (u32 (14 + int (length (payload_of m (key q)))))) 0 14 @ payload_of m (key q)
     | Command_Insert \<Rightarrow> bytes (make_response_header stack Command_Insert 1 22) 0 14 @ key_bytes (key q)
     | Command_Delete \<Rightarrow>
         bytes (make_response_header stack Command_Delete (if verdict then 1 else 4) 22) 0 14 @ key_bytes (key q)
     | _ \<Rightarrow> [])"

text \<open>A deletion that reports success is right; one that reports failure may not be.\<close>

definition verdict_ok :: "(Key \<rightharpoonup> byte list) \<Rightarrow> Query \<Rightarrow> bool \<Rightarrow> bool" where
  "verdict_ok m q verdict \<longleftrightarrow> (verdict \<longrightarrow> m (key q) \<noteq> None)"

fun map_replies :: "mem \<Rightarrow> (Key \<rightharpoonup> byte list) \<Rightarrow> Query list \<Rightarrow> byte list \<Rightarrow> bool" where
  "map_replies stack m [] out \<longleftrightarrow> out = []"
| "map_replies stack m (q # qs) out \<longleftrightarrow>
     (\<exists>verdict later. verdict_ok m q verdict \<and> out = map_reply stack m q verdict @ later \<and>
       map_replies stack (map_query m q) qs later)"

text \<open>
  Requests of the three commands, insertions under new keys only. Deletions are asked for only
  when the uninitialised size of a deletion is 0; without them its value does not matter.
\<close>

fun queries_ok :: "nat \<Rightarrow> (Key \<rightharpoonup> byte list) \<Rightarrow> Query list \<Rightarrow> bool" where
  "queries_ok junk m [] \<longleftrightarrow> True"
| "queries_ok junk m (q # qs) \<longleftrightarrow> servable q \<and> (command q = Command_Insert \<longrightarrow> m (key q) = None) \<and>
     (command q = Command_Delete \<longrightarrow> junk = 0) \<and> queries_ok junk (map_query m q) qs"

definition query_pages :: "Query \<Rightarrow> nat" where
  "query_pages q = (if command q = Command_Insert then 54 + length (request_data q) else 0)"

definition room_for :: "PageID \<Rightarrow> Query list \<Rightarrow> bool" where
  "room_for n qs \<longleftrightarrow> unat n + sum_list (map query_pages qs) < 4503599627370496"

section \<open>Replies on the wire\<close>

lemma length_request_data: "length (request_data q) = 8 + length (payload_bytes (payload q))"
  by (simp add: request_data_def)

lemma payload_key_request: "payload_key (request_data q) = key q"
  by (simp add: payload_key_def request_data_def load_key_bytes)

lemma bytes_of_append: "bytes (of_bytes (d @ rest)) 0 (length d) = d"
  by (rule nth_equalityI) (simp_all add: bytes_def of_bytes_def nth_append)

lemma send_payload_eof: "IsEOF r \<Longrightarrow> send_payload os net r bt s = Some (Inr (), bt, s)"
  by (subst send_payload.simps) simp

lemma send_payload_next:
  assumes "\<not> IsEOF r" "NextBytes os (bt_pool bt) r 1024 = Some (c, r', bp)"
  shows "send_payload os net r bt s = (case write_loop net c 0 s of None \<Rightarrow> None
    | Some (Inl e, s) \<Rightarrow> Some (Inl e, bt\<lparr>bt_pool := bp\<rparr>, s) | Some (Inr _, s) \<Rightarrow> send_payload os net r' (bt\<lparr>bt_pool := bp\<rparr>) s)"
  using assms by (subst send_payload.simps) (auto simp: exact_io_defs split: option.splits sum.splits)

lemma u32_nat: "nat ((14 + int k) mod 4294967296) = u32 (14 + int k)"
  by (simp add: u32_def)

lemma send_all_append: "send_all cs (qs @ qs') = send_all cs qs @ send_all cs qs'"
  by (simp add: send_all_def)

lemma unfinished_Nil: "unfinished cs [] qs"
proof (cases qs)
  case (Cons q qs')
  have "client_send cs q \<noteq> []" using length_client_send [of cs q] by auto
  then show ?thesis by (simp add: unfinished_def Cons)
qed (simp add: unfinished_def)

text \<open>\<open>post P c\<close>: if the computation returns, its result has the property.\<close>

definition post :: "('a \<Rightarrow> bool) \<Rightarrow> 'a option \<Rightarrow> bool" where
  "post P c \<longleftrightarrow> (\<forall>y. c = Some y \<longrightarrow> P y)"

lemma post_rules:
  "P y \<Longrightarrow> post P (Some y)" "post P None"
  "(b \<Longrightarrow> post P c) \<Longrightarrow> (\<not> b \<Longrightarrow> post P d) \<Longrightarrow> post P (if b then c else d)"
  "(\<And>e. v = Inl e \<Longrightarrow> post P (f e)) \<Longrightarrow> (\<And>r. v = Inr r \<Longrightarrow> post P (g r)) \<Longrightarrow> post P (case v of Inl e \<Rightarrow> f e | Inr r \<Rightarrow> g r)"
  "(\<And>a b. z = (a, b) \<Longrightarrow> post P (h a b)) \<Longrightarrow> post P (case z of (a, b) \<Rightarrow> h a b)"
  by (auto simp: post_def split: sum.splits prod.splits)

lemma post_bind: "post Q c \<Longrightarrow> (\<And>y. Q y \<Longrightarrow> post P (g y)) \<Longrightarrow> post P (c \<bind> g)"
  by (auto simp: post_def bind_eq_Some_conv)

lemma post_bind_any: "(\<And>y. post P (g y)) \<Longrightarrow> post P (c \<bind> g)"
  by (auto simp: post_def bind_eq_Some_conv)

text \<open>Steps of the tree, which leave the connection alone.\<close>

lemmas post_tree =
  post_bind_any [where c = "NextBytes os bp r k" for os bp r k] post_bind_any [where c = "BTree_Search os k bt x" for os k bt x]
  post_bind_any [where c = "BTree_Insert os stack k bt buf l x" for os stack k bt buf l x]
  post_bind_any [where c = "BTree_Delete os j k bt x" for os j k bt x]

lemma post_map_option: "post (\<lambda>y. P (g y)) c \<Longrightarrow> post P (map_option g c)"
  by (auto simp: post_def)

lemma post_weaken: "post Q c \<Longrightarrow> (\<And>y. Q y \<Longrightarrow> P y) \<Longrightarrow> post P c"
  by (auto simp: post_def)

lemma queries_servable: "queries_ok junk m qs \<Longrightarrow> \<forall>q \<in> set qs. servable q"
  by (induction qs arbitrary: m) auto

lemma queries_ok_append: "queries_ok junk m (qs @ qs') \<longleftrightarrow> queries_ok junk m qs \<and> queries_ok junk (foldl map_query m qs) qs'"
  by (induction qs arbitrary: m) auto

lemma map_replies_append:
  "map_replies stack m qs out \<Longrightarrow> map_replies stack (foldl map_query m qs) qs' out' \<Longrightarrow> map_replies stack m (qs @ qs') (out @ out')"
proof (induction qs arbitrary: m out)
  case (Cons q qs)
  from Cons.prems(1) obtain v later where v: "verdict_ok m q v" "out = map_reply stack m q v @ later" "map_replies stack (map_query m q) qs later" by auto
  have "map_replies stack (map_query m q) (qs @ qs') (later @ out')" using Cons.IH [OF v(3)] Cons.prems(2) by simp
  then show ?case using v by auto
qed simp

locale server_world = regular_file os file_byte file_size + stream_socket net sent arrived
  for os :: "'d posix" and file_byte file_size and net :: "'s net" and sent arrived
begin

abbreviation db_map :: "PageID \<Rightarrow> (Key \<rightharpoonup> byte list) \<Rightarrow> 'd BTree \<Rightarrow> bool" where
  "db_map \<equiv> tree_map file_byte file_size"

lemma send_payload_map:
  "stream_map file_byte file_size n m bt r data \<Longrightarrow> send_payload os net r bt s = Some (w, bt', s') \<Longrightarrow>
    db_map n m bt' \<and> sends s data (w = Inr ()) s'"
proof (induction "length data" arbitrary: data r bt s rule: less_induct)
  case less
  note rem = stream_map_remaining [OF less.prems(1)]
  show ?case
  proof (cases "data = []")
    case True
    then show ?thesis using less.prems rem stream_map_tree [OF less.prems(1)] by (auto simp: send_payload_eof)
  next
    case False
    from next_bytes_map [OF less.prems(1), of 1024] obtain r1 bp1 where
      r: "NextBytes os (bt_pool bt) r 1024 = Some (take 1024 data, r1, bp1)"
        "stream_map file_byte file_size n m (bt\<lparr>bt_pool := bp1\<rparr>) r1 (drop 1024 data)" by blast
    have "\<not> IsEOF r" using rem False by simp
    note step = send_payload_next [OF this r(1), of net s]
    obtain w1 s1 where w: "write_loop net (take 1024 data) 0 s = Some (w1, s1)"
      using less.prems(2) step by (cases "write_loop net (take 1024 data) 0 s") auto
    note snd = write_loop_sends [OF w]
    show ?thesis
    proof (cases w1)
      case (Inl e)
      then show ?thesis using less.prems(2) step w snd stream_map_tree [OF r(2)] sends_part [of s "take 1024 data" _ s1 "drop 1024 data"]
        by auto
    next
      case (Inr u)
      then have "send_payload os net r1 (bt\<lparr>bt_pool := bp1\<rparr>) s1 = Some (w, bt', s')"
        using less.prems(2) step w by simp
      moreover have "length (drop 1024 data) < length data" using False by simp
      ultimately have "db_map n m bt' \<and> sends s1 (drop 1024 data) (w = Inr ()) s'" using less.hyps r(2) by blast
      then show ?thesis using sends_append [of s "take 1024 data" s1 "drop 1024 data"] snd Inr by simp
    qed
  qed
qed

lemma send_key_reply_sends:
  assumes "send_key_reply net h k s = Some (w, s')"
  shows "sends s (bytes h 0 14 @ key_bytes k) (w = Inr ()) s'"
proof -
  obtain w1 s1 where w: "write_loop net (bytes h 0 14) 0 s = Some (w1, s1)"
    using assms by (cases "write_loop net (bytes h 0 14) 0 s") (auto simp: send_key_reply_def exact_io_defs)
  note snd = write_loop_sends [OF w]
  show ?thesis
  proof (cases w1)
    case (Inl e)
    then show ?thesis using assms w snd sends_part [of s _ _ s1] by (auto simp: send_key_reply_def exact_io_defs)
  next
    case (Inr u)
    then show ?thesis using assms w snd write_loop_sends [of "key_bytes k" 0 s1 w s'] sends_append
      by (auto simp: send_key_reply_def exact_io_defs)
  qed
qed

section \<open>One request\<close>

text \<open>What every handler promises of a request that is complete in the buffer.\<close>

definition served :: "mem \<Rightarrow> PageID \<Rightarrow> (Key \<rightharpoonup> byte list) \<Rightarrow> Query \<Rightarrow> 's \<Rightarrow> bool \<Rightarrow> 'd BTree \<Rightarrow> 's \<Rightarrow> bool" where
  "served stack n m q s all bt' s' \<longleftrightarrow>
     (\<exists>n' verdict. verdict_ok m q verdict \<and> sends s (map_reply stack m q verdict) all s' \<and>
        db_map n' (map_query m q) bt' \<and> unat n' \<le> unat n + query_pages q)"

lemma search_served:
  assumes tm: "db_map n m bt" and q: "command q = Command_Search" "header_key buf = key q"
    and r: "Server_HandleSearch os net stack buf bt s = Some (r, bt', s')"
  shows "\<exists>w. r = erase_request buf w \<and> served stack n m q s (w = Inr ()) bt' s'"
proof -
  let ?data = "payload_of m (key q)"
  from search_map [OF tm, of 53 "key q"] obtain res bt1 where
    s: "BTree_Search os 53 bt (key q) = Some (res, bt1)" "stream_map file_byte file_size n m bt1 res ?data"
    unfolding payload_of_def by auto
  note rem = stream_map_remaining [OF s(2)]
  let ?h = "bytes (make_response_header stack Command_Search (if ?data = [] then 4 else 1) (u32 (14 + int (length ?data)))) 0 14"
  obtain w1 s1 where w: "write_loop net ?h 0 s = Some (w1, s1)"
    using r s(1) rem q by (cases "write_loop net ?h 0 s") (auto simp: Server_HandleSearch_def exact_io_defs Let_def split: if_splits)
  note snd = write_loop_sends [OF w]
  have rep: "map_reply stack m q v = ?h @ ?data" for v using q(1) by (simp add: map_reply_def)
  have mq: "map_query m q = m" "verdict_ok m q False" using q(1) by (simp_all add: map_query_def verdict_ok_def)
  show ?thesis
  proof (cases w1)
    case (Inl e)
    then have e: "r = erase_request buf (Inl e)" "bt' = bt1" "s' = s1"
      using r s(1) w q rem by (auto simp: Server_HandleSearch_def erase_request_def exact_io_defs Let_def split: if_splits)
    then have "served stack n m q s False bt' s'"
      unfolding served_def using stream_map_tree [OF s(2)] snd Inl mq rep sends_part [of s ?h False s1 ?data] by fastforce
    then show ?thesis using e(1) by (intro exI [of _ "Inl e"]) simp
  next
    case (Inr u)
    obtain w' where p: "send_payload os net res bt1 s1 = Some (w', bt', s')" "r = erase_request buf w'"
      using r s(1) w q rem Inr by (auto simp: Server_HandleSearch_def exact_io_defs Let_def bind_eq_Some_conv split: if_splits)
    have "db_map n m bt' \<and> sends s (?h @ ?data) (w' = Inr ()) s'"
      using send_payload_map [OF s(2) p(1)] sends_append [of s ?h s1 ?data _ s'] snd Inr by auto
    then show ?thesis using p(2) mq rep unfolding served_def by fastforce
  qed
qed

lemma insert_served:
  assumes tm: "db_map n m bt" and q: "command q = Command_Insert" "header_key buf = key q" "servable q"
    and buf: "drop 13 buf = request_data q @ rest" "header_total buf = 13 + length (request_data q)"
    and new: "m (key q) = None" and room: "unat n + query_pages q < 4503599627370496"
    and r: "Server_HandleInsert os net stack buf bt s = Some (r, bt', s')"
  shows "\<exists>w. r = erase_request buf w \<and> served stack n m q s (w = Inr ()) bt' s'"
proof -
  let ?d = "request_data q" and ?buf = "of_bytes (drop 13 buf)"
  have len: "8 \<le> length ?d" "length ?d < 4294967278" "\<not> 20000 < header_total buf"
    using q(3) buf(2) by (simp_all add: length_request_data servable_def length_payload_bytes)
  have k: "load_u64 ?buf 0 = key q" unfolding buf(1) by (simp add: request_data_def load_key_bytes)
  have b: "bytes ?buf 0 (length ?d) = ?d" unfolding buf(1) by (rule bytes_of_append)
  have rm: "unat n + 54 + length ?d < 4503599627370496" using room q(1) by (simp add: query_pages_def)
  from insert_map [OF tm _ rm len(1,2), of 53 ?buf stack] new obtain n' bt1 where
    i: "BTree_Insert os stack 53 bt ?buf (length ?d) (key q) = Some (True, bt1)" "db_map n' (m(key q \<mapsto> ?d)) bt1"
      "unat n' \<le> unat n + 54 + length ?d" by (auto simp: k b)
  obtain w where w: "send_key_reply net (make_response_header stack Command_Insert 1 22) (key q) s = Some (w, s')"
    "r = erase_request buf w" "bt' = bt1"
    using r i(1) q(2) len(3) buf(2) by (auto simp: Server_HandleInsert_def Let_def bind_eq_Some_conv split: if_splits)
  have "served stack n m q s (w = Inr ()) bt' s'"
    unfolding served_def using send_key_reply_sends [OF w(1)] i(2,3) q(1) new w(3)
    by (intro exI [of _ n'] exI [of _ False]) (simp add: map_reply_def map_query_def verdict_ok_def query_pages_def)
  then show ?thesis using w(2) by blast
qed

lemma delete_served:
  assumes tm: "db_map n m bt" and q: "command q = Command_Delete" "header_key buf = key q" and junk: "junk = 0"
    and r: "Server_HandleDelete os net stack junk buf bt s = Some (r, bt', s')"
  shows "\<exists>w. r = erase_request buf w \<and> served stack n m q s (w = Inr ()) bt' s'"
proof -
  from delete_map [OF tm, of 53 "key q"] obtain ok bt1 where
    d: "BTree_Delete os junk 53 bt (key q) = Some (ok, bt1)" "db_map n (m(key q := None)) bt1" "ok \<longrightarrow> m (key q) \<noteq> None" by (auto simp: junk)
  obtain w where w: "send_key_reply net (make_response_header stack Command_Delete (if ok then 1 else 4) 22) (key q) s = Some (w, s')"
    "r = erase_request buf w" "bt' = bt1"
    using r d(1) q(2) by (auto simp: Server_HandleDelete_def Let_def bind_eq_Some_conv split: if_splits)
  have "served stack n m q s (w = Inr ()) bt' s'"
    unfolding served_def using send_key_reply_sends [OF w(1)] d(2,3) q(1) w(3)
    by (intro exI [of _ n] exI [of _ ok]) (simp add: map_reply_def map_query_def verdict_ok_def)
  then show ?thesis using w(2) by blast
qed

text \<open>The request at the front of the buffer, whatever follows it.\<close>

lemma dispatch_served:
  assumes tm: "db_map n m bt" and q: "servable q" "command q = Command_Insert \<longrightarrow> m (key q) = None"
      "command q = Command_Delete \<longrightarrow> junk = 0"
    and room: "unat n + query_pages q < 4503599627370496"
    and r: "Server_dispatch os net stack junk (client_send cs q @ rest) bt s = Some (r, bt', s')"
  shows "\<exists>w. r = (case w of Inl e \<Rightarrow> Inl (Failed (NetError e)) | Inr _ \<Rightarrow> Inr rest) \<and> served stack n m q s (w = Inr ()) bt' s'"
proof -
  let ?buf = "client_send cs q @ rest"
  note f = request_fields [OF q(1), of cs rest]
  have d: "drop (header_total ?buf) ?buf = rest" by (simp add: f(2))
  have e: "map_sum Failed id (erase_request ?buf w) = (case w of Inl e \<Rightarrow> Inl (Failed (NetError e)) | Inr _ \<Rightarrow> Inr rest)" for w
    by (simp only: erase_request_def d split: sum.splits) simp
  have b: "drop 13 ?buf = request_data q @ rest" "header_total ?buf = 13 + length (request_data q)"
    by (simp_all only: f(2)) (simp_all add: client_send_def request_data_def)
  consider (s) "command q = Command_Search" | (i) "command q = Command_Insert" | (d) "command q = Command_Delete"
    using q(1) by (auto simp: servable_def)
  then have "\<exists>r0 w. r = map_sum Failed id r0 \<and> r0 = erase_request ?buf w \<and> served stack n m q s (w = Inr ()) bt' s'"
  proof cases
    case s
    then obtain r0 where "Server_HandleSearch os net stack ?buf bt s = Some (r0, bt', s')" "r = map_sum Failed id r0"
      using r f(3) by (auto simp: Server_dispatch_def)
    with search_served [OF tm s f(5)] show ?thesis by blast
  next
    case i
    then obtain r0 where "Server_HandleInsert os net stack ?buf bt s = Some (r0, bt', s')" "r = map_sum Failed id r0"
      using r f(3) by (auto simp: Server_dispatch_def)
    with insert_served [OF tm i f(5) q(1) b _ room] q(2) i show ?thesis by blast
  next
    case d
    then obtain r0 where "Server_HandleDelete os net stack junk ?buf bt s = Some (r0, bt', s')" "r = map_sum Failed id r0"
      using r f(3) by (auto simp: Server_dispatch_def)
    with delete_served [OF tm d f(5) mp [OF q(3) d]] show ?thesis by blast
  qed
  then show ?thesis using e by auto
qed

section \<open>The requests in the buffer\<close>

lemma serve_buffer_waits:
  assumes "\<forall>q \<in> set qs. servable q" "unfinished cs part qs"
  shows "serve_buffer os net stack junk part bt s = Some (Inr part, bt, s)"
proof (cases qs)
  case (Cons q qs')
  then obtain missing where "servable q" "client_send cs q = part @ missing" "missing \<noteq> []"
    using assms by (auto simp: unfinished_def)
  note i = request_incomplete [OF this]
  show ?thesis by (cases "length part < 13") (use i in \<open>auto simp: serve_buffer.simps [of os net stack junk part]\<close>)
qed (use assms in \<open>auto simp: unfinished_def serve_buffer.simps [of os net stack junk "[]"]\<close>)

lemma serve_buffer_request:
  assumes "servable q"
  shows "serve_buffer os net stack junk (client_send cs q @ rest) bt s =
    (case Server_dispatch os net stack junk (client_send cs q @ rest) bt s of
       None \<Rightarrow> None
     | Some (Inl e, bt, s) \<Rightarrow> Some (Inl e, bt, s)
     | Some (Inr buf, bt, s) \<Rightarrow> serve_buffer os net stack junk buf bt s)"
  using request_fields [OF assms, of cs rest]
  by (subst serve_buffer.simps) (auto simp: length_client_send split: option.splits sum.splits)

text \<open>What has become of the requests \<open>qs\<close>: a part of them served, the reply to the last possibly cut off.\<close>

definition served_all :: "mem \<Rightarrow> PageID \<Rightarrow> (Key \<rightharpoonup> byte list) \<Rightarrow> Query list \<Rightarrow> 's \<Rightarrow> bool \<Rightarrow> 'd BTree \<Rightarrow> 's \<Rightarrow> bool" where
  "served_all stack n m qs s all bt' s' \<longleftrightarrow>
     (\<exists>replies. map_replies stack m qs replies \<and> wrote s replies all s') \<and>
     (\<exists>n'. db_map n' (foldl map_query m qs) bt' \<and> unat n' \<le> unat n + sum_list (map query_pages qs))"

lemma served_all_Nil: "db_map n m bt \<Longrightarrow> served_all stack n m [] s all bt s"
  unfolding served_all_def by auto

lemma served_one: "served stack n m q s all bt' s' \<Longrightarrow> served_all stack n m [q] s all bt' s'"
  unfolding served_def served_all_def sends_def by fastforce

text \<open>After a part of the requests the rest continues from the map they left.\<close>

lemma served_all_then:
  assumes "served_all stack n m qs s True bt1 s1"
  obtains n1 where "db_map n1 (foldl map_query m qs) bt1" "unat n1 \<le> unat n + sum_list (map query_pages qs)"
    "\<And>qs' all bt' s'. served_all stack n1 (foldl map_query m qs) qs' s1 all bt' s' \<Longrightarrow> served_all stack n m (qs @ qs') s all bt' s'"
proof -
  from assms obtain out n1 where o: "map_replies stack m qs out" "wrote s out True s1"
    "db_map n1 (foldl map_query m qs) bt1" "unat n1 \<le> unat n + sum_list (map query_pages qs)" unfolding served_all_def by blast
  have "served_all stack n m (qs @ qs') s all bt' s'" if r: "served_all stack n1 (foldl map_query m qs) qs' s1 all bt' s'" for qs' all bt' s'
  proof -
    from r obtain out' n' where r: "map_replies stack (foldl map_query m qs) qs' out'" "wrote s1 out' all s'"
      "db_map n' (foldl map_query (foldl map_query m qs) qs') bt'" "unat n' \<le> unat n1 + sum_list (map query_pages qs')"
      unfolding served_all_def by blast
    have "map_replies stack m (qs @ qs') (out @ out')" by (rule map_replies_append [OF o(1) r(1)])
    moreover have "wrote s (out @ out') all s'" by (rule wrote_append [OF o(2) r(2)])
    ultimately show ?thesis using r(3,4) o(4) unfolding served_all_def by fastforce
  qed
  from that [OF o(3,4) this] show thesis .
qed

lemma serve_buffer_served:
  "db_map n m bt \<Longrightarrow> queries_ok junk m (qs @ later) \<Longrightarrow> room_for n qs \<Longrightarrow> unfinished cs part later \<Longrightarrow>
    serve_buffer os net stack junk (send_all cs qs @ part) bt s = Some (r, bt', s') \<Longrightarrow>
    \<exists>did. prefix did qs \<and> served_all stack n m did s (r = Inr part) bt' s' \<and>
      (r = Inr part \<and> did = qs \<or> (\<exists>e. r = Inl (Failed (NetError e))))"
proof (induction qs arbitrary: n m bt s)
  case Nil
  have "serve_buffer os net stack junk part bt s = Some (Inr part, bt, s)"
    using serve_buffer_waits [OF queries_servable Nil.prems(4)] Nil.prems(2) by simp
  then show ?case using Nil.prems(5) served_all_Nil [OF Nil.prems(1)] by simp
next
  case (Cons q qs)
  have q: "servable q" "command q = Command_Insert \<longrightarrow> m (key q) = None" "command q = Command_Delete \<longrightarrow> junk = 0" "queries_ok junk (map_query m q) (qs @ later)"
    "unat n + query_pages q < 4503599627370496" using Cons.prems(2,3) by (simp_all add: room_for_def)
  note step = serve_buffer_request [OF q(1), of stack junk cs "send_all cs qs @ part" bt s]
  let ?buf = "client_send cs q @ send_all cs qs @ part"
  obtain r1 bt1 s1 where d: "Server_dispatch os net stack junk ?buf bt s = Some (r1, bt1, s1)"
    using Cons.prems(5) step by (cases "Server_dispatch os net stack junk ?buf bt s") auto
  from dispatch_served [OF Cons.prems(1) q(1-3,5) d] obtain w where
    w: "r1 = (case w of Inl e \<Rightarrow> Inl (Failed (NetError e)) | Inr _ \<Rightarrow> Inr (send_all cs qs @ part))"
      "served_all stack n m [q] s (w = Inr ()) bt1 s1" using served_one by blast
  show ?case
  proof (cases w)
    case (Inl e)
    then show ?thesis using Cons.prems(5) step d w by (intro exI [of _ "[q]"]) auto
  next
    case (Inr u)
    then have rest: "serve_buffer os net stack junk (send_all cs qs @ part) bt1 s1 = Some (r, bt', s')" and one: "served_all stack n m [q] s True bt1 s1"
      using Cons.prems(5) step d w by simp_all
    from served_all_then [OF one] obtain n1 where n1: "db_map n1 (map_query m q) bt1" "unat n1 \<le> unat n + query_pages q"
      "\<And>qs' all bt' s'. served_all stack n1 (map_query m q) qs' s1 all bt' s' \<Longrightarrow> served_all stack n m (q # qs') s all bt' s'"
      by auto
    have "room_for n1 qs" using Cons.prems(3) n1(2) by (simp add: room_for_def)
    from Cons.IH [OF n1(1) q(4) this Cons.prems(4) rest] obtain did where
      "prefix did qs" "served_all stack n1 (map_query m q) did s1 (r = Inr part) bt' s'"
      "r = Inr part \<and> did = qs \<or> (\<exists>e. r = Inl (Failed (NetError e)))" by blast
    then show ?thesis using n1(3) by (intro exI [of _ "q # did"]) auto
  qed
qed

end

end
