(* ===== verification/Server_Session.thy ===== *)
theory Server_Session
  imports Server_Socket
begin

text \<open>
  A whole connection of the server. Whatever the network does, \<open>HandleClient\<close> performs a part of the
  client's requests from the first on, every one that arrived in full unless a write failed, and
  what it wrote is a part of the replies; the database holds the map these requests mean. On a
  connection that makes progress it serves all of them and returns at the end of the stream.
\<close>

section \<open>What a connection leaves\<close>

context server_world begin

text \<open>A round of the loop reads nothing from the connection.\<close>

lemma quiet_write: "post (\<lambda>(w, s'). arrived s' = arrived s) (Server_WriteExactlyNBytes net b s)"
  unfolding post_def exact_io_defs using write_loop_sends by (fastforce simp: sends_def)

lemma quiet_payload: "post (\<lambda>(w, bt', s'). arrived s' = arrived s) (send_payload os net r bt s)"
proof -
  have "net' = net \<longrightarrow> (case y of (w, bt', s') \<Rightarrow> arrived s' = arrived s)" if "send_payload os' net' r bt s = Some y" for os' :: "'d posix" and net' y
    using that
  proof (rule send_payload.raw_induct [rotated], goal_cases)
    case (1 f os' net' r bt s y)
    have IH: "post (\<lambda>(w, bt', s'). arrived s' = arrived s) (f os' net r bt s)" for r bt s
      using 1(1) by (auto simp: post_def)
    have "net' = net \<longrightarrow> post (\<lambda>(w, bt', s'). arrived s' = arrived s) (Some y)"
      unfolding 1(2) [symmetric]
      by (auto intro!: post_rules post_bind [OF quiet_write] post_tree post_weaken [OF IH])
    then show ?case by (simp add: post_def)
  qed
  from this [of os net] show ?thesis by (simp add: post_def)
qed

lemma quiet_key_reply: "post (\<lambda>(w, s'). arrived s' = arrived s) (send_key_reply net h k s)"
  unfolding send_key_reply_def by (auto intro!: post_rules post_bind [OF quiet_write] post_weaken [OF quiet_write])

lemma quiet_dispatch: "post (\<lambda>(r, bt', s'). arrived s' = arrived s) (Server_dispatch os net stack junk buf bt s)"
  unfolding Server_dispatch_def Server_HandleSearch_def Server_HandleInsert_def Server_HandleDelete_def Let_def
  by (auto intro!: post_rules post_map_option post_bind [OF quiet_write] post_bind [OF quiet_key_reply] post_bind [OF quiet_payload] post_tree)

lemma quiet_serve_buffer: "post (\<lambda>(r, bt', s'). arrived s' = arrived s) (serve_buffer os net stack junk buf bt s)"
proof -
  have "os' = os \<longrightarrow> net' = net \<longrightarrow> (case y of (r, bt', s') \<Rightarrow> arrived s' = arrived s)" if "serve_buffer os' net' stack junk buf bt s = Some y" for os' net' y
    using that
  proof (rule serve_buffer.raw_induct [rotated], goal_cases)
    case (1 f os' net' stack junk buf bt s y)
    have IH: "post (\<lambda>(w, bt', s'). arrived s' = arrived s) (f os net stack junk buf bt s)" for buf bt s
      using 1(1) by (auto simp: post_def)
    have "os' = os \<longrightarrow> net' = net \<longrightarrow> post (\<lambda>(w, bt', s'). arrived s' = arrived s) (Some y)"
      unfolding 1(2) [symmetric]
      by (auto intro!: post_rules post_bind [OF quiet_dispatch] post_weaken [OF IH])
    then show ?case by (simp add: post_def)
  qed
  from this [of os net] show ?thesis by (simp add: post_def)
qed

section \<open>A connection, whatever the network does\<close>

text \<open>
  Where a session ends on the requests \<open>qs\<close> when \<open>stream\<close> is what was read of them: a handler's
  write failed, or every request that had arrived in full is served.
\<close>

definition session_result :: "mem \<Rightarrow> mem \<Rightarrow> PageID \<Rightarrow> (Key \<rightharpoonup> byte list) \<Rightarrow> Query list \<Rightarrow> byte list \<Rightarrow> 's \<Rightarrow>
    session_end \<Rightarrow> 'd BTree \<Rightarrow> 's \<Rightarrow> bool" where
  "session_result cs stack n m qs stream s e bt' s' \<longleftrightarrow>
     (\<exists>did. prefix did qs \<and>
        (served_all stack n m did s False bt' s' \<and> (\<exists>x. e = Failed (NetError x)) \<and> prefix (send_all cs did) stream \<or>
         served_all stack n m did s True bt' s' \<and> (e = Stopped \<or> e = PeerClosed \<or> (\<exists>x. e = ReadFailed x)) \<and>
           (\<exists>part. stream = send_all cs did @ part \<and> unfinished cs part (drop (length did) qs))))"

lemma served_all_same: "sent s1 = sent s \<Longrightarrow> served_all stack n m qs s1 all bt' s' = served_all stack n m qs s all bt' s'"
  by (simp add: served_all_def wrote_def)

lemma session_failed:
  assumes "prefix did qs" "served_all stack n m did s False bt' s'" "prefix (send_all cs did) stream"
  shows "session_result cs stack n m qs stream s (Failed (NetError x)) bt' s'"
  unfolding session_result_def by (rule exI [of _ did]) (use assms in simp)

lemma session_read:
  assumes "prefix did qs" "served_all stack n m did s True bt' s'" "e = Stopped \<or> e = PeerClosed \<or> (\<exists>x. e = ReadFailed x)"
    and "stream = send_all cs did @ part" "unfinished cs part (drop (length did) qs)"
  shows "session_result cs stack n m qs stream s e bt' s'"
  unfolding session_result_def
  by (rule exI [of _ did], intro conjI disjI2 exI [of _ part] assms(1,2,3,4,5))

lemma session_result_then:
  assumes "served_all stack n m qs1 s True bt1 s1"
    and "\<And>n1. db_map n1 (foldl map_query m qs1) bt1 \<Longrightarrow> room_for n1 qs2 \<Longrightarrow>
      session_result cs stack n1 (foldl map_query m qs1) qs2 stream s1 e bt' s'"
    and "room_for n (qs1 @ qs2)"
  shows "session_result cs stack n m (qs1 @ qs2) (send_all cs qs1 @ stream) s e bt' s'"
proof -
  from served_all_then [OF assms(1)] obtain n1 where n1: "db_map n1 (foldl map_query m qs1) bt1" "unat n1 \<le> unat n + sum_list (map query_pages qs1)"
    "\<And>qs' all bt' s'. served_all stack n1 (foldl map_query m qs1) qs' s1 all bt' s' \<Longrightarrow> served_all stack n m (qs1 @ qs') s all bt' s'" by blast
  have "room_for n1 qs2" using assms(3) n1(2) by (simp add: room_for_def)
  from assms(2) [OF n1(1) this] obtain did where did: "prefix did qs2"
    "served_all stack n1 (foldl map_query m qs1) did s1 False bt' s' \<and> (\<exists>x. e = Failed (NetError x)) \<and> prefix (send_all cs did) stream \<or>
     served_all stack n1 (foldl map_query m qs1) did s1 True bt' s' \<and> (e = Stopped \<or> e = PeerClosed \<or> (\<exists>x. e = ReadFailed x)) \<and>
       (\<exists>part. stream = send_all cs did @ part \<and> unfinished cs part (drop (length did) qs2))"
    unfolding session_result_def by blast
  have pr: "prefix (qs1 @ did) (qs1 @ qs2)" using did(1) by simp
  from did(2) show ?thesis
  proof (elim disjE [of "_ \<and> _"] conjE exE)
    fix x assume f: "served_all stack n1 (foldl map_query m qs1) did s1 False bt' s'" "e = Failed (NetError x)" "prefix (send_all cs did) stream"
    show ?thesis unfolding f(2) by (rule session_failed [OF pr n1(3) [OF f(1)]]) (use f(3) in \<open>simp add: send_all_append\<close>)
  next
    fix part assume r: "served_all stack n1 (foldl map_query m qs1) did s1 True bt' s'" "stream = send_all cs did @ part"
      "unfinished cs part (drop (length did) qs2)" and e: "e = Stopped \<or> e = PeerClosed \<or> (\<exists>x. e = ReadFailed x)"
    show ?thesis by (rule session_read [OF pr n1(3) [OF r(1)] e, of _ cs part]) (use r in \<open>simp_all add: send_all_append\<close>)
  qed
qed

lemma session_waits:
  assumes "db_map n m bt" "unfinished cs buf qs" "sent s1 = sent s" "e = Stopped \<or> e = PeerClosed \<or> (\<exists>x. e = ReadFailed x)"
  shows "session_result cs stack n m qs buf s e bt s1"
proof -
  have "served_all stack n m [] s True bt s1" using served_all_Nil [OF assms(1), of stack s1 True] served_all_same [OF assms(3)] by simp
  then show ?thesis using assms(2,4) unfolding session_result_def by (intro exI [of _ "[]"]) simp
qed

lemma session_step:
  assumes r: "serve_buffer os net stack junk (buf @ piece) bt s1 = Some (r, bt2, s2)" and same: "sent s1 = sent s" "arrived s1 = arrived s @ piece"
    and pre: "db_map n m bt" "queries_ok junk m qs" "room_for n qs"
    and io: "prefix (buf @ piece @ inp) (send_all cs qs)" and inl: "\<And>e. r = Inl e \<Longrightarrow> y = (e, bt2, s2) \<and> inp = []"
    and inr: "\<And>b n1 m1 qs1. r = Inr b \<Longrightarrow> db_map n1 m1 bt2 \<Longrightarrow> queries_ok junk m1 qs1 \<Longrightarrow> room_for n1 qs1 \<Longrightarrow> unfinished cs b qs1 \<Longrightarrow>
      prefix (b @ inp) (send_all cs qs1) \<Longrightarrow> session_result cs stack n1 m1 qs1 (b @ inp) s2 (fst y) (fst (snd y)) (snd (snd y))"
  shows "session_result cs stack n m qs (buf @ piece @ inp) s (fst y) (fst (snd y)) (snd (snd y))"
proof -
  obtain later where l: "(buf @ piece) @ inp @ later = send_all cs qs" using io by (auto simp: prefix_def)
  from stream_cut [OF l] obtain qs1 qs2 part where c: "qs = qs1 @ qs2" "buf @ piece = send_all cs qs1 @ part"
    "part @ inp @ later = send_all cs qs2" "unfinished cs part qs2" by blast
  have "room_for n qs1" using pre(3) by (simp add: room_for_def c(1))
  from serve_buffer_served [OF pre(1) pre(2) [unfolded c(1)] this c(4) r [unfolded c(2)]] obtain did where
    did: "prefix did qs1" "served_all stack n m did s (r = Inr part) bt2 s2"
      "r = Inr part \<and> did = qs1 \<or> (\<exists>e. r = Inl (Failed (NetError e)))"
    by (auto simp: served_all_same [OF same(1)])
  have st: "buf @ piece @ inp = send_all cs qs1 @ part @ inp" using c(2) by (metis append.assoc)
  from did(3) show ?thesis
  proof
    assume p: "r = Inr part \<and> did = qs1"
    then have sv: "served_all stack n m qs1 s True bt2 s2" using did(2) by simp
    have "queries_ok junk (foldl map_query m qs1) qs2" using pre(2) by (simp add: c(1) queries_ok_append)
    moreover have "prefix (part @ inp) (send_all cs qs2)" using c(3) by (metis append.assoc prefixI)
    ultimately show ?thesis
      unfolding st c(1) using p inr c(4) pre(3) by (intro session_result_then [OF sv]) (auto simp: c(1))
  next
    assume "\<exists>e. r = Inl (Failed (NetError e))"
    then obtain e where e: "r = Inl (Failed (NetError e))" by blast
    obtain qs1' where "qs1 = did @ qs1'" using did(1) by (auto simp: prefix_def)
    then have "prefix did qs" "prefix (send_all cs did) (buf @ piece @ inp)"
      by (simp_all add: c(1) st send_all_append)
    then show ?thesis using inl [OF e] did(2) e by (auto intro: session_failed)
  qed
qed

text \<open>The property of the event loop: it only reads on, and ends as \<open>session_result\<close> says.\<close>

definition session_inv :: "nat \<Rightarrow> mem \<Rightarrow> byte list \<Rightarrow> 'd BTree \<Rightarrow> 's \<Rightarrow> session_end \<times> 'd BTree \<times> 's \<Rightarrow> bool" where
  "session_inv junk stack buf bt s y \<longleftrightarrow> prefix (arrived s) (arrived (snd (snd y))) \<and>
     (\<forall>cs n m qs inp. db_map n m bt \<longrightarrow> queries_ok junk m qs \<longrightarrow> room_for n qs \<longrightarrow> unfinished cs buf qs \<longrightarrow>
        arrived (snd (snd y)) = arrived s @ inp \<longrightarrow> prefix (buf @ inp) (send_all cs qs) \<longrightarrow>
        session_result cs stack n m qs (buf @ inp) s (fst y) (fst (snd y)) (snd (snd y)))"

lemma session_inv_waits:
  assumes "arrived s1 = arrived s" "sent s1 = sent s" "e = Stopped \<or> e = PeerClosed \<or> (\<exists>x. e = ReadFailed x)"
  shows "session_inv junk stack buf bt s (e, bt, s1)"
  using assms session_waits [OF _ _ assms(2,3)] by (auto simp: session_inv_def)

lemma session_inv_same:
  assumes "session_inv junk stack buf bt s1 y" "arrived s1 = arrived s" "sent s1 = sent s"
  shows "session_inv junk stack buf bt s y"
  using assms(1) by (simp add: session_inv_def assms(2) session_result_def served_all_same [OF assms(3)])

lemma session_inv_step:
  assumes r: "serve_buffer os net stack junk (buf @ piece) bt s1 = Some (r, bt2, s2)" and same: "sent s1 = sent s" "arrived s1 = arrived s @ piece"
    and y: "case r of Inl e \<Rightarrow> y = (e, bt2, s2) | Inr b \<Rightarrow> session_inv junk stack b bt2 s2 y"
  shows "session_inv junk stack buf bt s y"
proof -
  have a2: "arrived s2 = arrived s @ piece" using quiet_serve_buffer r same(2) by (fastforce simp: post_def)
  have g: "prefix (arrived s2) (arrived (snd (snd y)))" using y by (auto simp: session_inv_def split: sum.splits)
  show ?thesis
    unfolding session_inv_def
  proof (intro conjI allI impI)
    show "prefix (arrived s) (arrived (snd (snd y)))" using g by (auto simp: a2 prefix_def)
  next
    fix cs n m qs inp
    assume pre: "db_map n m bt" "queries_ok junk m qs" "room_for n qs" and io: "arrived (snd (snd y)) = arrived s @ inp" "prefix (buf @ inp) (send_all cs qs)"
    obtain inp' where i: "inp = piece @ inp'" "arrived (snd (snd y)) = arrived s2 @ inp'"
      using g io(1) by (auto simp: a2 prefix_def)
    show "session_result cs stack n m qs (buf @ inp) s (fst y) (fst (snd y)) (snd (snd y))"
      unfolding i(1)
    proof (rule session_step [OF r same pre])
      show "prefix (buf @ piece @ inp') (send_all cs qs)" using io(2) i(1) by simp
      show "y = (e, bt2, s2) \<and> inp' = []" if "r = Inl e" for e using y that i(2) by simp
      show "session_result cs stack n1 m1 qs1 (b @ inp') s2 (fst y) (fst (snd y)) (snd (snd y))"
        if "r = Inr b" "db_map n1 m1 bt2" "queries_ok junk m1 qs1" "room_for n1 qs1" "unfinished cs b qs1" "prefix (b @ inp') (send_all cs qs1)"
        for b n1 m1 qs1
        using y that i(2) by (simp add: session_inv_def)
    qed
  qed
qed

lemma session_loop_inv: "post (session_inv junk stack buf bt s) (session_loop os net stack junk buf bt s)"
proof -
  have "os' = os \<longrightarrow> net' = net \<longrightarrow> session_inv junk stack buf bt s y" if "session_loop os' net' stack junk buf bt s = Some y" for os' net' y
    using that
  proof (rule session_loop.raw_induct [rotated], goal_cases)
    case (1 f os' net' stack junk buf bt s y)
    have IH: "session_inv junk stack buf bt s y" if "f os net stack junk buf bt s = Some y" for buf bt s y using 1(1) [OF that] by simp
    obtain q s1 where w: "net_read net s 1024 = (q, s1)" by fastforce
    note rl = read_law [OF w]
    show ?case
    proof (intro impI)
      assume eq: "os' = os" "net' = net"
      note y = 1(2) [unfolded eq w Let_def prod.case]
      show "session_inv junk stack buf bt s y"
      proof (cases "net_running net s")
        case run: True
        show ?thesis
        proof (cases q)
          case (Inl x)
          then show ?thesis
            using y run rl session_inv_same [OF IH, of buf bt s1 y s] by (auto intro: session_inv_waits split: if_splits)
        next
          case (Inr piece)
          then have same: "sent s1 = sent s" "arrived s1 = arrived s @ piece" using rl by simp_all
          show ?thesis
          proof (cases "piece = []")
            case False
            then obtain r bt2 s2 where sb: "serve_buffer os net stack junk (buf @ piece) bt s1 = Some (r, bt2, s2)"
              and yr: "(case r of Inl e \<Rightarrow> Some (e, bt2, s2) | Inr b \<Rightarrow> f os net stack junk b bt2 s2) = Some y"
              using y run Inr by (auto simp: bind_eq_Some_conv)
            show ?thesis by (rule session_inv_step [OF sb same]) (use yr IH in \<open>auto split: sum.splits\<close>)
          qed (use y run Inr same in \<open>auto intro: session_inv_waits\<close>)
        qed
      qed (use y in \<open>auto intro: session_inv_waits\<close>)
    qed
  qed
  then show ?thesis by (simp add: post_def)
qed

lemma session_safe:
  assumes "Server_HandleClient os net stack junk bt s = Some (e, bt', s')" and "db_map n m bt" "queries_ok junk m qs" "room_for n qs"
    and "arrived s' = arrived s @ inp" "prefix inp (send_all cs qs)"
  shows "session_result cs stack n m qs inp s e bt' s'"
proof -
  have "session_inv junk stack [] bt s (e, bt', s')"
    using session_loop_inv [of junk stack "[]" bt s] assms(1) by (simp add: post_def Server_HandleClient_def)
  then show ?thesis using assms(2-) unfinished_Nil by (auto simp: session_inv_def)
qed

text \<open>The same in the words of the map.\<close>

lemma session_safe_map:
  assumes "Server_HandleClient os net stack junk bt s = Some (e, bt', s')" and "db_map n m bt" "queries_ok junk m qs" "room_for n qs"
    and "arrived s' = arrived s @ inp" "prefix inp (send_all cs qs)"
  shows "\<exists>did n' replies out. prefix did qs \<and> prefix (send_all cs did) inp \<and> db_map n' (foldl map_query m did) bt' \<and>
    map_replies stack m did replies \<and> sent s' = sent s @ out \<and> prefix out replies \<and>
    ((\<exists>x. e = Failed (NetError x)) \<or>
     (e = Stopped \<or> e = PeerClosed \<or> (\<exists>x. e = ReadFailed x)) \<and> out = replies \<and>
       (\<exists>part. inp = send_all cs did @ part \<and> unfinished cs part (drop (length did) qs)))"
proof -
  from session_safe [OF assms] obtain did where d: "prefix did qs"
    "served_all stack n m did s False bt' s' \<and> (\<exists>x. e = Failed (NetError x)) \<and> prefix (send_all cs did) inp \<or>
     served_all stack n m did s True bt' s' \<and> (e = Stopped \<or> e = PeerClosed \<or> (\<exists>x. e = ReadFailed x)) \<and>
       (\<exists>part. inp = send_all cs did @ part \<and> unfinished cs part (drop (length did) qs))"
    unfolding session_result_def by blast
  from d(2) show ?thesis
  proof
    assume f: "served_all stack n m did s False bt' s' \<and> (\<exists>x. e = Failed (NetError x)) \<and> prefix (send_all cs did) inp"
    then obtain replies n' out where "map_replies stack m did replies" "sent s' = sent s @ out" "prefix out replies"
      "db_map n' (foldl map_query m did) bt'" unfolding served_all_def wrote_def by blast
    then show ?thesis using d(1) f by (intro exI [of _ did] exI [of _ n'] exI [of _ replies] exI [of _ out]) simp
  next
    assume f: "served_all stack n m did s True bt' s' \<and> (e = Stopped \<or> e = PeerClosed \<or> (\<exists>x. e = ReadFailed x)) \<and>
       (\<exists>part. inp = send_all cs did @ part \<and> unfinished cs part (drop (length did) qs))"
    then obtain replies n' where r: "map_replies stack m did replies" "sent s' = sent s @ replies"
      "db_map n' (foldl map_query m did) bt'" unfolding served_all_def wrote_def by auto
    have "prefix (send_all cs did) inp" using f by (auto simp: prefix_def)
    then show ?thesis using d(1) r f by (intro exI [of _ did] exI [of _ n'] exI [of _ replies] exI [of _ replies]) simp
  qed
qed

end

section \<open>A connection that makes progress\<close>

locale server_peer = regular_file os file_byte file_size + reliable_socket net sent arrived up pending patience
  for os :: "'d posix" and file_byte file_size and net :: "'s net" and sent arrived up pending patience

sublocale server_peer \<subseteq> server_world ..

context server_peer begin

text \<open>The connection is as good as before.\<close>

definition still_up :: "'s \<Rightarrow> 's \<Rightarrow> bool" where
  "still_up s s' \<longleftrightarrow> up s' \<and> pending s' = pending s \<and> patience s' \<le> patience s"

lemma still_up_trans: "still_up s s1 \<Longrightarrow> still_up s1 s2 \<Longrightarrow> still_up s s2"
  by (simp add: still_up_def)

lemma write_up: "up s \<Longrightarrow> \<exists>s'. write_loop net b c s = Some (Inr (), s') \<and> still_up s s'"
  using write_loop_total [of s b c] by (auto simp: still_up_def)

lemma send_payload_up:
  "stream_map file_byte file_size n m bt r data \<Longrightarrow> up s \<Longrightarrow>
    \<exists>bt' s'. send_payload os net r bt s = Some (Inr (), bt', s') \<and> still_up s s'"
proof (induction "length data" arbitrary: data r bt s rule: less_induct)
  case less
  note rem = stream_map_remaining [OF less.prems(1)]
  show ?case
  proof (cases "data = []")
    case True
    then show ?thesis using less.prems(2) rem by (auto simp: send_payload_eof still_up_def)
  next
    case False
    from next_bytes_map [OF less.prems(1), of 1024] obtain r1 bp1 where
      r: "NextBytes os (bt_pool bt) r 1024 = Some (take 1024 data, r1, bp1)"
        "stream_map file_byte file_size n m (bt\<lparr>bt_pool := bp1\<rparr>) r1 (drop 1024 data)" by blast
    obtain s1 where w: "write_loop net (take 1024 data) 0 s = Some (Inr (), s1)" "still_up s s1" using write_up [OF less.prems(2)] by blast
    have "length (drop 1024 data) < length data" "up s1" using False w(2) by (simp_all add: still_up_def)
    from less.hyps [OF this(1) r(2) this(2)] obtain bt' s' where
      "send_payload os net r1 (bt\<lparr>bt_pool := bp1\<rparr>) s1 = Some (Inr (), bt', s')" "still_up s1 s'" by blast
    moreover have "\<not> IsEOF r" using rem False by simp
    ultimately show ?thesis using send_payload_next [OF _ r(1), of net s] w still_up_trans by auto
  qed
qed

lemma send_key_reply_up: "up s \<Longrightarrow> \<exists>s'. send_key_reply net h k s = Some (Inr (), s') \<and> still_up s s'"
proof -
  assume "up s"
  from write_up [OF this] obtain s1 where w: "write_loop net (bytes h 0 14) 0 s = Some (Inr (), s1)" "still_up s s1" by blast
  then have "up s1" by (simp add: still_up_def)
  from write_up [OF this] obtain s2 where "write_loop net (key_bytes k) 0 s1 = Some (Inr (), s2)" "still_up s1 s2" by blast
  then show ?thesis using w still_up_trans by (auto simp: send_key_reply_def exact_io_defs)
qed

lemma search_up:
  assumes tm: "db_map n m bt" and up: "up s" and l: "\<not> length buf < 21"
  shows "\<exists>bt' s'. Server_HandleSearch os net stack buf bt s = Some (erase_request buf (Inr ()), bt', s') \<and> still_up s s'"
proof -
  from search_map [OF tm, of 53 "header_key buf"] obtain res bt1 data where
    r: "BTree_Search os 53 bt (header_key buf) = Some (res, bt1)" "stream_map file_byte file_size n m bt1 res data" by auto
  let ?h = "bytes (make_response_header stack Command_Search (if IsEOF res then 4 else 1) (u32 (14 + int (PayloadRemaining res)))) 0 14"
  obtain s1 where w: "write_loop net ?h 0 s = Some (Inr (), s1)" "still_up s s1" using write_up [OF up] by blast
  then have "up s1" by (simp add: still_up_def)
  from send_payload_up [OF r(2) this] obtain bt' s' where p: "send_payload os net res bt1 s1 = Some (Inr (), bt', s')" "still_up s1 s'" by blast
  have "Server_HandleSearch os net stack buf bt s = Some (erase_request buf (Inr ()), bt', s')"
    unfolding Server_HandleSearch_def using l r(1) w(1) p(1) by (simp add: exact_io_defs)
  then show ?thesis using still_up_trans [OF w(2) p(2)] by blast
qed

lemma dispatch_up:
  assumes tm: "db_map n m bt" and q: "servable q" "command q = Command_Insert \<longrightarrow> m (key q) = None"
      "command q = Command_Delete \<longrightarrow> junk = 0"
    and room: "unat n + query_pages q < 4503599627370496" and up: "up s"
  shows "\<exists>bt' s'. Server_dispatch os net stack junk (client_send cs q @ rest) bt s = Some (Inr rest, bt', s') \<and> still_up s s'"
proof -
  let ?buf = "client_send cs q @ rest"
  note f = request_fields [OF q(1), of cs rest]
  have e: "erase_request ?buf (Inr ()) = Inr rest" by (simp add: erase_request_def f(2))
  have l: "\<not> length ?buf < 21" by (simp add: length_client_send)
  consider (s) "command q = Command_Search" | (i) "command q = Command_Insert" | (d) "command q = Command_Delete"
    using q(1) by (auto simp: servable_def)
  then show ?thesis
  proof cases
    case s
    from search_up [OF tm up l, of stack] show ?thesis using s f(3) e by (auto simp: Server_dispatch_def)
  next
    case i
    have len: "8 \<le> length (request_data q)" "length (request_data q) < 4294967278" "length (client_send cs q) \<le> 20000" "13 \<le> length (client_send cs q)"
      "length (client_send cs q) - 13 = length (request_data q)"
      using q(1) by (simp_all add: length_request_data servable_def length_payload_bytes length_client_send)
    define b where "b = of_bytes (drop 13 ?buf)"
    have "b = of_bytes (request_data q @ rest)" by (simp add: b_def client_send_def request_data_def)
    then have k: "load_u64 b 0 = key q" by (simp add: request_data_def load_key_bytes)
    have rm: "unat n + 54 + length (request_data q) < 4503599627370496" using room i by (simp add: query_pages_def)
    from insert_map [OF tm _ rm len(1,2), of 53 b stack] q(2) i obtain bt1 where
      b: "BTree_Insert os stack 53 bt b (length (request_data q)) (key q) = Some (True, bt1)" by (auto simp: k)
    obtain s' where w: "send_key_reply net (make_response_header stack Command_Insert 1 22) (key q) s = Some (Inr (), s')" "still_up s s'"
      using send_key_reply_up [OF up] by blast
    have "Server_HandleInsert os net stack ?buf bt s = Some (Inr rest, bt1, s')"
      unfolding Server_HandleInsert_def Let_def sizes f(2,5) b_def [symmetric] using l len b w(1) e by simp
    then show ?thesis using i f(3) w(2) by (auto simp: Server_dispatch_def)
  next
    case d
    from delete_map [OF tm, of 53 "key q"] obtain ok bt1 where b: "BTree_Delete os junk 53 bt (key q) = Some (ok, bt1)" using q(3) d by auto
    obtain s' where w: "send_key_reply net (make_response_header stack Command_Delete (if ok then 1 else 4) 22) (key q) s = Some (Inr (), s')" "still_up s s'"
      using send_key_reply_up [OF up] by blast
    have "Server_HandleDelete os net stack junk ?buf bt s = Some (Inr rest, bt1, s')"
      unfolding Server_HandleDelete_def using l f(5) b w(1) e by (simp add: Let_def)
    then show ?thesis using d f(3) w(2) by (auto simp: Server_dispatch_def)
  qed
qed

lemma serve_buffer_up:
  "db_map n m bt \<Longrightarrow> queries_ok junk m (qs @ later) \<Longrightarrow> room_for n qs \<Longrightarrow> unfinished cs part later \<Longrightarrow> up s \<Longrightarrow>
    \<exists>bt' s'. serve_buffer os net stack junk (send_all cs qs @ part) bt s = Some (Inr part, bt', s') \<and> still_up s s'"
proof (induction qs arbitrary: n m bt s)
  case Nil
  then show ?case using serve_buffer_waits [OF queries_servable [of junk m later] Nil.prems(4), of stack junk bt s] by (simp add: still_up_def)
next
  case (Cons q qs)
  have q: "servable q" "command q = Command_Insert \<longrightarrow> m (key q) = None" "command q = Command_Delete \<longrightarrow> junk = 0" "queries_ok junk (map_query m q) (qs @ later)"
    "unat n + query_pages q < 4503599627370496" using Cons.prems(2,3) by (simp_all add: room_for_def)
  let ?rest = "send_all cs qs @ part"
  from dispatch_up [OF Cons.prems(1) q(1-3,5) Cons.prems(5), of stack cs ?rest] obtain bt1 s1 where
    d: "Server_dispatch os net stack junk (client_send cs q @ ?rest) bt s = Some (Inr ?rest, bt1, s1)" "still_up s s1" by blast
  from dispatch_served [OF Cons.prems(1) q(1-3,5) d(1)] obtain w where
    "Inr ?rest = (case w of Inl e \<Rightarrow> Inl (Failed (NetError e)) | Inr _ \<Rightarrow> Inr ?rest)" "served stack n m q s (w = Inr ()) bt1 s1" by blast
  then obtain n1 where n1: "db_map n1 (map_query m q) bt1" "unat n1 \<le> unat n + query_pages q"
    unfolding served_def by blast
  have "room_for n1 qs" "up s1" using Cons.prems(3) n1(2) d(2) by (simp_all add: room_for_def still_up_def)
  from Cons.IH [OF n1(1) q(4) this(1) Cons.prems(4) this(2)] obtain bt' s' where
    "serve_buffer os net stack junk ?rest bt1 s1 = Some (Inr part, bt', s')" "still_up s1 s'" by blast
  then show ?case using d still_up_trans by (auto simp: serve_buffer_request [OF q(1)])
qed

lemma session_up:
  "db_map n m bt \<Longrightarrow> queries_ok junk m qs \<Longrightarrow> room_for n qs \<Longrightarrow> unfinished cs buf qs \<Longrightarrow> up s \<Longrightarrow> buf @ pending s = send_all cs qs \<Longrightarrow>
    \<exists>bt' s'. session_loop os net stack junk buf bt s = Some (PeerClosed, bt', s') \<and> up s' \<and> arrived s' = arrived s @ pending s \<and>
      patience s' \<le> patience s"
proof (induction "patience s + length (pending s)" arbitrary: s buf bt n m qs rule: less_induct)
  case less
  have run: "net_running net s" by (rule running_law [OF less.prems(5)])
  obtain q s1 where w: "net_read net s 1024 = (q, s1)" by fastforce
  note p = read_progress [OF less.prems(5) _ w] and l = read_law [OF w]
  note unf = session_loop.simps [of os net stack junk buf bt s]
  show ?case
  proof (cases q)
    case (Inl e)
    then have "patience s1 + length (pending s1) < patience s + length (pending s)" "up s1" "buf @ pending s1 = send_all cs qs"
      using p less.prems(6) by auto
    from less.hyps [OF this(1) less.prems(1-4) this(2,3)] show ?thesis using p l Inl w run by (auto simp: unf)
  next
    case (Inr piece)
    then have s1: "up s1" "pending s = piece @ pending s1" "piece = [] \<longrightarrow> pending s = []" "patience s1 \<le> patience s"
      "arrived s1 = arrived s @ piece" using p l by auto
    show ?thesis
    proof (cases "piece = []")
      case True
      then show ?thesis using s1 Inr w run by (auto simp: unf)
    next
      case False
      have "(buf @ piece) @ pending s1 = send_all cs qs" using less.prems(6) s1(2) by simp
      from stream_cut [OF this] obtain qs1 qs2 part where c: "qs = qs1 @ qs2" "buf @ piece = send_all cs qs1 @ part"
        "part @ pending s1 = send_all cs qs2" "unfinished cs part qs2" by blast
      have rm: "room_for n qs1" using less.prems(3) by (simp add: room_for_def c(1))
      note ok = less.prems(2) [unfolded c(1)]
      from serve_buffer_up [OF less.prems(1) ok rm c(4) s1(1), of stack] obtain bt2 s2 where
        sb: "serve_buffer os net stack junk (buf @ piece) bt s1 = Some (Inr part, bt2, s2)" "still_up s1 s2" unfolding c(2) by blast
      from serve_buffer_served [OF less.prems(1) ok rm c(4) sb(1) [unfolded c(2)]] have "served_all stack n m qs1 s1 True bt2 s2" by auto
      then obtain n2 where n2: "db_map n2 (foldl map_query m qs1) bt2" "unat n2 \<le> unat n + sum_list (map query_pages qs1)"
        unfolding served_all_def by blast
      have a2: "arrived s2 = arrived s1" using quiet_serve_buffer [of s1 stack junk "buf @ piece" bt] sb(1) by (simp add: post_def)
      have "patience s2 \<le> patience s" "length (pending s) = length piece + length (pending s2)" "length piece \<noteq> 0"
        using s1 sb(2) False by (simp_all add: still_up_def)
      then have m: "patience s2 + length (pending s2) < patience s + length (pending s)" by linarith
      have "queries_ok junk (foldl map_query m qs1) qs2" "room_for n2 qs2" "up s2" "part @ pending s2 = send_all cs qs2"
        using ok less.prems(3) n2(2) sb(2) c(3) by (simp_all add: queries_ok_append room_for_def still_up_def c(1))
      from less.hyps [OF m n2(1) this(1,2) c(4) this(3,4)] obtain bt' s' where
        "session_loop os net stack junk part bt2 s2 = Some (PeerClosed, bt', s')" "up s'"
        "arrived s' = arrived s2 @ pending s2" "patience s' \<le> patience s2" by blast
      moreover have "session_loop os net stack junk buf bt s = session_loop os net stack junk part bt2 s2"
        using sb(1) Inr w run False by (simp add: unf)
      moreover have "arrived s2 @ pending s2 = arrived s @ pending s" "patience s2 \<le> patience s"
        using a2 s1 sb(2) by (simp_all add: still_up_def)
      ultimately show ?thesis by (intro exI [of _ bt'] exI [of _ s']) simp
    qed
  qed
qed

text \<open>All requests of the stream are served and answered.\<close>

lemma session_total:
  assumes "db_map n m bt" "queries_ok junk m qs" "room_for n qs" "up s" "pending s = send_all cs qs"
  shows "\<exists>bt' s'. Server_HandleClient os net stack junk bt s = Some (PeerClosed, bt', s') \<and> up s' \<and> served_all stack n m qs s True bt' s'"
proof -
  from session_up [OF assms(1-3) unfinished_Nil assms(4), of cs stack] assms(5) obtain bt' s' where
    r: "Server_HandleClient os net stack junk bt s = Some (PeerClosed, bt', s')" "up s'" "arrived s' = arrived s @ send_all cs qs"
    by (auto simp: Server_HandleClient_def)
  from session_safe [OF r(1) assms(1-3) r(3) prefix_order.refl] obtain did part where
    d: "prefix did qs" "served_all stack n m did s True bt' s'" "send_all cs qs = send_all cs did @ part"
      "unfinished cs part (drop (length did) qs)" unfolding session_result_def by auto
  obtain rest where rest: "qs = did @ rest" using d(1) by (auto simp: prefix_def)
  then have "part = send_all cs rest" "unfinished cs part rest" using d(3,4) by (simp_all add: send_all_append)
  then have "rest = []" by (cases rest) (auto simp: unfinished_def)
  then show ?thesis using r d(2) rest by auto
qed

lemma session_map:
  assumes "db_map n m bt" "queries_ok junk m qs" "room_for n qs" "up s" "pending s = send_all cs qs"
  shows "\<exists>bt' s' n' replies. Server_HandleClient os net stack junk bt s = Some (PeerClosed, bt', s') \<and> up s' \<and>
    map_replies stack m qs replies \<and> sent s' = sent s @ replies \<and> db_map n' (foldl map_query m qs) bt'"
  using session_total [OF assms, of stack] unfolding served_all_def wrote_def by auto

end

interpretation mem_server: server_peer file_os fst snd wire_net wire_sent wire_arrived wire_running wire_pending "\<lambda>w. length (wire_plan w)" ..

end
