(* ===== verification/Server_Process.thy ===== *)
theory Server_Process
  imports Server_Session
begin

text \<open>
  The server as a process (\<open>RunServer\<close> in \<open>database/src/impl/server/server.cpp\<close> and
  \<open>database/src/main.cpp\<close>): the command line, the start of the three layers, the loop that accepts
  one connection after the other, and the ways the process ends. Proved: connections served one
  after the other act on one map, and a regular end leaves it in the file, where a restart finds
  it; a packet with an unknown command ends the process by an exception nobody catches.
\<close>

section \<open>Accepting connections\<close>

text \<open>The calls on the listening socket; \<open>net_bind\<close> gets the port as the 16 bits of \<open>sin_port\<close>.\<close>

record 's listener =
  net_socket :: "'s \<Rightarrow> (errno + unit) \<times> 's"
  net_bind :: "'s \<Rightarrow> nat \<Rightarrow> (errno + unit) \<times> 's"
  net_accept :: "'s \<Rightarrow> (errno + unit) \<times> 's"

text \<open>The exceptions nobody catches: those that leave \<open>RunServer\<close>, and one of \<open>std::filesystem\<close> at the start.\<close>

datatype server_error =
  FilesystemError errno | SocketFailed errno | BindFailed errno | AcceptFailed errno | InvalidCommandType

partial_function (option) accept_loop :: "'d posix \<Rightarrow> 's net \<Rightarrow> 's listener \<Rightarrow> mem \<Rightarrow> nat \<Rightarrow> 'd BTree \<Rightarrow> 's \<Rightarrow>
    ((server_error + unit) \<times> 'd BTree \<times> 's) option" where
  "accept_loop os net listener stack junk bt s =
    (if \<not> net_running net s then Some (Inr (), bt, s)
     else
       let (newsockfd, s) = net_accept listener s
       in case newsockfd of
            Inl errno \<Rightarrow>
              if errno = EINTR then accept_loop os net listener stack junk bt s
              else Some (Inl (AcceptFailed errno), bt, s)
          | Inr _ \<Rightarrow> do {
              (session, bt, s) \<leftarrow> Server_HandleClient os net stack junk bt s;
              (if session = Escaped then Some (Inl InvalidCommandType, bt, s)
               else accept_loop os net listener stack junk bt s)
            })"

text \<open>The results of \<open>setsockopt\<close> and \<open>listen\<close> are not looked at.\<close>

definition Server_RunServer :: "'d posix \<Rightarrow> 's net \<Rightarrow> 's listener \<Rightarrow> mem \<Rightarrow> nat \<Rightarrow> int \<Rightarrow> 'd BTree \<Rightarrow> 's \<Rightarrow>
    ((server_error + unit) \<times> 'd BTree \<times> 's) option" where
  "Server_RunServer os net listener stack junk portno bt s =
    (let (sockfd, s) = net_socket listener s
     in case sockfd of
          Inl errno \<Rightarrow> Some (Inl (SocketFailed errno), bt, s)
        | Inr _ \<Rightarrow>
            (let (bound, s) = net_bind listener s (u16 portno)
             in case bound of
                  Inl errno \<Rightarrow> Some (Inl (BindFailed errno), bt, s)
                | Inr _ \<Rightarrow> accept_loop os net listener stack junk bt s))"

section \<open>The main function\<close>

text \<open>\<open>std::stoi\<close>: spaces, a sign, digits, and anything; \<open>None\<close> is either of its exceptions.\<close>

definition isspace :: "char \<Rightarrow> bool" where
  "isspace c \<longleftrightarrow> code c = 32 \<or> 9 \<le> code c \<and> code c \<le> 13"

definition stoi :: "string \<Rightarrow> int option" where
  "stoi str =
    (let t = dropWhile isspace str;
         negative = (t \<noteq> [] \<and> hd t = CHR ''-'');
         u = (if negative \<or> t \<noteq> [] \<and> hd t = CHR ''+'' then tl t else t);
         ds = takeWhile isdigit u;
         v = (if negative then - int (decimal ds) else int (decimal ds))
     in if ds = [] \<or> v < -2147483648 \<or> 2147483647 < v then None else Some v)"

definition server_port :: "string list \<Rightarrow> int" where
  "server_port argv =
    (let portno_str = (if 3 \<le> length argv then argv ! 2 else [])
     in case stoi portno_str of None \<Rightarrow> 8080 | Some portno \<Rightarrow> portno)"

text \<open>
  How the process ends: with an exit code and, once a database was open, with the file its
  destructors leave; or by \<open>std::terminate\<close>, which runs no destructor: the file, if one was open, is
  what was written so far. \<open>None\<close> is a crash (\<open>NullPage\<close>, or one of the tree) or a process that
  does not end.
\<close>

datatype 'd process_end = ExitCode int "'d option" | Terminated server_error "'d option"

definition Server_main :: "'d posix \<Rightarrow> 's net \<Rightarrow> 's listener \<Rightarrow> ('d, 's) filesystem \<Rightarrow> mem \<Rightarrow> nat \<Rightarrow> (nat \<Rightarrow> mem) \<Rightarrow>
    string list \<Rightarrow> 's \<Rightarrow> ('d process_end \<times> 's) option" where
  "Server_main os net listener fs stack junk memory argv s =
    (if length argv < 2 then Some (ExitCode 1 None, s)
     else
       let db_path = argv ! 1;
           portno = server_port argv
       in case open_database fs s db_path of
            (Inl e, s) \<Rightarrow> Some (Terminated (FilesystemError e) None, s)
          | (Inr fd, s) \<Rightarrow>
              (case Server_Bootstrap os stack memory fd of
                 Inl BootFailed \<Rightarrow> Some (ExitCode 1 None, s)
               | Inl NullPage \<Rightarrow> None
               | Inr bt \<Rightarrow> do {
                   (r, bt, s) \<leftarrow> Server_RunServer os net listener stack junk portno bt s;
                   case r of
                     Inl e \<Rightarrow> Some (Terminated e (Some (fd_database (storage_manager (bt_pool bt)))), s)
                   | Inr _ \<Rightarrow> Some (ExitCode 0 (Some (Server_shutdown os bt)), s)
                 }))"

text \<open>
  A database in the working directory, named by a path without a slash, cannot be opened: the
  process is terminated by the exception of \<open>create_directories\<close>.
\<close>

lemma main_plain_path:
  assumes "2 \<le> length argv" and "CHR ''/'' \<notin> set (argv ! 1)" and "fs_exists fs s [] = Inr False"
    and "fs_create_directories fs s [] = (Inl e, s')"
  shows "Server_main os net listener fs stack junk memory argv s = Some (Terminated (FilesystemError e) None, s')"
  using assms open_database_plain [OF assms(2-4)] by (simp add: Server_main_def)

section \<open>Connections one after the other\<close>

text \<open>
  A host on which clients connect in turn and a signal ends the server when no client is left:
  \<open>waiting\<close> are the streams of the connections to come.
\<close>

locale server_host = server_peer os file_byte file_size net sent arrived up pending patience
  for os :: "'d posix" and file_byte file_size and net :: "'s net" and sent arrived up pending patience +
  fixes listener :: "'s listener" and waiting :: "'s \<Rightarrow> byte list list"
  assumes socket_law: "up s \<Longrightarrow> net_socket listener s = (r, s') \<Longrightarrow>
      r = Inr () \<and> up s' \<and> waiting s' = waiting s \<and> sent s' = sent s"
    and bind_law: "up s \<Longrightarrow> net_bind listener s port = (r, s') \<Longrightarrow>
      r = Inr () \<and> up s' \<and> waiting s' = waiting s \<and> sent s' = sent s"
    and accept_law: "up s \<Longrightarrow> net_accept listener s = (r, s') \<Longrightarrow> sent s' = sent s \<and>
      (case r of Inl e \<Rightarrow> e = EINTR \<and> waiting s = [] \<and> \<not> net_running net s'
       | Inr _ \<Rightarrow> up s' \<and> waiting s = pending s' # waiting s')"
    and waiting_write: "net_write net s b = (w, s') \<Longrightarrow> waiting s' = waiting s"
    and waiting_read: "net_read net s k = (q, s') \<Longrightarrow> waiting s' = waiting s"

text \<open>During a connection the clients that wait stay where they are.\<close>

sublocale server_host \<subseteq> conn: server_peer os file_byte file_size net sent arrived "\<lambda>s. up s \<and> waiting s = ws" pending patience for ws
proof unfold_locales
  fix s buffer r s' n q
  show "up s \<and> waiting s = ws \<Longrightarrow> net_running net s" using running_law by blast
  show "up s \<and> waiting s = ws \<Longrightarrow> buffer \<noteq> [] \<Longrightarrow> net_write net s buffer = (r, s') \<Longrightarrow>
      (up s' \<and> waiting s' = ws) \<and> pending s' = pending s \<and> patience s' \<le> patience s \<and>
      (case r of Inl e \<Rightarrow> e = EINTR \<and> patience s' < patience s | Inr k \<Rightarrow> 0 < k)"
    using write_progress [of s buffer r s'] waiting_write [of s buffer r s'] by blast
  show "up s \<and> waiting s = ws \<Longrightarrow> 0 < n \<Longrightarrow> net_read net s n = (q, s') \<Longrightarrow>
      (up s' \<and> waiting s' = ws) \<and> patience s' \<le> patience s \<and>
      (case q of Inl e \<Rightarrow> e = EINTR \<and> patience s' < patience s \<and> pending s' = pending s
       | Inr piece \<Rightarrow> pending s = piece @ pending s' \<and> (piece = [] \<longrightarrow> pending s = []))"
    using read_progress [of s n q s'] waiting_read [of s n q s'] by blast
qed

context server_host begin

lemma accept_loop_total:
  "db_map n m bt \<Longrightarrow> queries_ok junk m (concat qss) \<Longrightarrow> room_for n (concat qss) \<Longrightarrow> up s \<Longrightarrow> waiting s = map (send_all cs) qss \<Longrightarrow>
    \<exists>bt' s'. accept_loop os net listener stack junk bt s = Some (Inr (), bt', s') \<and> served_all stack n m (concat qss) s True bt' s'"
proof (induction qss arbitrary: n m bt s)
  case Nil
  obtain r s1 where a: "net_accept listener s = (r, s1)" by fastforce
  then have "r = Inl EINTR" "\<not> net_running net s1" "sent s1 = sent s"
    using accept_law [OF Nil.prems(4) a] Nil.prems(5) by (auto split: sum.splits)
  then have "accept_loop os net listener stack junk bt s = Some (Inr (), bt, s1)"
    using a running_law [OF Nil.prems(4)] by (simp add: accept_loop.simps [of os net listener stack junk bt])
  moreover have "served_all stack n m [] s True bt s1"
    using served_all_Nil [OF Nil.prems(1)] served_all_same [OF \<open>sent s1 = sent s\<close>] by blast
  ultimately show ?case by auto
next
  case (Cons qs qss)
  obtain r s1 where a: "net_accept listener s = (r, s1)" by fastforce
  then have s1: "r = Inr ()" "sent s1 = sent s" "up s1" "pending s1 = send_all cs qs" "waiting s1 = map (send_all cs) qss"
    using accept_law [OF Cons.prems(4) a] Cons.prems(5) by (auto split: sum.splits)
  have ok: "queries_ok junk m qs" "queries_ok junk (foldl map_query m qs) (concat qss)" "room_for n qs"
    using Cons.prems(2,3) by (simp_all add: queries_ok_append room_for_def)
  from conn.session_total [OF Cons.prems(1) ok(1,3) _ s1(4), of "map (send_all cs) qss" stack] s1(3,5) obtain bt2 s2 where
    h: "Server_HandleClient os net stack junk bt s1 = Some (PeerClosed, bt2, s2)" "up s2" "waiting s2 = map (send_all cs) qss"
      "served_all stack n m qs s True bt2 s2" by (auto simp: served_all_same [OF s1(2)])
  from served_all_then [OF h(4)] obtain n2 where n2: "db_map n2 (foldl map_query m qs) bt2" "unat n2 \<le> unat n + sum_list (map query_pages qs)"
    and more: "\<And>qs' all bt' s'. served_all stack n2 (foldl map_query m qs) qs' s2 all bt' s' \<Longrightarrow> served_all stack n m (qs @ qs') s all bt' s'"
    by auto
  have "room_for n2 (concat qss)" using Cons.prems(3) n2(2) by (simp add: room_for_def)
  from Cons.IH [OF n2(1) ok(2) this h(2,3)] obtain bt' s' where
    "accept_loop os net listener stack junk bt2 s2 = Some (Inr (), bt', s')" "served_all stack n2 (foldl map_query m qs) (concat qss) s2 True bt' s'" by blast
  moreover have "accept_loop os net listener stack junk bt s = accept_loop os net listener stack junk bt2 s2"
    using a s1(1) h(1) running_law [OF Cons.prems(4)] by (simp add: accept_loop.simps [of os net listener stack junk bt s])
  ultimately show ?case using more by auto
qed

lemma RunServer_total:
  assumes "db_map n m bt" "queries_ok junk m (concat qss)" "room_for n (concat qss)" "up s" "waiting s = map (send_all cs) qss"
  shows "\<exists>bt' s'. Server_RunServer os net listener stack junk portno bt s = Some (Inr (), bt', s') \<and>
    served_all stack n m (concat qss) s True bt' s'"
proof -
  obtain r1 s1 where a: "net_socket listener s = (r1, s1)" by fastforce
  note l1 = socket_law [OF assms(4) a]
  obtain r2 s2 where b: "net_bind listener s1 (u16 portno) = (r2, s2)" by fastforce
  have "up s1" using l1 by simp
  note l2 = bind_law [OF this b]
  have s2: "up s2" "waiting s2 = map (send_all cs) qss" "sent s2 = sent s" using l1 l2 assms(5) by simp_all
  from accept_loop_total [OF assms(1-3) s2(1,2), of stack] obtain bt' s' where
    "accept_loop os net listener stack junk bt s2 = Some (Inr (), bt', s')" "served_all stack n m (concat qss) s2 True bt' s'" by blast
  then show ?thesis using a b l1 l2 served_all_same [OF s2(3)] by (auto simp: Server_RunServer_def)
qed

text \<open>The whole process on a new file; the file it leaves opens with the final map.\<close>

lemma main_total:
  assumes args: "2 \<le> length argv" "open_database fs s0 (argv ! 1) = (Inr (Some fd), s)" and new: "\<not> IsDatabaseFile os stack fd"
    and ok: "queries_ok junk Map.empty (concat qss)" "room_for 3 (concat qss)" and up: "up s" "waiting s = map (send_all cs) qss"
  shows "\<exists>fd' s' replies. Server_main os net listener fs stack junk memory argv s0 = Some (ExitCode 0 (Some fd'), s') \<and>
    map_replies stack Map.empty (concat qss) replies \<and> sent s' = sent s @ replies \<and>
    (\<forall>memory'. \<exists>bt n. Server_Bootstrap os stack memory' (Some fd') = Inr bt \<and> db_map n (foldl map_query Map.empty (concat qss)) bt)"
proof -
  from bootstrap_map_fresh [OF new, where memory = memory and g = False] obtain bt where
    b: "Server_Bootstrap os stack memory (Some fd) = Inr bt" "db_map 3 Map.empty bt" by blast
  from RunServer_total [OF b(2) ok up, of stack "server_port argv"] obtain bt' s' where
    r: "Server_RunServer os net listener stack junk (server_port argv) bt s = Some (Inr (), bt', s')"
    and sv: "served_all stack 3 Map.empty (concat qss) s True bt' s'" by blast
  from sv obtain n' replies where m: "db_map n' (foldl map_query Map.empty (concat qss)) bt'"
    and rep: "map_replies stack Map.empty (concat qss) replies" "sent s' = sent s @ replies"
    unfolding served_all_def wrote_def by auto
  have "\<exists>bt n. Server_Bootstrap os stack memory' (Some (Server_shutdown os bt')) = Inr bt \<and>
      db_map n (foldl map_query Map.empty (concat qss)) bt" for memory'
    using restart_map [OF m, of stack memory'] by blast
  moreover have "Server_main os net listener fs stack junk memory argv s0 = Some (ExitCode 0 (Some (Server_shutdown os bt')), s')"
    using args b(1) r by (simp add: Server_main_def Let_def)
  ultimately show ?thesis using rep by blast
qed

end

section \<open>Clients in memory\<close>

definition wire_accept :: "wire \<Rightarrow> (errno + unit) \<times> wire" where
  "wire_accept w =
    (case wire_waiting w of
       [] \<Rightarrow> (Inl EINTR, w\<lparr>wire_running := False\<rparr>)
     | p # ps \<Rightarrow> (Inr (), w\<lparr>wire_pending := p, wire_waiting := ps\<rparr>))"

definition wire_listener :: "wire listener" where
  "wire_listener = \<lparr>net_socket = \<lambda>w. (Inr (), w), net_bind = \<lambda>w port. (Inr (), w), net_accept = wire_accept\<rparr>"

text \<open>A disk with one directory and, when \<open>open\<close> is asked to create it, an empty file.\<close>

definition wire_disk :: "(mem \<times> nat, wire) filesystem" where
  "wire_disk = \<lparr>fs_exists = \<lambda>w path. Inr (path = ''data''),
    fs_create_directories = \<lambda>w path. (if path = [] then Inl (Errno 22) else Inr (), w),
    fs_open = \<lambda>w path creat. (if creat then Some (\<lambda>_. 0, 0) else None, w)\<rparr>"

lemma wire_disk_open:
  "open_database wire_disk w ''data/db'' = (Inr (Some (\<lambda>_. 0, 0)), w)"
  "open_database wire_disk w ''db'' = (Inl (Errno 22), w)"
  by (simp_all add: open_database_def wire_disk_def parent_path_def)

interpretation mem_host: server_host file_os fst snd wire_net wire_sent wire_arrived wire_running wire_pending
  "\<lambda>w. length (wire_plan w)" wire_listener wire_waiting
  by unfold_locales
    (auto simp: wire_listener_def wire_accept_def wire_net_def wire_read_def wire_write_def Let_def split: if_splits list.splits)

section \<open>An unknown command\<close>

text \<open>A packet of a header only whose command is \<open>Command::Invalid\<close>.\<close>

definition bad_request :: "mem \<Rightarrow> byte list" where
  "bad_request stack = bytes (make_request_header stack Command_Invalid 13) 0 13"

lemma bad_request_escapes:
  "serve_buffer os net stack junk (bad_request cs) bt s = Some (Inl Escaped, bt, s)"
proof -
  let ?h = "make_request_header cs Command_Invalid 13" and ?b = "bad_request cs"
  note f = request_header_fields [of 13 cs Command_Invalid, simplified]
  have ld: "load_le (of_bytes ?b) a n = load_le ?h a n" if "a + n \<le> 13" for a n
    using load_of_bytes_prefix [OF that, of ?h "[]"] by (simp add: bad_request_def)
  have v: "VerifyChecksum (of_bytes ?b) 13"
    using f(4) Verify_of_bytes [of 13 "of_bytes ?b" ?h] by (simp add: bad_request_def of_bytes_def)
  have "length ?b = 13" by (simp add: bad_request_def)
  then show ?thesis using f v
    by (simp add: serve_buffer.simps [of os net stack junk ?b] Server_dispatch_def header_total_def ld)
qed

lemma bad_request_aborts:
  assumes "net_running net s" "net_accept listener s = (Inr (), s1)" "net_running net s1"
    and "net_read net s1 1024 = (Inr (bad_request cs), s2)"
  shows "accept_loop os net listener stack junk bt s = Some (Inl InvalidCommandType, bt, s2)"
proof -
  have "bad_request cs \<noteq> []" by (simp add: bad_request_def flip: length_greater_0_conv)
  then have "Server_HandleClient os net stack junk bt s1 = Some (Escaped, bt, s2)"
    using assms(3,4) by (simp add: Server_HandleClient_def session_loop.simps [of os net stack junk "[]" bt s1] bad_request_escapes)
  then show ?thesis using assms(1,2) by (simp add: accept_loop.simps [of os net listener stack junk bt s])
qed

end
