(* ===== verification/Command_Line.thy ===== *)
theory Command_Line
  imports Client_Socket Server_Process
begin

text \<open>
  The prompt (\<open>client/src/impl/cli.cpp\<close>) and the client's main function
  (\<open>client/src/main.cpp\<close>): the loop that reads a line, parses it, sends the query and prints the
  reply, with every way it ends. Proved: what a user types and reads at the prompt is a
  conversation with the map of the database; at the end of the input the loop never stops.
\<close>

section \<open>Printing a reply\<close>

definition byte_char :: "byte \<Rightarrow> char" where
  "byte_char b = char_of (unat b)"

text \<open>
  \<open>None\<close> is the exception of the string constructor: with less than eight bytes the length
  \<open>payload.size() - sizeof(Key)\<close> wraps in \<open>size_t\<close> and exceeds the longest string.
\<close>

definition ParseResponsePayload :: "byte list \<Rightarrow> string list option" where
  "ParseResponsePayload reply =
    (let has_key = (0 + 8 \<le> length reply);
         consumed = (if has_key then 8 else 0);
         parsed_payload = (if has_key then [digits (unat (load_u64 (of_bytes reply) 0))] else [])
     in if consumed \<le> length reply then
          (let count = nat ((int (length reply) - 8) mod 18446744073709551616)
           in if 9223372036854775807 < count then None
              else Some (parsed_payload @ [map byte_char (take count (drop 8 reply))]))
        else Some parsed_payload)"

text \<open>The lines of the reply, numbered from 1.\<close>

definition show_fields :: "string list \<Rightarrow> string" where
  "show_fields parsed_payload =
    ''======= RESPONSE ========'' @ newline @
    concat (map (\<lambda>i. digits i @ '': '' @ parsed_payload ! (i - 1) @ newline) [1..<Suc (length parsed_payload)]) @
    ''========================='' @ newline @ newline"

section \<open>The prompt\<close>

text \<open>
  The terminal in the same world as the network: \<open>getline\<close> is \<open>None\<close> when it fails (the end of the
  input, or a signal), \<open>skip_line\<close> is \<open>clear\<close> and \<open>ignore\<close> up to the next newline; \<open>err_what\<close> is the
  text of an exception of the client, or with \<open>None\<close> of the string constructor.
\<close>

record 's terminal =
  getline :: "'s \<Rightarrow> string option \<times> 's"
  skip_line :: "'s \<Rightarrow> 's"
  print :: "'s \<Rightarrow> string \<Rightarrow> 's"
  err_what :: "net_error option \<Rightarrow> string"

partial_function (option) UseCLI :: "'s net \<Rightarrow> 's terminal \<Rightarrow> mem \<Rightarrow> Key \<Rightarrow> 's \<Rightarrow> 's option" where
  "UseCLI net tty stack junk s =
    (if \<not> net_running net s then Some s
     else
       let s = print tty s ''datashil> '';
           (line, s) = getline tty s
       in case line of
            None \<Rightarrow>
              if \<not> net_running net s then Some (print tty s (''[Client] Connection interrupted, closing client.'' @ newline))
              else UseCLI net tty stack junk (skip_line tty s)
          | Some line \<Rightarrow>
              let query_object = ParseQuery junk line
              in if \<not> valid query_object then UseCLI net tty stack junk (print tty s (''Invalid Query'' @ newline))
                 else do {
                   (r, s) \<leftarrow> SendCommandAndFetchReply net stack query_object s;
                   case r of
                     Inl e \<Rightarrow> Some (print tty s (''[CLI] Error: '' @ err_what tty (Some e)))
                   | Inr query_response \<Rightarrow>
                       let s = print tty s (''Status Code: '' @ digits (status_code query_response) @ newline)
                       in if status_code query_response = 1 then
                            (case ParseResponsePayload (response_payload query_response) of
                               None \<Rightarrow> Some (print tty s (''[CLI] Error: '' @ err_what tty None))
                             | Some parsed_payload \<Rightarrow> UseCLI net tty stack junk (print tty s (show_fields parsed_payload)))
                          else UseCLI net tty stack junk (print tty s (''Query failed!'' @ newline))
                 })"

section \<open>The main function\<close>

datatype client_end = ClientExit int | ClientTerminated

text \<open>A port that is no number and the exceptions of the constructor end the program by \<open>std::terminate\<close>.\<close>

definition Client_main :: "'s net \<Rightarrow> ('s, 'a) dialer \<Rightarrow> 's terminal \<Rightarrow> mem \<Rightarrow> Key \<Rightarrow> string list \<Rightarrow> 's \<Rightarrow> (client_end \<times> 's) option" where
  "Client_main net dial tty stack junk argv s =
    (if length argv < 3 then Some (ClientExit 1, s)
     else
       let hostname = argv ! 1;
           port = argv ! 2
       in case stoi port of
            None \<Rightarrow> Some (ClientTerminated, s)
          | Some portno \<Rightarrow>
              (case Client_new dial hostname portno s of
                 (Inl _, s) \<Rightarrow> Some (ClientTerminated, s)
               | (Inr _, s) \<Rightarrow> do {
                   s \<leftarrow> UseCLI net tty stack junk (print tty s (''[Client] Connection success, Ready to go.'' @ newline));
                   Some (ClientExit 0, s)
                 }))"

section \<open>The end of the input\<close>

text \<open>At the end of the input every \<open>getline\<close> fails and the loop has no other way out.\<close>

lemma UseCLI_spins:
  assumes "\<And>s. ended s \<Longrightarrow> net_running net s \<and> fst (getline tty (print tty s ''datashil> '')) = None \<and>
      net_running net (snd (getline tty (print tty s ''datashil> ''))) \<and>
      ended (skip_line tty (snd (getline tty (print tty s ''datashil> ''))))"
    and "ended s"
  shows "UseCLI net tty stack junk s = None"
proof -
  have "net' = net \<longrightarrow> tty' = tty \<longrightarrow> \<not> ended s" if "UseCLI net' tty' stack junk s = Some y" for net' tty' s y
    using that
  proof (rule UseCLI.raw_induct [rotated], goal_cases)
    case (1 f net' tty' stack junk s y)
    show ?case
    proof (intro impI notI)
      assume eq: "net' = net" "tty' = tty" and e: "ended s"
      obtain line s1 where g: "getline tty (print tty s ''datashil> '') = (line, s1)" by fastforce
      note a = assms(1) [OF e]
      have "line = None" "net_running net s1" "ended (skip_line tty s1)" using a g by simp_all
      then have "f net tty stack junk (skip_line tty s1) = Some y" using 1(2) a g by (simp add: eq Let_def)
      then show False using 1(1) \<open>ended (skip_line tty s1)\<close> by blast
    qed
  qed
  then show ?thesis using assms(2) by (cases "UseCLI net tty stack junk s") auto
qed

section \<open>A conversation\<close>

text \<open>What a map answers a query with, and what the prompt prints for it.\<close>

definition map_response :: "(Key \<rightharpoonup> byte list) \<Rightarrow> Query \<Rightarrow> bool \<Rightarrow> Response" where
  "map_response m q verdict =
    (case command q of
       Command_Search \<Rightarrow>
         \<lparr>status_code = (if payload_of m (key q) = [] then 4 else 1), response_payload = payload_of m (key q)\<rparr>
     | Command_Insert \<Rightarrow> \<lparr>status_code = 1, response_payload = key_bytes (key q)\<rparr>
     | Command_Delete \<Rightarrow> \<lparr>status_code = (if verdict then 1 else 4), response_payload = key_bytes (key q)\<rparr>
     | _ \<Rightarrow> empty_response)"

text \<open>A successful search shows the key and the payload behind it, the other commands the key.\<close>

definition answer_text :: "(Key \<rightharpoonup> byte list) \<Rightarrow> Query \<Rightarrow> bool \<Rightarrow> string" where
  "answer_text m q verdict =
    (let ok = (case command q of Command_Search \<Rightarrow> m (key q) \<noteq> None | Command_Delete \<Rightarrow> verdict | _ \<Rightarrow> True)
     in if ok then ''Status Code: 1'' @ newline @ show_fields [digits (unat (key q)),
          (if command q = Command_Search then map byte_char (drop 8 (payload_of m (key q))) else [])]
        else ''Status Code: 4'' @ newline @ ''Query failed!'' @ newline)"

fun conversation :: "(Key \<rightharpoonup> byte list) \<Rightarrow> Query list \<Rightarrow> bool list \<Rightarrow> string" where
  "conversation m (q # qs) (v # vs) = ''datashil> '' @ answer_text m q v @ conversation (map_query m q) qs vs"
| "conversation m _ _ = ''datashil> [Client] Connection interrupted, closing client.'' @ newline"

text \<open>The verdicts behind a stream of replies.\<close>

fun replies_with :: "mem \<Rightarrow> (Key \<rightharpoonup> byte list) \<Rightarrow> Query list \<Rightarrow> bool list \<Rightarrow> byte list" where
  "replies_with stack m (q # qs) (v # vs) = map_reply stack m q v @ replies_with stack (map_query m q) qs vs"
| "replies_with stack m _ _ = []"

fun verdicts_ok :: "(Key \<rightharpoonup> byte list) \<Rightarrow> Query list \<Rightarrow> bool list \<Rightarrow> bool" where
  "verdicts_ok m [] vs \<longleftrightarrow> vs = []"
| "verdicts_ok m (q # qs) vs \<longleftrightarrow> (case vs of [] \<Rightarrow> False | v # vs \<Rightarrow> verdict_ok m q v \<and> verdicts_ok (map_query m q) qs vs)"

lemma map_replies_verdicts:
  "map_replies stack m qs out \<Longrightarrow> \<exists>vs. verdicts_ok m qs vs \<and> out = replies_with stack m qs vs"
proof (induction qs arbitrary: m out)
  case (Cons q qs)
  then obtain v later vs where "verdict_ok m q v" "out = map_reply stack m q v @ later" "verdicts_ok (map_query m q) qs vs"
    "later = replies_with stack (map_query m q) qs vs" by (auto, blast)
  then show ?case by (intro exI [of _ "v # vs"]) simp
qed simp

text \<open>Payloads as insertions over the wire make them: they begin with their key.\<close>

definition wire_map :: "(Key \<rightharpoonup> byte list) \<Rightarrow> bool" where
  "wire_map m \<longleftrightarrow> (\<forall>k d. m k = Some d \<longrightarrow> 8 \<le> length d \<and> length d \<le> 20000 \<and> payload_key d = k)"

lemma wire_map_empty [simp]: "wire_map Map.empty"
  by (simp add: wire_map_def)

lemma wire_map_query: "wire_map m \<Longrightarrow> servable q \<Longrightarrow> wire_map (map_query m q)"
  by (auto simp: wire_map_def map_query_def payload_key_request length_request_data servable_def length_payload_bytes split: Command.split)

lemma ParseResponsePayload_wire:
  assumes "8 \<le> length d" "length d \<le> 20000"
  shows "ParseResponsePayload d = Some [digits (unat (payload_key d)), map byte_char (drop 8 d)]"
  using assms unat_64_less [of "payload_key d"] by (simp add: ParseResponsePayload_def payload_key_def Let_def)

text \<open>The reply on the wire carries exactly the response.\<close>

lemma payload_of_small: "wire_map m \<Longrightarrow> length (payload_of m k) \<le> 20000"
  by (cases "m k") (auto simp: payload_of_def wire_map_def)

lemma map_reply_response:
  assumes "servable q" "wire_map m"
  shows "map_reply stack m q v =
      bytes (make_response_header stack (command q) (status_code (map_response m q v)) (14 + length (response_payload (map_response m q v)))) 0 14
        @ response_payload (map_response m q v)"
    "status_code (map_response m q v) < 256" "14 + length (response_payload (map_response m q v)) < 4294967296"
proof -
  have l: "length (payload_of m (key q)) \<le> 20000" by (rule payload_of_small [OF assms(2)])
  have u: "u32 (14 + int (length (payload_of m (key q)))) = 14 + length (payload_of m (key q))"
    using l by (simp add: nat_add_distrib)
  consider (s) "command q = Command_Search" | (i) "command q = Command_Insert" | (d) "command q = Command_Delete"
    using assms(1) by (auto simp: servable_def)
  note cases = this
  show "map_reply stack m q v =
      bytes (make_response_header stack (command q) (status_code (map_response m q v)) (14 + length (response_payload (map_response m q v)))) 0 14
        @ response_payload (map_response m q v)"
    by (cases rule: cases) (simp_all add: map_reply_def map_response_def u)
  show "status_code (map_response m q v) < 256" "14 + length (response_payload (map_response m q v)) < 4294967296"
    by (cases rule: cases; use l in \<open>simp add: map_response_def\<close>)+
qed

text \<open>What the prompt makes of a response.\<close>

definition response_text :: "Response \<Rightarrow> string" where
  "response_text r = ''Status Code: '' @ digits (status_code r) @ newline @
    (if status_code r = 1 then show_fields (the (ParseResponsePayload (response_payload r))) else ''Query failed!'' @ newline)"

lemma response_text_answer:
  assumes "servable q" "wire_map m"
  shows "response_text (map_response m q v) = answer_text m q v"
    "status_code (map_response m q v) = 1 \<Longrightarrow> ParseResponsePayload (response_payload (map_response m q v)) \<noteq> None"
proof -
  have kb: "ParseResponsePayload (key_bytes k) = Some [digits (unat k), []]" for k
    using ParseResponsePayload_wire [of "key_bytes k"] load_key_bytes [of k "[]"] by (simp add: payload_key_def)
  have d: "digits (Suc 0) = ''1''" "digits 4 = ''4''" by code_simp+
  consider (n) "m (key q) = None" | (e) data where "m (key q) = Some data" "8 \<le> length data" "length data \<le> 20000" "payload_key data = key q"
    using assms(2) by (cases "m (key q)") (auto simp: wire_map_def)
  note val = this
  consider (s) "command q = Command_Search" | (i) "command q = Command_Insert" | (d) "command q = Command_Delete"
    using assms(1) by (auto simp: servable_def)
  note com = this
  have "response_text (map_response m q v) = answer_text m q v \<and>
    (status_code (map_response m q v) = 1 \<longrightarrow> ParseResponsePayload (response_payload (map_response m q v)) \<noteq> None)"
  proof (cases rule: com)
    case s
    show ?thesis
    proof (cases rule: val)
      case e
      then have "data \<noteq> []" by auto
      then show ?thesis using s e ParseResponsePayload_wire [OF e(2,3)]
        by (simp add: map_response_def response_text_def answer_text_def payload_of_def d)
    qed (use s in \<open>simp add: map_response_def response_text_def answer_text_def payload_of_def d\<close>)
  qed (simp_all add: map_response_def response_text_def answer_text_def kb d)
  then show "response_text (map_response m q v) = answer_text m q v"
    "status_code (map_response m q v) = 1 \<Longrightarrow> ParseResponsePayload (response_payload (map_response m q v)) \<noteq> None" by blast+
qed

section \<open>A user at the prompt\<close>

text \<open>
  \<open>typed\<close> are the lines to come, after which the user interrupts the program; \<open>screen\<close> is what
  was printed. The network leaves the terminal alone and the other way round.
\<close>

locale console = reliable_socket net sent arrived up pending patience
  for net :: "'s net" and sent arrived up pending patience +
  fixes tty :: "'s terminal" and typed :: "'s \<Rightarrow> string list" and screen :: "'s \<Rightarrow> string"
  assumes getline_law: "up s \<Longrightarrow> getline tty s = (r, s') \<Longrightarrow> sent s' = sent s \<and> screen s' = screen s \<and>
      (case r of None \<Rightarrow> typed s = [] \<and> \<not> net_running net s'
       | Some l \<Rightarrow> up s' \<and> typed s = l # typed s' \<and> pending s' = pending s)"
    and print_law: "screen (print tty s t) = screen s @ t \<and> sent (print tty s t) = sent s"
    and print_up: "up s \<Longrightarrow> up (print tty s t) \<and> typed (print tty s t) = typed s \<and> pending (print tty s t) = pending s"
    and tty_write: "net_write net s b = (w, s') \<Longrightarrow> typed s' = typed s \<and> screen s' = screen s"
    and tty_read: "net_read net s k = (q, s') \<Longrightarrow> typed s' = typed s \<and> screen s' = screen s"

sublocale console \<subseteq> talk: reliable_socket net sent arrived "\<lambda>s. up s \<and> typed s = ls \<and> screen s = scr" pending patience for ls scr
proof unfold_locales
  fix s buffer r s' n q
  let ?at = "\<lambda>s. up s \<and> typed s = ls \<and> screen s = scr"
  show "?at s \<Longrightarrow> net_running net s" using running_law by blast
  show "?at s \<Longrightarrow> buffer \<noteq> [] \<Longrightarrow> net_write net s buffer = (r, s') \<Longrightarrow>
      ?at s' \<and> pending s' = pending s \<and> patience s' \<le> patience s \<and>
      (case r of Inl e \<Rightarrow> e = EINTR \<and> patience s' < patience s | Inr k \<Rightarrow> 0 < k)"
    using write_progress [of s buffer r s'] tty_write [of s buffer r s'] by simp
  show "?at s \<Longrightarrow> 0 < n \<Longrightarrow> net_read net s n = (q, s') \<Longrightarrow>
      ?at s' \<and> patience s' \<le> patience s \<and>
      (case q of Inl e \<Rightarrow> e = EINTR \<and> patience s' < patience s \<and> pending s' = pending s
       | Inr piece \<Rightarrow> pending s = piece @ pending s' \<and> (piece = [] \<longrightarrow> pending s = []))"
    using read_progress [of s n q s'] tty_read [of s n q s'] by simp
qed

context console begin

text \<open>One round of the loop on a valid query.\<close>

lemma UseCLI_round:
  assumes up: "up s" and line: "typed s = l # ls" "ParseQuery junk l = q" "valid q"
    and q: "servable q" "wire_map m" and reply: "pending s = map_reply st m q v @ rest"
  obtains s' where "UseCLI net tty stack junk s = UseCLI net tty stack junk s'" "up s'" "typed s' = ls" "pending s' = rest"
    "sent s' = sent s @ client_send stack q" "screen s' = screen s @ ''datashil> '' @ answer_text m q v"
proof -
  let ?r = "map_response m q v" and ?s0 = "print tty s ''datashil> ''"
  have s0: "up ?s0" "typed ?s0 = l # ls" "pending ?s0 = pending s" "sent ?s0 = sent s" "screen ?s0 = screen s @ ''datashil> ''"
    using print_up [OF up] print_law line(1) by simp_all
  obtain lo s1 where g: "getline tty ?s0 = (lo, s1)" by fastforce
  then have s1: "lo = Some l" "up s1" "typed s1 = ls" "pending s1 = pending s" "sent s1 = sent s" "screen s1 = screen s @ ''datashil> ''"
    using getline_law [OF s0(1) g] s0 by (auto split: option.splits)
  note mr = map_reply_response [OF q, where v = v]
  from talk.SendCommand_total [of s1 ls "screen s1" "response_payload ?r" "status_code ?r" st q rest stack] obtain s2 where
    s2: "SendCommandAndFetchReply net stack q s1 = Some (Inr ?r, s2)" "up s2" "typed s2 = ls" "screen s2 = screen s1"
      "pending s2 = rest" "sent s2 = sent s @ client_send stack q"
    using s1 reply mr by auto
  define s3 where "s3 = print tty s2 (''Status Code: '' @ digits (status_code ?r) @ newline)"
  define s4 where "s4 = print tty s3 (if status_code ?r = 1 then show_fields (the (ParseResponsePayload (response_payload ?r))) else ''Query failed!'' @ newline)"
  have s3: "up s3" "typed s3 = ls" "pending s3 = rest" using print_up [OF s2(2)] s2 by (simp_all add: s3_def)
  have "up s4" "typed s4 = ls" "pending s4 = rest" using print_up [OF s3(1)] s3 by (simp_all add: s4_def)
  moreover have "sent s4 = sent s @ client_send stack q" using s2(6) print_law by (simp add: s4_def s3_def)
  moreover have "screen s4 = screen s @ ''datashil> '' @ answer_text m q v"
    using s1(6) s2(4) print_law response_text_answer(1) [OF q, of v] by (simp add: s4_def s3_def response_text_def)
  moreover have "UseCLI net tty stack junk s = UseCLI net tty stack junk s4"
    using running_law [OF up] g s1(1) line(2,3) s2(1) response_text_answer(2) [OF q, of v]
    by (subst UseCLI.simps) (auto simp: Let_def s4_def s3_def)
  ultimately show thesis using that by blast
qed

lemma UseCLI_total:
  "up s \<Longrightarrow> typed s = ls \<Longrightarrow> map (ParseQuery junk) ls = qs \<Longrightarrow> \<forall>q \<in> set qs. valid q \<and> servable q \<Longrightarrow> wire_map m \<Longrightarrow>
    verdicts_ok m qs vs \<Longrightarrow> pending s = replies_with st m qs vs \<Longrightarrow>
    \<exists>s'. UseCLI net tty stack junk s = Some s' \<and> sent s' = sent s @ send_all stack qs \<and> screen s' = screen s @ conversation m qs vs"
proof (induction qs arbitrary: s ls m vs)
  case Nil
  let ?s0 = "print tty s ''datashil> ''"
  have s0: "up ?s0" "typed ?s0 = []" using print_up [OF Nil.prems(1)] Nil.prems(2,3) by simp_all
  obtain lo s1 where g: "getline tty ?s0 = (lo, s1)" by fastforce
  then have s1: "lo = None" "\<not> net_running net s1" "sent s1 = sent s" "screen s1 = screen s @ ''datashil> ''"
    using getline_law [OF s0(1) g] s0(2) print_law by (auto split: option.splits)
  then show ?case using running_law [OF Nil.prems(1)] g print_law
    by (subst UseCLI.simps) (simp add: Let_def send_all_def)
next
  case (Cons q qs)
  then obtain l ls' where l: "ls = l # ls'" "ParseQuery junk l = q" "map (ParseQuery junk) ls' = qs" by auto
  obtain v vs' where v: "vs = v # vs'" "verdicts_ok (map_query m q) qs vs'" using Cons.prems(6) by (cases vs) auto
  have q: "valid q" "servable q" using Cons.prems(4) by simp_all
  have "pending s = map_reply st m q v @ replies_with st (map_query m q) qs vs'" using Cons.prems(7) v(1) by simp
  from UseCLI_round [OF Cons.prems(1) Cons.prems(2) [unfolded l(1)] l(2) q Cons.prems(5) this] obtain s1 where
    s1: "UseCLI net tty stack junk s = UseCLI net tty stack junk s1" "up s1" "typed s1 = ls'"
      "pending s1 = replies_with st (map_query m q) qs vs'" "sent s1 = sent s @ client_send stack q"
      "screen s1 = screen s @ ''datashil> '' @ answer_text m q v" by blast
  have "\<forall>q \<in> set qs. valid q \<and> servable q" "wire_map (map_query m q)" using Cons.prems(4,5) wire_map_query by simp_all
  from Cons.IH [OF s1(2,3) l(3) this v(2) s1(4)] show ?case using s1(1,5,6) v(1) by auto
qed

end

section \<open>A terminal in memory\<close>

text \<open>A connection in memory beside the lines still to be typed and the screen.\<close>

type_synonym desk = "wire \<times> string list \<times> string"

definition desk_net :: "desk net" where
  "desk_net = \<lparr>
     net_read = (\<lambda>(w, t) n. case wire_read w n of (r, w) \<Rightarrow> (r, (w, t))),
     net_write = (\<lambda>(w, t) b. case wire_write w b of (r, w) \<Rightarrow> (r, (w, t))),
     net_running = (\<lambda>(w, t). wire_running w)\<rparr>"

definition desk_tty :: "desk terminal" where
  "desk_tty = \<lparr>
     getline = (\<lambda>(w, ls, scr). case ls of [] \<Rightarrow> (None, (w\<lparr>wire_running := False\<rparr>, [], scr)) | l # ls \<Rightarrow> (Some l, (w, ls, scr))),
     skip_line = id,
     print = (\<lambda>(w, ls, scr) t. (w, ls, scr @ t)),
     err_what = (\<lambda>_. ''failed'')\<rparr>"

definition desk_of :: "byte list \<Rightarrow> nat list \<Rightarrow> string list \<Rightarrow> desk" where
  "desk_of bs plan ls = (wire_of bs plan, ls, [])"

interpretation desk: console desk_net "\<lambda>(w, t). wire_sent w" "\<lambda>(w, t). wire_arrived w" "\<lambda>(w, t). wire_running w"
  "\<lambda>(w, t). wire_pending w" "\<lambda>(w, t). length (wire_plan w)" desk_tty "\<lambda>(w, ls, scr). ls" "\<lambda>(w, ls, scr). scr"
  by unfold_locales
    (auto simp: desk_net_def desk_tty_def wire_read_def wire_write_def Let_def split: if_splits list.splits)

end
