(* ===== verification/Server_Stuck.thy ===== *)
theory Server_Stuck
  imports Server_Session
begin

text \<open>
  A request the server cannot get rid of. \<open>HandleSearch\<close> and \<open>HandleDelete\<close> do not look at the length in
  the header. A search with the length 0 erases nothing from the buffer, so the event loop finds
  the same request again: on a connection whose writes go through it answers it without end.
\<close>

definition stuck_query :: "Key \<Rightarrow> Query" where
  "stuck_query k = \<lparr>valid = True, command = Command_Search, key = k, payload = []\<rparr>"

text \<open>One round: the request is answered and is still there.\<close>

context server_peer begin

lemma stuck_dispatch:
  assumes tm: "db_map n m bt" and up: "up s"
  shows "\<exists>n' bt' s'. Server_dispatch os net stack junk (stuck_request cs k) bt s = Some (Inr (stuck_request cs k), bt', s') \<and>
    db_map n' m bt' \<and> up s' \<and> sent s' = sent s @ map_reply stack m (stuck_query k) False"
proof -
  let ?b = "stuck_request cs k" and ?q = "stuck_query k"
  note f = stuck_fields [of cs k]
  have e: "erase_request ?b (Inr ()) = Inr ?b" by (simp add: erase_request_def f(3))
  have l: "\<not> length ?b < 21" and q: "command ?q = Command_Search" "header_key ?b = key ?q"
    by (simp_all add: f(1,6) stuck_query_def)
  from search_up [OF tm up l, of stack] obtain bt' s' where
    h: "Server_HandleSearch os net stack ?b bt s = Some (Inr ?b, bt', s')" "still_up s s'" unfolding e by blast
  from search_served [OF tm q h(1)] obtain w where
    w: "Inr ?b = erase_request ?b w" "served stack n m ?q s (w = Inr ()) bt' s'" by blast
  have "w = Inr ()" using w(1) by (auto simp: erase_request_def split: sum.splits)
  then obtain n' verdict where "sends s (map_reply stack m ?q verdict) True s'" "db_map n' (map_query m ?q) bt'"
    using w(2) unfolding served_def by auto
  then have "sent s' = sent s @ map_reply stack m ?q False" "db_map n' m bt'"
    by (auto simp: sends_def wrote_def map_reply_def map_query_def stuck_query_def)
  moreover have "Server_dispatch os net stack junk ?b bt s = Some (Inr ?b, bt', s')"
    using h(1) f(4) by (simp add: Server_dispatch_def)
  ultimately show ?thesis using h(2) by (auto simp: still_up_def)
qed

lemma stuck_rounds:
  assumes tm: "db_map n m bt" and up: "up s"
  shows "\<exists>bts ss. bts 0 = bt \<and> ss 0 = s \<and>
    (\<forall>i. Server_dispatch os net stack junk (stuck_request cs k) (bts i) (ss i) =
        Some (Inr (stuck_request cs k), bts (Suc i), ss (Suc i)) \<and>
      sent (ss (Suc i)) = sent (ss i) @ map_reply stack m (stuck_query k) False)"
proof -
  define P where "P i z \<longleftrightarrow> (\<exists>n. db_map n m (fst z)) \<and> up (snd z) \<and> (i = 0 \<longrightarrow> z = (bt, s))" for i :: nat and z
  define Q where "Q z z' \<longleftrightarrow>
    Server_dispatch os net stack junk (stuck_request cs k) (fst z) (snd z) = Some (Inr (stuck_request cs k), fst z', snd z') \<and>
    sent (snd z') = sent (snd z) @ map_reply stack m (stuck_query k) False" for z z'
  have "\<exists>f. \<forall>i. P i (f i) \<and> Q (f i) (f (Suc i))"
  proof (rule dependent_nat_choice)
    show "\<exists>z. P 0 z" using tm up by (auto simp: P_def)
    fix z i assume "P i z"
    then obtain n1 where "db_map n1 m (fst z)" "up (snd z)" by (auto simp: P_def)
    from stuck_dispatch [OF this, of stack junk cs k] show "\<exists>z'. P (Suc i) z' \<and> Q z z'"
      unfolding P_def Q_def by fastforce
  qed
  then obtain f where f: "\<forall>i. P i (f i) \<and> Q (f i) (f (Suc i))" by blast
  then have "f 0 = (bt, s)" by (simp add: P_def)
  then show ?thesis
    using f by (intro exI [of _ "\<lambda>i. fst (f i)"] exI [of _ "\<lambda>i. snd (f i)"]) (simp add: Q_def)
qed

text \<open>So the loop does not end.\<close>

lemma stuck_buffer:
  assumes "db_map n m bt" "up s"
  shows "serve_buffer os net stack junk (stuck_request cs k) bt s = None"
proof -
  have "os' = os \<longrightarrow> net' = net \<longrightarrow> buf = stuck_request cs k \<longrightarrow> (\<forall>n. db_map n m bt \<longrightarrow> \<not> up s)"
    if "serve_buffer os' net' stack junk buf bt s = Some y" for os' net' buf bt s y
    using that
  proof (rule serve_buffer.raw_induct [rotated], goal_cases)
    case (1 f os' net' stack junk buf bt s y)
    show ?case
    proof (intro impI allI notI)
      fix n assume eq: "os' = os" "net' = net" "buf = stuck_request cs k" and "db_map n m bt" "up s"
      from stuck_dispatch [OF this(4,5), of stack junk cs k] obtain n' bt' s' where
        d: "Server_dispatch os net stack junk (stuck_request cs k) bt s = Some (Inr (stuck_request cs k), bt', s')"
          "db_map n' m bt'" "up s'" by blast
      have "f os net stack junk (stuck_request cs k) bt' s' = Some y"
        using 1(2) d(1) stuck_fields [of cs k] unfolding eq by simp
      from 1(1) [OF this] d(2,3) show False by simp
    qed
  qed
  from this [of os net "stuck_request cs k" bt s] show ?thesis
    using assms by (cases "serve_buffer os net stack junk (stuck_request cs k) bt s") blast+
qed

lemma read_up: "up s \<Longrightarrow> net_read net s 1024 = (r, s1) \<Longrightarrow> up s1"
  using read_progress [of s 1024 r s1] by simp

lemma stuck_session:
  assumes tm: "db_map n m bt" and up: "up s" and r: "net_read net s 1024 = (Inr (stuck_request cs k), s1)"
  shows "Server_HandleClient os net stack junk bt s = None"
proof -
  have "up s1" by (rule read_up [OF up r])
  moreover have "stuck_request cs k \<noteq> []" using stuck_fields(1) [of cs k] by auto
  ultimately show ?thesis
    using running_law [OF up] r stuck_buffer [OF tm]
    by (simp add: Server_HandleClient_def session_loop.simps [of os net stack junk "[]" bt s])
qed

end

end
