(* ===== verification/Service_Properties.thy ===== *)
theory Service_Properties
  imports Command_Line Server_Stuck Tree_Properties
begin

text \<open>
  The properties of the processes: the server on its sockets and its database, the client at its
  prompt, and what they mean to each other. Each has an instance on connections in memory.
\<close>

section \<open>Sample requests\<close>

definition insert_query :: Query where
  "insert_query = \<lparr>valid = True, command = Command_Insert, key = 5, payload = [''AB'']\<rparr>"

definition search_query :: Query where
  "search_query = \<lparr>valid = True, command = Command_Search, key = 5, payload = []\<rparr>"

lemma sample_queries: "queries_ok junk Map.empty [insert_query, search_query]" "room_for 3 [insert_query, search_query]"
  "queries_ok junk Map.empty [insert_query]" "room_for 3 [insert_query]"
  by (simp_all add: insert_query_def search_query_def servable_def room_for_def query_pages_def request_data_def
      payload_bytes_def map_query_def)

lemma sample_typed: "map (ParseQuery 0) [''insert 5 \"AB\";'', ''search 5;''] = [insert_query, search_query]"
  by (simp add: insert_query_def search_query_def ParseQuery_def Query_new_def isalpha_def isdigit_def code_def tolower_def
      command_of_word_def stoull_def decimal_def)

lemma sample_conversation:
  "conversation Map.empty [insert_query, search_query] [v, w] =
    ''datashil> Status Code: 1'' @ newline @ show_fields [''5'', []] @
    ''datashil> Status Code: 1'' @ newline @ show_fields [''5'', ''AB''] @
    ''datashil> [Client] Connection interrupted, closing client.'' @ newline"
proof -
  have "digits 5 = ''5''" by code_simp
  moreover have "byte_char (char_byte c) = c" for c by (simp add: byte_char_def char_byte_def code_def unat_of_nat)
  ultimately show ?thesis
    by (simp add: answer_text_def insert_query_def search_query_def map_query_def payload_of_def request_data_def
        payload_bytes_def)
qed

section \<open>The server\<close>

text \<open>
  C3. The server process. Started with a path at which a file that is no database can be opened or
  created, whatever else is on the command line, the process serves one client after the other
  until a signal ends it: all requests of all clients act in turn on one map, each reply is what
  this map answers at that point, the process exits with 0, and the file it leaves opens again
  with the final map. The file works without faults, the calls on the sockets make progress, and
  the requests are as in the property on connections: deletions only when the uninitialised size
  they add to (\<open>junk\<close>) is 0. A path the start cannot open, as one without a directory, is
  excluded by the hypothesis on \<open>open_database\<close>.
\<close>

theorem server_process:
  assumes "server_host os file_byte file_size net sent arrived up pending patience listener waiting"
    and "2 \<le> length argv" and "open_database fs s0 (argv ! 1) = (Inr (Some fd), s)" and "\<not> IsDatabaseFile os stack fd"
    and "queries_ok junk Map.empty (concat qss)" and "room_for 3 (concat qss)" and "up s" and "waiting s = map (send_all cs) qss"
  shows "\<exists>fd' s' replies. Server_main os net listener fs stack junk memory argv s0 = Some (ExitCode 0 (Some fd'), s') \<and>
    map_replies stack Map.empty (concat qss) replies \<and> sent s' = sent s @ replies \<and>
    (\<forall>memory'. \<exists>bt n. Server_Bootstrap os stack memory' (Some fd') = Inr bt \<and>
      tree_map file_byte file_size n (foldl map_query Map.empty (concat qss)) bt)"
  by (rule server_host.main_total [where fs = fs and argv = argv and waiting = waiting, OF assms])

text \<open>Two clients, on a database that is created in a directory.\<close>

theorem server_process_witness:
  "\<exists>fd' s' bt n. Server_main file_os wire_net wire_listener wire_disk (\<lambda>_. 0) 12345 (\<lambda>_ _. 0) [''datashil'', ''data/db'', ''5000'']
      ((wire_of [] [4, 0, 9])\<lparr>wire_waiting := [send_all (\<lambda>_. 0) [insert_query], send_all (\<lambda>_. 0) [search_query]]\<rparr>) = Some (ExitCode 0 (Some fd'), s') \<and>
    Server_Bootstrap file_os (\<lambda>_. 0) (\<lambda>_ _. 0) (Some fd') = Inr bt \<and> tree_map fst snd n [5 \<mapsto> request_data insert_query] bt"
proof -
  let ?s = "(wire_of [] [4, 0, 9])\<lparr>wire_waiting := [send_all (\<lambda>_. 0) [insert_query], send_all (\<lambda>_. 0) [search_query]]\<rparr>"
  let ?qss = "[[insert_query], [search_query]]" and ?argv = "[''datashil'', ''data/db'', ''5000'']"
  have q: "queries_ok 12345 Map.empty (concat ?qss)" "room_for 3 (concat ?qss)"
    using sample_queries(1) [of 12345] sample_queries(2) by (simp_all del: queries_ok.simps)
  have a: "2 \<le> length ?argv" "open_database wire_disk ?s (?argv ! 1) = (Inr (Some (\<lambda>_. 0, 0)), ?s)"
    using wire_disk_open(1) by simp_all
  have s: "wire_running ?s" "wire_waiting ?s = map (send_all (\<lambda>_. 0)) ?qss" by (simp_all add: wire_of_def)
  have m: "foldl map_query Map.empty (concat ?qss) = [5 \<mapsto> request_data insert_query]"
    by (simp add: map_query_def insert_query_def search_query_def)
  from server_process [OF mem_host.server_host_axioms a new_file q s, where memory = "\<lambda>_ _. 0"] show ?thesis
    unfolding m by blast
qed

text \<open>
  C4. A connection that fails. Whatever the network does (short transfers, interrupted calls, errors
  of any call at any point, a shutdown by a signal), when the server is done with a connection it
  has performed a part of the client's requests from the first on and only ones that arrived, the
  database holds exactly the map these requests mean, and what was sent is a part of the replies
  from the start. Unless a write failed, every request that arrived in full is performed and
  answered. The file works without faults; the requests are searches, insertions under new keys
  with room for them, and deletions when the uninitialised size they add to (\<open>junk\<close>) is 0.
\<close>

theorem connection_failure:
  assumes "server_world os file_byte file_size net sent arrived"
    and "Server_HandleClient os net stack junk bt s = Some (e, bt', s')" and "tree_map file_byte file_size n m bt"
    and "queries_ok junk m qs" and "room_for n qs" and "arrived s' = arrived s @ inp" and "prefix inp (send_all cs qs)"
  shows "\<exists>did n' replies out. prefix did qs \<and> prefix (send_all cs did) inp \<and>
    tree_map file_byte file_size n' (foldl map_query m did) bt' \<and>
    map_replies stack m did replies \<and> sent s' = sent s @ out \<and> prefix out replies \<and>
    ((\<exists>x. e = Failed (NetError x)) \<or>
     (e = Stopped \<or> e = PeerClosed \<or> (\<exists>x. e = ReadFailed x)) \<and> out = replies \<and>
       (\<exists>part. inp = send_all cs did @ part \<and> unfinished cs part (drop (length did) qs)))"
  by (rule server_world.session_safe_map [OF assms])

text \<open>The client sends two requests, of which only the first arrives before it goes away.\<close>

theorem connection_failure_witness:
  "\<exists>bt bt' s' did. Server_Bootstrap file_os (\<lambda>_. 0) (\<lambda>_ _. 0) (Some (\<lambda>_. 0, 0)) = Inr bt \<and>
    Server_HandleClient file_os wire_net (\<lambda>_. 0) 12345 bt (wire_of (send_all (\<lambda>_. 0) [insert_query]) [3, 0, 50]) = Some (PeerClosed, bt', s') \<and>
    prefix did [insert_query, search_query] \<and> (\<exists>n. tree_map fst snd n (foldl map_query Map.empty did) bt')"
proof -
  let ?s = "wire_of (send_all (\<lambda>_. 0) [insert_query]) [3, 0, 50]"
  obtain bt where b: "Server_Bootstrap file_os (\<lambda>_. 0) (\<lambda>_ _. 0) (Some (\<lambda>_. 0, 0)) = Inr bt"
    "tree_map fst snd 3 Map.empty bt" by (rule sample_database)
  have s: "wire_running ?s" "wire_pending ?s = send_all (\<lambda>_. 0) [insert_query]" "wire_arrived ?s = []" by (simp_all add: wire_of_def)
  from mem_server.session_up [OF b(2) sample_queries(3,4) unfinished_Nil s(1), of "\<lambda>_. 0" "\<lambda>_. 0" 12345] s(2,3) obtain bt' s' where
    r: "Server_HandleClient file_os wire_net (\<lambda>_. 0) 12345 bt ?s = Some (PeerClosed, bt', s')"
      "wire_arrived s' = wire_arrived ?s @ send_all (\<lambda>_. 0) [insert_query]"
    by (auto simp: Server_HandleClient_def)
  have p: "prefix (send_all (\<lambda>_. 0) [insert_query]) (send_all (\<lambda>_. 0) [insert_query, search_query])" by simp
  from connection_failure [OF mem_server.server_world_axioms r(1) b(2) sample_queries(1,2) r(2) p] show ?thesis
    using b(1) r(1) by blast
qed

section \<open>The sockets\<close>

text \<open>
  C29. Exact transfer. Whatever the network does, \<open>WriteExactlyNBytes\<close> sends a part of its buffer
  from the start, once and in order, and all of it if it returns without an exception;
  \<open>ReadExactlyNBytes\<close> returns exactly the next bytes that arrive, as many as asked for, and takes
  no more than these from the connection even when it fails.
\<close>

theorem exact_transfer:
  assumes "stream_socket net sent arrived"
  shows "(Server_WriteExactlyNBytes net buffer s = Some (w, s1) \<longrightarrow> arrived s1 = arrived s \<and>
      (\<exists>out. sent s1 = sent s @ out \<and> prefix out buffer \<and> (w = Inr () \<longrightarrow> out = buffer))) \<and>
    (Client_ReadExactlyNBytes net n t = Some (r, t1) \<longrightarrow> sent t1 = sent t \<and>
      (\<exists>got. arrived t1 = arrived t @ got \<and> length got \<le> n \<and> (\<forall>out. r = Inr out \<longrightarrow> out = got \<and> length got = n)))"
  using stream_socket.write_loop_sends [OF assms, of buffer 0 s w s1] stream_socket.read_loop_reads [OF assms, of n "[]" t r t1]
  by (simp add: exact_io_defs stream_socket.sends_wrote [OF assms])

theorem exact_transfer_witness:
  "\<exists>s1 t1. Server_WriteExactlyNBytes wire_net [1, 2, 3] (wire_of [] [1, 0]) = Some (Inr (), s1) \<and> wire_sent s1 = [1, 2, 3] \<and>
    Client_ReadExactlyNBytes wire_net 2 (wire_of [7, 8, 9] [0, 1]) = Some (Inr [7, 8], t1) \<and> wire_arrived t1 = [7, 8]"
proof -
  let ?s = "wire_of [] [1, 0]" and ?t = "wire_of [7, 8, 9] [0, 1]"
  obtain s1 where s1: "Server_WriteExactlyNBytes wire_net [1, 2, 3] ?s = Some (Inr (), s1)"
    using wire.write_loop_total [of ?s "[1, 2, 3]" 0] by (auto simp: exact_io_defs wire_of_def)
  obtain t1 where t1: "Client_ReadExactlyNBytes wire_net 2 ?t = Some (Inr [7, 8], t1)"
    using wire.read_loop_total [of ?t 2 "[]"] by (auto simp: exact_io_defs wire_of_def)
  show ?thesis
    using exact_transfer [OF wire.stream_socket_axioms, of "[1, 2, 3]" ?s "Inr ()" s1 2 ?t "Inr [7, 8]" t1] s1 t1 by (auto simp: wire_of_def)
qed

text \<open>
  C30. Replies belong to requests. Whatever the network does, a response the client's call returns
  is what it makes of exactly the bytes it took from the connection, after it sent the whole
  request; when it throws instead, what was sent is a part of the request from the start.
\<close>

theorem client_call:
  assumes "stream_socket net sent arrived" and "SendCommandAndFetchReply net stack q s = Some (r, s')"
  shows "(\<exists>out. sent s' = sent s @ out \<and> prefix out (client_send stack q)) \<and>
    (\<forall>resp. r = Inr resp \<longrightarrow> sent s' = sent s @ client_send stack q \<and>
      (\<exists>got. arrived s' = arrived s @ got \<and> client_receive (command q) got = Some resp))"
  using stream_socket.SendCommand_safe [OF assms] by (auto simp: stream_socket.wrote_sent [OF assms(1)])

theorem client_call_witness:
  "\<exists>s'. SendCommandAndFetchReply wire_net (\<lambda>_. 0) search_query
      (wire_of (bytes (make_response_header (\<lambda>_. 0) Command_Search 1 15) 0 14 @ [65, 66]) [0, 3, 3]) =
    Some (Inr \<lparr>status_code = 1, response_payload = [65]\<rparr>, s') \<and> wire_sent s' = client_send (\<lambda>_. 0) search_query"
proof -
  let ?s = "wire_of (bytes (make_response_header (\<lambda>_. 0) Command_Search 1 15) 0 14 @ [65, 66]) [0, 3, 3]"
  obtain s' where r: "SendCommandAndFetchReply wire_net (\<lambda>_. 0) search_query ?s = Some (Inr \<lparr>status_code = 1, response_payload = [65]\<rparr>, s')"
    using wire.SendCommand_total [of ?s "[65]" 1 "\<lambda>_. 0" search_query "[66]" "\<lambda>_. 0"] by (auto simp: wire_of_def search_query_def)
  show ?thesis using client_call [OF wire.stream_socket_axioms r] r by (auto simp: wire_of_def)
qed

section \<open>How the processes can fail\<close>

text \<open>
  C39. An unknown command ends the server. A client that connects and sends a header with the command
  \<open>Invalid\<close> and a correct checksum makes \<open>HandleClient\<close> throw an exception that neither
  \<open>RunServer\<close> nor \<open>main\<close> catches: the process terminates, and the file is left as it is, without
  the changes that are only in the buffer pool.
\<close>

theorem unknown_command:
  assumes "2 \<le> length argv" and "open_database fs s0 (argv ! 1) = (Inr fd, s)" and "Server_Bootstrap os stack memory fd = Inr bt"
    and "net_socket listener s = (Inr (), s1)" and "net_bind listener s1 (u16 (server_port argv)) = (Inr (), s2)"
    and "net_running net s2" and "net_accept listener s2 = (Inr (), s3)" and "net_running net s3"
    and "net_read net s3 1024 = (Inr (bad_request cs), s4)"
  shows "Server_main os net listener fs stack junk memory argv s0 =
    Some (Terminated InvalidCommandType (Some (fd_database (storage_manager (bt_pool bt)))), s4)"
proof -
  have "accept_loop os net listener stack junk bt s2 = Some (Inl InvalidCommandType, bt, s4)"
    by (rule bad_request_aborts [OF assms(6-9)])
  then show ?thesis using assms(1-5) by (simp add: Server_main_def Server_RunServer_def Let_def)
qed

theorem unknown_command_witness:
  "\<exists>fd s'. Server_main file_os wire_net wire_listener wire_disk (\<lambda>_. 0) 12345 (\<lambda>_ _. 0) [''datashil'', ''data/db'']
      ((wire_of [] [])\<lparr>wire_waiting := [bad_request (\<lambda>_. 0)]\<rparr>) = Some (Terminated InvalidCommandType (Some fd), s')"
proof -
  let ?b = "bad_request (\<lambda>_. 0)" and ?argv = "[''datashil'', ''data/db'']"
  let ?s = "(wire_of [] [])\<lparr>wire_waiting := [?b]\<rparr>" and ?s3 = "wire_of ?b []"
  let ?s4 = "?s3\<lparr>wire_pending := [], wire_arrived := ?b\<rparr>"
  obtain bt where b: "Server_Bootstrap file_os (\<lambda>_. 0) (\<lambda>_ _. 0) (Some (\<lambda>_. 0, 0)) = Inr bt"
    using sample_database by auto
  have a: "2 \<le> length ?argv" "open_database wire_disk ?s (?argv ! 1) = (Inr (Some (\<lambda>_. 0, 0)), ?s)"
    using wire_disk_open(1) by simp_all
  have l: "length ?b = 13" by (simp add: bad_request_def)
  have "Server_main file_os wire_net wire_listener wire_disk (\<lambda>_. 0) 12345 (\<lambda>_ _. 0) ?argv ?s =
    Some (Terminated InvalidCommandType (Some (fd_database (storage_manager (bt_pool bt)))), ?s4)"
    by (rule unknown_command [OF a b, of wire_listener ?s ?s wire_net ?s3 "\<lambda>_. 0" ?s4 12345])
      (simp_all add: wire_listener_def wire_net_def wire_accept_def wire_of_def wire_read_def l)
  then show ?thesis by blast
qed

text \<open>
  C37. A stuck connection. \<open>HandleSearch\<close> does not check the length in the header, and a search with
  the length 0 and a correct checksum is never taken out of the buffer. When the first read of a
  connection gives such a request, and as long as the writes to the client go through, the event
  loop answers it again and again: \<open>HandleClient\<close> never returns, no other client is served, and
  there is an endless run of rounds, each of which starts with the request in the buffer, sends
  the reply and leaves the request there.
\<close>

theorem server_stuck:
  assumes "server_peer os file_byte file_size net sent arrived up pending patience"
    and "tree_map file_byte file_size n m bt" and "up s0" and "net_read net s0 1024 = (Inr (stuck_request cs k), s)"
  shows "Server_HandleClient os net stack junk bt s0 = None \<and>
    (\<exists>bts ss. bts 0 = bt \<and> ss 0 = s \<and>
      (\<forall>i. Server_dispatch os net stack junk (stuck_request cs k) (bts i) (ss i) =
          Some (Inr (stuck_request cs k), bts (Suc i), ss (Suc i)) \<and>
        sent (ss (Suc i)) = sent (ss i) @ map_reply stack m (stuck_query k) False))"
  using server_peer.stuck_session [OF assms] server_peer.stuck_rounds [OF assms(1,2) server_peer.read_up [OF assms(1,3,4)]] by blast

theorem server_stuck_witness:
  "\<exists>bt. Server_Bootstrap file_os (\<lambda>_. 0) (\<lambda>_ _. 0) (Some (\<lambda>_. 0, 0)) = Inr bt \<and>
    Server_HandleClient file_os wire_net (\<lambda>_. 0) 12345 bt (wire_of (stuck_request (\<lambda>_. 0) 5) []) = None"
proof -
  let ?b = "stuck_request (\<lambda>_. 0) 5"
  let ?s = "wire_of ?b []"
  obtain bt where b: "Server_Bootstrap file_os (\<lambda>_. 0) (\<lambda>_ _. 0) (Some (\<lambda>_. 0, 0)) = Inr bt"
    "tree_map fst snd 3 Map.empty bt" by (rule sample_database)
  have "length ?b = 21" by (rule stuck_fields)
  then have r: "net_read wire_net ?s 1024 = (Inr ?b, ?s\<lparr>wire_pending := [], wire_arrived := ?b\<rparr>)"
    by (simp add: wire_net_def wire_of_def wire_read_def)
  have "wire_running ?s" by (simp add: wire_of_def)
  from server_stuck [OF mem_server.server_peer_axioms b(2) this r] show ?thesis using b(1) by blast
qed

text \<open>
  C40. The end of the input. When every \<open>getline\<close> fails without a signal, as at the end of a file or
  a closed pipe, the prompt clears the error, tries again, and never returns.
\<close>

theorem prompt_at_end_of_input:
  assumes "\<forall>s. ended s \<longrightarrow> net_running net s \<and> ended (print tty s ''datashil> '') \<and> ended (skip_line tty s) \<and>
      (\<exists>s'. getline tty s = (None, s') \<and> ended s')"
    and "ended s"
  shows "UseCLI net tty stack junk s = None"
proof (rule UseCLI_spins [where ended = ended, OF _ assms(2)])
  fix s assume "ended s"
  then show "net_running net s \<and> fst (getline tty (print tty s ''datashil> '')) = None \<and>
      net_running net (snd (getline tty (print tty s ''datashil> ''))) \<and> ended (skip_line tty (snd (getline tty (print tty s ''datashil> ''))))"
    using assms(1) by (metis fst_conv snd_conv)
qed

theorem prompt_at_end_of_input_witness:
  "UseCLI desk_net (desk_tty\<lparr>getline := \<lambda>s. (None, s)\<rparr>) (\<lambda>_. 0) 0 (desk_of [] [] []) = None"
  by (rule prompt_at_end_of_input [where ended = "\<lambda>(w, t). wire_running w"])
    (auto simp: desk_net_def desk_tty_def desk_of_def wire_of_def)

text \<open>
  C38. Replies of less than a key. The payload of a reply is shown as the number in its first eight
  bytes and the text behind them. With fewer than eight bytes the length of the text wraps in
  \<open>size_t\<close> and the string constructor throws.
\<close>

theorem response_payload:
  assumes "length reply < 9223372036854775808"
  shows "ParseResponsePayload reply =
    (if length reply < 8 then None
     else Some [digits (unat (payload_key reply)), map byte_char (drop 8 reply)])"
proof (cases "length reply < 8")
  case True
  have "(int (length reply) - 8) mod 18446744073709551616 = (int (length reply) - 8 + 18446744073709551616) mod 18446744073709551616"
    by (rule mod_add_self2 [symmetric])
  also have "\<dots> = int (length reply) - 8 + 18446744073709551616" using True by (intro mod_pos_pos_trivial) simp_all
  finally show ?thesis using True by (simp add: ParseResponsePayload_def Let_def)
next
  case False
  then have "nat ((int (length reply) - 8) mod 18446744073709551616) = length reply - 8" using assms by (simp add: nat_diff_distrib)
  then show ?thesis using False assms by (simp add: ParseResponsePayload_def Let_def payload_key_def)
qed

theorem response_payload_witness:
  "ParseResponsePayload [1, 2, 3] = None \<and> ParseResponsePayload (key_bytes 77 @ [72, 105]) = Some [''77'', ''Hi'']"
proof -
  have d: "digits 77 = ''77''" "map byte_char [72, 105] = ''Hi''" by code_simp+
  have k: "payload_key (key_bytes 77 @ [72, 105]) = 77" by (simp add: payload_key_def load_key_bytes)
  show ?thesis
    using response_payload [of "[1, 2, 3]"] response_payload [of "key_bytes 77 @ [72, 105]"] d by (simp add: k)
qed

end
