(* ===== verification/Page_Dump.thy ===== *)
theory Page_Dump
  imports Leaf_Search Internal_Page Query_Parser
begin

text \<open>
  What the \<open>Dump\<close> functions print of a page (\<open>leaf_page.cpp\<close>, \<open>internal_page.cpp\<close>), as the text
  they send to the console. Proved: the dump of an inner page is its keys and children, that of a
  well-formed leaf its tuples in order, but with every key cut to its low 16 bits.
\<close>

section \<open>Leaf pages\<close>

text \<open>The header, the same lines in both functions.\<close>

definition dump_header :: "mem \<Rightarrow> string" where
  "dump_header p =
    ''Page Type: '' @ digits (page_type p) @ newline @
    ''Page ID: '' @ digits (unat (page_id p)) @ newline @
    ''Free Space End Offset: '' @ digits (free_space_end_offset p) @ newline @
    ''Slot Array Size: '' @ digits (slot_array_size p) @ newline @
    ''Left Sibling: '' @ digits (unat (left_pid p)) @ newline @
    ''Right Sibling: '' @ digits (unat (right_pid p)) @ newline @
    ''Garbage Bytes: '' @ digits (garbage_bytes p) @ newline"

definition rule_line :: string where
  "rule_line = ''========================================='' @ newline"

fun dump_slots :: "mem \<Rightarrow> nat \<Rightarrow> nat \<Rightarrow> string" where
  "dump_slots p i 0 = []"
| "dump_slots p i (Suc n) =
    (if is_deleted (slot_at p i) then ''D ''
     else digits (load_u16 p (offset (slot_at p i) + TUPLE_HEADER_SIZE)) @ '' '') @ dump_slots p (Suc i) n"

definition LeafPage_DumpPage :: "mem \<Rightarrow> string" where
  "LeafPage_DumpPage p =
    rule_line @ dump_header p @ rule_line @ dump_slots p 0 (slot_array_size p) @ newline @ rule_line"

text \<open>
  The two loops of \<open>DumpPageFirstLast\<close> stop at the first slot in use; only the second one prints
  the closing line, as the \<open>break\<close> of the first comes before it.
\<close>

definition dump_tuple :: "mem \<Rightarrow> nat \<Rightarrow> string" where
  "dump_tuple p i =
    (let a = offset (slot_at p i) in
     rule_line @
     ''Tuple Offset: '' @ digits a @ newline @
     ''Tuple Length: '' @ digits (len (slot_at p i)) @ newline @
     ''Tuple Overflow: '' @ digits (load_u8 p a) @ newline @
     ''Overflow Page: '' @ digits (unat (load_u64 p (a + 1))) @ newline @
     ''Key: '' @ digits (load_u16 p (a + TUPLE_HEADER_SIZE)) @ newline)"

fun dump_first :: "mem \<Rightarrow> nat \<Rightarrow> nat \<Rightarrow> string" where
  "dump_first p i 0 = []"
| "dump_first p i (Suc n) = (if is_deleted (slot_at p i) then dump_first p (Suc i) n else dump_tuple p i)"

fun dump_last :: "mem \<Rightarrow> nat \<Rightarrow> string" where
  "dump_last p 0 = []"
| "dump_last p (Suc i) = (if is_deleted (slot_at p i) then dump_last p i else dump_tuple p i @ rule_line)"

definition LeafPage_DumpPageFirstLast :: "mem \<Rightarrow> string" where
  "LeafPage_DumpPageFirstLast p =
    newline @ ''==================================== LEAF PAGE ========================================'' @ newline @
    ''=============== LEAF PAGE HEADER ==============='' @ newline @
    dump_header p @
    ''================= HEADER END ================='' @ newline @ newline @
    dump_first p 0 (slot_array_size p) @ dump_last p (slot_array_size p) @
    ''=============== LEAF PAGE END ==============='' @ newline"

section \<open>Internal pages\<close>

fun dump_elems :: "mem \<Rightarrow> nat \<Rightarrow> nat \<Rightarrow> nat \<Rightarrow> string" where
  "dump_elems p base i 0 = []"
| "dump_elems p base i (Suc n) = digits (unat (elem p base i)) @ '' '' @ dump_elems p base (Suc i) n"

definition InternalPage_DumpPage :: "mem \<Rightarrow> string" where
  "InternalPage_DumpPage p =
    ''===============  INTERNAL PAGE ==============='' @ newline @
    ''Page Type: '' @ digits (ip_type p) @ newline @
    ''Page ID: '' @ digits (unat (ip_id p)) @ newline @
    ''Num Keys: '' @ digits (num_keys p) @ newline @
    ''Keys: '' @ newline @
    dump_elems p INTERNAL_PAGE_HEADER_SIZE 0 (num_keys p) @ newline @
    ''Child Pointers: '' @ newline @
    dump_elems p (INTERNAL_PAGE_HEADER_SIZE + KEY_SIZE * NUM_KEY_SLOTS) 0 (num_keys p + 1) @
    newline @ ''=============== END ==============='' @ newline"

section \<open>What is shown\<close>

definition show_words :: "64 word list \<Rightarrow> string" where
  "show_words ws = concat (map (\<lambda>w. digits (unat w) @ '' '') ws)"

lemma dump_elems_words: "dump_elems p base i n = show_words (map (elem p base) [i..<i + n])"
proof (induction n arbitrary: i)
  case (Suc n)
  have "[i..<i + Suc n] = i # [Suc i..<Suc i + n]" by (simp add: upt_conv_Cons del: upt_Suc)
  then show ?case using Suc [of "Suc i"] by (simp add: show_words_def)
qed (simp add: show_words_def)

lemma InternalPage_DumpPage_views:
  "InternalPage_DumpPage p =
    ''===============  INTERNAL PAGE ==============='' @ newline @
    ''Page Type: '' @ digits (ip_type p) @ newline @ ''Page ID: '' @ digits (unat (ip_id p)) @ newline @
    ''Num Keys: '' @ digits (length (keys p)) @ newline @
    ''Keys: '' @ newline @ show_words (keys p) @ newline @
    ''Child Pointers: '' @ newline @ show_words (children p) @ newline @ ''=============== END ==============='' @ newline"
  by (simp add: InternalPage_DumpPage_def dump_elems_words keys_def children_def arr_def start_pointers del: upt_Suc)

text \<open>The keys of a leaf are read as \<open>uint16_t\<close>.\<close>

lemma load_u16_of_u64: "load_u16 p a = unat (load_u64 p a) mod 65536"
proof -
  have two: "load_le m b (2 + k) = load_u16 m b + 65536 * load_le m (b + 2) k" for m b k
    by (simp add: numeral_2_eq_2 load_le.simps)
  have "load_le p a 8 = load_u16 p a + 65536 * load_le p (a + 2) 6" using two [of p a 6] by simp
  then have "load_le p a 8 mod 65536 = load_u16 p a" by simp
  moreover have "unat (load_u64 p a) = load_le p a 8" by (simp add: unat_of_nat)
  ultimately show ?thesis by simp
qed

definition show_slot :: "mem \<Rightarrow> SlotArrayElement \<Rightarrow> string" where
  "show_slot p s = (if is_deleted s then ''D '' else digits (unat (tuple_key (tuple_of p s)) mod 65536) @ '' '')"

lemma dump_slots_range:
  assumes wf: "leaf_wf p" and "i + n \<le> slot_array_size p"
  shows "dump_slots p i n = concat (map (\<lambda>j. show_slot p (slot_at p j)) [i..<i + n])"
  using assms(2)
proof (induction n arbitrary: i)
  case (Suc n)
  have "[i..<i + Suc n] = i # [Suc i..<Suc i + n]" by (simp add: upt_conv_Cons del: upt_Suc)
  moreover have "21 \<le> len (slot_at p i)" using leaf_wfD(4) [OF wf, of "slot_at p i"] Suc.prems
    by (auto simp: slots_def)
  ultimately show ?case using Suc.IH [of "Suc i"] Suc.prems
    by (simp add: show_slot_def tuple_key_of load_u16_of_u64)
qed simp

lemma LeafPage_DumpPage_slots:
  "leaf_wf p \<Longrightarrow> LeafPage_DumpPage p =
    rule_line @ dump_header p @ rule_line @ concat (map (show_slot p) (slots p)) @ newline @ rule_line"
  by (simp add: LeafPage_DumpPage_def dump_slots_range slots_def comp_def)

text \<open>The first and the last tuple; a page of one tuple shows it twice, an empty one nothing.\<close>

lemma dump_first_live:
  "dump_first p i n = (case filter (\<lambda>j. \<not> is_deleted (slot_at p j)) [i..<i + n] of [] \<Rightarrow> [] | j # _ \<Rightarrow> dump_tuple p j)"
proof (induction n arbitrary: i)
  case (Suc n)
  have "[i..<i + Suc n] = i # [Suc i..<Suc i + n]" by (simp add: upt_conv_Cons del: upt_Suc)
  then show ?case using Suc [of "Suc i"] by simp
qed simp

lemma dump_last_live:
  "dump_last p n = (let js = filter (\<lambda>j. \<not> is_deleted (slot_at p j)) [0..<n]
     in if js = [] then [] else dump_tuple p (last js) @ rule_line)"
  by (induction n) (auto simp: Let_def)

definition show_tuple :: "mem \<Rightarrow> SlotArrayElement \<Rightarrow> string" where
  "show_tuple p s = (let t = tuple_of p s in
     rule_line @
     ''Tuple Offset: '' @ digits (offset s) @ newline @
     ''Tuple Length: '' @ digits (length t) @ newline @
     ''Tuple Overflow: '' @ digits (load_u8 (of_bytes t) 0) @ newline @
     ''Overflow Page: '' @ digits (unat (tuple_overflow_page t)) @ newline @
     ''Key: '' @ digits (unat (tuple_key t) mod 65536) @ newline)"

lemma dump_tuple_slot:
  assumes "leaf_wf p" "i < slot_array_size p"
  shows "dump_tuple p i = show_tuple p (slot_at p i)"
proof -
  have "slot_at p i \<in> set (slots p)" using assms(2) by (simp add: slots_def)
  then have l: "21 \<le> len (slot_at p i)" using leaf_wfD(4) [OF assms(1)] by blast
  moreover have "length (tuple_of p (slot_at p i)) = len (slot_at p i)" by (simp add: tuple_of_def)
  ultimately show ?thesis
    using load_tuple_of [of 0 1 "slot_at p i" p] load_tuple_of [of 1 8 "slot_at p i" p]
    by (simp add: dump_tuple_def show_tuple_def Let_def tuple_key_of tuple_overflow_page_def load_u16_of_u64)
qed

lemma LeafPage_DumpPageFirstLast_tuples:
  assumes wf: "leaf_wf p"
  shows "dump_first p 0 (slot_array_size p) @ dump_last p (slot_array_size p) =
    (let ss = live (slots p) in if ss = [] then [] else show_tuple p (hd ss) @ show_tuple p (last ss) @ rule_line)"
proof (cases "filter (\<lambda>j. \<not> is_deleted (slot_at p j)) [0..<slot_array_size p]")
  case Nil
  then show ?thesis by (simp add: dump_first_live dump_last_live live_slots_index)
next
  case (Cons j js)
  have "\<forall>k \<in> set (j # js). k < slot_array_size p" by (simp flip: Cons)
  then have "j < slot_array_size p" "last (j # js) < slot_array_size p"
    by (simp, metis last_in_set list.distinct(1))
  moreover have "live (slots p) = map (slot_at p) (j # js)" by (simp add: live_slots_index Cons)
  ultimately show ?thesis
    by (simp add: dump_first_live dump_last_live Cons dump_tuple_slot [OF wf] Let_def last_map hd_map del: last.simps list.map)
qed

end
