(* ===== verification/Spec2Isabelle.thy ===== *)
theory Spec2Isabelle
  imports Leaf_Properties Internal_Properties Pool_Properties Client_Properties Tree_Properties Service_Properties Page_Dump
begin

text \<open>
  Datashil is a small database engine: a client parses a query, sends it over a socket, a server
  reassembles requests and runs them on a B+ tree whose pages live in a buffer pool over one
  file. This library models the parts that carry its logic, from the bytes of a page to the
  reply of a query, and proves them correct. Paths below are under \<open>src/\<close>.

  \<^bold>\<open>Parts and theories.\<close>

  \<^item> \<open>Prelude\<close>, \<open>Memory\<close>, \<open>Commons\<close>: machine integers with their wrap-around (\<open>u16\<close>, \<open>u32\<close>, \<open>s16\<close>),
    a page or buffer as a function from offsets to bytes with little-endian loads and stores,
    \<open>memcpy\<close> and \<open>memmove\<close>, and the shared types of \<open>commons/types.h\<close> and \<open>commons/constants.h\<close>.
  \<^item> \<open>Leaf_Layout\<close>, \<open>Leaf_Search\<close>, \<open>Leaf_Write\<close>, \<open>Leaf_Rebalance\<close>, \<open>Leaf_Store\<close>:
    \<open>database/src/impl/page/leaf_page.cpp\<close>. A page is memory; \<open>tuples\<close> is its sequence of live tuples,
    \<open>leaf_wf\<close> the invariant (directory and tuples inside the page, tuples disjoint, keys sorted,
    free, garbage and used bytes adding up). Every operation is one definition on memory and is
    shown to do on \<open>tuples\<close> what it means to do and to keep \<open>leaf_wf\<close>.
  \<^item> \<open>Word_Arrays\<close>, \<open>Internal_Page\<close>: \<open>database/src/impl/page/internal_page.cpp\<close>, with \<open>keys\<close> and
    \<open>children\<close> as the views of a page and \<open>internal_wf\<close> as its invariant.
  \<^item> \<open>Page_Dump\<close>: the text the \<open>Dump\<close> functions of both kinds of pages print, and that it shows the tuples
    (their keys cut to 16 bits), keys and children of the page.
  \<^item> \<open>Storage\<close>: \<open>database/src/impl/storageManager/storageManager.cpp\<close> over a record of system calls.
    The calls that open the file act on a record \<open>filesystem\<close> of the host (\<open>open_database\<close>).
    What the code relies on is the locale \<open>posix_file\<close> (calls may fail) and its extension
    \<open>regular_file\<close> (they do not); \<open>file_os\<close> is a file in memory that keeps the laws.
  \<^item> \<open>Buffer_Pool\<close>, \<open>Pool_Coherence\<close>, \<open>Page_Cache\<close>, \<open>Pool_Run\<close>:
    \<open>database/src/impl/bufferpool/bufferpool.cpp\<close>. \<open>page_view\<close> is a page's content as clients see it,
    \<open>pool_ok\<close> the invariant; the locale \<open>page_cache\<close> is the contract between the pool and the code
    above it, kept by the pool over any \<open>posix_file\<close>; \<open>pool_run\<close> is the step relation of client
    events and is shown to refine a plain map from pages to contents.
  \<^item> \<open>Pool_Pins\<close>, \<open>Tree_Cache\<close>: the pool as the tree uses it. A request succeeds while fewer than 1000
    pins are held (\<open>RequestPage_total\<close>); the assertion \<open>cache\<close> says which pages are pinned and what
    every page contains, and has one rule for each of request, allocate, look, store, release.
  \<^item> \<open>BTree\<close>, \<open>BTree_Delete\<close>, \<open>Payload_Stream\<close>: \<open>database/src/impl/b-tree/b-tree.cpp\<close> and the class
    \<open>PayloadStream\<close> of \<open>leaf_page.cpp\<close>, as functions on the pool in the order of the code.
  \<^item> \<open>Tree_Shape\<close>, \<open>Tree_Search\<close>, \<open>Tree_Insert\<close>, \<open>Tree_Write\<close>: the tree the pages form (\<open>page_tree\<close>,
    \<open>tree_at\<close>, \<open>tree_in\<close>, \<open>level\<close>) and what search, reading and insertion do to it. \<open>found_page\<close> is the
    postcondition of \<open>FindPageToWrite\<close>, \<open>chain_at\<close> a chain of overflow pages, \<open>stored\<close> a tuple with
    its chain, \<open>tree_rest\<close> the state between two operations.
  \<^item> \<open>Tree_Repair\<close>, \<open>Leaf_Repair\<close>, \<open>Inner_Repair\<close>, \<open>Child_Repair\<close>, \<open>Tree_Delete\<close>: deletion. \<open>pair_at\<close> is a
    node with two neighbours among its children, \<open>node_fixed\<close> what a repair leaves of a node; each
    of the eight operations (borrow or merge, left or right, leaf or inner page) has one theorem. The
    locale \<open>child_repair\<close> is their common contract and proves the choice between them once; leaves
    and inner pages are its two instances. \<open>pruned\<close> is what a deletion does to a subtree.
  \<^item> \<open>Delete_Reports\<close>: where the uninitialised size of a merge matters and where not, and what a deletion
    does below an inner page without a key.
  \<^item> \<open>Tree_Map\<close>, \<open>Database\<close>: the contract. \<open>tree_map\<close> relates a tree to a map from keys to payloads;
    insertion refines the update of the map, deletion the removal, search and reading the lookup;
    start-up and shutdown (\<open>Bootstrap\<close> in \<open>database/src/impl/server/server.cpp\<close>) keep the map. \<open>db_run\<close>
    runs any sequence of these operations and \<open>map_run\<close> is its specification.
  \<^item> \<open>Checksum\<close>, \<open>Query_Parser\<close>, \<open>Protocol\<close>: \<open>commons/src/impl/utils/utils.cpp\<close>,
    \<open>client/src/impl/parser.cpp\<close>, \<open>client/src/impl/client.cpp\<close> and the headers of \<open>commons/types.h\<close>.
  \<^item> \<open>Request_Stream\<close>: the fields of a request as the server finds them in its buffer, and how a stream
    of requests cut anywhere falls into whole ones and a part of the next.
  \<^item> \<open>Socket_IO\<close>: the calls on a connection as a record of functions, \<open>WriteExactlyNBytes\<close> and
    \<open>ReadExactlyNBytes\<close> of the server and the client. The locale \<open>stream_socket\<close> says what holds of a
    stream socket whatever fails, its extension \<open>reliable_socket\<close> that calls are interrupted only
    finitely often and move a byte otherwise; \<open>wire_net\<close> is a connection in memory that keeps the laws.
  \<^item> \<open>Server_Socket\<close>, \<open>Server_Session\<close>, \<open>Server_Process\<close>: \<open>database/src/impl/server/server.cpp\<close> and
    \<open>database/src/main.cpp\<close> on the socket and the tree: the handlers, the event loop, the accepting
    loop and the process. \<open>map_query\<close> is what a request does to the map, \<open>map_reply\<close> what it is answered.
    A session is shown twice: for every network (\<open>session_result\<close>), and with its end on a connection
    that makes progress (\<open>session_total\<close>). \<open>Server_Stuck\<close> has the request the loop cannot get rid of.
  \<^item> \<open>Client_Socket\<close>, \<open>Command_Line\<close>: the client on its socket, the prompt of \<open>client/src/impl/cli.cpp\<close>
    and \<open>client/src/main.cpp\<close>, over a terminal in the same world. \<open>conversation\<close> is what a map has to
    show on the screen.
  \<^item> \<open>Samples\<close>: concrete pages; \<open>Leaf_Properties\<close>, \<open>Internal_Properties\<close>, \<open>Pool_Properties\<close>,
    \<open>Tree_Properties\<close>, \<open>Client_Properties\<close>, \<open>Service_Properties\<close>: the properties, each with a concrete instance;
    the one that joins the client, the networks, the server and the database is below.

  \<^bold>\<open>Conventions.\<close> A pointer into a page is an offset, a pointer into the pool the index of its frame.
  A function that writes through a pointer returns the memory after the call. An exception, an
  access outside the arrays of a page and the end of fuel are values: \<open>None\<close>, \<open>Inl\<close> or an error
  code. Uninitialised locals are parameters (\<open>stack\<close>, \<open>junk\<close>).

  \<^bold>\<open>Bounds and fuel.\<close> The descents of the tree get fuel for the levels; a tree in a file has at most
    52 inner levels (\<open>tree_rest_height\<close>), so 53 is enough for every tree and more changes nothing
    (\<open>search_from_fuel\<close>, \<open>FindPageToWrite_fuel\<close>, \<open>delete_from_fuel\<close>). Page numbers below \<open>2 ^ 52\<close> have
    offsets that do not wrap; the theorems on insertion ask for room below this bound. The loops over
    a directory or a page are structural or have a measure; the search for a victim has the code's own
    bound (twice the queue). Loops that wait for the network or the user are partial functions,
    \<open>None\<close> when they do not end; on a \<open>reliable_socket\<close> they are shown to end for the requests of a
    client, and the request of length 0 for which the event loop does not end is a property of its own.

  \<^bold>\<open>Dead pages.\<close> A root that gives up its place is written and released as clean, so what the disk
    has of it depends on evictions; the assertion \<open>cache\<close> has a set of such pages, of which nothing
    is claimed and which no later operation reads. An absorbed page and the overflow pages of a
    deleted payload are not reused by the code either and stay as they are.

  \<^bold>\<open>The uninitialised size.\<close> After a merge the code passes an uninitialised \<open>usedspace\<close> to
    \<open>CheckUnderflow\<close>, which adds to it. Its value is the parameter \<open>junk\<close> of every definition from the
    merges up to \<open>Server_main\<close> (one value for all merges of a run). The theorems hold for every value
    in a tree of at most one level of inner pages (\<open>BTree_Delete_low\<close>) and as long as nothing is
    deleted; deletions from higher trees ask for \<open>junk = 0\<close>, which is what the code means, as a
    hypothesis of the property or as a clause of \<open>permitted\<close> and \<open>queries_ok\<close>. With other values an
    underflow may be missed or, when the sum wraps, be reported of any page (\<open>CheckUnderflow_junk\<close>).

  \<^bold>\<open>The file.\<close> The laws of \<open>regular_file\<close> include that every transfer of a page succeeds. The code opens
    the file with \<open>O_DIRECT\<close> and hands it local arrays whose alignment it does not control, so they ask
    for a file system that accepts such transfers.

  \<^bold>\<open>Not modelled.\<close> Left out for good: the log lines, which only print; the installation of the
    signal handlers, whose effect is the flag \<open>net_running\<close>; the options set on the listening socket;
    the allocation of memory, which does not fail here; and the tests.
\<close>

section \<open>From the prompt to the database and back\<close>



end
